(* ===== verification/Prelude.thy ===== *)
theory Prelude
  imports Main "HOL-Library.Word" "HOL-Library.Monad_Syntax"
begin

text \<open>
  What every component of the ShedKernel model shares.

  The machine is a 32-bit i386: \<open>u8\<close>, \<open>u16\<close> and \<open>u32\<close> are the fixed-width words of the
  C sources, with wrap-around arithmetic; \<open>int\<close> of C is read off a \<open>u32\<close> with
  \<open>sint\<close> where its sign matters.  A byte memory is a function from addresses to bytes.
  An array index or a pointer offset is a \<open>nat\<close>.

  One convention holds throughout: a function of type \<open>\<dots> \<Rightarrow> 'r option\<close> returns \<open>None\<close>
  exactly where the C code has no defined result, because a loop never ends or because the
  behaviour is undefined.  A null pointer that the code hands back as an ordinary value is
  the word \<open>0\<close>, never \<open>None\<close>.

  The collections \<open>addr_arith\<close> and \<open>byte_frame\<close> gather the rewrite rules on
  addresses and on reads after unrelated writes; the components add to them.
\<close>

unbundle bit_operations_syntax

type_synonym u8 = "8 word"
type_synonym u16 = "16 word"
type_synonym u32 = "32 word"
type_synonym u64 = "64 word"
type_synonym mem = "nat \<Rightarrow> u8"

named_theorems addr_arith
named_theorems byte_frame

section \<open>Characters\<close>

text \<open>A C character literal or string literal, as bytes.\<close>

definition chr :: "char \<Rightarrow> u8" where
  "chr c = of_char c"

abbreviation lit :: "string \<Rightarrow> u8 list" where
  "lit s \<equiv> List.map chr s"


section \<open>Results of branches\<close>

text \<open>A property of the result of a conditional, branch by branch.\<close>

lemma some_if:
  "(b \<Longrightarrow> \<exists>x. f = Some x \<and> Q x) \<Longrightarrow> (\<not> b \<Longrightarrow> \<exists>x. g = Some x \<and> Q x) \<Longrightarrow>
    \<exists>x. (if b then f else g) = Some x \<and> Q x"
  by simp

lemma some_Some: "Q x \<Longrightarrow> \<exists>y. Some x = Some y \<and> Q y"
  by simp

section \<open>Addresses\<close>

text \<open>
  A \<open>nat\<close> below \<open>2 ^ 32\<close> and the \<open>u32\<close> it stands for.
\<close>

lemma unat_of_nat32 [addr_arith]: "a < 2 ^ 32 \<Longrightarrow> unat (of_nat a :: u32) = a"
  by (simp add: unat_of_nat)

lemma of_nat32_eq_0 [addr_arith]: "a < 2 ^ 32 \<Longrightarrow> (of_nat a :: u32) = 0 \<longleftrightarrow> a = 0"
  by (auto dest: arg_cong [where f = unat] simp: unat_of_nat32)

lemma of_nat32_le [addr_arith]:
  "a < 2 ^ 32 \<Longrightarrow> b < 2 ^ 32 \<Longrightarrow> (of_nat a :: u32) \<le> of_nat b \<longleftrightarrow> a \<le> b"
  by (simp add: word_le_nat_alt unat_of_nat32)

lemma of_nat32_less [addr_arith]:
  "a < 2 ^ 32 \<Longrightarrow> b < 2 ^ 32 \<Longrightarrow> (of_nat a :: u32) < of_nat b \<longleftrightarrow> a < b"
  by (simp add: word_less_nat_alt unat_of_nat32)

lemma of_nat32_eq [addr_arith]:
  "a < 2 ^ 32 \<Longrightarrow> b < 2 ^ 32 \<Longrightarrow> (of_nat a :: u32) = of_nat b \<longleftrightarrow> a = b"
  by (auto dest: arg_cong [where f = unat] simp: unat_of_nat32)

lemma of_nat32_sub: "b \<le> a \<Longrightarrow> (of_nat (a - b) :: u32) = of_nat a - of_nat b"
  by (simp add: of_nat_diff)

lemma unat32_less: "unat (w :: u32) < 2 ^ 32"
  using unsigned_less [of w, where ?'a = nat] by simp

lemma u32_cases: obtains n where "(w :: u32) = of_nat n" "n < 2 ^ 32"
proof (rule that [of "unat w"])
  show "w = of_nat (unat w)" by simp
  show "unat w < 2 ^ 32" by (rule unat32_less)
qed

text \<open>How far an address lies behind another one, as a loop over a buffer counts it.\<close>

lemma unat_offset_self: "unat (d - (d + 1) :: u32) = 2 ^ 32 - 1"
  by (simp add: unsigned_minus_1_eq_mask mask_eq_exp_minus_1)

lemma unat_offset_Suc: "w \<noteq> d \<Longrightarrow> unat (w - d :: u32) = Suc (unat (w - (d + 1)))"
proof -
  assume "w \<noteq> d"
  then have ne: "w - d \<noteq> 0" by simp
  have eq: "w - (d + 1) = (w - d) - 1" by simp
  have "0 < unat (w - d)" using ne by (simp add: unat_gt_0)
  then show ?thesis unfolding eq unat_minus_one [OF ne] by simp
qed

section \<open>Differences of bytes\<close>

text \<open>\<open>(unsigned char)a - (unsigned char)b\<close>, the result of the comparison routines.\<close>

lemma byte_diff_0: "int (unat (a :: u8)) - int (unat b) = 0 \<longleftrightarrow> a = b"
  by (auto simp: word_uint_eq_iff)

lemma byte_diff_neg: "int (unat (a :: u8)) - int (unat b) < 0 \<longleftrightarrow> a < b"
  by (simp add: word_less_def)

lemma byte_pos: "0 < uint (a :: u8) \<longleftrightarrow> 0 < a"
  by (simp add: word_less_def)

lemmas byte_order = byte_pos word_uint_eq_iff [symmetric] word_less_def [symmetric] unsigned_eq_0_iff

end
