(* ===== verification/Memory.thy ===== *)
theory Memory
  imports Prelude
begin

text \<open>
  Byte memory: little-endian 32-bit loads and stores at a byte address, and byte-wise
  block copy.  This is how the i386 kernel sees its node headers (\<open>kernel/mm.h\<close>) and its
  on-disk structures (\<open>fs/fs_types.h\<close>); the structures' field offsets are given where they
  are used.  The lemmas say what a load returns after a store to the same cell and to a
  disjoint one, for words, bytes and copied blocks.
\<close>

section \<open>Words in memory\<close>

definition ld32 :: "mem \<Rightarrow> nat \<Rightarrow> u32" where
  "ld32 m a = ucast (m a) OR push_bit 8 (ucast (m (a + 1)))
     OR push_bit 16 (ucast (m (a + 2))) OR push_bit 24 (ucast (m (a + 3)))"

definition st32 :: "mem \<Rightarrow> nat \<Rightarrow> u32 \<Rightarrow> mem" where
  "st32 m a v = m(a := ucast v, a + 1 := ucast (drop_bit 8 v),
     a + 2 := ucast (drop_bit 16 v), a + 3 := ucast (drop_bit 24 v))"

lemma split_bytes32:
  "ucast (ucast v :: u8) OR push_bit 8 (ucast (ucast (drop_bit 8 v) :: u8))
     OR push_bit 16 (ucast (ucast (drop_bit 16 v) :: u8))
     OR push_bit 24 (ucast (ucast (drop_bit 24 v) :: u8)) = (v :: u32)"
proof (rule bit_word_eqI)
  fix n assume n: "n < LENGTH(32)"
  consider "n < 8" | "8 \<le> n" "n < 16" | "16 \<le> n" "n < 24" | "24 \<le> n" "n < 32"
    using n by fastforce
  then show "bit (ucast (ucast v :: u8) OR push_bit 8 (ucast (ucast (drop_bit 8 v) :: u8))
     OR push_bit 16 (ucast (ucast (drop_bit 16 v) :: u8))
     OR push_bit 24 (ucast (ucast (drop_bit 24 v) :: u8)) :: u32) n = bit v n"
    by cases (auto simp: bit_simps)
qed

lemma ld32_st32 [simp]: "ld32 (st32 m a v) a = v"
  by (simp add: ld32_def st32_def split_bytes32)

lemma ld32_cong:
  "(\<And>k. k < 4 \<Longrightarrow> m (a + k) = m' (b + k)) \<Longrightarrow> ld32 m a = ld32 m' b"
proof -
  assume eq: "\<And>k. k < 4 \<Longrightarrow> m (a + k) = m' (b + k)"
  show ?thesis
    using eq [of 0] eq [of 1] eq [of 2] eq [of 3] by (simp add: ld32_def)
qed

lemma st32_cong: "m x = m' x \<Longrightarrow> st32 m a v x = st32 m' a v x"
  by (simp add: st32_def)

lemma st32_other [byte_frame]: "b < a \<or> a + 4 \<le> b \<Longrightarrow> st32 m a v b = m b"
  by (auto simp: st32_def)

lemma ld32_st32_other [byte_frame]:
  "b + 4 \<le> a \<or> a + 4 \<le> b \<Longrightarrow> ld32 (st32 m a v) b = ld32 m b"
  by (rule ld32_cong) (auto simp: st32_other)

lemma ld32_upd_other [byte_frame]:
  "b < a \<or> a + 4 \<le> b \<Longrightarrow> ld32 (m(b := v)) a = ld32 m a"
  by (rule ld32_cong) auto

section \<open>Block copy\<close>

text \<open>
  \<open>while (n--) *d++ = *s++;\<close>, the copy loop that \<open>memcpy\<close> of \<open>kernel/string.h\<close> and
  \<open>kernel/kernel.c\<close>, \<open>realloc\<close>, \<open>fs_read_block\<close> and \<open>fs_write_block\<close> all contain: bytes
  are moved in ascending order, one at a time, between two possibly different memories.
\<close>

fun copy_up :: "mem \<Rightarrow> nat \<Rightarrow> mem \<Rightarrow> nat \<Rightarrow> nat \<Rightarrow> mem" where
  "copy_up src s dst d 0 = dst"
| "copy_up src s dst d (Suc n) = copy_up src (Suc s) (dst(d := src s)) (Suc d) n"

lemma copy_up_apply:
  "copy_up src s dst d n x = (if d \<le> x \<and> x < d + n then src (s + (x - d)) else dst x)"
  by (induction n arbitrary: s dst d) (auto simp: Suc_diff_Suc less_Suc_eq_le Suc_diff_le)

lemma copy_up_other [byte_frame]:
  "x < d \<or> d + n \<le> x \<Longrightarrow> copy_up src s dst d n x = dst x"
  by (auto simp: copy_up_apply)

lemma copy_up_in [simp]: "k < n \<Longrightarrow> copy_up src s dst d n (d + k) = src (s + k)"
  by (simp add: copy_up_apply)

lemma ld32_copy_up_other [byte_frame]:
  "a + 4 \<le> d \<or> d + n \<le> a \<Longrightarrow> ld32 (copy_up src s dst d n) a = ld32 dst a"
  by (rule ld32_cong) (auto simp: copy_up_other)

end
