(* ===== verification/HeapSpec.thy ===== *)
theory HeapSpec
  imports Prelude
begin

text \<open>
  The contract of the kernel heap, free of addresses and bytes: the managed area is a list of
  blocks, in address order, each with a payload size and a used flag, and each preceded by a
  16-byte header.  \<open>best_fit\<close>, \<open>abs_malloc\<close> and \<open>abs_free\<close> say what the allocator does to
  that list; theory \<open>Heap\<close> proves that the code of \<open>kernel/mm.c\<close> implements them.
  Here: the area is never lost or duplicated (\<open>span\<close>), two free blocks are never adjacent
  (\<open>coalesced\<close>), the block chosen is the smallest that fits, and freeing what was just
  allocated restores the list.
\<close>

datatype blk = Blk (bsize: nat) (bused: bool)

fun span :: "blk list \<Rightarrow> nat" where
  "span [] = 0"
| "span (b # bs) = 16 + bsize b + span bs"

fun coalesced :: "blk list \<Rightarrow> bool" where
  "coalesced (b # c # bs) \<longleftrightarrow> (bused b \<or> bused c) \<and> coalesced (c # bs)"
| "coalesced bs \<longleftrightarrow> True"

lemma span_append [simp]: "span (xs @ ys) = span xs + span ys"
  by (induction xs) auto

lemma coalesced_Cons:
  "coalesced (b # bs) \<longleftrightarrow> coalesced bs \<and> (bs = [] \<or> bused b \<or> bused (hd bs))"
  by (cases bs) auto

lemma coalesced_append:
  "coalesced (xs @ ys) \<longleftrightarrow> coalesced xs \<and> coalesced ys
     \<and> (xs = [] \<or> ys = [] \<or> bused (last xs) \<or> bused (hd ys))"
proof (induction xs)
  case (Cons x xs)
  then show ?case
    by (cases "xs = []") (auto simp: coalesced_Cons simp del: coalesced.simps)
qed simp

section \<open>Best fit\<close>

text \<open>
  The scan keeps the last candidate that is no larger than the best so far; the bound
  starts one above the size of the whole area.
\<close>

fun best_go :: "nat \<Rightarrow> nat \<Rightarrow> nat option \<Rightarrow> nat \<Rightarrow> blk list \<Rightarrow> nat option" where
  "best_go sz i best lim [] = best"
| "best_go sz i best lim (b # bs) =
     (if \<not> bused b \<and> sz \<le> bsize b \<and> bsize b \<le> lim
      then best_go sz (Suc i) (Some i) (bsize b) bs
      else best_go sz (Suc i) best lim bs)"

definition best_fit :: "nat \<Rightarrow> blk list \<Rightarrow> nat option" where
  "best_fit sz bs = best_go sz 0 None 1048577 bs"

definition candidate :: "nat \<Rightarrow> blk \<Rightarrow> bool" where
  "candidate sz b \<longleftrightarrow> \<not> bused b \<and> sz \<le> bsize b"

lemma best_go_cases:
  "best_go sz i best lim bs = best
     \<and> (\<forall>b\<in>set bs. candidate sz b \<longrightarrow> lim < bsize b)
   \<or> (\<exists>k<length bs. best_go sz i best lim bs = Some (i + k) \<and> candidate sz (bs ! k)
        \<and> bsize (bs ! k) \<le> lim
        \<and> (\<forall>b\<in>set bs. candidate sz b \<longrightarrow> bsize (bs ! k) \<le> bsize b))"
proof (induction bs arbitrary: i best lim)
  case Nil
  then show ?case by simp
next
  case (Cons b bs)
  show ?case
  proof (cases "candidate sz b \<and> bsize b \<le> lim")
    case True
    then have step: "best_go sz i best lim (b # bs) = best_go sz (Suc i) (Some i) (bsize b) bs"
      by (simp add: candidate_def)
    from Cons.IH [of "Suc i" "Some i" "bsize b"] show ?thesis
    proof (elim disjE exE conjE)
      assume "best_go sz (Suc i) (Some i) (bsize b) bs = Some i"
        and "\<forall>c\<in>set bs. candidate sz c \<longrightarrow> bsize b < bsize c"
      with True show ?thesis unfolding step by (intro disjI2 exI [of _ 0]) auto
    next
      fix k assume "k < length bs"
        "best_go sz (Suc i) (Some i) (bsize b) bs = Some (Suc i + k)"
        "candidate sz (bs ! k)" "bsize (bs ! k) \<le> bsize b"
        "\<forall>c\<in>set bs. candidate sz c \<longrightarrow> bsize (bs ! k) \<le> bsize c"
      with True show ?thesis unfolding step by (intro disjI2 exI [of _ "Suc k"]) auto
    qed
  next
    case False
    then have step: "best_go sz i best lim (b # bs) = best_go sz (Suc i) best lim bs"
      by (auto simp: candidate_def)
    from Cons.IH [of "Suc i" best lim] show ?thesis
    proof (elim disjE exE conjE)
      assume "best_go sz (Suc i) best lim bs = best"
        and "\<forall>c\<in>set bs. candidate sz c \<longrightarrow> lim < bsize c"
      with False show ?thesis unfolding step by auto
    next
      fix k assume "k < length bs"
        "best_go sz (Suc i) best lim bs = Some (Suc i + k)"
        "candidate sz (bs ! k)" "bsize (bs ! k) \<le> lim"
        "\<forall>c\<in>set bs. candidate sz c \<longrightarrow> bsize (bs ! k) \<le> bsize c"
      with False show ?thesis unfolding step by (intro disjI2 exI [of _ "Suc k"]) auto
    qed
  qed
qed

lemma best_fit_Some:
  assumes "best_fit sz bs = Some i"
  shows "i < length bs" "candidate sz (bs ! i)"
    "\<And>b. b \<in> set bs \<Longrightarrow> candidate sz b \<Longrightarrow> bsize (bs ! i) \<le> bsize b"
  using assms best_go_cases [of sz 0 None 1048577 bs] by (auto simp: best_fit_def)

lemma best_fit_None:
  assumes "best_fit sz bs = None" "span bs \<le> 1048576" "b \<in> set bs"
  shows "\<not> candidate sz b"
proof
  assume "candidate sz b"
  moreover have "bsize b \<le> span bs"
    using assms(3) by (induction bs) auto
  ultimately show False
    using assms best_go_cases [of sz 0 None 1048577 bs] by (fastforce simp: best_fit_def)
qed

section \<open>Allocation and release\<close>

text \<open>
  A request takes the tail of the chosen block when a header and the payload fit beside it,
  and the whole block otherwise.  The second component is the offset of the payload.
\<close>

definition carve :: "nat \<Rightarrow> blk list \<Rightarrow> blk \<Rightarrow> blk list \<Rightarrow> blk list \<times> nat" where
  "carve sz xs b ys =
     (if sz + 16 \<le> bsize b
      then (xs @ Blk (bsize b - (sz + 16)) False # Blk sz True # ys,
            span xs + 16 + (bsize b - sz))
      else (xs @ Blk (bsize b) True # ys, span xs + 16))"

definition abs_malloc :: "nat \<Rightarrow> blk list \<Rightarrow> blk list \<times> nat option" where
  "abs_malloc sz bs =
     (case best_fit sz bs of
        None \<Rightarrow> (bs, None)
      | Some i \<Rightarrow> (let (bs', p) = carve sz (take i bs) (bs ! i) (drop (Suc i) bs)
                  in (bs', Some p)))"

text \<open>Releasing a block joins it with a free successor, then with a free predecessor.\<close>

definition join_next :: "blk \<Rightarrow> blk list \<Rightarrow> blk list" where
  "join_next b ys =
     (if ys \<noteq> [] \<and> \<not> bused (hd ys)
      then Blk (bsize b + (bsize (hd ys) + 16)) (bused b) # tl ys else b # ys)"

definition join_prev :: "blk list \<Rightarrow> blk list \<Rightarrow> blk list" where
  "join_prev xs zs =
     (if xs \<noteq> [] \<and> \<not> bused (last xs)
      then butlast xs @ Blk (bsize (last xs) + (bsize (hd zs) + 16)) False # tl zs
      else xs @ zs)"

definition abs_free :: "blk list \<Rightarrow> blk \<Rightarrow> blk list \<Rightarrow> blk list" where
  "abs_free xs b ys = join_prev xs (join_next (Blk (bsize b) False) ys)"

lemma split_at: "i < length bs \<Longrightarrow> bs = take i bs @ bs ! i # drop (Suc i) bs"
  by (simp add: id_take_nth_drop)

lemma carve_span: "span (fst (carve sz xs b ys)) = span (xs @ b # ys)"
  by (auto simp: carve_def)

lemma carve_coalesced:
  "coalesced (xs @ b # ys) \<Longrightarrow> \<not> bused b \<Longrightarrow> coalesced (fst (carve sz xs b ys))"
  by (auto simp: carve_def coalesced_append coalesced_Cons)

lemma abs_malloc_span: "span (fst (abs_malloc sz bs)) = span bs"
proof (cases "best_fit sz bs")
  case None
  then show ?thesis by (simp add: abs_malloc_def)
next
  case (Some i)
  then have "i < length bs" by (rule best_fit_Some)
  then have "span (fst (carve sz (take i bs) (bs ! i) (drop (Suc i) bs))) = span bs"
    by (metis carve_span split_at)
  with Some show ?thesis by (simp add: abs_malloc_def split_beta)
qed

lemma abs_malloc_coalesced: "coalesced bs \<Longrightarrow> coalesced (fst (abs_malloc sz bs))"
proof (cases "best_fit sz bs")
  case None
  then show "coalesced bs \<Longrightarrow> ?thesis" by (simp add: abs_malloc_def)
next
  case (Some i)
  assume "coalesced bs"
  moreover have "i < length bs" "\<not> bused (bs ! i)"
    using best_fit_Some(1,2) [OF Some] by (auto simp: candidate_def)
  ultimately have "coalesced (fst (carve sz (take i bs) (bs ! i) (drop (Suc i) bs)))"
    by (intro carve_coalesced) (metis split_at)+
  with Some show ?thesis by (simp add: abs_malloc_def split_beta)
qed

lemma join_next_span: "span (join_next b ys) = span (b # ys)"
  by (cases ys) (auto simp: join_next_def)

lemma join_next_nonempty [simp]: "join_next b ys \<noteq> []"
  by (simp add: join_next_def)

lemma join_prev_span: "zs \<noteq> [] \<Longrightarrow> span (join_prev xs zs) = span (xs @ zs)"
  by (cases xs rule: rev_cases; cases zs) (auto simp: join_prev_def)

lemma abs_free_span: "span (abs_free xs b ys) = span (xs @ b # ys)"
  by (simp add: abs_free_def join_prev_span join_next_span)

lemma abs_free_coalesced:
  assumes "coalesced (xs @ b # ys)" "bused b"
  shows "coalesced (abs_free xs b ys)"
  using assms
  by (cases xs rule: rev_cases; cases ys)
    (auto simp: abs_free_def join_prev_def join_next_def coalesced_append coalesced_Cons)

text \<open>Releasing the block a request has just been given undoes the request.\<close>

lemma join_next_used: "coalesced (b # ys) \<Longrightarrow> \<not> bused b \<Longrightarrow> join_next b ys = b # ys"
  by (auto simp: join_next_def coalesced_Cons)

lemma join_prev_used: "coalesced (xs @ b # ys) \<Longrightarrow> \<not> bused b \<Longrightarrow> join_prev xs (b # ys) = xs @ b # ys"
  by (auto simp: join_prev_def coalesced_append)

lemma coalesced_resize:
  "coalesced (xs @ b # ys) = coalesced (xs @ Blk s (bused b) # ys)"
  by (simp add: coalesced_append coalesced_Cons)

lemma whole_then_free:
  assumes "coalesced (xs @ b # ys)" "\<not> bused b"
  shows "abs_free xs (Blk (bsize b) True) ys = xs @ b # ys"
proof -
  have "Blk (bsize b) False = b"
    using assms(2) by (cases b) simp
  then show ?thesis
    using assms by (simp add: abs_free_def join_next_used join_prev_used coalesced_append)
qed

lemma tail_then_free:
  assumes "coalesced (xs @ b # ys)" "\<not> bused b" "sz + 16 \<le> bsize b"
  shows "abs_free (xs @ [Blk (bsize b - (sz + 16)) False]) (Blk sz True) ys = xs @ b # ys"
proof -
  have "Blk (bsize b) False = b"
    using assms(2) by (cases b) simp
  moreover have "join_next (Blk sz False) ys = Blk sz False # ys"
    using assms(1,2) by (auto simp: join_next_def coalesced_append coalesced_Cons)
  ultimately show ?thesis
    using assms(3) by (simp add: abs_free_def join_prev_def)
qed

end
