(* ===== verification/Heap.thy ===== *)
theory Heap
  imports Memory HeapSpec
begin

text \<open>
  The dynamic heap of \<open>kernel/mm.c\<close>: a doubly linked list of headers laid over the static
  array \<open>dynamic_mem_area\<close>, with best-fit \<open>malloc\<close>, coalescing \<open>mem_free\<close> and \<open>realloc\<close>.
  The state is the machine's byte memory and the global \<open>dynamic_mem_start\<close>; the address
  of the array, chosen by the linker, is the parameter \<open>area\<close>.  A header is 16 bytes:
  \<open>size\<close> at offset 0, \<open>used\<close> at 4, \<open>next\<close> at 8, \<open>prev\<close> at 12.

  \<open>heap_rep\<close> relates a memory to a block list of theory \<open>HeapSpec\<close>; the refinement lemmas say
  that each operation ends, and takes a memory that represents a block list to one that
  represents the block list of the contract, with every other byte unchanged.
\<close>

record heap =
  hmem :: mem
  dynamic_mem_start :: u32

definition DYNAMIC_MEM_TOTAL_SIZE :: u32 where
  "DYNAMIC_MEM_TOTAL_SIZE = 1024 * 1024"

definition NODE_SIZE :: u32 where
  "NODE_SIZE = 16"

section \<open>Header fields\<close>

definition node_size :: "mem \<Rightarrow> u32 \<Rightarrow> u32" where "node_size m p = ld32 m (unat p)"
definition node_used :: "mem \<Rightarrow> u32 \<Rightarrow> u32" where "node_used m p = ld32 m (unat p + 4)"
definition node_next :: "mem \<Rightarrow> u32 \<Rightarrow> u32" where "node_next m p = ld32 m (unat p + 8)"
definition node_prev :: "mem \<Rightarrow> u32 \<Rightarrow> u32" where "node_prev m p = ld32 m (unat p + 12)"

definition set_size :: "u32 \<Rightarrow> u32 \<Rightarrow> mem \<Rightarrow> mem" where "set_size p v m = st32 m (unat p) v"
definition set_used :: "u32 \<Rightarrow> u32 \<Rightarrow> mem \<Rightarrow> mem" where "set_used p v m = st32 m (unat p + 4) v"
definition set_next :: "u32 \<Rightarrow> u32 \<Rightarrow> mem \<Rightarrow> mem" where "set_next p v m = st32 m (unat p + 8) v"
definition set_prev :: "u32 \<Rightarrow> u32 \<Rightarrow> mem \<Rightarrow> mem" where "set_prev p v m = st32 m (unat p + 12) v"

lemmas node_defs = node_size_def node_used_def node_next_def node_prev_def
  set_size_def set_used_def set_next_def set_prev_def

section \<open>The operations\<close>

definition init_dynamic_mem :: "u32 \<Rightarrow> heap \<Rightarrow> heap" where
  "init_dynamic_mem area h =
     (let m1 = set_size area (DYNAMIC_MEM_TOTAL_SIZE - NODE_SIZE) (hmem h);
          m2 = set_next area 0 m1;
          m3 = set_prev area 0 m2;
          m4 = set_used area 0 m3
      in h\<lparr>hmem := m4, dynamic_mem_start := area\<rparr>)"

text \<open>
  The scan of \<open>find_best_mem_block\<close>; it follows \<open>next\<close> until a null pointer, so it ends
  only when the list does.
\<close>

partial_function (option) find_best_loop ::
    "mem \<Rightarrow> u32 \<Rightarrow> u32 \<Rightarrow> u32 \<Rightarrow> u32 \<Rightarrow> u32 option" where
  "find_best_loop m sz best best_size cur =
     (if cur = 0 then Some best
      else if node_used m cur = 0 \<and> sz \<le> node_size m cur \<and> node_size m cur \<le> best_size
      then find_best_loop m sz cur (node_size m cur) (node_next m cur)
      else find_best_loop m sz best best_size (node_next m cur))"

definition find_best_mem_block :: "mem \<Rightarrow> u32 \<Rightarrow> u32 \<Rightarrow> u32 option" where
  "find_best_mem_block m first sz = find_best_loop m sz 0 (DYNAMIC_MEM_TOTAL_SIZE + 1) first"

definition malloc_split :: "u32 \<Rightarrow> u32 \<Rightarrow> mem \<Rightarrow> u32 \<times> mem" where
  "malloc_split block sz m =
     (let new_node = block + NODE_SIZE + node_size m block - sz - NODE_SIZE;
          m1 = set_size new_node sz m;
          m2 = set_used new_node 1 m1;
          m3 = set_next new_node (node_next m2 block) m2;
          m4 = set_prev new_node block m3;
          m5 = (if node_next m4 block \<noteq> 0 then set_prev (node_next m4 block) new_node m4 else m4);
          m6 = set_next block new_node m5;
          m7 = set_size block (node_size m6 block - (sz + NODE_SIZE)) m6
      in (new_node + NODE_SIZE, m7))"

definition malloc :: "u32 \<Rightarrow> heap \<Rightarrow> (u32 \<times> heap) option" where
  "malloc sz h = do {
     block \<leftarrow> find_best_mem_block (hmem h) (dynamic_mem_start h) sz;
     Some (if block = 0 then (0, h)
           else if sz + NODE_SIZE \<le> node_size (hmem h) block then
             (let (p, m) = malloc_split block sz (hmem h) in (p, h\<lparr>hmem := m\<rparr>))
           else (block + NODE_SIZE, h\<lparr>hmem := set_used block 1 (hmem h)\<rparr>))
   }"

definition merge_next_node_into_current :: "u32 \<Rightarrow> mem \<Rightarrow> u32 \<times> mem" where
  "merge_next_node_into_current node m =
     (let next = node_next m node in
      if next \<noteq> 0 \<and> node_used m next = 0 then
        (let m1 = set_size node (node_size m node + (node_size m next + NODE_SIZE)) m;
             m2 = set_next node (node_next m1 next) m1;
             m3 = (if node_next m2 node \<noteq> 0 then set_prev (node_next m2 node) node m2 else m2)
         in (node, m3))
      else (node, m))"

definition merge_current_node_into_previous :: "u32 \<Rightarrow> mem \<Rightarrow> u32 \<times> mem" where
  "merge_current_node_into_previous node m =
     (let prev = node_prev m node in
      if prev \<noteq> 0 \<and> node_used m prev = 0 then
        (let m1 = set_size prev (node_size m prev + (node_size m node + NODE_SIZE)) m;
             m2 = set_next prev (node_next m1 node) m1;
             m3 = (if node_next m2 node \<noteq> 0 then set_prev (node_next m2 node) prev m2 else m2)
         in (prev, m3))
      else (prev, m))"

definition mem_free :: "u32 \<Rightarrow> heap \<Rightarrow> heap" where
  "mem_free p h =
     (if p = 0 then h
      else let node = p - NODE_SIZE in
        if node = 0 then h
        else let m1 = set_used node 0 (hmem h);
                 (node', m2) = merge_next_node_into_current node m1;
                 (_, m3) = merge_current_node_into_previous node' m2
             in h\<lparr>hmem := m3\<rparr>)"

text \<open>
  The copy loop of \<open>realloc\<close> reads \<open>node->size\<close> again before every byte.  It ends because
  no 32-bit size is above the largest index.
\<close>

function realloc_copy :: "u32 \<Rightarrow> u32 \<Rightarrow> u32 \<Rightarrow> mem \<Rightarrow> u32 \<Rightarrow> mem" where
  "realloc_copy node src dst m i =
     (if i < node_size m node
      then realloc_copy node src dst (m(unat dst + unat i := m (unat src + unat i))) (i + 1)
      else m)"
  by pat_completeness auto
termination
proof (relation "measure (\<lambda>(node, src, dst, m, i). 2 ^ 32 - unat i)", goal_cases)
  case (2 node src dst m i)
  then have "unat i < unat (node_size m node)" by (simp add: word_less_nat_alt)
  then have lt: "unat i + 1 < 2 ^ 32"
    using unsigned_less [of "node_size m node", where ?'a = nat] by simp
  then have "unat (i + 1) = unat i + 1" by (simp add: unat_word_ariths)
  with lt show ?case by simp
qed simp

declare realloc_copy.simps [simp del]

definition realloc :: "u32 \<Rightarrow> u32 \<Rightarrow> u32 \<Rightarrow> heap \<Rightarrow> (u32 \<times> heap) option" where
  "realloc area p sz h =
     (if p = 0 then malloc sz h
      else if sz = 0 then Some (0, mem_free p h)
      else if p < area \<or> area + DYNAMIC_MEM_TOTAL_SIZE \<le> p then Some (0, h)
      else let node = p - NODE_SIZE in
        if sz \<le> node_size (hmem h) node then Some (p, h)
        else do {
          (new_p, h1) \<leftarrow> malloc sz h;
          Some (if new_p = 0 then (0, h1)
                else let h2 = h1\<lparr>hmem := realloc_copy node p new_p (hmem h1) 0\<rparr>
                     in (new_p, mem_free p h2))
        })"

section \<open>Memories that represent a block list\<close>

text \<open>
  \<open>hdr m a b prv nxt\<close>: the header at address \<open>a\<close> describes block \<open>b\<close> and points to \<open>prv\<close> and
  \<open>nxt\<close>.  \<open>seg m prv a bs nxt\<close>: from address \<open>a\<close> the blocks \<open>bs\<close> follow each other without
  a gap, linked in both directions; the first points back to \<open>prv\<close>, the last on to \<open>nxt\<close>.
\<close>

definition hdr :: "mem \<Rightarrow> nat \<Rightarrow> blk \<Rightarrow> u32 \<Rightarrow> u32 \<Rightarrow> bool" where
  "hdr m a b prv nxt \<longleftrightarrow> ld32 m a = of_nat (bsize b) \<and> (ld32 m (a + 4) \<noteq> 0) = bused b
     \<and> ld32 m (a + 8) = nxt \<and> ld32 m (a + 12) = prv"

fun seg :: "mem \<Rightarrow> u32 \<Rightarrow> nat \<Rightarrow> blk list \<Rightarrow> u32 \<Rightarrow> bool" where
  "seg m prv a [] nxt \<longleftrightarrow> True"
| "seg m prv a (b # bs) nxt \<longleftrightarrow>
     hdr m a b prv (if bs = [] then nxt else of_nat (a + (16 + bsize b)))
     \<and> seg m (of_nat a) (a + (16 + bsize b)) bs nxt"

definition last_addr :: "nat \<Rightarrow> blk list \<Rightarrow> nat" where
  "last_addr a xs = a + span (butlast xs)"

lemma last_addr_snoc [simp]: "last_addr a (xs @ [b]) = a + span xs"
  by (simp add: last_addr_def)

lemma seg_append:
  "seg m prv a (xs @ ys) nxt \<longleftrightarrow>
     seg m prv a xs (if ys = [] then nxt else of_nat (a + span xs))
     \<and> seg m (if xs = [] then prv else of_nat (last_addr a xs)) (a + span xs) ys nxt"
proof (induction xs arbitrary: prv a)
  case (Cons b xs)
  then show ?case
    by (cases "xs = []") (auto simp: last_addr_def add.assoc)
qed simp

text \<open>A header depends on its own 16 bytes only.\<close>

lemma hdr_frame:
  assumes "\<And>x. a \<le> x \<Longrightarrow> x < a + 16 \<Longrightarrow> m' x = m x"
  shows "hdr m' a b prv nxt = hdr m a b prv nxt"
proof -
  have "ld32 m' (a + k) = ld32 m (a + k)" if "k \<le> 12" for k
    using that by (intro ld32_cong assms) auto
  from this [of 0] this [of 4] this [of 8] this [of 12] show ?thesis
    by (simp add: hdr_def)
qed

fun header_byte :: "nat \<Rightarrow> blk list \<Rightarrow> nat \<Rightarrow> bool" where
  "header_byte a [] x \<longleftrightarrow> False"
| "header_byte a (b # bs) x \<longleftrightarrow> a \<le> x \<and> x < a + 16 \<or> header_byte (a + (16 + bsize b)) bs x"

lemma seg_frame:
  assumes "\<And>x. header_byte a bs x \<Longrightarrow> m' x = m x"
  shows "seg m' prv a bs nxt = seg m prv a bs nxt"
  using assms
proof (induction bs arbitrary: prv a)
  case (Cons b bs)
  then have "hdr m' a b prv q = hdr m a b prv q" for q
    by (intro hdr_frame) auto
  moreover have "seg m' (of_nat a) (a + (16 + bsize b)) bs nxt = seg m (of_nat a) (a + (16 + bsize b)) bs nxt"
    using Cons.prems by (intro Cons.IH) auto
  ultimately show ?case by simp
qed simp

lemma header_byte_range: "header_byte a bs x \<Longrightarrow> a \<le> x \<and> x < a + span bs"
  by (induction bs arbitrary: a) force+

lemma seg_frame_range:
  assumes "\<And>x. a \<le> x \<Longrightarrow> x < a + span bs \<Longrightarrow> m' x = m x"
  shows "seg m' prv a bs nxt = seg m prv a bs nxt"
  using assms header_byte_range by (intro seg_frame) blast

lemma header_byte_append:
  "header_byte a (xs @ ys) x \<longleftrightarrow> header_byte a xs x \<or> header_byte (a + span xs) ys x"
  by (induction xs arbitrary: a) (auto simp: add.assoc)

lemma seg_relink:
  assumes "seg m q a bs nxt" "\<And>x. a \<le> x \<Longrightarrow> x < a + span bs \<Longrightarrow> m' x = st32 m (a + 12) q' x"
  shows "seg m' q' a bs nxt"
proof (cases bs)
  case (Cons b cs)
  have "hdr m' a b q' r" if "hdr m a b q r" for r
  proof -
    have "hdr (st32 m (a + 12) q') a b q' r"
      using that by (simp add: hdr_def byte_frame)
    then show ?thesis
      using assms(2) Cons by (subst hdr_frame [where m = "st32 m (a + 12) q'"]) auto
  qed
  moreover have "seg m' (of_nat a) (a + (16 + bsize b)) cs nxt = seg m (of_nat a) (a + (16 + bsize b)) cs nxt"
    using assms(2) Cons by (intro seg_frame_range) (auto simp: byte_frame)
  ultimately show ?thesis
    using assms(1) Cons by auto
qed simp


section \<open>Splitting a block\<close>

lemma malloc_split_eq:
  assumes s: "ld32 m A = of_nat s" and nxt: "ld32 m (A + 8) = nxt"
    and lim: "A + (16 + s) < 2 ^ 32" and fits: "n + 16 \<le> s"
    and N: "N = A + (s - n)"
  shows "malloc_split (of_nat A) (of_nat n) m =
    (of_nat (N + 16),
     let m4 = st32 (st32 (st32 (st32 m N (of_nat n)) (N + 4) 1) (N + 8) nxt) (N + 12) (of_nat A);
         m5 = (if nxt \<noteq> 0 then st32 m4 (unat nxt + 12) (of_nat N) else m4)
     in st32 (st32 m5 (A + 8) (of_nat N)) A (ld32 m5 A - of_nat (n + 16)))"
proof -
  have A: "unat (of_nat A :: u32) = A" and uN: "unat (of_nat N :: u32) = N"
    by (rule unat_of_nat32; use lim N fits in simp)+
  have w: "(of_nat A :: u32) + NODE_SIZE + of_nat s - of_nat n - NODE_SIZE = of_nat N"
    using fits by (simp add: N NODE_SIZE_def of_nat_diff)
  have le: "A + 16 \<le> N" using N fits by simp
  show ?thesis
    using le
    unfolding malloc_split_def node_defs A s w uN Let_def 
    by (simp add: byte_frame nxt A NODE_SIZE_def)
qed

text \<open>What the seven stores of a split leave in memory, with \<open>A\<close> the block, \<open>N\<close> the new
  header and \<open>Y\<close> the end of the block.\<close>

lemma split_stores:
  fixes A N Y n s :: nat
  assumes le: "A + 16 \<le> N" "N + (16 + n) = Y" and Y: "nxt \<noteq> 0 \<Longrightarrow> unat nxt = Y"
    and A: "hdr m A b prv nxt" "s = bsize b" "s = (N - A) + n" "\<not> bused b"
    and m4: "m4 = st32 (st32 (st32 (st32 m N (of_nat n)) (N + 4) 1) (N + 8) nxt) (N + 12) (of_nat A)"
    and m5: "m5 = (if nxt \<noteq> 0 then st32 m4 (unat nxt + 12) (of_nat N) else m4)"
    and m': "m' = st32 (st32 m5 (A + 8) (of_nat N)) A (ld32 m5 A - of_nat (n + 16))"
  shows "x < A \<Longrightarrow> m' x = m x"
    and "A + 16 \<le> x \<Longrightarrow> x < N \<Longrightarrow> m' x = m x"
    and "N + 16 \<le> x \<Longrightarrow> x < Y \<Longrightarrow> m' x = m x"
    and "Y \<le> x \<Longrightarrow> m' x = (if nxt = 0 then m x else st32 m (Y + 12) (of_nat N) x)"
    and "hdr m' N (Blk n True) (of_nat A) nxt"
    and "hdr m' A (Blk (s - (n + 16)) False) prv (of_nat N)"
proof -
  have "ld32 m5 A = of_nat s"
    using A le Y by (auto simp: m5 m4 hdr_def byte_frame)
  then have sz: "ld32 m5 A - of_nat (n + 16) = of_nat (s - (n + 16))"
    using A(3) le by (subst of_nat32_sub) auto
  note all = m' m5 m4
  show "x < A \<Longrightarrow> m' x = m x" "A + 16 \<le> x \<Longrightarrow> x < N \<Longrightarrow> m' x = m x"
     "N + 16 \<le> x \<Longrightarrow> x < Y \<Longrightarrow> m' x = m x"
    using le Y by (auto simp: all byte_frame)
  have m4x: "Y \<le> x \<Longrightarrow> m4 x = m x" using le by (auto simp: m4 byte_frame)
  then show "Y \<le> x \<Longrightarrow> m' x = (if nxt = 0 then m x else st32 m (Y + 12) (of_nat N) x)"
    using le Y by (auto simp: m' m5 st32_other intro: st32_cong)
  show "hdr m' N (Blk n True) (of_nat A) nxt"
    using le Y by (auto simp: hdr_def all byte_frame)
  show "hdr m' A (Blk (s - (n + 16)) False) prv (of_nat N)"
    using le Y A unfolding m' sz by (auto simp: hdr_def m5 m4 byte_frame)
qed

lemma malloc_split_seg:
  assumes seg: "seg m 0 a (xs @ b # ys) 0" and lim: "a + span (xs @ b # ys) < 2 ^ 32" and a: "0 < a"
    and free: "\<not> bused b" and fits: "n + 16 \<le> bsize b"
  obtains m' where
    "malloc_split (of_nat (a + span xs)) (of_nat n) m = (of_nat (a + snd (carve n xs b ys)), m')"
    "seg m' 0 a (fst (carve n xs b ys)) 0"
    "\<And>x. \<not> header_byte a (fst (carve n xs b ys)) x \<Longrightarrow> m' x = m x"
proof -
  obtain A where A: "A = a + span xs" by simp
  obtain N where N: "N = A + (bsize b - n)" by simp
  obtain Y where Y: "Y = A + (16 + bsize b)" by simp
  obtain nxt :: u32 where nxt: "nxt = (if ys = [] then 0 else of_nat Y)" by simp
  obtain prv :: u32 where prv: "prv = (if xs = [] then 0 else of_nat (last_addr a xs))" by simp
  have le: "A + 16 \<le> N" "N + (16 + n) = Y" using fits N Y by auto
  have lim': "a + span xs + 16 + bsize b + span ys < 2 ^ 32" using lim by simp
  have Y32: "0 < Y" "Y < 2 ^ 32" using lim' A Y by auto
  from seg have sxs: "seg m 0 a xs (of_nat A)" and nb: "hdr m A b prv nxt"
    and sys: "seg m (of_nat A) Y ys 0"
    by (auto simp: seg_append A Y nxt prv split: if_splits)
  have nz: "nxt = 0 \<longleftrightarrow> ys = []" and un: "nxt \<noteq> 0 \<Longrightarrow> unat nxt = Y"
    using Y32 by (auto simp: nxt of_nat32_eq_0 unat_of_nat32)
  obtain m4 where m4: "m4 = st32 (st32 (st32 (st32 m N (of_nat n)) (N + 4) 1) (N + 8) nxt) (N + 12) (of_nat A)"
    by simp
  obtain m5 where m5: "m5 = (if nxt \<noteq> 0 then st32 m4 (unat nxt + 12) (of_nat N) else m4)" by simp
  obtain m' where m': "m' = st32 (st32 m5 (A + 8) (of_nat N)) A (ld32 m5 A - of_nat (n + 16))" by simp
  have eq: "malloc_split (of_nat A) (of_nat n) m = (of_nat (N + 16), m')"
    using malloc_split_eq [of m A "bsize b" nxt n N] nb lim' A N fits
    by (simp add: Let_def hdr_def m' m5 m4)
  have s: "bsize b = (N - A) + n" using N fits by simp
  note eff = split_stores [OF le un nb refl s free m4 m5 m']
  have carve: "fst (carve n xs b ys) = xs @ Blk (bsize b - (n + 16)) False # Blk n True # ys"
    "a + snd (carve n xs b ys) = N + 16"
    using fits A N by (auto simp: carve_def)
  have addr: "A + (16 + (bsize b - (n + 16))) = N" "N + (16 + n) = Y"
    using fits N le by auto
  have sxs': "seg m' 0 a xs (of_nat A)"
    using sxs eff(1) A by (subst seg_frame_range) auto
  have sys': "seg m' (of_nat N) Y ys 0"
  proof (cases "ys = []")
    case False
    with sys eff(4) nz show ?thesis by (auto intro: seg_relink)
  qed simp
  show thesis
  proof (rule that [of m'])
    show "malloc_split (of_nat (a + span xs)) (of_nat n) m = (of_nat (a + snd (carve n xs b ys)), m')"
      unfolding carve using eq A by simp
    show "seg m' 0 a (fst (carve n xs b ys)) 0"
      unfolding carve seg_append using sxs' sys' eff(5,6) addr
      by (cases "ys = []") (simp_all add: A [symmetric] prv nxt)
    fix x assume "\<not> header_byte a (fst (carve n xs b ys)) x"
    then have "\<not> (A \<le> x \<and> x < A + 16)" "\<not> (N \<le> x \<and> x < N + 16)"
      "ys \<noteq> [] \<Longrightarrow> \<not> (Y \<le> x \<and> x < Y + 16)"
      unfolding carve using addr by (cases ys; auto simp: header_byte_append A [symmetric])+
    then show "m' x = m x"
      using eff(1-4) [of x] nz le by (cases "x < A"; cases "x < N"; cases "x < Y"; auto simp: byte_frame)
  qed
qed
section \<open>Joining two neighbours\<close>

lemma absorb_stores:
  fixes P Q Z :: nat
  assumes nP: "hdr m P p prv (of_nat Q)" and nQ: "hdr m Q q (of_nat P) nxt"
    and Q: "Q = P + (16 + bsize p)" and Z: "Z = Q + (16 + bsize q)"
    and nxt: "nxt \<noteq> 0 \<Longrightarrow> unat nxt = Z"
    and m1: "m1 = st32 m P (ld32 m P + (ld32 m Q + 16))"
    and m2: "m2 = st32 m1 (P + 8) nxt"
    and m3: "m3 = (if nxt \<noteq> 0 then st32 m2 (unat nxt + 12) (of_nat P) else m2)"
  shows "x < P \<Longrightarrow> m3 x = m x"
    and "P + 16 \<le> x \<Longrightarrow> x < Z \<Longrightarrow> m3 x = m x"
    and "Z \<le> x \<Longrightarrow> m3 x = (if nxt = 0 then m x else st32 m (Z + 12) (of_nat P) x)"
    and "hdr m3 P (Blk (bsize p + (bsize q + 16)) (bused p)) prv nxt"
proof -
  have le: "P + 16 \<le> Q" "Q + 16 \<le> Z" using Q Z by auto
  show "x < P \<Longrightarrow> m3 x = m x" "P + 16 \<le> x \<Longrightarrow> x < Z \<Longrightarrow> m3 x = m x"
    using le nxt by (auto simp: m1 m2 m3 byte_frame)
  have "Z \<le> x \<Longrightarrow> m2 x = m x" using le by (auto simp: m2 m1 byte_frame)
  then show "Z \<le> x \<Longrightarrow> m3 x = (if nxt = 0 then m x else st32 m (Z + 12) (of_nat P) x)"
    using nxt by (auto simp: m3 intro: st32_cong)
  show "hdr m3 P (Blk (bsize p + (bsize q + 16)) (bused p)) prv nxt"
    using le nxt nP nQ by (auto simp: hdr_def m3 m2 m1 byte_frame)
qed

text \<open>The three stores with which node \<open>P\<close> takes over its successor \<open>Q\<close>.\<close>

definition absorb :: "nat \<Rightarrow> nat \<Rightarrow> mem \<Rightarrow> mem" where
  "absorb P Q m =
     (let m1 = st32 m P (ld32 m P + (ld32 m Q + 16));
          m2 = st32 m1 (P + 8) (ld32 m1 (Q + 8))
      in if ld32 m2 (P + 8) \<noteq> 0 then st32 m2 (unat (ld32 m2 (P + 8)) + 12) (of_nat P) else m2)"

lemma absorb_eq:
  assumes "P + 16 \<le> Q" and nxt: "nxt = ld32 m (Q + 8)"
    and m1: "m1 = st32 m P (ld32 m P + (ld32 m Q + 16))"
    and m2: "m2 = st32 m1 (P + 8) nxt"
  shows "absorb P Q m = (if nxt \<noteq> 0 then st32 m2 (unat nxt + 12) (of_nat P) else m2)"
  using assms by (simp add: absorb_def Let_def byte_frame)

lemma absorb_seg:
  assumes seg: "seg m 0 a (xs @ p # q # ys) 0" and lim: "a + span (xs @ p # q # ys) < 2 ^ 32" and a: "0 < a"
    and P: "P = a + span xs" and Q: "Q = P + (16 + bsize p)"
  shows "seg (absorb P Q m) 0 a (xs @ Blk (bsize p + (bsize q + 16)) (bused p) # ys) 0"
    and "\<And>x. \<not> header_byte a (xs @ p # q # ys) x \<Longrightarrow> absorb P Q m x = m x"
proof -
  obtain Z where Z: "Z = Q + (16 + bsize q)" by simp
  obtain prv :: u32 where prv: "prv = (if xs = [] then 0 else of_nat (last_addr a xs))" by simp
  obtain nxt where nxt: "nxt = ld32 m (Q + 8)" by simp
  obtain m1 where m1: "m1 = st32 m P (ld32 m P + (ld32 m Q + 16))" by simp
  obtain m2 where m2: "m2 = st32 m1 (P + 8) nxt" by simp
  have PQ: "P + 16 \<le> Q" using Q by simp
  note m3 = absorb_eq [OF PQ nxt m1 m2]
  have Z32: "0 < Z" "Z < 2 ^ 32" using lim a P Q Z by auto
  from seg have sxs: "seg m 0 a xs (of_nat P)" and nP: "hdr m P p prv (of_nat Q)"
    and nQ: "hdr m Q q (of_nat P) (if ys = [] then 0 else of_nat Z)" and sys: "seg m (of_nat Q) Z ys 0"
    by (auto simp: seg_append P Q Z prv add.assoc split: if_splits)
  then have nxt': "nxt = (if ys = [] then 0 else of_nat Z)" by (simp add: nxt hdr_def)
  have nz: "nxt = 0 \<longleftrightarrow> ys = []" and un: "nxt \<noteq> 0 \<Longrightarrow> unat nxt = Z"
    using Z32 by (auto simp: nxt' of_nat32_eq_0 unat_of_nat32)
  note eff = absorb_stores [OF nP nQ [folded nxt'] Q Z un m1 m2 m3]
  have sxs': "seg (absorb P Q m) 0 a xs (of_nat P)"
    using sxs eff(1) P by (subst seg_frame_range) auto
  have sys': "seg (absorb P Q m) (of_nat P) Z ys 0"
  proof (cases "ys = []")
    case False
    with sys eff(3) nz show ?thesis by (auto intro: seg_relink)
  qed simp
  have addr: "P + (16 + (bsize p + (bsize q + 16))) = Z" using Q Z by simp
  show "seg (absorb P Q m) 0 a (xs @ Blk (bsize p + (bsize q + 16)) (bused p) # ys) 0"
    unfolding seg_append using sxs' sys' eff(4) addr
    by (cases "ys = []") (simp_all add: P [symmetric] prv nxt')
  show "absorb P Q m x = m x" if "\<not> header_byte a (xs @ p # q # ys) x" for x
  proof -
    from that have "\<not> (P \<le> x \<and> x < P + 16)" "ys \<noteq> [] \<Longrightarrow> \<not> (Z \<le> x \<and> x < Z + 16)"
      by (cases ys; auto simp: header_byte_append P [symmetric] Q Z add.assoc)+
    then show ?thesis
      using eff(1-3) [of x] nz by (cases "x < P"; cases "x < Z"; auto simp: byte_frame)
  qed
qed

lemma merge_next_eq:
  assumes "unat P = p" "unat Q = q" "Q \<noteq> 0" "p + 16 \<le> q" "ld32 m (p + 8) = Q" "ld32 m (q + 4) = 0"
  shows "merge_next_node_into_current P m = (P, absorb p q m)"
proof -
  have "P = of_nat p" using assms(1) by auto
  with assms show ?thesis
    by (simp add: merge_next_node_into_current_def node_defs absorb_def NODE_SIZE_def Let_def)
qed

lemma merge_prev_eq:
  assumes "unat P = p" "unat Q = q" "P \<noteq> 0" "p + 16 \<le> q" "ld32 m (q + 12) = P" "ld32 m (p + 4) = 0"
  shows "merge_current_node_into_previous Q m = (P, absorb p q m)"
proof -
  have "P = of_nat p" using assms(1) by auto
  with assms show ?thesis
    by (simp add: merge_current_node_into_previous_def node_defs absorb_def NODE_SIZE_def Let_def
        byte_frame)
qed

lemma merge_next_seg:
  assumes seg: "seg m 0 a (xs @ b # ys) 0" and lim: "a + span (xs @ b # ys) < 2 ^ 32" and a: "0 < a"
  obtains m' where "merge_next_node_into_current (of_nat (a + span xs)) m = (of_nat (a + span xs), m')"
    "seg m' 0 a (xs @ join_next b ys) 0"
    "\<And>x. \<not> header_byte a (xs @ b # ys) x \<Longrightarrow> m' x = m x"
proof -
  obtain P where P: "P = a + span xs" by simp
  obtain Q where Q: "Q = P + (16 + bsize b)" by simp
  have uP: "unat (of_nat P :: u32) = P" using lim P by (intro unat_of_nat32) simp
  have nxt: "ld32 m (P + 8) = (if ys = [] then 0 else of_nat Q)"
    using seg by (auto simp: seg_append hdr_def P Q)
  show thesis
  proof (cases "ys \<noteq> [] \<and> \<not> bused (hd ys)")
    case True
    then obtain q zs where ys: "ys = q # zs" "\<not> bused q" by (cases ys) auto
    have Q32: "0 < Q" "Q < 2 ^ 32" using lim a ys P Q by auto
    have used: "ld32 m (Q + 4) = 0"
      using seg ys by (auto simp: seg_append hdr_def P Q)
    note abs = absorb_seg [OF seg [unfolded ys] lim [unfolded ys] a P Q]
    show thesis
    proof (rule that)
      show "merge_next_node_into_current (of_nat (a + span xs)) m = (of_nat (a + span xs), absorb P Q m)"
        unfolding P [symmetric] using Q32 uP used nxt ys Q
        by (intro merge_next_eq) (auto simp: unat_of_nat32 of_nat32_eq_0 simp del: of_nat_add)
      show "seg (absorb P Q m) 0 a (xs @ join_next b ys) 0"
        using abs(1) ys by (simp add: join_next_def)
    qed (use abs(2) ys in blast)
  next
    case False
    have "merge_next_node_into_current (of_nat P) m = (of_nat P, m)"
    proof (cases ys)
      case (Cons q zs)
      have "unat (of_nat Q :: u32) = Q"
        using lim Cons P Q by (intro unat_of_nat32) simp
      moreover have "ld32 m (Q + 4) \<noteq> 0"
        using seg Cons False by (auto simp: seg_append hdr_def P Q)
      ultimately show ?thesis
        using uP nxt Cons by (simp add: merge_next_node_into_current_def node_used_def node_next_def del: of_nat_add)
    qed (use uP nxt in \<open>simp add: merge_next_node_into_current_def node_next_def\<close>)
    with seg False show thesis by (intro that) (auto simp: P join_next_def)
  qed
qed

lemma merge_prev_seg:
  assumes seg: "seg m 0 a (xs @ b # ys) 0" and lim: "a + span (xs @ b # ys) < 2 ^ 32" and a: "0 < a"
  obtains m' q where "merge_current_node_into_previous (of_nat (a + span xs)) m = (q, m')"
    "seg m' 0 a (join_prev xs (b # ys)) 0"
    "\<And>x. \<not> header_byte a (xs @ b # ys) x \<Longrightarrow> m' x = m x"
proof -
  obtain Q where Q': "Q = a + span xs" by simp
  have uQ: "unat (of_nat Q :: u32) = Q" using lim Q' by (intro unat_of_nat32) simp
  have prv: "ld32 m (Q + 12) = (if xs = [] then 0 else of_nat (last_addr a xs))"
    using seg by (auto simp: seg_append hdr_def Q')
  show thesis
  proof (cases xs rule: rev_cases)
    case Nil
    then show thesis using seg prv Q' uQ
      by (intro that [of 0 m]) (auto simp: merge_current_node_into_previous_def join_prev_def node_prev_def)
  next
    case (snoc us p)
    obtain P where P: "P = a + span us" by simp
    have Q: "Q = P + (16 + bsize p)" using Q' P snoc by simp
    have P32: "0 < P" "P < 2 ^ 32" using lim snoc P a by auto
    then have uP: "unat (of_nat P :: u32) = P" by (intro unat_of_nat32)
    have prv: "ld32 m (Q + 12) = of_nat P" using prv snoc P by simp
    have seg': "seg m 0 a (us @ p # b # ys) 0" and lim': "a + span (us @ p # b # ys) < 2 ^ 32"
      using seg lim snoc by auto
    have used: "(ld32 m (P + 4) \<noteq> 0) = bused p"
      using seg' by (auto simp: seg_append hdr_def P)
    show thesis
    proof (cases "bused p")
      case True
      then have "merge_current_node_into_previous (of_nat Q) m = (of_nat P, m)"
        using used uP uQ prv by (simp add: merge_current_node_into_previous_def node_used_def node_prev_def)
      with seg True show thesis by (intro that) (auto simp: Q' join_prev_def snoc)
    next
      case False
      note abs = absorb_seg [OF seg' lim' a P Q]
      show thesis
      proof (rule that)
        show "merge_current_node_into_previous (of_nat (a + span xs)) m = (of_nat P, absorb P Q m)"
          unfolding Q' [symmetric] using P32 used False uP uQ prv Q
          by (intro merge_prev_eq) (auto simp: of_nat32_eq_0)
        show "seg (absorb P Q m) 0 a (join_prev xs (b # ys)) 0"
          using abs(1) snoc False by (simp add: join_prev_def)
      qed (use abs(2) snoc in auto)
    qed
  qed
qed

section \<open>The heap represents a block list\<close>

definition heap_rep :: "u32 \<Rightarrow> heap \<Rightarrow> blk list \<Rightarrow> bool" where
  "heap_rep area h bs \<longleftrightarrow>
     dynamic_mem_start h = area \<and> area \<noteq> 0 \<and> unat area + 1048576 < 2 ^ 32
     \<and> bs \<noteq> [] \<and> span bs = 1048576 \<and> coalesced bs \<and> seg (hmem h) 0 (unat area) bs 0"

lemma heap_repD:
  assumes "heap_rep area h bs"
  shows "dynamic_mem_start h = area" "0 < unat area" "unat area + span bs < 2 ^ 32"
    "bs \<noteq> []" "span bs = 1048576" "coalesced bs" "seg (hmem h) 0 (unat area) bs 0"
  using assms by (auto simp: heap_rep_def unat_gt_0)

lemma init_rep:
  assumes "area \<noteq> 0" "unat area + 1048576 < 2 ^ 32"
  shows "heap_rep area (init_dynamic_mem area h) [Blk 1048560 False]"
  using assms
  by (simp add: heap_rep_def init_dynamic_mem_def Let_def node_defs hdr_def byte_frame
      DYNAMIC_MEM_TOTAL_SIZE_def NODE_SIZE_def)

text \<open>The scan returns the address of the block that the contract chooses.\<close>

lemma find_best_loop_seg:
  assumes "seg m prv a bs 0" "a + span bs < 2 ^ 32" "0 < a" "lim < 2 ^ 32"
    "\<And>k. k < length bs \<Longrightarrow> adr (i + k) = of_nat (a + span (take k bs))"
    "cur = (if bs = [] then 0 else of_nat a)"
  shows "find_best_loop m sz (case best of None \<Rightarrow> 0 | Some j \<Rightarrow> adr j) (of_nat lim) cur
    = Some (case best_go (unat sz) i best lim bs of None \<Rightarrow> 0 | Some j \<Rightarrow> adr j)"
  using assms
proof (induction bs arbitrary: prv a i best lim cur)
  case Nil
  then show ?case by (subst find_best_loop.simps) simp
next
  case (Cons b bs)
  have lim: "a < 2 ^ 32" "bsize b < 2 ^ 32" "0 < a" and a: "unat (of_nat a :: u32) = a"
    using Cons.prems by (auto intro: unat_of_nat32)
  have cur: "cur \<noteq> 0" "cur = of_nat a"
    using lim Cons.prems(6) by (auto simp: of_nat32_eq_0)
  have f: "node_size m cur = of_nat (bsize b)" "(node_used m cur = 0) = (\<not> bused b)"
    "node_next m cur = (if bs = [] then 0 else of_nat (a + (16 + bsize b)))"
    using Cons.prems(1) a by (auto simp: node_defs hdr_def cur(2))
  have cond: "sz \<le> node_size m cur \<longleftrightarrow> unat sz \<le> bsize b" "node_size m cur \<le> of_nat lim \<longleftrightarrow> bsize b \<le> lim"
    using lim Cons.prems(4) by (auto simp: f word_le_nat_alt unat_of_nat32)
  have adr: "k < length bs \<Longrightarrow> adr (Suc i + k) = of_nat (a + (16 + bsize b) + span (take k bs))" for k
    using Cons.prems(5) [of "Suc k"] by (simp add: add.assoc)
  have adr0: "adr i = cur" using Cons.prems(5) [of 0] cur by simp
  have IH: "find_best_loop m sz (case bst of None \<Rightarrow> 0 | Some j \<Rightarrow> adr j) (of_nat l) (node_next m cur)
      = Some (case best_go (unat sz) (Suc i) bst l bs of None \<Rightarrow> 0 | Some j \<Rightarrow> adr j)"
    if "l < 2 ^ 32" for bst l
    using Cons.prems(1,2) that adr by (intro Cons.IH) (auto simp: f)
  show ?case
    using cur(1) cond IH [of lim best] IH [of "bsize b" "Some i"] Cons.prems(4) lim f adr0
    by (subst find_best_loop.simps) simp
qed

lemma find_best_rep:
  assumes "heap_rep area h bs"
  shows "find_best_mem_block (hmem h) (dynamic_mem_start h) sz
    = Some (case best_fit (unat sz) bs of None \<Rightarrow> 0 | Some j \<Rightarrow> of_nat (unat area + span (take j bs)))"
proof -
  note rep = heap_repD [OF assms]
  have "find_best_loop (hmem h) sz (case None of None \<Rightarrow> 0
        | Some j \<Rightarrow> of_nat (unat area + span (take j bs))) (of_nat 1048577) area
    = Some (case best_go (unat sz) 0 None 1048577 bs of None \<Rightarrow> 0
        | Some j \<Rightarrow> of_nat (unat area + span (take j bs)))"
    using rep by (intro find_best_loop_seg [where prv = 0 and a = "unat area"]) auto
  then show ?thesis
    by (simp add: find_best_mem_block_def best_fit_def DYNAMIC_MEM_TOTAL_SIZE_def rep(1))
qed

section \<open>malloc and mem_free refine the contract\<close>

lemma seg_set_used:
  assumes "seg m 0 a (xs @ b # ys) 0" "A = a + span xs"
  shows "seg (st32 m (A + 4) v) 0 a (xs @ Blk (bsize b) (v \<noteq> 0) # ys) 0"
proof -
  have "seg (st32 m (A + 4) v) p a xs n = seg m p a xs n" for p n
    using assms(2) by (intro seg_frame_range) (auto simp: byte_frame)
  moreover have "seg (st32 m (A + 4) v) p (A + (16 + bsize b)) ys n = seg m p (A + (16 + bsize b)) ys n" for p n
    by (intro seg_frame_range) (auto simp: byte_frame)
  moreover have "hdr m A b p n \<Longrightarrow> hdr (st32 m (A + 4) v) A (Blk (bsize b) (v \<noteq> 0)) p n" for p n
    by (simp add: hdr_def byte_frame)
  ultimately show ?thesis
    using assms by (auto simp: seg_append)
qed

lemma header_byte_join:
  "header_byte a (xs @ Blk s u # ys) x = header_byte a (xs @ Blk s u' # ys) x"
  by (simp add: header_byte_append)

theorem malloc_rep:
  assumes rep: "heap_rep area h bs"
  obtains h' bs' where "abs_malloc (unat sz) bs = (bs', None)" "malloc sz h = Some (0, h)" "bs' = bs"
  | h' bs' off where "abs_malloc (unat sz) bs = (bs', Some off)"
    "malloc sz h = Some (of_nat (unat area + off), h')" "heap_rep area h' bs'"
    "\<And>x. \<not> header_byte (unat area) bs' x \<Longrightarrow> hmem h' x = hmem h x"
proof (cases "best_fit (unat sz) bs")
  case None
  then show thesis
    using find_best_rep [OF rep, of sz] that(1) [of bs] by (simp add: abs_malloc_def malloc_def)
next
  case (Some i)
  note r = heap_repD [OF rep]
  obtain xs b ys where bs: "bs = xs @ b # ys" "xs = take i bs" "b = bs ! i" "ys = drop (Suc i) bs"
    using split_at best_fit_Some(1) [OF Some] by blast
  obtain A where A: "A = unat area + span xs" by simp
  have free: "\<not> bused b" and fit: "unat sz \<le> bsize b"
    using best_fit_Some(2) [OF Some] unfolding bs(3) [symmetric] by (auto simp: candidate_def)
  have A32: "0 < A" "A + (16 + bsize b) < 2 ^ 32" using r(2,3) A bs(1) by auto
  then have uA: "unat (of_nat A :: u32) = A" by (intro unat_of_nat32) simp
  have find: "find_best_mem_block (hmem h) (dynamic_mem_start h) sz = Some (of_nat A)"
    using find_best_rep [OF rep, of sz] Some A bs(2) by simp
  have size: "node_size (hmem h) (of_nat A) = of_nat (bsize b)"
    using r(7) bs(1) uA A by (auto simp: node_size_def seg_append hdr_def)
  obtain bs' off where carve: "carve (unat sz) xs b ys = (bs', off)" by fastforce
  have abs: "abs_malloc (unat sz) bs = (bs', Some off)"
    using Some carve bs(2-4) by (simp add: abs_malloc_def)
  have ok: "span bs' = 1048576" "coalesced bs'"
    using abs_malloc_span [of "unat sz" bs] abs_malloc_coalesced [OF r(6), of "unat sz"] abs r(5)
    by simp_all
  then have ne: "bs' \<noteq> []" by auto
  have NZ: "(of_nat A :: u32) \<noteq> 0" using A32 by (simp add: of_nat32_eq_0)
  have cmp: "sz + NODE_SIZE \<le> of_nat (bsize b) \<longleftrightarrow> unat sz + 16 \<le> bsize b"
  proof -
    have "bsize b \<le> 1048576" using r(5) bs(1) by simp
    then have "unat (sz + 16) = unat sz + 16"
      using fit by (subst unat_add_lem [THEN iffD1]) auto
    then show ?thesis
      using A32 by (simp add: NODE_SIZE_def word_le_nat_alt unat_of_nat32)
  qed
  show thesis
  proof (cases "unat sz + 16 \<le> bsize b")
    case True
    have seg: "seg (hmem h) 0 (unat area) (xs @ b # ys) 0" "unat area + span (xs @ b # ys) < 2 ^ 32"
      using r bs(1) by auto
    obtain m' where m': "malloc_split (of_nat A) sz (hmem h) = (of_nat (unat area + off), m')"
      "seg m' 0 (unat area) bs' 0" "\<And>x. \<not> header_byte (unat area) bs' x \<Longrightarrow> m' x = hmem h x"
      using malloc_split_seg [OF seg r(2) free True] carve A by auto
    have "malloc sz h = Some (of_nat (unat area + off), h\<lparr>hmem := m'\<rparr>)"
      using find size cmp True NZ m'(1) by (simp add: malloc_def)
    moreover have "heap_rep area (h\<lparr>hmem := m'\<rparr>) bs'"
      using rep ok ne m'(2) by (simp add: heap_rep_def)
    ultimately show thesis using that(2) abs m'(3) by auto
  next
    case False
    then have bs': "bs' = xs @ Blk (bsize b) True # ys" "off = span xs + 16"
      using carve by (auto simp: carve_def)
    obtain m' where m': "m' = st32 (hmem h) (A + 4) 1" by simp
    have "malloc sz h = Some (of_nat (unat area + off), h\<lparr>hmem := m'\<rparr>)"
      using find size cmp False NZ uA bs'(2) A
      by (simp add: malloc_def set_used_def m' NODE_SIZE_def)
    moreover have "seg m' 0 (unat area) bs' 0"
      using seg_set_used [of "hmem h" "unat area" xs b ys A 1] r(7) bs(1) A by (simp add: m' bs'(1))
    then have "heap_rep area (h\<lparr>hmem := m'\<rparr>) bs'"
      using rep ok ne by (simp add: heap_rep_def)
    moreover have "m' x = hmem h x" if "\<not> header_byte (unat area) bs' x" for x
      using that by (auto simp: bs'(1) header_byte_append A [symmetric] m' byte_frame)
    ultimately show thesis using that(2) abs by auto
  qed
qed

theorem mem_free_rep:
  assumes rep: "heap_rep area h (xs @ b # ys)" and used: "bused b"
    and p: "p = of_nat (unat area + span xs + 16)"
  shows "heap_rep area (mem_free p h) (abs_free xs b ys)"
    and "\<And>x. \<not> header_byte (unat area) (xs @ b # ys) x \<Longrightarrow> hmem (mem_free p h) x = hmem h x"
proof -
  note r = heap_repD [OF rep]
  obtain A where A: "A = unat area + span xs" by simp
  have A32: "0 < A" "A + 16 < 2 ^ 32" using r(2,3) A by auto
  have uA: "unat (of_nat A :: u32) = A" using A32 by (intro unat_of_nat32) simp
  have p0: "p \<noteq> 0" "p - NODE_SIZE = of_nat A" "(of_nat A :: u32) \<noteq> 0"
    using A32 of_nat32_eq_0 [of "A + 16"] of_nat32_eq_0 [of A]
    by (auto simp: p A [symmetric] NODE_SIZE_def)
  let ?b = "Blk (bsize b) False"
  obtain m1 where m1: "m1 = st32 (hmem h) (A + 4) 0" by simp
  have seg1: "seg m1 0 (unat area) (xs @ ?b # ys) 0"
    using seg_set_used [OF r(7) A, of 0] by (simp add: m1)
  have lim1: "unat area + span (xs @ ?b # ys) < 2 ^ 32" using r(3) by simp
  obtain m2 where m2: "merge_next_node_into_current (of_nat A) m1 = (of_nat A, m2)"
      "seg m2 0 (unat area) (xs @ join_next ?b ys) 0"
      "\<And>x. \<not> header_byte (unat area) (xs @ ?b # ys) x \<Longrightarrow> m2 x = m1 x"
    using merge_next_seg [OF seg1 lim1 r(2)] A by metis
  obtain c zs where c: "join_next ?b ys = c # zs"
    using join_next_nonempty by (metis list.exhaust)
  have sp: "span (c # zs) = span (b # ys)"
    using join_next_span [of ?b ys] c by simp
  have lim2: "unat area + span (xs @ c # zs) < 2 ^ 32" using r(3) sp by simp
  obtain m3 q where m3: "merge_current_node_into_previous (of_nat A) m2 = (q, m3)"
      "seg m3 0 (unat area) (join_prev xs (c # zs)) 0"
      "\<And>x. \<not> header_byte (unat area) (xs @ c # zs) x \<Longrightarrow> m3 x = m2 x"
    using merge_prev_seg [OF m2(2) [unfolded c] lim2 r(2)] A by metis
  have free: "mem_free p h = h\<lparr>hmem := m3\<rparr>"
    using p0 m2(1) m3(1) uA by (simp add: mem_free_def set_used_def m1 Let_def)
  have ok: "span (abs_free xs b ys) = 1048576" "coalesced (abs_free xs b ys)"
    using abs_free_span [of xs b ys] abs_free_coalesced r(5,6) used by auto
  then have "abs_free xs b ys \<noteq> []" by auto
  with ok rep m3(2) show "heap_rep area (mem_free p h) (abs_free xs b ys)"
    by (simp add: free heap_rep_def abs_free_def c)
  fix x assume x: "\<not> header_byte (unat area) (xs @ b # ys) x"
  then have x1: "\<not> header_byte (unat area) (xs @ ?b # ys) x" "x < A \<or> A + 16 \<le> x"
    by (auto simp: header_byte_append A)
  moreover have "\<not> header_byte (unat area) (xs @ c # zs) x"
    using x1(1) c by (cases ys) (auto simp: header_byte_append join_next_def add.assoc split: if_splits)
  ultimately show "hmem (mem_free p h) x = hmem h x"
    using m2(3) m3(3) by (simp add: free m1 st32_other disj_commute) (auto simp: st32_other)
qed

end
