(* ===== verification/Allocator.thy ===== *)
theory Allocator
  imports Prelude
begin

text \<open>
  The interface through which the kernel's clients (\<open>realloc\<close>, the shell's line buffer, the
  editor's rows, system calls 3 and 4) use the heap: \<open>alloc\<close> and \<open>release\<close> on a state with an
  invariant, a map \<open>live\<close> from the addresses of allocated payloads to their sizes, and the
  bytes in memory.  The laws are what \<open>kernel/mm.c\<close> promises; theory \<open>HeapLive\<close> discharges
  them for the model of that file.  The lemmas are what a client may rely on.
\<close>

locale allocator =
  fixes inv :: "'h \<Rightarrow> bool"
    and live :: "'h \<Rightarrow> nat \<Rightarrow> nat option"
    and byte :: "'h \<Rightarrow> nat \<Rightarrow> u8"
    and alloc :: "u32 \<Rightarrow> 'h \<Rightarrow> (u32 \<times> 'h) option"
    and release :: "u32 \<Rightarrow> 'h \<Rightarrow> 'h"
    and poke :: "nat \<Rightarrow> u8 \<Rightarrow> 'h \<Rightarrow> 'h"
  assumes alloc_returns: "inv h \<Longrightarrow> \<exists>p h'. alloc n h = Some (p, h')"
    and alloc_inv: "inv h \<Longrightarrow> alloc n h = Some (p, h') \<Longrightarrow> inv h'"
    and alloc_null: "inv h \<Longrightarrow> alloc n h = Some (0, h') \<Longrightarrow> h' = h"
    and alloc_live: "inv h \<Longrightarrow> alloc n h = Some (p, h') \<Longrightarrow> p \<noteq> 0 \<Longrightarrow>
        live h (unat p) = None \<and> (\<exists>s\<ge>unat n. live h' = (live h)(unat p \<mapsto> s))"
    and alloc_byte: "inv h \<Longrightarrow> alloc n h = Some (p, h') \<Longrightarrow> live h q = Some s \<Longrightarrow> k < s \<Longrightarrow>
        byte h' (q + k) = byte h (q + k)"
    and release_inv: "inv h \<Longrightarrow> live h (unat p) = Some s \<Longrightarrow> inv (release p h)"
    and release_live: "inv h \<Longrightarrow> live h (unat p) = Some s \<Longrightarrow>
        live (release p h) = (live h)(unat p := None)"
    and release_byte: "inv h \<Longrightarrow> live h (unat p) = Some s \<Longrightarrow> live h q = Some t \<Longrightarrow> k < t \<Longrightarrow>
        byte (release p h) (q + k) = byte h (q + k)"
    and separate: "inv h \<Longrightarrow> live h a = Some s \<Longrightarrow> live h b = Some t \<Longrightarrow> a < b \<Longrightarrow> a + s < b"
    and poke_inv: "inv h \<Longrightarrow> live h a = Some s \<Longrightarrow> k < s \<Longrightarrow> inv (poke (a + k) v h)"
    and poke_live: "inv h \<Longrightarrow> live h a = Some s \<Longrightarrow> k < s \<Longrightarrow> live (poke (a + k) v h) = live h"
    and poke_byte: "byte (poke x v h) = (byte h)(x := v)"
begin

text \<open>A new buffer overlaps no buffer that is in use.\<close>

lemma fresh_disjoint:
  assumes "inv h" "alloc n h = Some (p, h')" "p \<noteq> 0" "live h q = Some s"
    and "i < unat n" "j < s"
  shows "unat p + i \<noteq> q + j"
proof -
  from alloc_live [OF assms(1-3)] obtain t where t: "unat n \<le> t" "live h (unat p) = None"
    "live h' = (live h)(unat p \<mapsto> t)" by blast
  with assms(4) have "unat p \<noteq> q" "live h' (unat p) = Some t" "live h' q = Some s" by auto
  then show ?thesis
    using separate [of h' "unat p" t q s] separate [of h' q s "unat p" t]
      alloc_inv [OF assms(1,2)] assms(5,6) t(1) by (cases "unat p < q") auto
qed

text \<open>A write to one buffer leaves every other buffer alone.\<close>

lemma poke_other_buffer:
  assumes "inv h" "live h p = Some s" "k < s" "live h q = Some t" "j < t" "p \<noteq> q"
  shows "byte (poke (p + k) v h) (q + j) = byte h (q + j)"
proof -
  have "p + s < q \<or> q + t < p"
    using separate assms by (metis linorder_neqE_nat)
  with assms show ?thesis by (auto simp: poke_byte)
qed

text \<open>A whole life: a buffer is requested, written, and read back after a second request.\<close>

lemma write_then_alloc_reads_back:
  assumes "inv h" "alloc n h = Some (p, h1)" "p \<noteq> 0" "k < unat n"
    and "alloc m (poke (unat p + k) v h1) = Some (q, h2)"
  shows "inv h2 \<and> byte h2 (unat p + k) = v"
proof -
  from alloc_live [OF assms(1-3)] obtain t where t: "unat n \<le> t" "live h1 (unat p) = Some t" by auto
  have inv1: "inv h1" using alloc_inv [OF assms(1,2)] .
  have k: "k < t" using t(1) assms(4) by simp
  have inv2: "inv (poke (unat p + k) v h1)" and l2: "live (poke (unat p + k) v h1) (unat p) = Some t"
    using poke_inv [OF inv1 t(2) k] poke_live [OF inv1 t(2) k] t(2) by auto
  show ?thesis
    using alloc_inv [OF inv2 assms(5)] alloc_byte [OF inv2 assms(5) l2 k] by (simp add: poke_byte)
qed

text \<open>Releasing a buffer right after the request leaves the same buffers live.\<close>

lemma alloc_release_live:
  assumes "inv h" "alloc n h = Some (p, h1)" "p \<noteq> 0"
  shows "inv (release p h1) \<and> live (release p h1) = live h"
proof -
  from alloc_live [OF assms] obtain t where t: "live h (unat p) = None"
    "live h1 = (live h)(unat p \<mapsto> t)" by blast
  have inv1: "inv h1" using alloc_inv [OF assms(1,2)] .
  have l: "live h1 (unat p) = Some t" by (simp add: t(2))
  have "(live h)(unat p := None) = live h" using t(1) by (rule fun_upd_idem)
  then show ?thesis
    using release_inv [OF inv1 l] release_live [OF inv1 l] t(2) by simp
qed

end

text \<open>
  What a client that works with buffers of its own keeps: it started with the live buffers \<open>L0\<close> of
  bytes \<open>b0\<close>, has requested those of \<open>own\<close> since and not released them, and all that was live before
  still is, with the same bytes.
\<close>

definition owns :: "(nat \<Rightarrow> nat option) \<Rightarrow> (nat \<Rightarrow> u8) \<Rightarrow> (nat \<Rightarrow> nat option) \<Rightarrow> (nat \<Rightarrow> nat option) \<Rightarrow> (nat \<Rightarrow> u8) \<Rightarrow> bool" where
  "owns L0 b0 own L b \<longleftrightarrow> dom own \<inter> dom L0 = {} \<and> L = L0 ++ own
     \<and> (\<forall>q t k. L0 q = Some t \<longrightarrow> k < t \<longrightarrow> b (q + k) = b0 (q + k))"

lemma owns_none: "owns L b Map.empty L b"
  by (simp add: owns_def)

lemma owns_all_released: "owns L0 b0 Map.empty L b \<Longrightarrow> L = L0"
  by (simp add: owns_def)

lemma owns_live: "owns L0 b0 own L b \<Longrightarrow> own p = Some s \<Longrightarrow> L p = Some s"
  by (simp add: owns_def)

lemma owns_apart: "owns L0 b0 own L b \<Longrightarrow> own p = Some s \<Longrightarrow> L0 q = Some t \<Longrightarrow> L q = Some t \<and> q \<noteq> p"
  by (auto simp: owns_def map_add_def split: option.split)

context allocator
begin

lemma owns_alloc:
  assumes "owns L0 b0 own (live h) (byte h)" and "inv h" and "alloc n h = Some (p, h')" and "p \<noteq> 0"
  shows "\<exists>t \<ge> unat n. own (unat p) = None \<and> live h (unat p) = None
    \<and> owns L0 b0 (own(unat p \<mapsto> t)) (live h') (byte h') \<and> inv h'
    \<and> (\<forall>q u k. own q = Some u \<longrightarrow> k < u \<longrightarrow> byte h' (q + k) = byte h (q + k))"
proof -
  obtain t where t: "unat n \<le> t" "live h (unat p) = None" "live h' = (live h)(unat p \<mapsto> t)"
    using alloc_live [OF assms(2-4)] by blast
  have none: "own (unat p) = None" "L0 (unat p) = None" using t(2) assms(1) by (auto simp: owns_def)
  have bytes: "byte h' (q + k) = byte h (q + k)" if "live h q = Some u" "k < u" for q u k
    using alloc_byte [OF assms(2,3) that] .
  have "byte h' (q + k) = b0 (q + k)" if "L0 q = Some u" "k < u" for q u k
  proof -
    have "live h q = Some u" using assms(1) that(1) by (auto simp: owns_def map_add_def split: option.split)
    then show ?thesis using bytes [of q u k] that assms(1) by (auto simp: owns_def)
  qed
  then have "owns L0 b0 (own(unat p \<mapsto> t)) (live h') (byte h')"
    using assms(1) none(2) by (auto simp: owns_def t(3))
  then show ?thesis
    using t(1,2) none(1) bytes owns_live [OF assms(1)] alloc_inv [OF assms(2,3)] by (intro exI [of _ t]) auto
qed

lemma owns_poke:
  assumes "owns L0 b0 own (live h) (byte h)" and "inv h" and "own a = Some s" and "k < s"
  shows "owns L0 b0 own (live (poke (a + k) v h)) (byte (poke (a + k) v h)) \<and> inv (poke (a + k) v h)"
proof -
  have a: "live h a = Some s" using owns_live [OF assms(1,3)] .
  have "byte (poke (a + k) v h) (q + j) = byte h (q + j)" if q: "L0 q = Some t" "j < t" for q t j
    using poke_other_buffer [OF assms(2) a assms(4)] owns_apart [OF assms(1,3) q(1)] q(2) by auto
  then show ?thesis
    using assms(1) poke_live [OF assms(2) a assms(4)] poke_inv [OF assms(2) a assms(4)] by (auto simp: owns_def)
qed

lemma owns_release:
  assumes "owns L0 b0 own (live h) (byte h)" and "inv h" and "own (unat p) = Some s"
  shows "owns L0 b0 (own(unat p := None)) (live (release p h)) (byte (release p h)) \<and> inv (release p h)
    \<and> (\<forall>q u k. own q = Some u \<longrightarrow> q \<noteq> unat p \<longrightarrow> k < u \<longrightarrow> byte (release p h) (q + k) = byte h (q + k))"
proof -
  have p: "live h (unat p) = Some s" using owns_live [OF assms(1,3)] .
  have l: "live (release p h) = (live h)(unat p := None)" using release_live [OF assms(2) p] .
  have bytes: "byte (release p h) (q + k) = byte h (q + k)" if "live h q = Some u" "k < u" for q u k
    using release_byte [OF assms(2) p that] .
  have "L0 (unat p) = None" using assms(1,3) by (auto simp: owns_def)
  then have "(L0 ++ own)(unat p := None) = L0 ++ own(unat p := None)" by (auto simp: map_add_def split: option.split)
  moreover have "byte (release p h) (q + k) = b0 (q + k)" if "L0 q = Some t" "k < t" for q t k
    using assms(1) bytes that owns_apart [OF assms(1,3) that(1)] by (auto simp: owns_def)
  ultimately have "owns L0 b0 (own(unat p := None)) (live (release p h)) (byte (release p h))"
    using assms(1) l by (auto simp: owns_def)
  then show ?thesis using release_inv [OF assms(2) p] bytes owns_live [OF assms(1)] by auto
qed

text \<open>Writing one of the buffers leaves the others.\<close>

lemma owns_poke_other:
  assumes "owns L0 b0 own (live h) (byte h)" and "inv h" and "own a = Some s" and "k < s"
    and "own q = Some t" and "j < t" and "q \<noteq> a"
  shows "byte (poke (a + k) v h) (q + j) = byte h (q + j)"
  using poke_other_buffer [OF assms(2) owns_live [OF assms(1,3)] assms(4) owns_live [OF assms(1,5)] assms(6)] assms(7) by auto

end

end
