(* ===== verification/HeapLive.thy ===== *)
theory HeapLive imports Heap Allocator begin

text \<open>
  The allocated payloads of the heap as a map, and the interface of theory \<open>Allocator\<close>
  discharged for \<open>malloc\<close> and \<open>mem_free\<close>; then \<open>realloc\<close>, and the invariant of the heap over
  every sequence of requests, releases and client writes.
\<close>

section \<open>Reading the block list off the memory\<close>

fun walk :: "nat \<Rightarrow> mem \<Rightarrow> u32 \<Rightarrow> blk list" where
  "walk 0 m p = []"
| "walk (Suc n) m p =
     (if p = 0 then [] else Blk (unat (node_size m p)) (node_used m p \<noteq> 0) # walk n m (node_next m p))"

definition heap_blocks :: "heap \<Rightarrow> blk list" where
  "heap_blocks h = walk 65536 (hmem h) (dynamic_mem_start h)"

lemma walk_seg:
  assumes "seg m prv a bs 0" "a + span bs < 2 ^ 32" "0 < a" "length bs \<le> n"
  shows "walk n m (if bs = [] then 0 else of_nat a) = bs"
  using assms
proof (induction bs arbitrary: prv a n)
  case Nil
  then show ?case by (cases n) auto
next
  case (Cons b bs)
  have a: "unat (of_nat a :: u32) = a" "(of_nat a :: u32) \<noteq> 0"
    using Cons.prems by (auto simp: unat_of_nat32 of_nat32_eq_0)
  obtain n' where n: "n = Suc n'" using Cons.prems(4) by (cases n) auto
  have "walk n' m (if bs = [] then 0 else of_nat (a + (16 + bsize b))) = bs"
    using Cons.prems n by (intro Cons.IH) auto
  moreover have "unat (of_nat (bsize b) :: u32) = bsize b"
    using Cons.prems by (intro unat_of_nat32) simp
  ultimately show ?case
    using Cons.prems(1) a by (simp add: n node_defs hdr_def del: of_nat_add)
qed

lemma length_span: "16 * length bs \<le> span bs"
  by (induction bs) auto

lemma heap_blocks_rep: "heap_rep area h bs \<Longrightarrow> heap_blocks h = bs"
  using walk_seg [of "hmem h" 0 "unat area" bs 65536] length_span [of bs]
  by (simp add: heap_blocks_def heap_rep_def unat_gt_0)

definition heap_ok :: "u32 \<Rightarrow> heap \<Rightarrow> bool" where
  "heap_ok area h \<longleftrightarrow> heap_rep area h (heap_blocks h)"

lemma heap_rep_ok: "heap_rep area h bs \<Longrightarrow> heap_ok area h"
  by (simp add: heap_ok_def heap_blocks_rep)

section \<open>Live payloads\<close>

fun live_from :: "nat \<Rightarrow> blk list \<Rightarrow> nat \<Rightarrow> nat option" where
  "live_from a [] p = None"
| "live_from a (b # bs) p =
     (if p = a + 16 then (if bused b then Some (bsize b) else None)
      else live_from (a + (16 + bsize b)) bs p)"

definition heap_live :: "heap \<Rightarrow> nat \<Rightarrow> nat option" where
  "heap_live h = live_from (unat (dynamic_mem_start h)) (heap_blocks h)"

lemma heap_live_rep: "heap_rep area h bs \<Longrightarrow> heap_live h = live_from (unat area) bs"
  by (simp add: heap_live_def heap_blocks_rep heap_repD(1))

lemma live_range: "live_from a bs p = Some s \<Longrightarrow> a + 16 \<le> p \<and> p + s \<le> a + span bs"
  by (induction bs arbitrary: a) (fastforce split: if_splits)+

lemma live_low: "p < a + 16 \<Longrightarrow> live_from a bs p = None"
  using live_range [of a bs p] by (cases "live_from a bs p") auto

lemma live_high: "a + span bs < p \<Longrightarrow> live_from a bs p = None"
  using live_range [of a bs p] by (cases "live_from a bs p") auto

lemma live_append:
  "live_from a (xs @ ys) p = (if p \<le> a + span xs then live_from a xs p else live_from (a + span xs) ys p)"
proof (induction xs arbitrary: a)
  case Nil
  then show ?case by (simp add: live_low)
next
  case (Cons b xs)
  then show ?case by (auto simp: add.assoc)
qed

lemma live_split:
  assumes "live_from a bs p = Some s"
  obtains xs b ys where "bs = xs @ b # ys" "bused b" "bsize b = s" "p = a + span xs + 16"
  using assms
proof (induction bs arbitrary: a thesis)
  case (Cons b bs)
  show ?case
  proof (cases "p = a + 16")
    case True
    with Cons.prems(2) show ?thesis by (intro Cons.prems(1) [of "[]" b bs]) (auto split: if_splits)
  next
    case False
    with Cons.prems(2) have "live_from (a + (16 + bsize b)) bs p = Some s" by simp
    then obtain xs c ys where "bs = xs @ c # ys" "bused c" "bsize c = s"
      "p = a + (16 + bsize b) + span xs + 16"
      using Cons.IH by metis
    then show ?thesis by (intro Cons.prems(1) [of "b # xs" c ys]) auto
  qed
qed simp

lemma live_separate:
  assumes "live_from a bs p = Some s" "live_from a bs q = Some t" "p < q"
  shows "p + s < q"
proof -
  obtain xs b ys where b: "bs = xs @ b # ys" "bsize b = s" "p = a + span xs + 16"
    using live_split [OF assms(1)] by metis
  have "live_from (a + span xs + (16 + s)) ys q = Some t"
    using assms(2,3) b by (auto simp: live_append split: if_splits)
  from live_range [OF this] b(3) show ?thesis by simp
qed

lemma live_not_header:
  assumes "live_from a bs p = Some s" "p \<le> x" "x < p + s"
  shows "\<not> header_byte a bs x"
proof -
  obtain xs b ys where b: "bs = xs @ b # ys" "bsize b = s" "p = a + span xs + 16"
    using live_split [OF assms(1)] by metis
  show ?thesis
    using header_byte_range [of a xs x] header_byte_range [of "a + span xs + (16 + s)" ys x] assms(2,3) b
    by (auto simp: header_byte_append)
qed

lemma live_carve:
  assumes "\<not> bused b" "n \<le> bsize b" "carve n xs b ys = (bs', off)"
  shows "live_from a (xs @ b # ys) (a + off) = None"
    "\<exists>s\<ge>n. live_from a bs' = (live_from a (xs @ b # ys))(a + off \<mapsto> s)"
proof -
  show "live_from a (xs @ b # ys) (a + off) = None"
    using assms live_low [of "a + off" "a + span xs + (16 + bsize b)" ys]
    by (auto simp: carve_def live_append split: if_splits)
  show "\<exists>s\<ge>n. live_from a bs' = (live_from a (xs @ b # ys))(a + off \<mapsto> s)"
  proof (cases "n + 16 \<le> bsize b")
    case True
    then have "live_from a bs' = (live_from a (xs @ b # ys))(a + off \<mapsto> n)"
      using assms by (intro ext) (auto simp: carve_def live_append live_low ac_simps)
    then show ?thesis by blast
  next
    case False
    then have "live_from a bs' = (live_from a (xs @ b # ys))(a + off \<mapsto> bsize b)"
      using assms by (intro ext) (auto simp: carve_def live_append)
    then show ?thesis using assms(2) by blast
  qed
qed

lemma live_free:
  "live_from a (abs_free xs b ys) = (live_from a (xs @ b # ys))(a + span xs + 16 := None)"
proof -
  have next': "live_from a' (join_next (Blk (bsize b) False) ys) p
      = (if p = a' + 16 then None else live_from a' (b # ys) p)" for a' p
    by (cases ys) (auto simp: join_next_def live_low add.assoc)
  obtain c zs where c: "join_next (Blk (bsize b) False) ys = c # zs"
    using join_next_nonempty by (metis list.exhaust)
  have fc: "\<not> bused c" using c by (auto simp: join_next_def split: if_splits)
  have prev': "live_from a (join_prev xs (c # zs)) p = live_from a (xs @ c # zs) p" for p
    using fc by (cases xs rule: rev_cases) (auto simp: join_prev_def live_append live_low add.assoc)
  show ?thesis
    using next' [of "a + span xs", unfolded c]
    by (intro ext) (simp add: abs_free_def c prev' live_append del: live_from.simps)
qed

section \<open>The allocator interface, discharged\<close>

definition heap_poke :: "nat \<Rightarrow> u8 \<Rightarrow> heap \<Rightarrow> heap" where
  "heap_poke x v h = h\<lparr>hmem := (hmem h)(x := v)\<rparr>"

lemma heap_ok_live: "heap_ok area h \<Longrightarrow> heap_live h = live_from (unat area) (heap_blocks h)"
  by (simp add: heap_ok_def heap_live_rep)

text \<open>Writes that touch no header keep the heap and its live payloads.\<close>

lemma heap_payload_write:
  assumes "heap_ok area h"
    and "\<And>x. header_byte (unat area) (heap_blocks h) x \<Longrightarrow> m x = hmem h x"
  shows "heap_ok area (h\<lparr>hmem := m\<rparr>)" "heap_live (h\<lparr>hmem := m\<rparr>) = heap_live h"
    "heap_blocks (h\<lparr>hmem := m\<rparr>) = heap_blocks h"
proof -
  have "heap_rep area (h\<lparr>hmem := m\<rparr>) (heap_blocks h)"
    using assms seg_frame [of "unat area" "heap_blocks h" m "hmem h"]
    by (simp add: heap_ok_def heap_rep_def)
  then show "heap_ok area (h\<lparr>hmem := m\<rparr>)" "heap_live (h\<lparr>hmem := m\<rparr>) = heap_live h"
    "heap_blocks (h\<lparr>hmem := m\<rparr>) = heap_blocks h"
    using assms(1) by (auto simp: heap_rep_ok heap_live_rep heap_ok_live heap_blocks_rep)
qed

lemma malloc_ok:
  assumes ok: "heap_ok area h"
  obtains "malloc n h = Some (0, h)" "best_fit (unat n) (heap_blocks h) = None"
  | p h' s where "malloc n h = Some (p, h')" "p \<noteq> 0" "heap_ok area h'" "heap_live h (unat p) = None"
    "unat n \<le> s" "heap_live h' = (heap_live h)(unat p \<mapsto> s)"
    "abs_malloc (unat n) (heap_blocks h) = (heap_blocks h', Some (unat p - unat area))"
    "\<And>q t k. heap_live h q = Some t \<Longrightarrow> k < t \<Longrightarrow> hmem h' (q + k) = hmem h (q + k)"
proof -
  have rep: "heap_rep area h (heap_blocks h)" using ok by (simp add: heap_ok_def)
  show thesis
  proof (rule malloc_rep [OF rep, of n])
    fix bs' assume "abs_malloc (unat n) (heap_blocks h) = (bs', None)" "malloc n h = Some (0, h)"
    then show thesis
      by (intro that(1)) (auto simp: abs_malloc_def split: option.splits prod.splits)
  next
    fix h' bs' off
    assume abs: "abs_malloc (unat n) (heap_blocks h) = (bs', Some off)"
      and m: "malloc n h = Some (of_nat (unat area + off), h')" and rep': "heap_rep area h' bs'"
      and fr: "\<And>x. \<not> header_byte (unat area) bs' x \<Longrightarrow> hmem h' x = hmem h x"
    from abs obtain i where i: "best_fit (unat n) (heap_blocks h) = Some i"
      "carve (unat n) (take i (heap_blocks h)) (heap_blocks h ! i) (drop (Suc i) (heap_blocks h)) = (bs', off)"
      by (auto simp: abs_malloc_def split: option.splits prod.splits)
    have c: "\<not> bused (heap_blocks h ! i)" "unat n \<le> bsize (heap_blocks h ! i)"
      using best_fit_Some(2) [OF i(1)] by (auto simp: candidate_def)
    have bs: "take i (heap_blocks h) @ heap_blocks h ! i # drop (Suc i) (heap_blocks h) = heap_blocks h"
      using split_at [OF best_fit_Some(1) [OF i(1)]] by simp
    from live_carve [OF c i(2), unfolded bs, of "unat area"] obtain s where
      s: "live_from (unat area) (heap_blocks h) (unat area + off) = None" "unat n \<le> s"
      "live_from (unat area) bs' = (live_from (unat area) (heap_blocks h))(unat area + off \<mapsto> s)" by blast
    have "live_from (unat area) bs' (unat area + off) = Some s" using s(3) by simp
    from live_range [OF this] heap_repD(2,3) [OF rep']
    have p: "unat (of_nat (unat area + off) :: u32) = unat area + off"
        "(of_nat (unat area + off) :: u32) \<noteq> 0"
      by (auto simp: unat_of_nat32 of_nat32_eq_0 simp del: of_nat_add)
    have live': "heap_live h' = live_from (unat area) bs'" using rep' by (rule heap_live_rep)
    show thesis
    proof (rule that(2) [OF m p(2) heap_rep_ok [OF rep'] _ s(2)])
      show "heap_live h (unat (of_nat (unat area + off) :: u32)) = None"
        "heap_live h' = (heap_live h)(unat (of_nat (unat area + off) :: u32) \<mapsto> s)"
        unfolding p live' heap_live_rep [OF rep] using s by simp_all
      show "abs_malloc (unat n) (heap_blocks h)
          = (heap_blocks h', Some (unat (of_nat (unat area + off) :: u32) - unat area))"
        unfolding p using abs heap_blocks_rep [OF rep'] by simp
      fix q t k assume q: "heap_live h q = Some t" "k < t"
      then have "q \<noteq> unat area + off" using s(1) heap_live_rep [OF rep] by auto
      with q have "live_from (unat area) bs' q = Some t"
        using s(3) heap_live_rep [OF rep] by simp
      from live_not_header [OF this, of "q + k"] q(2) show "hmem h' (q + k) = hmem h (q + k)"
        by (intro fr) simp
    qed
  qed
qed

lemma mem_free_ok:
  assumes ok: "heap_ok area h" and p: "heap_live h (unat p) = Some s"
  shows "heap_ok area (mem_free p h)"
    and "heap_live (mem_free p h) = (heap_live h)(unat p := None)"
    and "heap_live h q = Some t \<Longrightarrow> k < t \<Longrightarrow> hmem (mem_free p h) (q + k) = hmem h (q + k)"
proof -
  have rep: "heap_rep area h (heap_blocks h)" using ok by (simp add: heap_ok_def)
  note l = heap_live_rep [OF rep]
  obtain xs b ys where b: "heap_blocks h = xs @ b # ys" "bused b" "unat p = unat area + span xs + 16"
    using live_split [OF p [unfolded l]] by metis
  have peq: "p = of_nat (unat area + span xs + 16)" by (simp flip: b(3))
  note fr = mem_free_rep [OF rep [unfolded b(1)] b(2) peq]
  show "heap_ok area (mem_free p h)" using fr(1) by (rule heap_rep_ok)
  show "heap_live (mem_free p h) = (heap_live h)(unat p := None)"
    unfolding heap_live_rep [OF fr(1)] l b(1) live_free b(3) ..
  assume q: "heap_live h q = Some t" "k < t"
  show "hmem (mem_free p h) (q + k) = hmem h (q + k)"
    using live_not_header [OF q(1) [unfolded l b(1)], of "q + k"] q(2) by (intro fr(2)) simp
qed

text \<open>Nothing outside the array changes.\<close>

definition outside :: "u32 \<Rightarrow> nat \<Rightarrow> bool" where
  "outside area x \<longleftrightarrow> x < unat area \<or> unat area + 1048576 \<le> x"

lemma malloc_outside:
  assumes "heap_ok area h" and "malloc n h = Some (p, h')" and "outside area x"
  shows "hmem h' x = hmem h x"
proof -
  have rep: "heap_rep area h (heap_blocks h)" using assms by (simp add: heap_ok_def)
  show ?thesis
  proof (rule malloc_rep [OF rep, of n])
    fix h1 bs' off
    assume m: "malloc n h = Some (of_nat (unat area + off), h1)" and rep': "heap_rep area h1 bs'"
      and fr: "\<And>x. \<not> header_byte (unat area) bs' x \<Longrightarrow> hmem h1 x = hmem h x"
    have "\<not> header_byte (unat area) bs' x"
      using header_byte_range [of "unat area" bs' x] rep' assms(3) by (auto simp: heap_rep_def outside_def)
    then show ?thesis using m fr assms(2) by simp
  qed (use assms in auto)
qed

lemma mem_free_outside:
  assumes "heap_ok area h" and p: "heap_live h (unat p) = Some s" and "outside area x"
  shows "hmem (mem_free p h) x = hmem h x"
proof -
  have rep: "heap_rep area h (heap_blocks h)" using assms by (simp add: heap_ok_def)
  note l = heap_live_rep [OF rep]
  obtain xs b ys where b: "heap_blocks h = xs @ b # ys" "bused b" "unat p = unat area + span xs + 16"
    using live_split [OF p [unfolded l]] by metis
  have peq: "p = of_nat (unat area + span xs + 16)" by (simp flip: b(3))
  show ?thesis
    using header_byte_range [of "unat area" "xs @ b # ys" x] rep assms(3) b(1)
    by (intro mem_free_rep(2) [OF rep [unfolded b(1)] b(2) peq]) (auto simp: heap_rep_def outside_def)
qed

interpretation kheap: allocator "heap_ok area" heap_live hmem malloc mem_free heap_poke
proof
  fix n p h h' q s k v a b t x
  show "heap_ok area h \<Longrightarrow> \<exists>p h'. malloc n h = Some (p, h')"
    by (rule malloc_ok [of area h n]) auto
  show "heap_ok area h \<Longrightarrow> malloc n h = Some (p, h') \<Longrightarrow> heap_ok area h'"
    by (rule malloc_ok [of area h n]) auto
  show "heap_ok area h \<Longrightarrow> malloc n h = Some (0, h') \<Longrightarrow> h' = h"
    by (rule malloc_ok [of area h n]) auto
  show "heap_ok area h \<Longrightarrow> malloc n h = Some (p, h') \<Longrightarrow> p \<noteq> 0 \<Longrightarrow>
        heap_live h (unat p) = None \<and> (\<exists>s\<ge>unat n. heap_live h' = (heap_live h)(unat p \<mapsto> s))"
    by (rule malloc_ok [of area h n]) auto
  show "heap_ok area h \<Longrightarrow> malloc n h = Some (p, h') \<Longrightarrow> heap_live h q = Some s \<Longrightarrow> k < s \<Longrightarrow>
        hmem h' (q + k) = hmem h (q + k)"
    by (rule malloc_ok [of area h n]) auto
  show "heap_ok area h \<Longrightarrow> heap_live h (unat p) = Some s \<Longrightarrow> heap_ok area (mem_free p h)"
    by (rule mem_free_ok(1))
  show "heap_ok area h \<Longrightarrow> heap_live h (unat p) = Some s \<Longrightarrow>
        heap_live (mem_free p h) = (heap_live h)(unat p := None)"
    by (rule mem_free_ok(2))
  show "heap_ok area h \<Longrightarrow> heap_live h (unat p) = Some s \<Longrightarrow> heap_live h q = Some t \<Longrightarrow> k < t \<Longrightarrow>
        hmem (mem_free p h) (q + k) = hmem h (q + k)"
    by (rule mem_free_ok(3))
  show "heap_ok area h \<Longrightarrow> heap_live h a = Some s \<Longrightarrow> heap_live h b = Some t \<Longrightarrow> a < b \<Longrightarrow> a + s < b"
    by (simp add: heap_ok_live live_separate)
  show "heap_ok area h \<Longrightarrow> heap_live h a = Some s \<Longrightarrow> k < s \<Longrightarrow> heap_ok area (heap_poke (a + k) v h)"
    unfolding heap_poke_def
    by (rule heap_payload_write) (auto simp: heap_ok_live dest: live_not_header [of _ _ _ _ "a + k"])
  show "heap_ok area h \<Longrightarrow> heap_live h a = Some s \<Longrightarrow> k < s \<Longrightarrow> heap_live (heap_poke (a + k) v h) = heap_live h"
    unfolding heap_poke_def
    by (rule heap_payload_write) (auto simp: heap_ok_live dest: live_not_header [of _ _ _ _ "a + k"])
  show "hmem (heap_poke x v h) = (hmem h)(x := v)"
    by (simp add: heap_poke_def)
qed

section \<open>realloc\<close>

lemma realloc_copy_apply:
  assumes "ld32 m (unat node) = of_nat s" "s < 2 ^ 32" "i \<le> s"
    and "unat node + 4 \<le> unat dst \<or> unat dst + s \<le> unat node"
    and "unat src + s \<le> unat dst \<or> unat dst + s \<le> unat src"
  shows "realloc_copy node src dst m (of_nat i) x =
    (if unat dst + i \<le> x \<and> x < unat dst + s then m (unat src + (x - unat dst)) else m x)"
  using assms
proof (induction "s - i" arbitrary: i m)
  case 0
  then have "i = s" by simp
  then show ?case
    using "0.prems"(1) by (subst realloc_copy.simps) (auto simp: node_size_def)
next
  case (Suc n)
  then have i: "i < s" "unat (of_nat i :: u32) = i" by (auto intro!: unat_of_nat32)
  let ?m = "m(unat dst + i := m (unat src + i))"
  have lt: "of_nat i < node_size m node"
    using Suc.prems i by (simp add: node_size_def of_nat32_less)
  have "realloc_copy node src dst m (of_nat i) x = realloc_copy node src dst ?m (of_nat (Suc i)) x"
    using lt i(2) by (subst realloc_copy.simps) (simp add: add.commute)
  also have "\<dots> = (if unat dst + Suc i \<le> x \<and> x < unat dst + s then ?m (unat src + (x - unat dst)) else ?m x)"
  proof (rule Suc.hyps(1))
    show "ld32 ?m (unat node) = of_nat s"
      using Suc.prems i by (subst ld32_upd_other) auto
  qed (use Suc i in auto)
  also have "\<dots> = (if unat dst + i \<le> x \<and> x < unat dst + s then m (unat src + (x - unat dst)) else m x)"
    using Suc.prems(5) i by auto
  finally show ?case .
qed

text \<open>The header in front of a live payload.\<close>

lemma live_header:
  assumes ok: "heap_ok area h" and p: "heap_live h (unat p) = Some s"
  shows "node_size (hmem h) (p - NODE_SIZE) = of_nat s" "unat (p - NODE_SIZE) + 16 = unat p"
    "s \<le> 1048576" "unat area + 16 \<le> unat p" "unat p + s \<le> unat area + 1048576"
    "header_byte (unat area) (heap_blocks h) x \<or> \<not> (unat (p - NODE_SIZE) \<le> x \<and> x < unat p)"
proof -
  have rep: "heap_rep area h (heap_blocks h)" using ok by (simp add: heap_ok_def)
  note r = heap_repD [OF rep]
  obtain xs b ys where b: "heap_blocks h = xs @ b # ys" "bsize b = s" "unat p = unat area + span xs + 16"
    using live_split [OF p [unfolded heap_live_rep [OF rep]]] by metis
  have "unat NODE_SIZE \<le> unat p" using b(3) by (simp add: NODE_SIZE_def)
  then have u: "unat (p - NODE_SIZE) = unat area + span xs"
    using b(3) by (simp add: unat_sub word_le_nat_alt NODE_SIZE_def)
  then show "unat (p - NODE_SIZE) + 16 = unat p" using b(3) by simp
  show "node_size (hmem h) (p - NODE_SIZE) = of_nat s"
    using r(7) b by (simp add: node_size_def u seg_append hdr_def)
  have "span (xs @ b # ys) = 1048576" using r(5) b(1) by simp
  then show "s \<le> 1048576" "unat area + 16 \<le> unat p" "unat p + s \<le> unat area + 1048576"
    using b(2,3) by auto
  show "header_byte (unat area) (heap_blocks h) x \<or> \<not> (unat (p - NODE_SIZE) \<le> x \<and> x < unat p)"
    using b u by (auto simp: header_byte_append)
qed

lemma live_in_area:
  assumes ok: "heap_ok area h" and p: "heap_live h (unat p) = Some s" and s: "0 < s"
  shows "p \<noteq> 0" "\<not> p < area" "\<not> area + DYNAMIC_MEM_TOTAL_SIZE \<le> p"
proof -
  note l = live_header(4,5) [OF ok p]
  have "unat area + 1048576 < 2 ^ 32" using ok by (simp add: heap_ok_def heap_rep_def)
  then have "unat (area + DYNAMIC_MEM_TOTAL_SIZE) = unat area + 1048576"
    by (simp add: DYNAMIC_MEM_TOTAL_SIZE_def unat_word_ariths)
  with l s show "p \<noteq> 0" "\<not> p < area" "\<not> area + DYNAMIC_MEM_TOTAL_SIZE \<le> p"
    by (auto simp: word_less_nat_alt word_le_nat_alt)
qed

text \<open>
  A live payload that grows: either it stays where it is, or the request fails and nothing
  changes, or its bytes are copied to a new payload and the old one is released.
\<close>

lemma realloc_cases:
  assumes ok: "heap_ok area h" and p: "heap_live h (unat p) = Some s" and s: "0 < s" and sz: "sz \<noteq> 0"
  obtains "unat sz \<le> s" "realloc area p sz h = Some (p, h)"
  | "s < unat sz" "realloc area p sz h = Some (0, h)" "best_fit (unat sz) (heap_blocks h) = None"
  | q h' t where "s < unat sz" "realloc area p sz h = Some (q, h')" "q \<noteq> 0" "heap_ok area h'"
    "heap_live h (unat q) = None" "unat sz \<le> t" "heap_live h' = (heap_live h)(unat q \<mapsto> t, unat p := None)"
    "\<And>k. k < s \<Longrightarrow> hmem h' (unat q + k) = hmem h (unat p + k)"
    "\<And>r u k. heap_live h r = Some u \<Longrightarrow> r \<noteq> unat p \<Longrightarrow> k < u \<Longrightarrow> hmem h' (r + k) = hmem h (r + k)"
    "\<exists>h1 h2. malloc sz h = Some (q, h1) \<and> heap_ok area h2 \<and> heap_blocks h2 = heap_blocks h1
      \<and> heap_live h2 (unat p) = Some s \<and> h' = mem_free p h2"
    "\<And>x. outside area x \<Longrightarrow> hmem h' x = hmem h x"
proof -
  note hd = live_header [OF ok p]
  have cmp: "sz \<le> node_size (hmem h) (p - NODE_SIZE) \<longleftrightarrow> unat sz \<le> s"
    using hd(3) by (simp add: hd(1) word_le_nat_alt unat_of_nat32)
  have start: "realloc area p sz h = (if unat sz \<le> s then Some (p, h) else
      do { (new_p, h1) \<leftarrow> malloc sz h;
           Some (if new_p = 0 then (0, h1)
                 else let h2 = h1\<lparr>hmem := realloc_copy (p - NODE_SIZE) p new_p (hmem h1) 0\<rparr>
                      in (new_p, mem_free p h2)) })"
    using live_in_area [OF ok p s] sz cmp by (simp add: realloc_def Let_def)
  show thesis
  proof (cases "unat sz \<le> s")
    case True
    then show thesis using start by (intro that(1)) auto
  next
    case big: False
    show thesis
    proof (rule malloc_ok [OF ok, of sz])
      assume "malloc sz h = Some (0, h)" "best_fit (unat sz) (heap_blocks h) = None"
      then show thesis using big start by (intro that(2)) auto
    next
      fix q h1 t
      assume m: "malloc sz h = Some (q, h1)" and q0: "q \<noteq> 0" and ok1: "heap_ok area h1"
        and fresh: "heap_live h (unat q) = None" and t: "unat sz \<le> t"
        and live1: "heap_live h1 = (heap_live h)(unat q \<mapsto> t)"
        and keep: "\<And>r u k. heap_live h r = Some u \<Longrightarrow> k < u \<Longrightarrow> hmem h1 (r + k) = hmem h (r + k)"
      have qp: "unat q \<noteq> unat p" using fresh p by auto
      have lp: "heap_live h1 (unat p) = Some s" and lq: "heap_live h1 (unat q) = Some t"
        using live1 p qp by auto
      note hd1 = live_header [OF ok1 lp]
      have sep: "unat p + s < unat q \<or> unat q + t < unat p"
        using kheap.separate [OF ok1 lp lq] kheap.separate [OF ok1 lq lp] qp
        by (cases "unat p < unat q") auto
      let ?m = "realloc_copy (p - NODE_SIZE) p q (hmem h1) 0"
      have node: "unat (p - NODE_SIZE) + 4 \<le> unat q \<or> unat q + s \<le> unat (p - NODE_SIZE)"
      proof (rule ccontr)
        assume c: "\<not> ?thesis"
        then have "unat q \<le> unat (p - NODE_SIZE) \<or> unat (p - NODE_SIZE) < unat q \<and> unat q < unat (p - NODE_SIZE) + 4"
          by auto
        moreover have "live_from (unat area) (heap_blocks h1) (unat q) = Some t"
          using lq heap_ok_live [OF ok1] by simp
        ultimately show False
          using live_not_header [of "unat area" "heap_blocks h1" "unat q" t "max (unat q) (unat (p - NODE_SIZE))"]
            hd1(2) hd1(6) [of "max (unat q) (unat (p - NODE_SIZE))"] c big t by auto
      qed
      have copy: "?m x = (if unat q \<le> x \<and> x < unat q + s then hmem h1 (unat p + (x - unat q)) else hmem h1 x)" for x
        using realloc_copy_apply [of "hmem h1" "p - NODE_SIZE" s 0 q p x] hd1(1,3) node sep big t
        by (auto simp: node_size_def)
      let ?h2 = "h1\<lparr>hmem := ?m\<rparr>"
      have hb: "?m x = hmem h1 x" if "header_byte (unat area) (heap_blocks h1) x" for x
        using that live_not_header [of "unat area" "heap_blocks h1" "unat q" t x] lq big t
        by (auto simp: copy heap_ok_live [OF ok1])
      have pw: "heap_ok area ?h2" "heap_live ?h2 = heap_live h1" "heap_blocks ?h2 = heap_blocks h1"
        using heap_payload_write [OF ok1, of ?m] hb by auto
      have lp2: "heap_live ?h2 (unat p) = Some s" using pw(2) lp by simp
      note fr = mem_free_ok [OF pw(1) lp2]
      show thesis
      proof (rule that(3))
        show "s < unat sz" using big by simp
        show "realloc area p sz h = Some (q, mem_free p ?h2)"
          using start big m q0 by simp
        show "heap_live (mem_free p ?h2) = (heap_live h)(unat q \<mapsto> t, unat p := None)"
          using fr(2) pw(2) live1 by simp
        show "\<exists>h1 h2. malloc sz h = Some (q, h1) \<and> heap_ok area h2 \<and> heap_blocks h2 = heap_blocks h1
            \<and> heap_live h2 (unat p) = Some s \<and> mem_free p ?h2 = mem_free p h2"
          using m pw lp2 by blast
        show "hmem (mem_free p ?h2) x = hmem h x" if x: "outside area x" for x
        proof -
          have "unat area + 16 \<le> unat q" "unat q + t \<le> unat area + 1048576" using live_header(4,5) [OF ok1 lq] by auto
          then have "?m x = hmem h1 x" using x big t by (auto simp: copy outside_def)
          then show ?thesis using mem_free_outside [OF pw(1) lp2 x] malloc_outside [OF ok m x] by simp
        qed
        fix k assume k: "k < s"
        have "heap_live ?h2 (unat q) = Some t" using pw(2) lq by simp
        from fr(3) [OF this, of k] k big t have "hmem (mem_free p ?h2) (unat q + k) = ?m (unat q + k)"
          by simp
        also have "\<dots> = hmem h (unat p + k)"
          using k keep [OF p, of k] by (simp add: copy)
        finally show "hmem (mem_free p ?h2) (unat q + k) = hmem h (unat p + k)" .
      next
        fix r u k assume r: "heap_live h r = Some u" "r \<noteq> unat p" "k < u"
        have rq: "r \<noteq> unat q" using r(1) fresh by auto
        then have r1: "heap_live h1 r = Some u" using live1 r(1) by simp
        have "unat q + t < r \<or> r + u < unat q"
          using kheap.separate [OF ok1 r1 lq] kheap.separate [OF ok1 lq r1] rq
          by (cases "r < unat q") auto
        then have "?m (r + k) = hmem h1 (r + k)" using r(3) big t by (auto simp: copy)
        moreover have "heap_live ?h2 r = Some u" using pw(2) r1 by simp
        ultimately show "hmem (mem_free p ?h2) (r + k) = hmem h (r + k)"
          using fr(3) [of r u k] r keep [OF r(1), of k] by simp
      qed (use q0 fr(1) fresh t in auto)
    qed
  qed
qed

section \<open>Every use of the heap\<close>

text \<open>
  What a kernel client does: request, resize or release a payload it owns, or write inside one.
\<close>

inductive heap_step :: "u32 \<Rightarrow> heap \<Rightarrow> heap \<Rightarrow> bool" for area where
  alloc: "malloc n h = Some (p, h') \<Longrightarrow> heap_step area h h'"
| free: "heap_live h (unat p) = Some s \<Longrightarrow> heap_step area h (mem_free p h)"
| resize: "heap_live h (unat p) = Some s \<Longrightarrow> 0 < s \<Longrightarrow> realloc area p n h = Some (q, h') \<Longrightarrow> heap_step area h h'"
| store: "heap_live h p = Some s \<Longrightarrow> k < s \<Longrightarrow> heap_step area h (heap_poke (p + k) v h)"

inductive heap_reachable :: "u32 \<Rightarrow> heap \<Rightarrow> bool" for area where
  init: "heap_reachable area (init_dynamic_mem area h)"
| step: "heap_reachable area h \<Longrightarrow> heap_step area h h' \<Longrightarrow> heap_reachable area h'"

lemma heap_step_ok: "heap_step area h h' \<Longrightarrow> heap_ok area h \<Longrightarrow> heap_ok area h'"
proof (induction rule: heap_step.induct)
  case (alloc n h p h')
  then show ?case by (blast intro: kheap.alloc_inv)
next
  case (free h p s)
  then show ?case by (blast intro: mem_free_ok)
next
  case (resize h p s n q h')
  show ?case
  proof (cases "n = 0")
    case True
    then have "h' = mem_free p h"
      using resize live_in_area(1) [of area h p s] by (simp add: realloc_def)
    then show ?thesis using resize mem_free_ok by blast
  next
    case False
    then show ?thesis
      using resize(3,4) by (cases rule: realloc_cases [OF resize(4,1,2), of n]) auto
  qed
next
  case (store h p s k v)
  then show ?case by (blast intro: kheap.poke_inv)
qed

lemma heap_reachable_ok:
  assumes "heap_reachable area h" "area \<noteq> 0" "unat area + 1048576 < 2 ^ 32"
  shows "heap_ok area h"
  using assms(1)
proof (induction rule: heap_reachable.induct)
  case (init h)
  then show ?case using heap_rep_ok [OF init_rep [OF assms(2,3)]] .
next
  case (step h h')
  then show ?case by (blast intro: heap_step_ok)
qed

lemma malloc_then_free:
  assumes ok: "heap_ok area h" and m: "malloc n h = Some (p, h1)" and p0: "p \<noteq> 0"
  shows "heap_blocks (mem_free p h1) = heap_blocks h"
proof (rule malloc_ok [OF ok, of n])
  fix q h' s
  assume m': "malloc n h = Some (q, h')" and ok': "heap_ok area h'"
    and s: "heap_live h' = (heap_live h)(unat q \<mapsto> s)"
    and abs: "abs_malloc (unat n) (heap_blocks h) = (heap_blocks h', Some (unat q - unat area))"
  from m m' have eq: "q = p" "h' = h1" by simp_all
  have rep: "heap_rep area h (heap_blocks h)" "heap_rep area h1 (heap_blocks h1)"
    using ok ok' eq by (auto simp: heap_ok_def)
  from abs obtain i where i: "best_fit (unat n) (heap_blocks h) = Some i"
    "carve (unat n) (take i (heap_blocks h)) (heap_blocks h ! i) (drop (Suc i) (heap_blocks h))
      = (heap_blocks h1, unat p - unat area)"
    by (auto simp: abs_malloc_def eq split: option.splits prod.splits)
  obtain xs b ys where xs: "xs = take i (heap_blocks h)" "b = heap_blocks h ! i"
    "ys = drop (Suc i) (heap_blocks h)" by simp
  have bs: "xs @ b # ys = heap_blocks h"
    using split_at [OF best_fit_Some(1) [OF i(1)]] by (simp add: xs)
  have free: "\<not> bused b" "unat n \<le> bsize b" and co: "coalesced (xs @ b # ys)"
    using best_fit_Some(2) [OF i(1)] heap_repD(6) [OF rep(1)] bs by (auto simp: candidate_def xs(2))
  have "heap_live h1 (unat p) = Some s" using s eq by simp
  from live_header(4) [OF ok' [unfolded eq] this]
  have up: "unat p = unat area + (unat p - unat area)" by simp
  have peq: "unat p = k \<Longrightarrow> p = of_nat k" for k by auto
  show ?thesis
  proof (cases "unat n + 16 \<le> bsize b")
    case True
    let ?us = "xs @ [Blk (bsize b - (unat n + 16)) False]"
    have b1: "heap_blocks h1 = ?us @ Blk (unat n) True # ys" "unat p - unat area = span xs + 16 + (bsize b - unat n)"
      using i(2) True by (auto simp: carve_def xs)
    have "unat p = unat area + span ?us + 16" using up b1(2) True by simp
    from mem_free_rep(1) [OF rep(2) [unfolded b1(1)] _ peq [OF this]]
    have "heap_rep area (mem_free p h1) (abs_free ?us (Blk (unat n) True) ys)" by simp
    then show ?thesis
      using tail_then_free [OF co free(1) True] bs by (simp add: heap_blocks_rep)
  next
    case False
    have b1: "heap_blocks h1 = xs @ Blk (bsize b) True # ys" "unat p - unat area = span xs + 16"
      using i(2) False by (auto simp: carve_def xs)
    have "unat p = unat area + span xs + 16" using up b1(2) by simp
    from mem_free_rep(1) [OF rep(2) [unfolded b1(1)] _ peq [OF this]]
    have "heap_rep area (mem_free p h1) (abs_free xs (Blk (bsize b) True) ys)" by simp
    then show ?thesis
      using whole_then_free [OF co free(1)] bs by (simp add: heap_blocks_rep)
  qed
qed (use m p0 in auto)

section \<open>Properties\<close>

text \<open>
  A concrete heap for the witnesses: the array at \<open>0x200000\<close> in a zeroed memory, with one
  request for 100 bytes, whose payload is at \<open>0x2FFF9C\<close>.
\<close>

definition heap0 :: heap where
  "heap0 = init_dynamic_mem 0x200000 \<lparr>hmem = (\<lambda>_. 0), dynamic_mem_start = 0\<rparr>"

lemma heap0_rep: "heap_rep 0x200000 heap0 [Blk 1048560 False]"
  unfolding heap0_def by (rule init_rep) simp_all

lemma heap0_ok: "heap_ok 0x200000 heap0"
  using heap0_rep by (rule heap_rep_ok)

lemma heap0_malloc:
  obtains h1 where "malloc 100 heap0 = Some (0x2FFF9C, h1)"
    "heap_rep 0x200000 h1 [Blk 1048444 False, Blk 100 True]"
proof (rule malloc_rep [OF heap0_rep, of 100])
  fix h' bs' off
  assume "abs_malloc (unat (100::u32)) [Blk 1048560 False] = (bs', Some off)"
    and m: "malloc 100 heap0 = Some (of_nat (unat (0x200000::u32) + off), h')"
    and r: "heap_rep 0x200000 h' bs'"
  then have "bs' = [Blk 1048444 False, Blk 100 True]" "off = 1048476"
    by (auto simp: abs_malloc_def best_fit_def carve_def)
  with m r show thesis by (intro that) simp_all
qed (simp add: abs_malloc_def best_fit_def carve_def)

text \<open>
  C1. In every state that requests, releases, resizes and client writes can reach from
  \<open>init_dynamic_mem\<close>, the headers tile the whole array without a gap, are linked
  consistently in both directions, and no two neighbouring blocks are both free.
\<close>

theorem heap_invariant:
  assumes "heap_reachable area h" "area \<noteq> 0" "unat area + 1048576 < 2 ^ 32"
  shows "seg (hmem h) 0 (unat area) (heap_blocks h) 0 \<and> span (heap_blocks h) = 1048576
    \<and> coalesced (heap_blocks h) \<and> dynamic_mem_start h = area"
  using heap_reachable_ok [OF assms] by (auto simp: heap_ok_def heap_rep_def)

theorem heap_invariant_witness:
  "\<exists>h1. malloc 100 heap0 = Some (0x2FFF9C, h1) \<and> span (heap_blocks h1) = 1048576
     \<and> coalesced (heap_blocks h1)"
proof -
  obtain h1 where m: "malloc 100 heap0 = Some (0x2FFF9C, h1)" by (rule heap0_malloc)
  have "heap_reachable 0x200000 h1"
    using heap_reachable.init [of "0x200000" "\<lparr>hmem = (\<lambda>_. 0), dynamic_mem_start = 0\<rparr>"]
      heap_step.alloc [OF m] unfolding heap0_def by (rule heap_reachable.step)
  from heap_invariant [OF this] m show ?thesis by auto
qed

text \<open>
  C2. \<open>malloc\<close> implements the contract: on a well-formed heap it always returns, hands out
  the offset that \<open>abs_malloc\<close> gives (or the null pointer), leaves the block list
  \<open>abs_malloc\<close> gives, keeps the heap well-formed and every byte of a live payload.
\<close>

theorem malloc_refines:
  assumes "heap_ok area h"
  shows "\<exists>p h'. malloc n h = Some (p, h') \<and> heap_ok area h'
    \<and> abs_malloc (unat n) (heap_blocks h)
        = (heap_blocks h', if p = 0 then None else Some (unat p - unat area))
    \<and> (\<forall>q t k. heap_live h q = Some t \<and> k < t \<longrightarrow> hmem h' (q + k) = hmem h (q + k))"
proof (rule malloc_ok [OF assms, of n])
  assume "malloc n h = Some (0, h)" "best_fit (unat n) (heap_blocks h) = None"
  with assms show ?thesis by (simp add: abs_malloc_def)
next
  fix p h' s
  assume "malloc n h = Some (p, h')" "p \<noteq> 0" "heap_ok area h'"
    "abs_malloc (unat n) (heap_blocks h) = (heap_blocks h', Some (unat p - unat area))"
    "\<And>q t k. heap_live h q = Some t \<Longrightarrow> k < t \<Longrightarrow> hmem h' (q + k) = hmem h (q + k)"
  then show ?thesis by auto
qed

theorem malloc_refines_witness:
  "\<exists>p h'. malloc 100 heap0 = Some (p, h') \<and> heap_ok 0x200000 h'"
  using malloc_refines [OF heap0_ok, of 100] by blast

text \<open>
  Best fit: \<open>malloc\<close> returns the null pointer exactly when no free block is large enough,
  and then changes nothing; otherwise the payload lies inside a smallest free block that is
  large enough.
\<close>

theorem malloc_best_fit:
  assumes ok: "heap_ok area h" and m: "malloc n h = Some (p, h')"
  shows "(p = 0 \<longleftrightarrow> (\<forall>b\<in>set (heap_blocks h). bused b \<or> bsize b < unat n)) \<and> (p = 0 \<longrightarrow> h' = h)
    \<and> (p \<noteq> 0 \<longrightarrow> (\<exists>i<length (heap_blocks h). candidate (unat n) (heap_blocks h ! i)
         \<and> (\<forall>b\<in>set (heap_blocks h). candidate (unat n) b \<longrightarrow> bsize (heap_blocks h ! i) \<le> bsize b)
         \<and> unat area + span (take i (heap_blocks h)) + 16 \<le> unat p
         \<and> unat p + unat n \<le> unat area + span (take (Suc i) (heap_blocks h))))"
proof (rule malloc_ok [OF ok, of n])
  assume "malloc n h = Some (0, h)" and none: "best_fit (unat n) (heap_blocks h) = None"
  moreover have "span (heap_blocks h) \<le> 1048576"
    using ok by (simp add: heap_ok_def heap_rep_def)
  ultimately show ?thesis
    using m best_fit_None [OF none] by (auto simp: candidate_def not_le)
next
  fix q h1 s
  assume m': "malloc n h = Some (q, h1)" and q0: "q \<noteq> 0" and ok1: "heap_ok area h1"
    and live: "heap_live h1 = (heap_live h)(unat q \<mapsto> s)"
    and abs: "abs_malloc (unat n) (heap_blocks h) = (heap_blocks h1, Some (unat q - unat area))"
  from m m' have q: "q = p" "h1 = h'" by simp_all
  from abs obtain i where i: "best_fit (unat n) (heap_blocks h) = Some i"
    "carve (unat n) (take i (heap_blocks h)) (heap_blocks h ! i) (drop (Suc i) (heap_blocks h))
      = (heap_blocks h1, unat q - unat area)"
    by (auto simp: abs_malloc_def split: option.splits prod.splits)
  note best = best_fit_Some [OF i(1)]
  have "heap_live h1 (unat q) = Some s" using live by simp
  from live_header(4) [OF ok1 this] have "unat area \<le> unat q" by simp
  moreover have "span (take (Suc i) (heap_blocks h))
      = span (take i (heap_blocks h)) + (16 + bsize (heap_blocks h ! i))"
    using best(1) by (simp add: take_Suc_conv_app_nth)
  moreover have "unat n \<le> bsize (heap_blocks h ! i)" using best(2) by (simp add: candidate_def)
  moreover have "unat q - unat area = (if unat n + 16 \<le> bsize (heap_blocks h ! i)
      then span (take i (heap_blocks h)) + 16 + (bsize (heap_blocks h ! i) - unat n)
      else span (take i (heap_blocks h)) + 16)"
    using i(2) by (auto simp: carve_def split: if_splits)
  ultimately have pos: "unat area + span (take i (heap_blocks h)) + 16 \<le> unat q"
      "unat q + unat n \<le> unat area + span (take (Suc i) (heap_blocks h))"
    by (auto split: if_splits)
  have "heap_blocks h ! i \<in> set (heap_blocks h)" using best(1) by simp
  then have "\<not> (\<forall>b\<in>set (heap_blocks h). bused b \<or> bsize b < unat n)"
    using best(2) by (force simp: candidate_def)
  with best pos q q0 show ?thesis by auto
qed

theorem malloc_best_fit_witness:
  "\<exists>h1. malloc 100 heap0 = Some (0x2FFF9C, h1) \<and> (\<exists>i<length (heap_blocks heap0).
      candidate 100 (heap_blocks heap0 ! i))"
proof -
  obtain h1 where m: "malloc 100 heap0 = Some (0x2FFF9C, h1)" by (rule heap0_malloc)
  from malloc_best_fit [OF heap0_ok m] m show ?thesis by auto
qed

text \<open>
  C5. A payload that \<open>malloc\<close> hands out is at least as long as requested and overlaps no
  payload that was live before the request.
\<close>

theorem malloc_fresh:
  assumes "heap_ok area h" "malloc n h = Some (p, h')" "p \<noteq> 0"
  shows "(\<exists>s\<ge>unat n. heap_live h' (unat p) = Some s)
    \<and> (\<forall>q s i j. heap_live h q = Some s \<and> i < unat n \<and> j < s \<longrightarrow> unat p + i \<noteq> q + j)"
  using kheap.alloc_live [OF assms] kheap.fresh_disjoint [OF assms] by auto

theorem malloc_fresh_witness:
  "\<exists>h1. malloc 100 heap0 = Some (0x2FFF9C, h1) \<and> (\<exists>s\<ge>100. heap_live h1 0x2FFF9C = Some s)"
proof -
  obtain h1 where m: "malloc 100 heap0 = Some (0x2FFF9C, h1)" by (rule heap0_malloc)
  from malloc_fresh [OF heap0_ok m] m show ?thesis by auto
qed

text \<open>
  C3. \<open>mem_free\<close> on a live payload implements \<open>abs_free\<close>: the block and its free neighbours
  become one free block, exactly that payload stops being live, and every other live payload
  keeps its bytes.
\<close>

theorem mem_free_refines:
  assumes ok: "heap_ok area h" and p: "heap_live h (unat p) = Some s"
  shows "heap_ok area (mem_free p h)
    \<and> (\<exists>xs b ys. heap_blocks h = xs @ b # ys \<and> bused b \<and> bsize b = s
         \<and> unat p = unat area + span xs + 16 \<and> heap_blocks (mem_free p h) = abs_free xs b ys)
    \<and> heap_live (mem_free p h) = (heap_live h)(unat p := None)
    \<and> (\<forall>q t k. heap_live h q = Some t \<and> k < t \<longrightarrow> hmem (mem_free p h) (q + k) = hmem h (q + k))"
proof -
  have rep: "heap_rep area h (heap_blocks h)" using ok by (simp add: heap_ok_def)
  obtain xs b ys where b: "heap_blocks h = xs @ b # ys" "bused b" "bsize b = s"
      "unat p = unat area + span xs + 16"
    using live_split [OF p [unfolded heap_live_rep [OF rep]]] by metis
  have "p = of_nat (unat area + span xs + 16)" by (simp flip: b(4))
  from heap_blocks_rep [OF mem_free_rep(1) [OF rep [unfolded b(1)] b(2) this]] b
  show ?thesis using mem_free_ok [OF ok p] by blast
qed

theorem mem_free_refines_witness:
  "\<exists>h1. malloc 100 heap0 = Some (0x2FFF9C, h1) \<and> heap_ok 0x200000 (mem_free 0x2FFF9C h1)
     \<and> heap_live (mem_free 0x2FFF9C h1) 0x2FFF9C = None"
proof -
  obtain h1 where m: "malloc 100 heap0 = Some (0x2FFF9C, h1)"
    and r: "heap_rep 0x200000 h1 [Blk 1048444 False, Blk 100 True]" by (rule heap0_malloc)
  have "heap_live h1 (unat (0x2FFF9C :: u32)) = Some 100"
    by (simp add: heap_live_rep [OF r])
  from mem_free_refines [OF heap_rep_ok [OF r] this] m show ?thesis by auto
qed

text \<open>
  C28. Freeing a payload straight after \<open>malloc\<close> handed it out gives back the block list as it
  was, whether the request split a block or took a whole one.
\<close>

theorem malloc_free_roundtrip:
  assumes "heap_ok area h" "malloc n h = Some (p, h1)" "p \<noteq> 0"
  shows "heap_blocks (mem_free p h1) = heap_blocks h \<and> heap_live (mem_free p h1) = heap_live h"
  using malloc_then_free [OF assms] kheap.alloc_release_live [OF assms] by simp

theorem malloc_free_roundtrip_witness:
  "\<exists>h1. malloc 100 heap0 = Some (0x2FFF9C, h1)
     \<and> heap_blocks (mem_free 0x2FFF9C h1) = [Blk 1048560 False]"
proof -
  obtain h1 where m: "malloc 100 heap0 = Some (0x2FFF9C, h1)" by (rule heap0_malloc)
  from malloc_free_roundtrip [OF heap0_ok m] m show ?thesis
    by (simp add: heap_blocks_rep [OF heap0_rep])
qed

text \<open>
  C4. \<open>realloc\<close> of a live, non-empty payload to a non-zero size always returns.  A null result
  means that nothing changed; otherwise the payload returned is long enough and starts with
  the bytes of the old one, and every other live payload is as it was.
\<close>

theorem realloc_keeps_contents:
  assumes "heap_ok area h" "heap_live h (unat p) = Some s" "0 < s" "sz \<noteq> 0"
  shows "\<exists>q h'. realloc area p sz h = Some (q, h') \<and> heap_ok area h' \<and> (q = 0 \<longrightarrow> h' = h)
    \<and> (q \<noteq> 0 \<longrightarrow> (\<exists>t\<ge>unat sz. heap_live h' (unat q) = Some t)
         \<and> (\<forall>k < s. hmem h' (unat q + k) = hmem h (unat p + k))
         \<and> (\<forall>r u k. heap_live h r = Some u \<and> r \<noteq> unat p \<and> k < u \<longrightarrow>
              heap_live h' r = Some u \<and> hmem h' (r + k) = hmem h (r + k)))"
proof (cases rule: realloc_cases [OF assms])
  case 1
  with assms live_in_area(1) [OF assms(1-3)] show ?thesis by auto
next
  case 2
  with assms show ?thesis by auto
next
  case (3 q h' t)
  have "unat q \<noteq> unat p" using 3(5) assms(2) by auto
  with 3 show ?thesis by (intro exI [of _ q] exI [of _ h']) auto
qed

theorem realloc_keeps_contents_witness:
  "\<exists>h1 q h2. malloc 100 heap0 = Some (0x2FFF9C, h1) \<and> realloc 0x200000 0x2FFF9C 200 h1 = Some (q, h2)
     \<and> heap_ok 0x200000 h2"
proof -
  obtain h1 where m: "malloc 100 heap0 = Some (0x2FFF9C, h1)"
    and r: "heap_rep 0x200000 h1 [Blk 1048444 False, Blk 100 True]" by (rule heap0_malloc)
  have "heap_live h1 (unat (0x2FFF9C :: u32)) = Some 100"
    by (simp add: heap_live_rep [OF r])
  from realloc_keeps_contents [OF heap_rep_ok [OF r] this, of 200] m show ?thesis by auto
qed

end
