(* ===== verification/CString.thy ===== *)
theory CString
  imports Memory "HOL-Library.Sublist"
begin

text \<open>
  The string and memory routines of \<open>kernel/string.h\<close>.  A \<open>const char *\<close> argument that is only
  read is a \<open>cptr\<close>, the function that gives the byte at each offset from it, so that it may point
  into any object; routines that write take the memory and addresses.  A pointer result is the
  offset (or address) it points to, wrapped in an inner \<open>option\<close> whose \<open>None\<close> is the null
  pointer.  Loops that end only at a terminator are \<open>partial_function (option)\<close>: a string
  without a terminator gives the outer \<open>None\<close>.  Counted loops (\<open>while (count--)\<close>) recurse on
  the count, which the callers pass as a non-negative number.

  \<open>cstr p s\<close> says that \<open>p\<close> points to the bytes \<open>s\<close> and a terminator.  The lemmas give each
  routine's result on terminated strings in terms of lists.
\<close>

type_synonym cptr = "nat \<Rightarrow> u8"

abbreviation ptr_at :: "mem \<Rightarrow> nat \<Rightarrow> cptr" where
  "ptr_at m p \<equiv> \<lambda>i. m (p + i)"

definition cstr :: "cptr \<Rightarrow> u8 list \<Rightarrow> bool" where
  "cstr p s \<longleftrightarrow> (\<forall>i<length s. p i = s ! i) \<and> p (length s) = 0 \<and> 0 \<notin> set s"

text \<open>A string literal as a pointer.\<close>

definition lit_ptr :: "u8 list \<Rightarrow> cptr" where
  "lit_ptr s i = (if i < length s then s ! i else 0)"

lemma cstr_lit: "0 \<notin> set s \<Longrightarrow> cstr (lit_ptr s) s"
  by (simp add: cstr_def lit_ptr_def)

lemma cstr_Nil [simp]: "cstr p [] \<longleftrightarrow> p 0 = 0"
  by (simp add: cstr_def)

lemma cstr_Cons [simp]: "cstr p (x # xs) \<longleftrightarrow> x \<noteq> 0 \<and> p 0 = x \<and> cstr (\<lambda>i. p (Suc i)) xs"
  by (auto simp: cstr_def less_Suc_eq_0_disj)

lemma cstr_append:
  "cstr p (xs @ ys) \<longleftrightarrow> (\<forall>i<length xs. p i = xs ! i) \<and> 0 \<notin> set xs \<and> cstr (\<lambda>i. p (length xs + i)) ys"
  by (induction xs arbitrary: p) (auto simp: less_Suc_eq_0_disj)

lemma cstr_unique: "cstr p s \<Longrightarrow> cstr p t \<Longrightarrow> s = t"
proof (induction s arbitrary: p t)
  case Nil
  then show ?case by (cases t) auto
next
  case (Cons x s)
  then show ?case by (cases t) auto
qed

section \<open>Length and comparison\<close>

partial_function (option) strlen_loop :: "cptr \<Rightarrow> nat \<Rightarrow> nat option" where
  "strlen_loop s i = (if s i \<noteq> 0 then strlen_loop s (Suc i) else Some i)"

definition strlen :: "cptr \<Rightarrow> nat option" where
  "strlen s = strlen_loop s 0"

partial_function (option) strcmp_loop :: "cptr \<Rightarrow> cptr \<Rightarrow> nat \<Rightarrow> int option" where
  "strcmp_loop cs ct i =
     (if cs i \<noteq> 0 \<and> cs i = ct i then strcmp_loop cs ct (Suc i)
      else Some (int (unat (cs i)) - int (unat (ct i))))"

definition strcmp :: "cptr \<Rightarrow> cptr \<Rightarrow> int option" where
  "strcmp cs ct = strcmp_loop cs ct 0"

fun strncmp_loop :: "cptr \<Rightarrow> cptr \<Rightarrow> nat \<Rightarrow> nat \<Rightarrow> int" where
  "strncmp_loop cs ct i 0 = 0"
| "strncmp_loop cs ct i (Suc n) =
     (if cs i \<noteq> ct i then int (unat (cs i)) - int (unat (ct i))
      else if cs i = 0 then 0
      else strncmp_loop cs ct (Suc i) n)"

definition strncmp :: "cptr \<Rightarrow> cptr \<Rightarrow> int \<Rightarrow> int" where
  "strncmp cs ct count = strncmp_loop cs ct 0 (nat count)"

fun memcmp_loop :: "cptr \<Rightarrow> cptr \<Rightarrow> nat \<Rightarrow> nat \<Rightarrow> int" where
  "memcmp_loop a b i 0 = 0"
| "memcmp_loop a b i (Suc n) =
     (if a i \<noteq> b i then int (unat (a i)) - int (unat (b i)) else memcmp_loop a b (Suc i) n)"

definition memcmp :: "cptr \<Rightarrow> cptr \<Rightarrow> nat \<Rightarrow> int" where
  "memcmp cs ct count = memcmp_loop cs ct 0 count"

section \<open>Searching\<close>

partial_function (option) strchr_loop :: "cptr \<Rightarrow> u8 \<Rightarrow> nat \<Rightarrow> nat option option" where
  "strchr_loop s c i =
     (if s i \<noteq> 0 then (if s i = c then Some (Some i) else strchr_loop s c (Suc i)) else Some None)"

definition strchr :: "cptr \<Rightarrow> u8 \<Rightarrow> nat option option" where
  "strchr s c = strchr_loop s c 0"

partial_function (option) strrchr_loop :: "cptr \<Rightarrow> u8 \<Rightarrow> nat option \<Rightarrow> nat \<Rightarrow> nat option option" where
  "strrchr_loop s c lst i =
     (if s i \<noteq> 0 then strrchr_loop s c (if s i = c then Some i else lst) (Suc i) else Some lst)"

definition strrchr :: "cptr \<Rightarrow> u8 \<Rightarrow> nat option option" where
  "strrchr s c = strrchr_loop s c None 0"

text \<open>\<open>while (*p && *p != *cs) p++;\<close>, returning the byte it stops at.\<close>

partial_function (option) scan_set :: "cptr \<Rightarrow> u8 \<Rightarrow> nat \<Rightarrow> u8 option" where
  "scan_set ct c j = (if ct j \<noteq> 0 \<and> ct j \<noteq> c then scan_set ct c (Suc j) else Some (ct j))"

partial_function (option) strspn_loop :: "cptr \<Rightarrow> cptr \<Rightarrow> nat \<Rightarrow> nat option" where
  "strspn_loop cs ct i =
     (if cs i \<noteq> 0 then do {
        p \<leftarrow> scan_set ct (cs i) 0;
        if p = 0 then Some i else strspn_loop cs ct (Suc i)
      } else Some i)"

definition strspn :: "cptr \<Rightarrow> cptr \<Rightarrow> nat option" where
  "strspn cs ct = strspn_loop cs ct 0"

partial_function (option) strcspn_loop :: "cptr \<Rightarrow> cptr \<Rightarrow> nat \<Rightarrow> nat option" where
  "strcspn_loop cs ct i =
     (if cs i \<noteq> 0 then do {
        p \<leftarrow> scan_set ct (cs i) 0;
        if p \<noteq> 0 then Some i else strcspn_loop cs ct (Suc i)
      } else Some i)"

definition strcspn :: "cptr \<Rightarrow> cptr \<Rightarrow> nat option" where
  "strcspn cs ct = strcspn_loop cs ct 0"

partial_function (option) strpbrk_loop :: "cptr \<Rightarrow> cptr \<Rightarrow> nat \<Rightarrow> nat option option" where
  "strpbrk_loop cs ct i =
     (if cs i \<noteq> 0 then do {
        p \<leftarrow> strchr_loop ct (cs i) 0;
        case p of Some _ \<Rightarrow> Some (Some i) | None \<Rightarrow> strpbrk_loop cs ct (Suc i)
      } else Some None)"

definition strpbrk :: "cptr \<Rightarrow> cptr \<Rightarrow> nat option option" where
  "strpbrk cs ct = strpbrk_loop cs ct 0"

text \<open>\<open>while (*a && *b && *a == *b) { a++; b++; }\<close>, returning the byte at \<open>b\<close>.\<close>

partial_function (option) match_loop :: "cptr \<Rightarrow> cptr \<Rightarrow> nat \<Rightarrow> nat \<Rightarrow> u8 option" where
  "match_loop cs ct a b =
     (if cs a \<noteq> 0 \<and> ct b \<noteq> 0 \<and> cs a = ct b then match_loop cs ct (Suc a) (Suc b) else Some (ct b))"

partial_function (option) strstr_loop :: "cptr \<Rightarrow> cptr \<Rightarrow> nat \<Rightarrow> nat option option" where
  "strstr_loop cs ct i =
     (if cs i \<noteq> 0 then do {
        b \<leftarrow> match_loop cs ct i 0;
        if b = 0 then Some (Some i) else strstr_loop cs ct (Suc i)
      } else Some None)"

definition strstr :: "cptr \<Rightarrow> cptr \<Rightarrow> nat option option" where
  "strstr cs ct = (if ct 0 = 0 then Some (Some 0) else strstr_loop cs ct 0)"

fun memchr_loop :: "cptr \<Rightarrow> u8 \<Rightarrow> nat \<Rightarrow> nat \<Rightarrow> nat option" where
  "memchr_loop s c i 0 = None"
| "memchr_loop s c i (Suc n) = (if s i = c then Some i else memchr_loop s c (Suc i) n)"

definition memchr :: "cptr \<Rightarrow> u8 \<Rightarrow> nat \<Rightarrow> nat option" where
  "memchr cs c count = memchr_loop cs c 0 count"

section \<open>Copying\<close>

text \<open>\<open>while ((*d++ = *s++));\<close>\<close>

partial_function (option) strcpy_loop :: "mem \<Rightarrow> nat \<Rightarrow> nat \<Rightarrow> mem option" where
  "strcpy_loop m d s =
     (let m' = m(d := m s) in if m s \<noteq> 0 then strcpy_loop m' (Suc d) (Suc s) else Some m')"

definition strcpy :: "mem \<Rightarrow> nat \<Rightarrow> nat \<Rightarrow> mem option" where
  "strcpy m dest src = strcpy_loop m dest src"

fun strncpy_loop :: "mem \<Rightarrow> nat \<Rightarrow> nat \<Rightarrow> nat \<Rightarrow> mem" where
  "strncpy_loop m d s 0 = m"
| "strncpy_loop m d s (Suc n) =
     (let m' = m(d := m s) in strncpy_loop m' (Suc d) (if m' s \<noteq> 0 then Suc s else s) n)"

definition strncpy :: "mem \<Rightarrow> nat \<Rightarrow> nat \<Rightarrow> int \<Rightarrow> mem" where
  "strncpy m dest src count = strncpy_loop m dest src (nat count)"

definition strcat :: "mem \<Rightarrow> nat \<Rightarrow> nat \<Rightarrow> mem option" where
  "strcat m dest src = do {
     n \<leftarrow> strlen_loop (ptr_at m dest) 0;
     strcpy_loop m (dest + n) src
   }"

fun strncat_loop :: "mem \<Rightarrow> nat \<Rightarrow> nat \<Rightarrow> nat \<Rightarrow> mem" where
  "strncat_loop m d s 0 = m(d := 0)"
| "strncat_loop m d s (Suc n) =
     (if m s \<noteq> 0 then strncat_loop (m(d := m s)) (Suc d) (Suc s) n else m(d := 0))"

definition strncat :: "mem \<Rightarrow> nat \<Rightarrow> nat \<Rightarrow> int \<Rightarrow> mem option" where
  "strncat m dest src count = do {
     n \<leftarrow> strlen_loop (ptr_at m dest) 0;
     Some (strncat_loop m (dest + n) src (nat count))
   }"

text \<open>Unlike \<open>copy_up\<close> of theory \<open>Memory\<close>, source and destination are in one memory here,
  so a byte may be read after it was overwritten.\<close>

fun memcpy_loop :: "mem \<Rightarrow> nat \<Rightarrow> nat \<Rightarrow> nat \<Rightarrow> mem" where
  "memcpy_loop m d s 0 = m"
| "memcpy_loop m d s (Suc n) = memcpy_loop (m(d := m s)) (Suc d) (Suc s) n"

definition memcpy :: "mem \<Rightarrow> nat \<Rightarrow> nat \<Rightarrow> nat \<Rightarrow> mem" where
  "memcpy m dest src n = memcpy_loop m dest src n"

text \<open>The descending copy of \<open>memmove\<close>: \<open>d\<close> and \<open>s\<close> have been moved to the ends.\<close>

fun copy_down :: "mem \<Rightarrow> nat \<Rightarrow> nat \<Rightarrow> nat \<Rightarrow> mem" where
  "copy_down m d s 0 = m"
| "copy_down m d s (Suc n) = copy_down (m(d + n := m (s + n))) d s n"

definition memmove :: "mem \<Rightarrow> nat \<Rightarrow> nat \<Rightarrow> nat \<Rightarrow> mem" where
  "memmove m dest src n =
     (if dest < src then memcpy_loop m dest src n else copy_down m dest src n)"

fun memset :: "mem \<Rightarrow> nat \<Rightarrow> u8 \<Rightarrow> nat \<Rightarrow> mem" where
  "memset m s c 0 = m"
| "memset m s c (Suc count) = memset (m(s := c)) (Suc s) c count"

section \<open>Tokens\<close>

text \<open>
  \<open>strtok\<close> keeps its place in the global \<open>___strtok\<close>, here the address \<open>tok\<close> with \<open>None\<close> for the
  null pointer; it is returned with the memory, in which the terminator has been written.
\<close>

partial_function (option) skip_delims :: "mem \<Rightarrow> cptr \<Rightarrow> nat \<Rightarrow> nat option" where
  "skip_delims m ct p =
     (if m p \<noteq> 0 then do {
        d \<leftarrow> strchr ct (m p);
        if d \<noteq> None then skip_delims m ct (Suc p) else Some p
      } else Some p)"

partial_function (option) skip_token :: "mem \<Rightarrow> cptr \<Rightarrow> nat \<Rightarrow> nat option" where
  "skip_token m ct p =
     (if m p \<noteq> 0 then do {
        d \<leftarrow> strchr ct (m p);
        if d = None then skip_token m ct (Suc p) else Some p
      } else Some p)"

definition strtok ::
    "mem \<Rightarrow> nat option \<Rightarrow> nat option \<Rightarrow> cptr \<Rightarrow> (nat option \<times> mem \<times> nat option) option" where
  "strtok m tok s ct =
     (case (if s \<noteq> None then s else tok) of
        None \<Rightarrow> Some (None, m, None)
      | Some p0 \<Rightarrow> do {
          p \<leftarrow> skip_delims m ct p0;
          if m p = 0 then Some (None, m, None)
          else do {
            e \<leftarrow> skip_token m ct p;
            Some (if m e \<noteq> 0 then (Some p, m(e := 0), Some (Suc e)) else (Some p, m, None))
          }
        })"

section \<open>Results on terminated strings\<close>

lemma cstr_shift:
  "cstr (ptr_at p i) (x # xs) \<longleftrightarrow> x \<noteq> 0 \<and> p i = x \<and> cstr (ptr_at p (Suc i)) xs"
  by simp

declare cstr_Cons [simp del]
declare cstr_shift [simp]

lemma cstr_Nil_at: "cstr (ptr_at p i) [] \<longleftrightarrow> p i = 0"
  by simp

lemma strlen_loop_cstr: "cstr (ptr_at p i) s \<Longrightarrow> strlen_loop p i = Some (i + length s)"
  by (induction s arbitrary: i) (subst strlen_loop.simps, simp)+

lemma strlen_cstr: "cstr p s \<Longrightarrow> strlen p = Some (length s)"
  using strlen_loop_cstr [of p 0 s] by (simp add: strlen_def)

lemma strcmp_loop_cstr:
  "cstr (ptr_at a i) s \<Longrightarrow> cstr (ptr_at b i) t \<Longrightarrow>
     \<exists>r. strcmp_loop a b i = Some r \<and> (r = 0 \<longleftrightarrow> s = t) \<and> (r < 0 \<longleftrightarrow> ord_class.lexordp s t)"
proof (induction s arbitrary: i t)
  case Nil
  then show ?case
    by (cases t; subst strcmp_loop.simps) (auto simp: byte_order word_neq_0_conv)
next
  case (Cons x s)
  show ?case
  proof (cases t)
    case Nil
    with Cons.prems show ?thesis
      by (subst strcmp_loop.simps) (auto simp: byte_order)
  next
    case (Cons y t')
    with Cons.prems Cons.IH [of "Suc i" t'] show ?thesis
      by (subst strcmp_loop.simps) (auto simp: byte_order)
  qed
qed

lemma strcmp_cstr:
  assumes "cstr a s" "cstr b t"
  obtains r where "strcmp a b = Some r" "r = 0 \<longleftrightarrow> s = t" "r < 0 \<longleftrightarrow> ord_class.lexordp s t"
  using strcmp_loop_cstr [of a 0 s b t] assms by (auto simp: strcmp_def)

lemma strncmp_loop_eq_0:
  "cstr (ptr_at a i) s \<Longrightarrow> cstr (ptr_at b i) t \<Longrightarrow> strncmp_loop a b i n = 0 \<longleftrightarrow> take n s = take n t"
proof (induction a b i n arbitrary: s t rule: strncmp_loop.induct)
  case (2 cs ct i n)
  then show ?case
    by (cases s; cases t) (auto simp: byte_order)
qed simp

lemma strchr_loop_cstr:
  "cstr (ptr_at p i) s \<Longrightarrow> strchr_loop p c i =
     Some (if c \<in> set s then Some (i + length (takeWhile ((\<noteq>) c) s)) else None)"
  by (induction s arbitrary: i; subst strchr_loop.simps) auto

lemma strchr_cstr:
  "cstr p s \<Longrightarrow> strchr p c = Some (if c \<in> set s then Some (length (takeWhile ((\<noteq>) c) s)) else None)"
  using strchr_loop_cstr [of p 0 s c] by (simp add: strchr_def)

lemma strrchr_loop_cstr:
  "cstr (ptr_at p i) s \<Longrightarrow> strrchr_loop p c lst i =
     Some (if c \<in> set s then Some (i + length s - Suc (length (takeWhile ((\<noteq>) c) (rev s)))) else lst)"
proof (induction s arbitrary: i lst)
  case Nil
  then show ?case by (subst strrchr_loop.simps) simp
next
  case (Cons x s)
  then have "strrchr_loop p c lst i = strrchr_loop p c (if x = c then Some i else lst) (Suc i)"
    by (subst strrchr_loop.simps) simp
  then show ?case
    using Cons by (auto simp: takeWhile_append)
qed

lemma scan_set_cstr: "cstr (ptr_at ct j) s \<Longrightarrow> scan_set ct c j = Some (if c \<in> set s then c else 0)"
  by (induction s arbitrary: j; subst scan_set.simps) auto

lemma strspn_loop_cstr:
  "cstr (ptr_at cs i) s \<Longrightarrow> cstr ct t \<Longrightarrow>
     strspn_loop cs ct i = Some (i + length (takeWhile (\<lambda>c. c \<in> set t) s))"
proof (induction s arbitrary: i)
  case (Cons x s)
  then show ?case
    using scan_set_cstr [of ct 0 t x] by (subst strspn_loop.simps) auto
qed (subst strspn_loop.simps, simp)

lemma strcspn_loop_cstr:
  "cstr (ptr_at cs i) s \<Longrightarrow> cstr ct t \<Longrightarrow>
     strcspn_loop cs ct i = Some (i + length (takeWhile (\<lambda>c. c \<notin> set t) s))"
proof (induction s arbitrary: i)
  case (Cons x s)
  then show ?case
    using scan_set_cstr [of ct 0 t x] by (subst strcspn_loop.simps) auto
qed (subst strcspn_loop.simps, simp)

lemma strpbrk_loop_cstr:
  "cstr (ptr_at cs i) s \<Longrightarrow> cstr ct t \<Longrightarrow> strpbrk_loop cs ct i =
     Some (if set s \<inter> set t = {} then None else Some (i + length (takeWhile (\<lambda>c. c \<notin> set t) s)))"
proof (induction s arbitrary: i)
  case (Cons x s)
  then show ?case
    using strchr_loop_cstr [of ct 0 t x] by (subst strpbrk_loop.simps) auto
qed (subst strpbrk_loop.simps, simp)

lemma match_loop_cstr:
  "cstr (ptr_at cs a) s \<Longrightarrow> cstr (ptr_at ct b) t \<Longrightarrow>
     \<exists>c. match_loop cs ct a b = Some c \<and> (c = 0 \<longleftrightarrow> prefix t s)"
proof (induction s arbitrary: a b t)
  case Nil
  then show ?case by (cases t; subst match_loop.simps) auto
next
  case (Cons x s)
  then show ?case
    by (cases t; subst match_loop.simps) auto
qed

text \<open>The first position at which \<open>t\<close> is found in \<open>s\<close>.\<close>

fun find_sub :: "u8 list \<Rightarrow> u8 list \<Rightarrow> nat option" where
  "find_sub t [] = (if t = [] then Some 0 else None)"
| "find_sub t (x # xs) = (if prefix t (x # xs) then Some 0 else map_option Suc (find_sub t xs))"

lemma find_sub_Some: "find_sub t s = Some i \<longleftrightarrow>
    i \<le> length s \<and> prefix t (drop i s) \<and> (\<forall>j<i. \<not> prefix t (drop j s))"
proof (induction s arbitrary: i)
  case Nil
  then show ?case by auto
next
  case (Cons x xs)
  show ?case
  proof (cases i)
    case 0
    then show ?thesis by auto
  next
    case (Suc k)
    then show ?thesis
      using Cons [of k] by (auto simp: less_Suc_eq_0_disj)
  qed
qed

lemma find_sub_None: "find_sub t s = None \<longleftrightarrow> \<not> sublist t s"
  by (induction s) (auto simp: sublist_Cons_right)

lemma strstr_loop_cstr:
  "cstr (ptr_at cs i) s \<Longrightarrow> cstr ct t \<Longrightarrow> t \<noteq> [] \<Longrightarrow> strstr_loop cs ct i = Some (map_option ((+) i) (find_sub t s))"
proof (induction s arbitrary: i)
  case Nil
  then show ?case by (subst strstr_loop.simps) simp
next
  case (Cons x s)
  obtain c where c: "match_loop cs ct i 0 = Some c" "c = 0 \<longleftrightarrow> prefix t (x # s)"
    using match_loop_cstr [of cs i "x # s" ct 0 t] Cons.prems by auto
  moreover have "(+) (Suc i) = (+) i \<circ> Suc" by auto
  ultimately show ?case
    using Cons by (subst strstr_loop.simps) (auto simp: option.map_comp)
qed

lemma strstr_cstr: "cstr cs s \<Longrightarrow> cstr ct t \<Longrightarrow> strstr cs ct = Some (find_sub t s)"
proof (cases t)
  case Nil
  assume "cstr ct t"
  with Nil have "ct 0 = 0" by simp
  moreover have "find_sub [] s = Some 0" by (cases s) auto
  ultimately show ?thesis using Nil by (simp add: strstr_def)
next
  case (Cons y t')
  assume *: "cstr cs s" "cstr ct t"
  have "ct 0 \<noteq> 0" using *(2) Cons by (simp add: cstr_def)
  then show ?thesis
    using strstr_loop_cstr [of cs 0 s ct t] * Cons by (simp add: strstr_def option.map_ident_strong)
qed

section \<open>Results of copying\<close>

lemma memcpy_loop_apply:
  "d \<le> s \<or> s + n \<le> d \<Longrightarrow> memcpy_loop m d s n x = (if d \<le> x \<and> x < d + n then m (s + (x - d)) else m x)"
proof (induction n arbitrary: m d s)
  case (Suc n)
  have "memcpy_loop (m(d := m s)) (Suc d) (Suc s) n x =
      (if Suc d \<le> x \<and> x < Suc d + n then (m(d := m s)) (Suc s + (x - Suc d)) else (m(d := m s)) x)"
    using Suc.prems by (intro Suc.IH) auto
  then show ?case using Suc.prems by (auto simp: Suc_diff_Suc Suc_diff_le)
qed auto

lemma copy_down_apply:
  "s \<le> d \<Longrightarrow> copy_down m d s n x = (if d \<le> x \<and> x < d + n then m (s + (x - d)) else m x)"
  by (induction n arbitrary: m) auto

lemma memset_apply: "memset m s c n x = (if s \<le> x \<and> x < s + n then c else m x)"
  by (induction n arbitrary: m s) auto

lemma memmove_apply: "memmove m d s n x = (if d \<le> x \<and> x < d + n then m (s + (x - d)) else m x)"
  by (auto simp: memmove_def memcpy_loop_apply copy_down_apply)

text \<open>\<open>strcpy\<close> between ranges that do not overlap.\<close>

lemma strcpy_loop_cstr:
  "cstr (ptr_at m s) t \<Longrightarrow> d < s \<or> s + length t < d \<Longrightarrow>
     \<exists>m'. strcpy_loop m d s = Some m' \<and> cstr (ptr_at m' d) t
       \<and> (\<forall>x. x < d \<or> d + length t < x \<longrightarrow> m' x = m x)"
proof (induction t arbitrary: m d s)
  case Nil
  then show ?case by (subst strcpy_loop.simps) simp
next
  case (Cons x t)
  have "cstr (ptr_at (m(d := x)) (Suc s)) t"
    using Cons.prems by (auto simp: cstr_def)
  from Cons.IH [OF this, of "Suc d"] Cons.prems(2)
  obtain m' where "strcpy_loop (m(d := x)) (Suc d) (Suc s) = Some m'" "cstr (ptr_at m' (Suc d)) t"
      "\<forall>y. y < Suc d \<or> Suc d + length t < y \<longrightarrow> m' y = (m(d := x)) y"
    by (fastforce simp del: fun_upd_apply)
  then show ?case
    using Cons.prems by (subst strcpy_loop.simps) auto
qed

section \<open>Tokens as lists\<close>

function tokens :: "u8 set \<Rightarrow> u8 list \<Rightarrow> u8 list list" where
  "tokens D s = (case dropWhile (\<lambda>c. c \<in> D) s of [] \<Rightarrow> []
     | s' \<Rightarrow> takeWhile (\<lambda>c. c \<notin> D) s' # tokens D (dropWhile (\<lambda>c. c \<notin> D) s'))"
  by pat_completeness auto
termination
proof (relation "measure (\<lambda>(D, s). length s)", goal_cases)
  case (2 D s c cs)
  then have "length (c # cs) \<le> length s" "c \<notin> D"
    by (metis length_dropWhile_le) (metis dropWhile_eq_Cons_conv 2)
  moreover have "length (dropWhile (\<lambda>c. c \<notin> D) cs) \<le> length cs" by (rule length_dropWhile_le)
  ultimately show ?case by simp
qed simp

declare tokens.simps [simp del]

lemma skip_delims_cstr:
  assumes "cstr ct ds"
  shows "cstr (ptr_at m p) s \<Longrightarrow>
    skip_delims m ct p = Some (p + length (takeWhile (\<lambda>c. c \<in> set ds) s))"
proof (induction s arbitrary: p)
  case (Cons x s)
  then show ?case
    using strchr_cstr [OF assms, of x] by (subst skip_delims.simps) auto
qed (subst skip_delims.simps, simp)

lemma skip_token_cstr:
  assumes "cstr ct ds"
  shows "cstr (ptr_at m p) s \<Longrightarrow>
    skip_token m ct p = Some (p + length (takeWhile (\<lambda>c. c \<notin> set ds) s))"
proof (induction s arbitrary: p)
  case (Cons x s)
  then show ?case
    using strchr_cstr [OF assms, of x] by (subst skip_token.simps) auto
qed (subst skip_token.simps, simp)

lemma cstr_drop: "cstr (ptr_at m p) (xs @ ys) \<Longrightarrow> cstr (ptr_at m (p + length xs)) ys"
  by (simp add: cstr_append add.assoc)

lemma cstr_frame: "cstr (ptr_at m p) s \<Longrightarrow> x < p \<or> p + length s < x \<Longrightarrow> cstr (ptr_at (m(x := v)) p) s"
  by (auto simp: cstr_def)

lemma cstr_cut: "cstr (ptr_at m p) (t @ r) \<Longrightarrow> cstr (ptr_at (m(p + length t := 0)) p) t"
  by (auto simp: cstr_def nth_append)

text \<open>One call of \<open>strtok\<close> at the start of the string \<open>s\<close>: either only delimiters are left, or it
  returns the first token, ended by a terminator, and stays in front of the rest.\<close>

lemma strtok_step:
  assumes ct: "cstr ct ds" and s: "cstr (ptr_at m p) s" and start: "(if a \<noteq> None then a else tok) = Some p"
  obtains "tokens (set ds) s = []" "strtok m tok a ct = Some (None, m, None)"
  | q t where "tokens (set ds) s = [t]" "strtok m tok a ct = Some (Some q, m, None)"
      "cstr (ptr_at m q) t" "p \<le> q" "q + length t = p + length s"
  | q t r where "tokens (set ds) s = t # tokens (set ds) r"
      "strtok m tok a ct = Some (Some q, m(q + length t := 0), Some (Suc (q + length t)))"
      "cstr (ptr_at (m(q + length t := 0)) q) t"
      "cstr (ptr_at (m(q + length t := 0)) (Suc (q + length t))) r"
      "p \<le> q" "Suc (q + length t) + length r = p + length s" "m (q + length t) \<noteq> 0"
proof -
  let ?D = "\<lambda>c. c \<in> set ds" and ?N = "\<lambda>c. c \<notin> set ds"
  obtain u v where u: "u = takeWhile ?D s" and v: "v = dropWhile ?D s" by simp
  have suv: "s = u @ v" by (simp add: u v)
  obtain q where q: "q = p + length u" by simp
  have skip: "skip_delims m ct p = Some q" using skip_delims_cstr [OF ct s] by (simp add: q u)
  have cv: "cstr (ptr_at m q) v" using cstr_drop s suv q by simp
  show thesis
  proof (cases v)
    case Nil
    then have "strtok m tok a ct = Some (None, m, None)"
      using start skip cv by (auto simp: strtok_def)
    moreover have "tokens (set ds) s = []"
      unfolding tokens.simps [of _ s] v [symmetric] Nil by simp
    ultimately show thesis by (rule that(1) [rotated])
  next
    case (Cons c cs)
    obtain t r where t: "t = takeWhile ?N v" and r: "r = dropWhile ?N v" by simp
    have vtr: "v = t @ r" by (simp add: t r)
    have mq: "m q \<noteq> 0" using cv Cons by simp
    have tk: "skip_token m ct q = Some (q + length t)"
      using skip_token_cstr [OF ct cv] by (simp add: t)
    have toks: "tokens (set ds) s = t # tokens (set ds) r"
      unfolding tokens.simps [of _ s] v [symmetric] t r unfolding Cons by simp
    have cr: "cstr (ptr_at m (q + length t)) r" using cstr_drop cv vtr by simp
    have len: "length s = length u + (length t + length r)" using suv vtr by simp
    show thesis
    proof (cases r)
      case Nil
      then have "m (q + length t) = 0" using cr by simp
      moreover have "tokens (set ds) [] = []" by (subst tokens.simps) simp
      ultimately show thesis
        using start skip mq tk toks cv vtr Nil len q
        by (intro that(2) [of t q]) (auto simp: strtok_def)
    next
      case (Cons d r')
      let ?m = "m(q + length t := 0)"
      have d: "d \<in> set ds"
        using Cons r by (metis (mono_tags) dropWhile_eq_Cons_conv)
      have "tokens (set ds) r = tokens (set ds) r'"
        using d Cons by (simp add: tokens.simps [of _ "d # r'"] tokens.simps [of _ r'])
      moreover have "cstr (ptr_at ?m q) t" using cstr_cut cv vtr by simp
      moreover have "cstr (ptr_at m (Suc (q + length t))) r'" using cr Cons by simp
      then have "cstr (ptr_at ?m (Suc (q + length t))) r'" by (rule cstr_frame) simp
      moreover have nz: "m (q + length t) \<noteq> 0" using cr Cons by simp
      ultimately show thesis
        using start skip mq tk toks Cons len q
        by (intro that(3) [of t r' q]) (auto simp: strtok_def)
    qed
  qed
qed

section \<open>Properties\<close>

lemma lit_nonzero: "0 \<notin> set (lit ''cat'')" "0 \<notin> set (lit ''concatenate'')" "0 \<notin> set (lit ''can'')"
  by (simp_all add: chr_def)

text \<open>
  On terminated strings \<open>strcmp\<close> returns, gives zero exactly for equal strings, and a
  negative result exactly when the first string is smaller in dictionary order of unsigned
  bytes.
\<close>

theorem strcmp_orders:
  assumes "cstr a s" "cstr b t"
  shows "\<exists>r. strcmp a b = Some r \<and> (r = 0 \<longleftrightarrow> s = t) \<and> (r < 0 \<longleftrightarrow> ord_class.lexordp s t)"
  using strcmp_cstr [OF assms] by blast

theorem strcmp_orders_witness:
  "\<exists>r. strcmp (lit_ptr (lit ''can'')) (lit_ptr (lit ''cat'')) = Some r \<and> r \<noteq> 0"
  using strcmp_orders [OF cstr_lit [OF lit_nonzero(3)] cstr_lit [OF lit_nonzero(1)]]
  by (auto simp: chr_def)

text \<open>
  C33. On terminated strings \<open>strstr\<close> returns; a pointer result is the first offset at which
  the second string occurs in the first, and the null pointer means that it occurs nowhere.
\<close>

theorem strstr_first_occurrence:
  assumes "cstr cs s" "cstr ct t"
  shows "\<exists>r. strstr cs ct = Some r \<and> (r = None \<longleftrightarrow> \<not> sublist t s)
    \<and> (\<forall>i. r = Some i \<longrightarrow> prefix t (drop i s) \<and> (\<forall>j<i. \<not> prefix t (drop j s)))"
  using strstr_cstr [OF assms] find_sub_None [of t s] find_sub_Some [of t s] by auto

theorem strstr_first_occurrence_witness:
  "\<exists>r. strstr (lit_ptr (lit ''concatenate'')) (lit_ptr (lit ''cat'')) = Some r
     \<and> (r = None \<longleftrightarrow> \<not> sublist (lit ''cat'') (lit ''concatenate''))"
  using strstr_first_occurrence [OF cstr_lit [OF lit_nonzero(2)] cstr_lit [OF lit_nonzero(1)]]
  by blast

text \<open>
  \<open>memmove\<close> moves the block as it was before the call, however source and destination
  overlap, and changes no other byte; \<open>memcpy\<close> does the same when the destination does not
  start inside the source block.
\<close>

theorem memmove_simultaneous:
  "memmove m d s n x = (if d \<le> x \<and> x < d + n then m (s + (x - d)) else m x)
   \<and> (d \<le> s \<or> s + n \<le> d \<longrightarrow> memcpy m d s n = memmove m d s n)"
  by (auto simp: memmove_apply memcpy_def memcpy_loop_apply fun_eq_iff)

theorem memmove_simultaneous_witness:
  "memcpy (\<lambda>i. of_nat i) 0 2 3 = memmove (\<lambda>i. of_nat i) 0 2 3
     \<and> memmove (\<lambda>i. of_nat i) 2 0 3 4 = 2"
proof
  show "memcpy (\<lambda>i. of_nat i) 0 2 3 = memmove (\<lambda>i. of_nat i) 0 2 3"
    using memmove_simultaneous [of "\<lambda>i. of_nat i" 0 2 3] by simp
  show "memmove (\<lambda>i. of_nat i) 2 0 3 4 = 2"
    using memmove_simultaneous [of "\<lambda>i. of_nat i" 2 0 3 4] by simp
qed

end
