(* ===== verification/Console.thy ===== *)
theory Console
  imports CString
begin

text \<open>
  The VGA text console of \<open>kernel/kprintf.c\<close>.  The state is the video memory at \<open>vidptr\<close>
  (\<open>0xb8000\<close>), as a function from offsets to bytes that is not cut off at the screen's end, because
  the code does not check its offset, and the global \<open>current_loc\<close>.  A cell is a character byte
  and an attribute byte; a line is 160 bytes and the screen 4000.

  The variable arguments of \<open>kprintf\<close> and \<open>ksprintf\<close> are a list of \<open>karg\<close>.  A call whose arguments
  do not match its format, a format that ends inside a conversion, a precision beyond \<open>int\<close>
  and the negation of the smallest \<open>int\<close> are undefined in C and give \<open>None\<close>.  The lemmas say which cells each routine
  writes, that number conversion fits its buffer and can be read back, and how the two
  formatting routines are related.
\<close>

record console =
  vram :: mem
  current_loc :: u32

definition LINES :: u32 where "LINES = 25"
definition COLUMNS_IN_LINE :: u32 where "COLUMNS_IN_LINE = 80"
definition BYTES_FOR_EACH_ELEMENT :: u32 where "BYTES_FOR_EACH_ELEMENT = 2"
definition SCREENSIZE :: u32 where "SCREENSIZE = BYTES_FOR_EACH_ELEMENT * COLUMNS_IN_LINE * LINES"

lemmas screen_defs = LINES_def COLUMNS_IN_LINE_def BYTES_FOR_EACH_ELEMENT_def SCREENSIZE_def

section \<open>Numbers\<close>

definition digits :: "u8 list" where
  "digits = lit ''0123456789ABCDEF'' @ [0]"

text \<open>\<open>room\<close> is the space left in the caller's buffer; a conversion that needs more, a zero
  base, or a base whose digits are not in the table, is undefined.\<close>

fun itoa_loop :: "nat \<Rightarrow> u32 \<Rightarrow> u32 \<Rightarrow> u8 list \<Rightarrow> u8 list option" where
  "itoa_loop 0 num base acc = None"
| "itoa_loop (Suc room) num base acc =
     (let acc' = digits ! unat (num mod base) # acc; num' = num div base
      in if num' \<noteq> 0 then itoa_loop room num' base acc' else Some acc')"

definition itoa_into :: "nat \<Rightarrow> u32 \<Rightarrow> u32 \<Rightarrow> u8 list option" where
  "itoa_into room num base = (if base = 0 \<or> 17 < base then None else itoa_loop room num base [])"

definition itoa_static :: "u32 \<Rightarrow> u32 \<Rightarrow> u8 list option" where
  "itoa_static num base = itoa_into 49 num base"

section \<open>Cells and the cursor\<close>

text \<open>\<open>vidptr[current_loc++] = b;\<close>\<close>

definition put_byte :: "u8 \<Rightarrow> console \<Rightarrow> console" where
  "put_byte b c = c\<lparr>vram := (vram c)(unat (current_loc c) := b), current_loc := current_loc c + 1\<rparr>"

definition put_cell :: "u8 \<Rightarrow> console \<Rightarrow> console" where
  "put_cell b c = put_byte 0x07 (put_byte b c)"

definition put_cells :: "u8 list \<Rightarrow> console \<Rightarrow> console" where
  "put_cells s c = fold put_cell s c"

definition kvga_set_cursor :: "u32 \<Rightarrow> u32 \<Rightarrow> console \<Rightarrow> console" where
  "kvga_set_cursor row col c = c\<lparr>current_loc := (row * COLUMNS_IN_LINE + col) * BYTES_FOR_EACH_ELEMENT\<rparr>"

partial_function (option) clear_to_eol_loop :: "u32 \<Rightarrow> u32 \<Rightarrow> mem \<Rightarrow> mem option" where
  "clear_to_eol_loop loc eol v =
     (if loc < eol
      then clear_to_eol_loop (loc + 2) eol (v(unat loc := 0x20, unat (loc + 1) := 0x07))
      else Some v)"

definition kvga_clear_to_eol :: "u32 \<Rightarrow> u32 \<Rightarrow> console \<Rightarrow> console option" where
  "kvga_clear_to_eol row col c = do {
     let loc = (row * COLUMNS_IN_LINE + col) * BYTES_FOR_EACH_ELEMENT;
     let eol = (row * COLUMNS_IN_LINE + COLUMNS_IN_LINE) * BYTES_FOR_EACH_ELEMENT;
     v \<leftarrow> clear_to_eol_loop loc eol (vram c);
     Some (c\<lparr>vram := v\<rparr>)
   }"

definition kvga_write_char :: "u32 \<Rightarrow> u32 \<Rightarrow> u8 \<Rightarrow> u8 \<Rightarrow> console \<Rightarrow> console" where
  "kvga_write_char row col b attr c =
     (let loc = (row * COLUMNS_IN_LINE + col) * BYTES_FOR_EACH_ELEMENT
      in c\<lparr>vram := (vram c)(unat loc := b, unat (loc + 1) := attr)\<rparr>)"

section \<open>Plain output\<close>

partial_function (option) kprint_loop :: "cptr \<Rightarrow> nat \<Rightarrow> console \<Rightarrow> console option" where
  "kprint_loop str i c = (if str i \<noteq> 0 then kprint_loop str (Suc i) (put_cell (str i) c) else Some c)"

definition kprint :: "cptr \<Rightarrow> console \<Rightarrow> console option" where
  "kprint str c = kprint_loop str 0 c"

definition kprint_newline :: "console \<Rightarrow> console" where
  "kprint_newline c =
     (let line_size = BYTES_FOR_EACH_ELEMENT * COLUMNS_IN_LINE
      in c\<lparr>current_loc := current_loc c + (line_size - current_loc c mod line_size)\<rparr>)"

function clear_loop :: "nat \<Rightarrow> mem \<Rightarrow> mem" where
  "clear_loop i v =
     (if i < unat SCREENSIZE then clear_loop (i + 2) (v(i := 0x20, i + 1 := 0x07)) else v)"
  by pat_completeness auto
termination by (relation "measure (\<lambda>(i, v). 4000 - i)") (auto simp: screen_defs)

declare clear_loop.simps [simp del]

definition clear_screen :: "console \<Rightarrow> console" where
  "clear_screen c = c\<lparr>vram := clear_loop 0 (vram c), current_loc := 0\<rparr>"

text \<open>\<open>for (int i = 9; i >= 2; i--)\<close>; the argument counts the digits still to do.\<close>

fun kprint_hex_loop :: "nat \<Rightarrow> u32 \<Rightarrow> u8 list \<Rightarrow> u8 list" where
  "kprint_hex_loop 0 val buf = buf"
| "kprint_hex_loop (Suc n) val buf =
     kprint_hex_loop n (drop_bit 4 val) (buf[n + 2 := digits ! unat (val AND 0xF)])"

definition kprint_hex :: "u32 \<Rightarrow> console \<Rightarrow> console option" where
  "kprint_hex val c = do {
     c1 \<leftarrow> kprint (lit_ptr (kprint_hex_loop 8 val (lit ''0x00000000''))) c;
     Some (kprint_newline c1)
   }"

section \<open>Formatted output\<close>

datatype karg = AInt u32 | AStr cptr

text \<open>\<open>while (*p >= '0' && *p <= '9') precision = precision * 10 + (*p++ - '0');\<close>\<close>

fun parse_digits :: "int \<Rightarrow> u8 list \<Rightarrow> int \<times> u8 list" where
  "parse_digits n [] = (n, [])"
| "parse_digits n (p # ps) =
     (if chr CHR ''0'' \<le> p \<and> p \<le> chr CHR ''9''
      then parse_digits (n * 10 + int (unat (p - chr CHR ''0''))) ps else (n, p # ps))"

definition parse_precision :: "u8 list \<Rightarrow> karg list \<Rightarrow> (int \<times> u8 list \<times> karg list) option" where
  "parse_precision ps args =
     (if ps \<noteq> [] \<and> hd ps = chr CHR ''.'' then
        if tl ps \<noteq> [] \<and> hd (tl ps) = chr CHR ''*'' then
          (case args of AInt v # as \<Rightarrow> Some (sint v, tl (tl ps), as) | _ \<Rightarrow> None)
        else let (n, rest) = parse_digits 0 (tl ps)
             in if n \<le> 0x7FFFFFFF then Some (n, rest, args) else None
      else Some (-1, ps, args))"

text \<open>The loop of the \<open>%s\<close> conversion of \<open>kprintf\<close>; it takes no precision.\<close>

partial_function (option) put_str :: "cptr \<Rightarrow> nat \<Rightarrow> console \<Rightarrow> console option" where
  "put_str s i c =
     (if s i \<noteq> 0 then
        put_str s (Suc i) (if s i = chr CHR 0x0A then kprint_newline c else put_cell (s i) c)
      else Some c)"

definition kprintf_conv :: "u8 \<Rightarrow> karg list \<Rightarrow> console \<Rightarrow> (karg list \<times> console) option" where
  "kprintf_conv p args c =
     (if p = chr CHR ''c'' then
        (case args of AInt i # as \<Rightarrow> Some (as, put_cell (ucast i) c) | _ \<Rightarrow> None)
      else if p = chr CHR ''d'' then
        (case args of AInt i # as \<Rightarrow>
           if i = 0x80000000 then None
           else do {
             let (i', c') = (if sint i < 0 then (- i, put_cell (chr CHR ''-'') c) else (i, c));
             s \<leftarrow> itoa_static i' 10;
             Some (as, put_cells s c')
           }
         | _ \<Rightarrow> None)
      else if p = chr CHR ''o'' then
        (case args of AInt i # as \<Rightarrow> do { s \<leftarrow> itoa_static i 8; Some (as, put_cells s c) } | _ \<Rightarrow> None)
      else if p = chr CHR ''s'' then
        (case args of AStr s # as \<Rightarrow> do { c' \<leftarrow> put_str s 0 c; Some (as, c') } | _ \<Rightarrow> None)
      else if p = chr CHR ''x'' then
        (case args of AInt i # as \<Rightarrow> do { s \<leftarrow> itoa_static i 16; Some (as, put_cells s c) } | _ \<Rightarrow> None)
      else if p = chr CHR ''%'' then Some (args, put_cell (chr CHR ''%'') c)
      else Some (args, c))"

lemma parse_digits_length: "length (snd (parse_digits n ps)) \<le> length ps"
  by (induction n ps rule: parse_digits.induct) auto

lemma parse_precision_length [termination_simp]:
  "parse_precision ps args = Some (n, q # qs, as) \<Longrightarrow> length qs < length ps"
  using parse_digits_length [of 0 "tl ps"]
  by (cases ps; cases "tl ps")
    (auto simp: parse_precision_def split: if_splits list.splits karg.splits prod.splits)

fun kprintf :: "u8 list \<Rightarrow> karg list \<Rightarrow> console \<Rightarrow> console option" where
  "kprintf [] args c = Some c"
| "kprintf (p # ps) args c =
     (if p = chr CHR 0x0A then kprintf ps args (kprint_newline c)
      else if p \<noteq> chr CHR ''%'' then kprintf ps args (put_cell p c)
      else case parse_precision ps args of
          Some (precision, q # qs, as) \<Rightarrow>
            (case kprintf_conv q as c of None \<Rightarrow> None | Some (as', c') \<Rightarrow> kprintf qs as' c')
        | _ \<Rightarrow> None)"

text \<open>
  The \<open>%s\<close> loops of \<open>ksprintf\<close>, with and without a precision; the output so far is a list.
\<close>

fun copy_str_upto :: "cptr \<Rightarrow> nat \<Rightarrow> nat \<Rightarrow> u8 list" where
  "copy_str_upto s i 0 = []"
| "copy_str_upto s i (Suc n) = (if s i \<noteq> 0 then s i # copy_str_upto s (Suc i) n else [])"

partial_function (option) copy_str :: "cptr \<Rightarrow> nat \<Rightarrow> u8 list \<Rightarrow> u8 list option" where
  "copy_str s i out = (if s i \<noteq> 0 then copy_str s (Suc i) (out @ [s i]) else Some out)"

definition ksprintf_conv :: "int \<Rightarrow> u8 \<Rightarrow> karg list \<Rightarrow> u8 list \<Rightarrow> (karg list \<times> u8 list) option" where
  "ksprintf_conv precision p args out =
     (if p = chr CHR ''c'' then
        (case args of AInt i # as \<Rightarrow> Some (as, out @ [ucast i]) | _ \<Rightarrow> None)
      else if p = chr CHR ''d'' then
        (case args of AInt i # as \<Rightarrow>
           if i = 0x80000000 then None
           else do {
             let (i', out') = (if sint i < 0 then (- i, out @ [chr CHR ''-'']) else (i, out));
             s \<leftarrow> itoa_into 49 i' 10;
             Some (as, out' @ s)
           }
         | _ \<Rightarrow> None)
      else if p = chr CHR ''o'' then
        (case args of AInt i # as \<Rightarrow> do { s \<leftarrow> itoa_into 49 i 8; Some (as, out @ s) } | _ \<Rightarrow> None)
      else if p = chr CHR ''s'' then
        (case args of AStr s # as \<Rightarrow>
           if 0 \<le> precision then Some (as, out @ copy_str_upto s 0 (nat precision))
           else do { out' \<leftarrow> copy_str s 0 out; Some (as, out') }
         | _ \<Rightarrow> None)
      else if p = chr CHR ''x'' then
        (case args of AInt i # as \<Rightarrow> do { s \<leftarrow> itoa_into 49 i 16; Some (as, out @ s) } | _ \<Rightarrow> None)
      else if p = chr CHR ''%'' then Some (args, out @ [chr CHR ''%''])
      else Some (args, out))"

fun ksprintf_loop :: "u8 list \<Rightarrow> karg list \<Rightarrow> u8 list \<Rightarrow> u8 list option" where
  "ksprintf_loop [] args out = Some out"
| "ksprintf_loop (p # ps) args out =
     (if p = chr CHR 0x0A then ksprintf_loop ps args (out @ [chr CHR 0x0A])
      else if p \<noteq> chr CHR ''%'' then ksprintf_loop ps args (out @ [p])
      else case parse_precision ps args of
          Some (precision, q # qs, as) \<Rightarrow>
            (case ksprintf_conv precision q as out of
               None \<Rightarrow> None | Some (as', out') \<Rightarrow> ksprintf_loop qs as' out')
        | _ \<Rightarrow> None)"

text \<open>
  \<open>ksprintf\<close> gives the bytes that it stores in \<open>buf\<close> before the terminator; its return value is
  their number.
\<close>

definition ksprintf :: "u8 list \<Rightarrow> karg list \<Rightarrow> u8 list option" where
  "ksprintf format args = ksprintf_loop format args []"

section \<open>Number conversion\<close>

text \<open>The digits of a conversion, most significant first, and the number they stand for.\<close>

definition digits_value :: "nat \<Rightarrow> nat list \<Rightarrow> nat" where
  "digits_value b ns = foldl (\<lambda>n d. n * b + d) 0 ns"

lemma digits_value_snoc: "digits_value b (ns @ [d]) = digits_value b ns * b + d"
  by (simp add: digits_value_def)

lemma digits_value_pos: "digits_value b ns \<noteq> 0 \<Longrightarrow> ns \<noteq> []"
  by (auto simp: digits_value_def)

lemma itoa_loop_value:
  assumes "2 \<le> base" and "unat num < 2 ^ k" and "0 < k" and "k \<le> room"
  shows "\<exists>ns. itoa_loop room num base acc = Some (List.map ((!) digits) ns @ acc) \<and> ns \<noteq> []
    \<and> (\<forall>d \<in> set ns. d < unat base) \<and> digits_value (unat base) ns = unat num
    \<and> length ns \<le> k \<and> (hd ns = 0 \<longrightarrow> ns = [0])"
  using assms
proof (induction room arbitrary: num acc k)
  case 0
  then show ?case by simp
next
  case (Suc room)
  have b: "2 \<le> unat base" using Suc.prems(1) by (simp add: word_le_nat_alt)
  obtain j where k: "k = Suc j" using Suc.prems(3) by (cases k) auto
  let ?d = "unat (num mod base)" and ?n = "num div base"
  have d: "?d = unat num mod unat base" and n: "unat ?n = unat num div unat base"
    by (simp_all add: unat_mod unat_div)
  have dlt: "?d < unat base" using b by (simp add: d)
  have val: "unat ?n * unat base + ?d = unat num" by (simp add: d n)
  show ?case
  proof (cases "?n = 0")
    case True
    then have "unat ?n = 0" by simp
    then have "?d = unat num" using val by simp
    then show ?thesis using True dlt k
      by (intro exI [of _ "[?d]"]) (simp add: digits_value_def)
  next
    case False
    then have pos: "0 < unat ?n" by (simp add: unat_gt_0)
    have "unat ?n * 2 \<le> unat ?n * unat base" using b by (intro mult_le_mono2)
    moreover have "unat num < 2 * 2 ^ j" using Suc.prems(2) k by simp
    ultimately have lt: "unat ?n < 2 ^ j" using val by linarith
    then have j: "0 < j" "j \<le> room" using pos k Suc.prems(4) by (cases j; auto)+
    obtain ns where ns: "itoa_loop room ?n base (digits ! ?d # acc)
        = Some (List.map ((!) digits) ns @ digits ! ?d # acc)" "ns \<noteq> []"
      "\<forall>d \<in> set ns. d < unat base" "digits_value (unat base) ns = unat ?n" "length ns \<le> j"
      "hd ns = 0 \<longrightarrow> ns = [0]"
      using Suc.IH [OF Suc.prems(1) lt j, of "digits ! ?d # acc"] by (elim exE conjE)
    have "hd ns \<noteq> 0" using ns(4,6) pos by (auto simp: digits_value_def)
    moreover have "itoa_loop (Suc room) num base acc
        = Some (List.map ((!) digits) (ns @ [?d]) @ acc)"
      using ns(1) False by (simp add: Let_def)
    moreover have "digits_value (unat base) (ns @ [?d]) = unat num"
      using val ns(4) by (simp only: digits_value_snoc)
    moreover have "\<forall>d \<in> set (ns @ [?d]). d < unat base" using ns(3) dlt by (simp only: set_append) auto
    ultimately show ?thesis using ns(2,5) k by (intro exI [of _ "ns @ [?d]"]) simp
  qed
qed

lemma itoa_value:
  assumes "2 \<le> base" and "base \<le> 16" and "32 \<le> room"
  shows "\<exists>ns. itoa_into room num base = Some (List.map ((!) digits) ns) \<and> ns \<noteq> []
    \<and> (\<forall>d \<in> set ns. d < unat base) \<and> digits_value (unat base) ns = unat num
    \<and> length ns \<le> 32 \<and> (hd ns = 0 \<longrightarrow> ns = [0])"
proof -
  have "base \<noteq> 0" "base \<le> 17" using assms(1,2) by unat_arith+
  then show ?thesis
    using itoa_loop_value [OF assms(1) unat32_less _ assms(3), of num "[]"] by (auto simp: itoa_into_def)
qed

lemma digits_nth: "d < 16 \<Longrightarrow> digits ! d \<noteq> 0 \<and> digits ! d \<noteq> 10"
proof -
  assume "d < 16"
  then have "d \<in> set (upt 0 16)" by simp
  moreover have "\<forall>d \<in> set (upt 0 16). digits ! d \<noteq> 0 \<and> digits ! d \<noteq> 10" by code_simp
  ultimately show ?thesis by blast
qed

lemma decimal_digit:
  assumes "d < 10"
  shows "chr CHR ''0'' \<le> digits ! d \<and> digits ! d \<le> chr CHR ''9''
    \<and> unat (digits ! d - chr CHR ''0'') = d"
proof -
  from assms have "d \<in> set (upt 0 10)" by simp
  moreover have "\<forall>d \<in> set (upt 0 10). chr CHR ''0'' \<le> digits ! d \<and> digits ! d \<le> chr CHR ''9''
    \<and> unat (digits ! d - chr CHR ''0'') = d" by code_simp
  ultimately show ?thesis by blast
qed

lemma parse_digits_decimal:
  "\<forall>d \<in> set ns. d < 10 \<Longrightarrow>
    parse_digits (int n) (List.map ((!) digits) ns) = (int (foldl (\<lambda>n d. n * 10 + d) n ns), [])"
proof (induction ns arbitrary: n)
  case (Cons d ns)
  then show ?case using decimal_digit [of d] Cons.IH [of "n * 10 + d"] by simp
qed simp

text \<open>
  The decimal conversion of every 32-bit number succeeds, and the digit parser of the
  formatting routines reads the number back from it.
\<close>
theorem itoa_parse_roundtrip:
  "\<exists>s. itoa_static num 10 = Some s \<and> parse_digits 0 s = (int (unat num), [])"
proof -
  obtain ns where ns: "itoa_into 49 num 10 = Some (List.map ((!) digits) ns)"
    "\<forall>d \<in> set ns. d < 10" "digits_value 10 ns = unat num"
    using itoa_value [of 10 49 num] by auto
  then show ?thesis using parse_digits_decimal [of ns 0]
    by (simp add: itoa_static_def digits_value_def)
qed

text \<open>
  C36. For every base from 2 to 16 the conversion loop ends within the 49 bytes that precede the
  terminator in the static buffer, indeed within 32, and writes the digits of the number in that
  base, most significant first and without leading zeros.
\<close>
theorem itoa_fits_buffer:
  assumes "2 \<le> base" and "base \<le> 16"
  shows "\<exists>ns. itoa_static num base = Some (List.map ((!) digits) ns) \<and> ns \<noteq> []
    \<and> (\<forall>d \<in> set ns. d < unat base) \<and> digits_value (unat base) ns = unat num
    \<and> length ns \<le> 32 \<and> (hd ns = 0 \<longrightarrow> ns = [0])"
  using itoa_value [OF assms, of 49 num] by (simp add: itoa_static_def)

theorem itoa_fits_buffer_witness:
  "(2 :: u32) \<le> 16 \<and> (16 :: u32) \<le> 16
    \<and> (\<exists>ns. itoa_static 0xBEEF 16 = Some (List.map ((!) digits) ns) \<and> digits_value 16 ns = 0xBEEF)"
  using itoa_fits_buffer [of 16 "0xBEEF"] by auto

section \<open>Cells\<close>

lemma put_cell_simps [simp]:
  "current_loc (put_cell b c) = current_loc c + 2"
  "vram (put_cell b c) = (vram c)(unat (current_loc c) := b, unat (current_loc c + 1) := 7)"
  by (simp_all add: put_cell_def put_byte_def add.assoc)

lemma put_cells_simps [simp]:
  "put_cells [] c = c" "put_cells (b # s) c = put_cells s (put_cell b c)"
  "put_cells (s @ t) c = put_cells t (put_cells s c)"
  by (simp_all add: put_cells_def)

lemma put_cells_loc: "current_loc (put_cells s c) = current_loc c + 2 * of_nat (length s)"
  by (induction s arbitrary: c) (simp_all add: algebra_simps)

text \<open>The bytes of a run of cells, character and attribute in turn.\<close>

definition cell_bytes :: "u8 list \<Rightarrow> u8 list" where
  "cell_bytes s = concat (List.map (\<lambda>b. [b, 7]) s)"

lemma cell_bytes_simps [simp]:
  "cell_bytes [] = []" "cell_bytes (b # s) = b # 7 # cell_bytes s"
  "length (cell_bytes s) = 2 * length s"
  by (induction s) (simp_all add: cell_bytes_def)

lemma put_cells_vram:
  assumes "unat (current_loc c) + 2 * length s < 2 ^ 32"
  shows "vram (put_cells s c) x =
    (if unat (current_loc c) \<le> x \<and> x < unat (current_loc c) + 2 * length s
     then cell_bytes s ! (x - unat (current_loc c)) else vram c x)"
  using assms
proof (induction s arbitrary: c)
  case (Cons b s)
  obtain l where l: "current_loc c = of_nat l" "l < 2 ^ 32" by (rule u32_cases)
  have l2: "l + 2 * length (b # s) < 2 ^ 32" using Cons.prems l by (simp add: unat_of_nat32)
  have loc: "current_loc (put_cell b c) = of_nat (l + 2)" by (simp add: l)
  have u: "unat (current_loc (put_cell b c)) = l + 2" "unat (current_loc c + 1) = Suc l" "unat (current_loc c) = l"
    using l2 l(1) unat_of_nat32 [of "l + 2"] unat_of_nat32 [of "Suc l"] unat_of_nat32 [of l]
    by (simp_all add: loc add.commute)
  have "unat (current_loc (put_cell b c)) + 2 * length s < 2 ^ 32" using l2 u(1) by simp
  have v: "vram (put_cell b c) = (vram c)(l := b, Suc l := 7)" by (simp add: u(2,3))
  have IH: "vram (put_cells s (put_cell b c)) x
      = (if l + 2 \<le> x \<and> x < l + 2 + 2 * length s then cell_bytes s ! (x - (l + 2))
         else ((vram c)(l := b, Suc l := 7)) x)"
    using Cons.IH [of "put_cell b c"] \<open>unat (current_loc (put_cell b c)) + 2 * length s < 2 ^ 32\<close>
    by (simp only: u v)
  then have "vram (put_cells (b # s) c) x
      = (if l + 2 \<le> x \<and> x < l + 2 + 2 * length s then cell_bytes s ! (x - (l + 2))
         else ((vram c)(l := b, Suc l := 7)) x)"
    by (simp only: put_cells_simps IH)
  moreover have "x < l \<or> x = l \<or> x = Suc l \<or> (\<exists>k. x = l + 2 + k)"
    by (metis Suc_lessI add_2_eq_Suc' le_Suc_ex linorder_neqE_nat Suc_leI)
  ultimately show ?case using l2 by (elim disjE exE) (simp_all add: u(3))
qed auto

lemma kprint_loop_cstr: "cstr (ptr_at p i) s \<Longrightarrow> kprint_loop p i c = Some (put_cells s c)"
proof (induction s arbitrary: i c)
  case Nil
  then show ?case by (subst kprint_loop.simps) (simp add: cstr_Nil_at)
next
  case (Cons b s)
  then have "cstr (ptr_at p (Suc i)) s" "p i = b" "b \<noteq> 0"
    by auto
  then show ?case using Cons.IH by (subst kprint_loop.simps) simp
qed

lemma kprint_cstr: "cstr p s \<Longrightarrow> kprint p c = Some (put_cells s c)"
  using kprint_loop_cstr [of p 0 s c] by (simp add: kprint_def)

text \<open>
  Printing a string returns, advances the cursor by two bytes per character, stores the
  characters with attribute 7 in exactly those cells and leaves every other byte of video memory
  alone.
\<close>
theorem kprint_cells:
  assumes "cstr p s" and "unat (current_loc c) + 2 * length s < 2 ^ 32"
  shows "\<exists>c'. kprint p c = Some c' \<and> unat (current_loc c') = unat (current_loc c) + 2 * length s
    \<and> (\<forall>x. vram c' x = (if unat (current_loc c) \<le> x \<and> x < unat (current_loc c) + 2 * length s
         then cell_bytes s ! (x - unat (current_loc c)) else vram c x))"
proof -
  obtain l where l: "current_loc c = of_nat l" "l < 2 ^ 32" by (rule u32_cases)
  then have "unat (of_nat (l + 2 * length s) :: u32) = l + 2 * length s"
    using assms(2) by (intro unat_of_nat32) (simp add: unat_of_nat32)
  then show ?thesis
    using kprint_cstr [OF assms(1)] put_cells_vram [OF assms(2)] l
    by (auto simp: put_cells_loc unat_of_nat32)
qed

lemma newline_loc:
  assumes "unat (current_loc c) + 160 < 2 ^ 32"
  shows "unat (current_loc (kprint_newline c)) = (unat (current_loc c) div 160 + 1) * 160"
proof -
  obtain l where l: "current_loc c = of_nat l" "l < 2 ^ 32" by (rule u32_cases)
  have m: "(of_nat l :: u32) mod 160 = of_nat (l mod 160)"
    using l(2) unat_of_nat32 [of l] by (simp add: word_arith_nat_mod)
  have "current_loc (kprint_newline c) = of_nat (l + (160 - l mod 160))"
    by (simp add: kprint_newline_def screen_defs l m of_nat32_sub)
  moreover have "l + (160 - l mod 160) < 2 ^ 32" using assms l by (simp add: unat_of_nat32)
  ultimately have "unat (current_loc (kprint_newline c)) = l + (160 - l mod 160)"
    by (simp only: unat_of_nat32)
  moreover have "unat (current_loc c) = l" using l by (simp add: unat_of_nat32)
  moreover have "l + (160 - l mod 160) = (l div 160 + 1) * 160"
  proof -
    have "q * 160 + m = l \<Longrightarrow> m < 160 \<Longrightarrow> l + (160 - m) = (q + 1) * 160" for q m :: nat by auto
    then show ?thesis using div_mult_mod_eq [of l 160] by simp
  qed
  ultimately show ?thesis by simp
qed

lemma clear_loop_apply:
  "clear_loop (2 * k) v x = (if 2 * k \<le> x \<and> x < 4000 then if even x then 0x20 else 7 else v x)"
proof (induction "2000 - k" arbitrary: k v)
  case 0
  then show ?case by (subst clear_loop.simps) (auto simp: screen_defs)
next
  case (Suc n)
  then have "n = 2000 - Suc k" and k: "k < 2000" by simp_all
  note IH = Suc.hyps(1) [OF this(1)]
  have "clear_loop (2 * k) v = clear_loop (2 * Suc k) (v(2 * k := 0x20, 2 * k + 1 := 7))"
    using k by (subst clear_loop.simps) (simp add: screen_defs)
  then have step: "clear_loop (2 * k) v x = (if 2 * Suc k \<le> x \<and> x < 4000
      then if even x then 0x20 else 7 else (v(2 * k := 0x20, 2 * k + 1 := 7)) x)"
    by (simp only: IH)
  have "x < 2 * k \<or> x = 2 * k \<or> x = 2 * k + 1 \<or> 2 * Suc k \<le> x" by arith
  then show ?case using k step by (elim disjE) simp_all
qed

lemma blank_cells: "x < 2 * n \<Longrightarrow> cell_bytes (replicate n 0x20) ! x = (if even x then 0x20 else 7)"
proof (induction n arbitrary: x)
  case (Suc n)
  consider "x = 0" | "x = 1" | k where "x = Suc (Suc k)" by (metis One_nat_def not0_implies_Suc)
  then show ?case using Suc by cases simp_all
qed simp

definition visible :: "console \<Rightarrow> u8 list" where
  "visible c = List.map (vram c) [0..<4000]"

text \<open>A console to evaluate on.\<close>

definition console0 :: console where
  "console0 = \<lparr>vram = (\<lambda>x. 0), current_loc = 0\<rparr>"

lemma console0_simps [simp]: "current_loc console0 = 0" "vram console0 x = 0"
  by (simp_all add: console0_def)

lemma lit_ok: "0 \<notin> set (lit ''ok'')"
  by code_simp

theorem kprint_cells_witness:
  "\<exists>c'. kprint (lit_ptr (lit ''ok'')) console0 = Some c' \<and> unat (current_loc c') = 4
     \<and> vram c' 0 = chr CHR ''o'' \<and> vram c' 3 = 7 \<and> vram c' 4 = 0"
proof -
  have "vram c' 0 = chr CHR ''o'' \<and> vram c' 3 = 7 \<and> vram c' 4 = 0"
    if "\<forall>x. vram c' x = (if x < 4 then cell_bytes (lit ''ok'') ! x else 0)" for c'
    using that by (simp add: eval_nat_numeral)
  then show ?thesis
    using kprint_cells [OF cstr_lit [OF lit_ok], of console0] by (auto simp: numeral_3_eq_3)
qed

text \<open>
  Clearing the screen makes all 2000 cells blank, homes the cursor and writes nothing
  beyond the screen.
\<close>
theorem clear_screen_blanks:
  "current_loc (clear_screen c) = 0
   \<and> visible (clear_screen c) = cell_bytes (replicate 2000 0x20)
   \<and> vram (clear_screen c) (4000 + x) = vram c (4000 + x)"
proof -
  have "visible (clear_screen c) = cell_bytes (replicate 2000 0x20)"
    using clear_loop_apply [of 0 "vram c"]
    by (intro nth_equalityI) (simp_all add: visible_def clear_screen_def blank_cells)
  then show ?thesis using clear_loop_apply [of 0 "vram c"]
    by (simp add: clear_screen_def)
qed

lemma clear_to_eol_steps:
  assumes "a + 2 * n < 2 ^ 32"
  shows "\<exists>v'. clear_to_eol_loop (of_nat a) (of_nat (a + 2 * n)) v = Some v'
    \<and> (\<forall>x. v' x = (if a \<le> x \<and> x < a + 2 * n then cell_bytes (replicate n 0x20) ! (x - a) else v x))"
  using assms
proof (induction n arbitrary: a v)
  case 0
  then show ?case by (subst clear_to_eol_loop.simps) auto
next
  case (Suc n)
  have lt: "(of_nat a :: u32) < of_nat (a + 2 * Suc n)" using Suc.prems
    by (subst of_nat32_less) simp_all
  have u: "unat (of_nat a :: u32) = a" "unat ((of_nat a :: u32) + 1) = a + 1"
    using Suc.prems unat_of_nat32 [of a] unat_of_nat32 [of "a + 1"] by (simp_all add: add.commute)
  have p: "(of_nat a :: u32) + 2 = of_nat (a + 2)" "a + 2 * Suc n = (a + 2) + 2 * n" by simp_all
  let ?v = "v(a := 0x20, a + 1 := 7)"
  have less: "(a + 2) + 2 * n < 2 ^ 32" using Suc.prems by simp
  obtain v' where v': "clear_to_eol_loop (of_nat (a + 2)) (of_nat (a + 2 + 2 * n)) ?v = Some v'"
    "\<forall>x. v' x = (if a + 2 \<le> x \<and> x < a + 2 + 2 * n then cell_bytes (replicate n 0x20) ! (x - (a + 2)) else ?v x)"
    using Suc.IH [OF less, of ?v] by (elim exE conjE)
  have "clear_to_eol_loop (of_nat a) (of_nat (a + 2 * Suc n)) v = Some v'"
    using lt by (subst clear_to_eol_loop.simps) (simp only: u p v'(1) if_True)
  moreover have "v' x = (if a \<le> x \<and> x < a + 2 * Suc n then cell_bytes (replicate (Suc n) 0x20) ! (x - a) else v x)" for x
  proof -
    have "x < a \<or> x = a \<or> x = a + 1 \<or> (\<exists>k. x = a + 2 + k)" by presburger
    then show ?thesis by (elim disjE exE) (simp_all add: v'(2))
  qed
  ultimately show ?case by blast
qed

text \<open>For a position on the screen, clearing to the end of the line returns, blanks exactly
  the cells from that position to the end of its row, and leaves the cursor where it was.\<close>

lemma clear_to_eol_row:
  assumes "row < 25" and "col \<le> 80"
  shows "\<exists>c'. kvga_clear_to_eol (of_nat row) (of_nat col) c = Some c' \<and> current_loc c' = current_loc c
    \<and> (\<forall>x. vram c' x = (if (row * 80 + col) * 2 \<le> x \<and> x < (row + 1) * 160
           then if even x then 0x20 else 7 else vram c x))"
proof -
  let ?a = "(row * 80 + col) * 2" and ?n = "80 - col"
  have e: "?a + 2 * ?n = (row + 1) * 160" using assms by simp
  have w: "(of_nat row * COLUMNS_IN_LINE + of_nat col) * BYTES_FOR_EACH_ELEMENT = of_nat ?a"
    "(of_nat row * COLUMNS_IN_LINE + COLUMNS_IN_LINE) * BYTES_FOR_EACH_ELEMENT = of_nat (?a + 2 * ?n)"
    unfolding e by (simp_all add: screen_defs algebra_simps)
  have "?a + 2 * ?n < 2 ^ 32" unfolding e using assms by simp
  then obtain v' where v': "clear_to_eol_loop (of_nat ?a) (of_nat (?a + 2 * ?n)) (vram c) = Some v'"
    "\<forall>x. v' x = (if ?a \<le> x \<and> x < ?a + 2 * ?n then cell_bytes (replicate ?n 0x20) ! (x - ?a) else vram c x)"
    using clear_to_eol_steps by blast
  have "v' x = (if ?a \<le> x \<and> x < (row + 1) * 160 then if even x then 0x20 else 7 else vram c x)" for x
    using v'(2) blank_cells [of "x - ?a" ?n] unfolding e by auto
  then show ?thesis using v'(1)
    by (intro exI [of _ "c\<lparr>vram := v'\<rparr>"]) (simp add: kvga_clear_to_eol_def Let_def w del: of_nat_add of_nat_mult)
qed

text \<open>
  There is no scrolling: once the cursor has passed the last line, printing still returns
  but nothing of it is visible, and the cursor stays beyond the screen.
\<close>
theorem output_lost_below_screen:
  assumes "cstr p s" and "4000 \<le> unat (current_loc c)" and "unat (current_loc c) + 2 * length s < 2 ^ 32"
  shows "\<exists>c'. kprint p c = Some c' \<and> visible c' = visible c \<and> 4000 \<le> unat (current_loc c')"
proof -
  show ?thesis using kprint_cells [OF assms(1,3)] assms(2) by (auto simp: visible_def)
qed

theorem output_lost_below_screen_witness:
  "(4000 :: nat) \<le> 4000 \<and> (\<exists>c'. kprint (lit_ptr (lit ''ok'')) (console0\<lparr>current_loc := 4000\<rparr>) = Some c'
     \<and> visible c' = visible (console0\<lparr>current_loc := 4000\<rparr>))"
  using output_lost_below_screen [OF cstr_lit [OF lit_ok], of "console0\<lparr>current_loc := 4000\<rparr>"] by auto

section \<open>The two formatting routines\<close>

lemma put_char_eq: "put_cells [b] c = put_cell b c"
  by simp

text \<open>The text that \<open>ksprintf\<close> produces, shown on the console.\<close>

definition show_byte :: "u8 \<Rightarrow> console \<Rightarrow> console" where
  "show_byte b c = (if b = chr CHR 0x0A then kprint_newline c else put_cell b c)"

definition show_bytes :: "u8 list \<Rightarrow> console \<Rightarrow> console" where
  "show_bytes s c = fold show_byte s c"

lemma show_bytes_simps [simp]:
  "show_bytes [] c = c" "show_bytes (b # s) c = show_bytes s (show_byte b c)"
  "show_bytes (s @ t) c = show_bytes t (show_bytes s c)"
  by (simp_all add: show_bytes_def)

lemma show_bytes_plain: "chr CHR 0x0A \<notin> set s \<Longrightarrow> show_bytes s c = put_cells s c"
  by (induction s arbitrary: c) (auto simp: show_byte_def)

lemma put_str_cstr: "cstr (ptr_at p i) s \<Longrightarrow> put_str p i c = Some (show_bytes s c)"
proof (induction s arbitrary: i c)
  case Nil
  then show ?case by (subst put_str.simps) (simp add: cstr_Nil_at)
next
  case (Cons b s)
  then have "cstr (ptr_at p (Suc i)) s" "p i = b" "b \<noteq> 0" by auto
  then show ?case using Cons.IH by (subst put_str.simps) (simp add: show_byte_def)
qed

lemma copy_str_cstr: "cstr (ptr_at p i) s \<Longrightarrow> copy_str p i out = Some (out @ s)"
proof (induction s arbitrary: i out)
  case Nil
  then show ?case by (subst copy_str.simps) (simp add: cstr_Nil_at)
next
  case (Cons b s)
  then have "cstr (ptr_at p (Suc i)) s" "p i = b" "b \<noteq> 0" by auto
  then show ?case using Cons.IH by (subst copy_str.simps) simp
qed

lemma copy_str_upto_cstr: "cstr (ptr_at p i) s \<Longrightarrow> copy_str_upto p i n = take n s"
proof (induction n arbitrary: i s)
  case (Suc n)
  then show ?case
    by (cases s) auto
qed simp

lemma newline_chr: "chr CHR 0x0A = 10"
  by code_simp

lemma show_byte_lits:
  "show_byte (chr CHR ''-'') c = put_cell (chr CHR ''-'') c"
  "show_byte (chr CHR ''%'') c = put_cell (chr CHR ''%'') c"
proof -
  have "chr CHR ''-'' \<noteq> chr CHR 0x0A" "chr CHR ''%'' \<noteq> chr CHR 0x0A" by code_simp+
  then show "show_byte (chr CHR ''-'') c = put_cell (chr CHR ''-'') c"
    "show_byte (chr CHR ''%'') c = put_cell (chr CHR ''%'') c" by (simp_all add: show_byte_def)
qed

lemma itoa_no_newline:
  assumes "base = 8 \<or> base = 10 \<or> base = 16"
  obtains s where "itoa_into 49 num base = Some s" "chr CHR 0x0A \<notin> set s"
proof -
  have b: "2 \<le> base" "base \<le> 16" using assms by auto
  obtain ns where ns: "itoa_into 49 num base = Some (List.map ((!) digits) ns)"
    "\<forall>d \<in> set ns. d < unat base" using itoa_value [OF b, of 49 num] by auto
  have "unat base \<le> 16" using b by (simp add: word_le_nat_alt)
  then have "\<forall>d \<in> set ns. digits ! d \<noteq> 10" using ns(2) digits_nth by (meson less_le_trans)
  then show ?thesis using that [OF ns(1)] by (force simp: newline_chr)
qed

text \<open>Formats without precision and without \<open>%c\<close>, and string arguments that end.\<close>

fun plain_format :: "u8 list \<Rightarrow> bool" where
  "plain_format [] = True"
| "plain_format [p] = (p \<noteq> chr CHR ''%'')"
| "plain_format (p # q # ps) =
     (if p = chr CHR ''%'' then q \<noteq> chr CHR ''.'' \<and> q \<noteq> chr CHR ''c'' \<and> plain_format ps
      else plain_format (q # ps))"

definition string_args :: "karg list \<Rightarrow> bool" where
  "string_args args = (\<forall>p. AStr p \<in> set args \<longrightarrow> (\<exists>s. cstr p s))"

lemma string_args_simps [simp]:
  "string_args []" "string_args (AInt i # as) = string_args as"
  "string_args (AStr p # as) = ((\<exists>s. cstr p s) \<and> string_args as)"
  by (auto simp: string_args_def)

lemma conv_related:
  assumes "string_args args" and "q \<noteq> chr CHR ''c''"
  shows "(\<exists>as t. ksprintf_conv (-1) q args out = Some (as, out @ t) \<and> string_args as
      \<and> kprintf_conv q args c = Some (as, show_bytes t c))
    \<or> (ksprintf_conv (-1) q args out = None \<and> kprintf_conv q args c = None)"
proof (cases args)
  case Nil
  then show ?thesis using assms by (simp add: ksprintf_conv_def kprintf_conv_def show_byte_lits)
next
  case (Cons a as)
  show ?thesis
  proof (cases a)
    case (AInt i)
    obtain s8 where s8: "itoa_into 49 i 8 = Some s8" "chr CHR 0x0A \<notin> set s8"
      by (rule itoa_no_newline [of 8]) simp
    obtain s10 where s10: "itoa_into 49 i 10 = Some s10" "chr CHR 0x0A \<notin> set s10"
      by (rule itoa_no_newline [of 10]) simp
    obtain sm where sm: "itoa_into 49 (- i) 10 = Some sm" "chr CHR 0x0A \<notin> set sm"
      by (rule itoa_no_newline [of 10]) simp
    obtain s16 where s16: "itoa_into 49 i 16 = Some s16" "chr CHR 0x0A \<notin> set s16"
      by (rule itoa_no_newline [of 16]) simp
    note plain = show_bytes_plain [OF s8(2)] show_bytes_plain [OF s10(2)] show_bytes_plain [OF sm(2)]
      show_bytes_plain [OF s16(2)] show_byte_lits
    have as: "string_args as" using assms(1) Cons AInt by simp
    show ?thesis
    proof (cases "i = 0x80000000")
      case True
      show ?thesis using s8(1) s16(1) assms(2) as unfolding Cons AInt True
        by (simp add: ksprintf_conv_def kprintf_conv_def itoa_static_def plain)
    next
      case False
      then show ?thesis using assms(2) as unfolding Cons AInt
        by (simp add: ksprintf_conv_def kprintf_conv_def itoa_static_def s8(1) s10(1) sm(1) s16(1) plain)
    qed
  next
    case (AStr p)
    then obtain s where s: "cstr p s" using assms Cons by auto
    then show ?thesis using assms Cons AStr put_str_cstr [of p 0 s c] copy_str_cstr [of p 0 s out]
      by (simp add: ksprintf_conv_def kprintf_conv_def show_byte_lits)
  qed
qed

lemma plain_no_precision: "q \<noteq> chr CHR ''.'' \<Longrightarrow> parse_precision (q # qs) args = Some (-1, q # qs, args)"
  by (simp add: parse_precision_def)

lemma percent_newline: "chr CHR ''%'' \<noteq> chr CHR 0x0A"
  by code_simp

lemma format_char:
  assumes "p \<noteq> chr CHR ''%''"
  shows "kprintf (p # ps) args c = kprintf ps args (show_byte p c)"
    and "ksprintf_loop (p # ps) args out = ksprintf_loop ps args (out @ [p])"
  using assms by (simp_all add: show_byte_def)

lemma formats_related:
  "plain_format f \<Longrightarrow> string_args args \<Longrightarrow>
    kprintf f args (show_bytes out c) = map_option (\<lambda>t. show_bytes t c) (ksprintf_loop f args out)"
proof (induction f arbitrary: args out rule: plain_format.induct)
  case (3 p q ps)
  show ?case
  proof (cases "p = chr CHR ''%''")
    case True
    then have q: "q \<noteq> chr CHR ''.''" "q \<noteq> chr CHR ''c''" "plain_format ps" using 3(3) by auto
    show ?thesis
      using conv_related [OF 3(4) q(2), of out "show_bytes out c"]
    proof (elim disjE exE conjE)
      fix as t
      assume "ksprintf_conv (-1) q args out = Some (as, out @ t)" "string_args as"
        "kprintf_conv q args (show_bytes out c) = Some (as, show_bytes t (show_bytes out c))"
      then show ?thesis using 3(1) [OF True q(3), of as "out @ t"] q(1)
        by (simp add: True plain_no_precision percent_newline)
    next
      assume "ksprintf_conv (-1) q args out = None" "kprintf_conv q args (show_bytes out c) = None"
      then show ?thesis using q(1) by (simp add: True plain_no_precision percent_newline)
    qed
  next
    case False
    then have next_plain: "plain_format (q # ps)" using 3(3) by simp
    show ?thesis using 3(2) [OF False next_plain 3(4), of "out @ [p]"]
      by (simp only: format_char [OF False] show_bytes_simps)
  qed
qed (auto simp: show_byte_def)

text \<open>
  C27. For formats without precision and without \<open>%c\<close>, and strings that end, the two formatting
  routines agree: \<open>kprintf\<close> shows on the console, newlines included, exactly the bytes that
  \<open>ksprintf\<close> stores, and one is undefined exactly where the other is.
\<close>
theorem kprintf_shows_ksprintf:
  assumes "plain_format f" and "string_args args"
  shows "kprintf f args c = map_option (\<lambda>t. show_bytes t c) (ksprintf f args)"
  using formats_related [OF assms, of "[]"] by (simp add: ksprintf_def)

declare copy_str.simps [code]

theorem kprintf_shows_ksprintf_witness:
  "plain_format (lit ''a=%d, %s'') \<and> (\<exists>t. ksprintf (lit ''a=%d, %s'') [AInt (- 5), AStr (lit_ptr (lit ''ok''))] = Some t
    \<and> t = lit ''a=-5, ok''
    \<and> kprintf (lit ''a=%d, %s'') [AInt (- 5), AStr (lit_ptr (lit ''ok''))] console0 = Some (show_bytes t console0))"
proof -
  have f: "plain_format (lit ''a=%d, %s'')" by code_simp
  have a: "string_args [AInt (- 5), AStr (lit_ptr (lit ''ok''))]" using cstr_lit [OF lit_ok] by auto
  have "ksprintf (lit ''a=%d, %s'') [AInt (- 5), AStr (lit_ptr (lit ''ok''))] = Some (lit ''a=-5, ok'')" by code_simp
  then show ?thesis using kprintf_shows_ksprintf [OF f a, of console0] f by simp
qed

text \<open>
  For \<open>%.*s\<close> with a precision that is not negative, \<open>ksprintf\<close> copies at most that many
  characters, while \<open>kprintf\<close> accepts the same format and prints the whole string.
\<close>
theorem precision_only_in_ksprintf:
  assumes "cstr p s" and "chr CHR 0x0A \<notin> set s" and "0 \<le> sint n"
  shows "ksprintf (lit ''%.*s'') [AInt n, AStr p] = Some (take (nat (sint n)) s)
    \<and> kprintf (lit ''%.*s'') [AInt n, AStr p] c = Some (put_cells s c)"
proof -
  have lits: "chr CHR ''s'' \<noteq> chr CHR ''c''" "chr CHR ''s'' \<noteq> chr CHR ''d''" "chr CHR ''s'' \<noteq> chr CHR ''o''"
    by code_simp+
  show ?thesis
    using assms put_str_cstr [of p 0 s c] copy_str_upto_cstr [of p 0 s "nat (sint n)"]
    by (simp add: ksprintf_def parse_precision_def percent_newline ksprintf_conv_def kprintf_conv_def lits
        show_bytes_plain)
qed

theorem precision_only_in_ksprintf_witness:
  "ksprintf (lit ''%.*s'') [AInt 1, AStr (lit_ptr (lit ''ok''))] = Some (lit ''o'')
    \<and> kprintf (lit ''%.*s'') [AInt 1, AStr (lit_ptr (lit ''ok''))] console0 = Some (put_cells (lit ''ok'') console0)"
proof -
  have "chr CHR 0x0A \<notin> set (lit ''ok'')" by code_simp
  then show ?thesis using precision_only_in_ksprintf [OF cstr_lit [OF lit_ok], of 1 console0] by simp
qed

section \<open>Hexadecimal dump\<close>

lemma kprint_hex_digits:
  "kprint_hex_loop 8 val (lit ''0x00000000'') =
    lit ''0x'' @ List.map (\<lambda>i. digits ! unat (drop_bit (4 * i) val AND 0xF)) [7, 6, 5, 4, 3, 2, 1, 0]"
proof -
  have "(8 :: nat) = Suc (Suc (Suc (Suc (Suc (Suc (Suc (Suc 0)))))))" by simp
  then show ?thesis by (simp only: kprint_hex_loop.simps) (simp add: drop_bit_drop_bit)
qed

lemma kprint_hex_shows:
  "kprint_hex val c = Some (kprint_newline (put_cells (lit ''0x'' @
    List.map (\<lambda>i. digits ! unat (drop_bit (4 * i) val AND 0xF)) [7, 6, 5, 4, 3, 2, 1, 0]) c))"
proof -
  let ?s = "lit ''0x'' @ List.map (\<lambda>i. digits ! unat (drop_bit (4 * i) val AND 0xF)) [7, 6, 5, 4, 3, 2, 1, 0]"
  have nz: "digits ! unat (v AND 0xF) \<noteq> 0" for v :: u32
  proof -
    have "v AND 0xF = take_bit 4 v" by (simp add: take_bit_eq_mask mask_eq_exp_minus_1)
    then have "unat (v AND 0xF) < 16" by (simp add: unsigned_take_bit_eq take_bit_nat_less_exp [of 4, simplified])
    then show ?thesis using digits_nth by blast
  qed
  have "0 \<notin> set (lit ''0x'')" by code_simp
  moreover have "0 \<notin> set (List.map (\<lambda>i. digits ! unat (drop_bit (4 * i) val AND 0xF)) [7, 6, 5, 4, 3, 2, 1, 0])"
    using nz by (auto simp: eq_commute [of 0])
  ultimately have "0 \<notin> set ?s" by (simp only: set_append Un_iff) blast
  note shown = kprint_cstr [OF cstr_lit [OF this], of c]
  show ?thesis unfolding kprint_hex_def kprint_hex_digits shown by simp
qed

section \<open>Calls that match their format\<close>

fun well_typed :: "u8 list \<Rightarrow> karg list \<Rightarrow> bool" where
  "well_typed [] args = True"
| "well_typed (p # ps) args =
     (if p \<noteq> chr CHR ''%'' then well_typed ps args
      else case ps of [] \<Rightarrow> False
      | q # qs \<Rightarrow>
          if q = chr CHR ''.'' then False
          else if q = chr CHR ''d'' then
            (case args of AInt i # as \<Rightarrow> i \<noteq> 0x80000000 \<and> well_typed qs as | _ \<Rightarrow> False)
          else if q = chr CHR ''c'' \<or> q = chr CHR ''o'' \<or> q = chr CHR ''x'' then
            (case args of AInt i # as \<Rightarrow> well_typed qs as | _ \<Rightarrow> False)
          else if q = chr CHR ''s'' then
            (case args of AStr s # as \<Rightarrow> well_typed qs as | _ \<Rightarrow> False)
          else well_typed qs args)"

lemma fmt_chars:
  "chr CHR ''c'' = 0x63" "chr CHR ''d'' = 0x64" "chr CHR ''o'' = 0x6F" "chr CHR ''s'' = 0x73"
  "chr CHR ''x'' = 0x78" "chr CHR ''%'' = 0x25" "chr CHR ''.'' = 0x2E"
  by code_simp+

lemma kprintf_conv_total:
  assumes "well_typed (chr CHR ''%'' # q # qs) args" and "string_args args"
  shows "\<exists>as c'. kprintf_conv q args c = Some (as, c') \<and> well_typed qs as \<and> string_args as"
proof -
  have num: "\<exists>s. itoa_static i b = Some s" if "b = 8 \<or> b = 10 \<or> b = 16" for i b
    using itoa_no_newline [OF that] by (metis itoa_static_def)
  consider "q = chr CHR ''d''" | "q = chr CHR ''c''" | "q = chr CHR ''o''" | "q = chr CHR ''x''"
    | "q = chr CHR ''s''" | "q \<notin> {chr CHR ''d'', chr CHR ''c'', chr CHR ''o'', chr CHR ''x'', chr CHR ''s''}"
    by blast
  then show ?thesis
  proof cases
    case 1
    then obtain i as where i: "args = AInt i # as" "i \<noteq> 0x80000000" "well_typed qs as" "string_args as"
      using assms by (auto simp: fmt_chars split: list.splits karg.splits)
    obtain s sm where "itoa_static i 10 = Some s" "itoa_static (- i) 10 = Some sm" using num [of 10] by metis
    then show ?thesis using 1 i by (simp add: kprintf_conv_def fmt_chars)
  next
    case 3
    then obtain i as where i: "args = AInt i # as" "well_typed qs as" "string_args as"
      using assms by (auto simp: fmt_chars split: list.splits karg.splits)
    obtain s where "itoa_static i 8 = Some s" using num [of 8] by metis
    then show ?thesis using 3 i by (simp add: kprintf_conv_def fmt_chars)
  next
    case 4
    then obtain i as where i: "args = AInt i # as" "well_typed qs as" "string_args as"
      using assms by (auto simp: fmt_chars split: list.splits karg.splits)
    obtain s where "itoa_static i 16 = Some s" using num [of 16] by metis
    then show ?thesis using 4 i by (simp add: kprintf_conv_def fmt_chars)
  next
    case 5
    then obtain p as s where i: "args = AStr p # as" "well_typed qs as" "string_args as" "cstr p s"
      using assms by (auto simp: fmt_chars split: list.splits karg.splits)
    then show ?thesis using 5 put_str_cstr [of p 0 s c] by (simp add: kprintf_conv_def fmt_chars)
  qed (use assms in \<open>auto simp: kprintf_conv_def fmt_chars split: list.splits karg.splits if_splits\<close>)
qed

lemma kprintf_total:
  "well_typed f args \<Longrightarrow> string_args args \<Longrightarrow> \<exists>c'. kprintf f args c = Some c'"
proof (induction f args c rule: kprintf.induct)
  case (2 p ps args c)
  show ?case
  proof (cases "p = chr CHR ''%''")
    case True
    obtain q qs where q: "ps = q # qs" "q \<noteq> chr CHR ''.''" using 2(4) True by (cases ps) (auto split: if_splits)
    obtain as c' where conv: "kprintf_conv q args c = Some (as, c')" "well_typed qs as" "string_args as"
      using kprintf_conv_total [of q qs args c] 2(4,5) True q by blast
    have pn: "p \<noteq> chr CHR 0x0A" using True percent_newline by simp
    have pp: "parse_precision ps args = Some (-1, q # qs, args)" using q by (simp add: plain_no_precision)
    note IH = 2(3) [OF pn _ pp refl refl refl conv(1) refl conv(2,3)]
    show ?thesis using IH True by (simp add: percent_newline pp conv(1))
  next
    case False
    then show ?thesis using 2(1,2,4,5) by (cases "p = chr CHR 0x0A") auto
  qed
qed simp

end
