(* ===== verification/EasyFS.thy ===== *)
theory EasyFS
  imports Console
begin

text \<open>
  The in-memory file system of \<open>fs/easyfs.c\<close>.  The disk is the byte array \<open>fs_disk\<close>: block 0 is
  the superblock, block 1 the bitmap of data blocks, block 2 the root directory of 64 entries of
  28 bytes (name, size, first block, used flag), and the data blocks follow.  Structures are read
  and written in place, so a field is a load or store at its offset.  The array is a separate
  object: the buffers that the callers pass lie in the memory \<open>ram\<close>.  The pointers \<open>fs_sb\<close>,
  \<open>fs_bitmap\<close> and \<open>fs_rootdir\<close>, which \<open>fs_init\<close> sets once, are the constant offsets; the operations
  are modelled as called after \<open>fs_init\<close>.

  A read of the disk beyond its end is undefined (\<open>None\<close>).  Messages go to the console.
\<close>

section \<open>Layout\<close>

definition BLOCK_SIZE :: u32 where "BLOCK_SIZE = 4096"
definition TOTAL_BLOCKS :: u32 where "TOTAL_BLOCKS = 1024"
definition MAX_FILENAME_LEN :: nat where "MAX_FILENAME_LEN = 16"
definition MAX_DIR_ENTRIES :: nat where "MAX_DIR_ENTRIES = 64"
definition NUM_DATA_BLOCKS :: u32 where "NUM_DATA_BLOCKS = TOTAL_BLOCKS - 3"
definition SUPERBLOCK_MAGIC :: u32 where "SUPERBLOCK_MAGIC = 0xDEADBEEF"
definition SUPERBLOCK_BLOCK :: u32 where "SUPERBLOCK_BLOCK = 0"
definition BITMAP_BLOCK :: u32 where "BITMAP_BLOCK = 1"
definition ROOT_DIR_BLOCK :: u32 where "ROOT_DIR_BLOCK = 2"
definition FIRST_DATA_BLOCK :: u32 where "FIRST_DATA_BLOCK = 3"

lemmas fs_consts = BLOCK_SIZE_def TOTAL_BLOCKS_def MAX_FILENAME_LEN_def MAX_DIR_ENTRIES_def
  NUM_DATA_BLOCKS_def SUPERBLOCK_MAGIC_def SUPERBLOCK_BLOCK_def BITMAP_BLOCK_def
  ROOT_DIR_BLOCK_def FIRST_DATA_BLOCK_def

record fs =
  fs_disk :: mem
  fs_console :: console

definition fs_sb :: nat where "fs_sb = unat (SUPERBLOCK_BLOCK * BLOCK_SIZE)"
definition fs_bitmap :: nat where "fs_bitmap = unat (BITMAP_BLOCK * BLOCK_SIZE)"
definition fs_rootdir :: nat where "fs_rootdir = unat (ROOT_DIR_BLOCK * BLOCK_SIZE)"

text \<open>Fields of the superblock.\<close>

definition sb_magic :: nat where "sb_magic = fs_sb"
definition sb_total_blocks :: nat where "sb_total_blocks = fs_sb + 4"
definition sb_block_size :: nat where "sb_block_size = fs_sb + 8"
definition sb_num_data_blocks :: nat where "sb_num_data_blocks = fs_sb + 12"
definition sb_free_block_count :: nat where "sb_free_block_count = fs_sb + 16"
definition sb_bitmap_block :: nat where "sb_bitmap_block = fs_sb + 20"
definition sb_root_dir_block :: nat where "sb_root_dir_block = fs_sb + 24"
definition sb_first_data_block :: nat where "sb_first_data_block = fs_sb + 28"
definition sb_timestamp :: nat where "sb_timestamp = fs_sb + 32"

text \<open>Fields of entry \<open>i\<close> of the root directory.\<close>

definition entry_name :: "nat \<Rightarrow> nat" where "entry_name i = fs_rootdir + 28 * i"
definition entry_file_size :: "nat \<Rightarrow> nat" where "entry_file_size i = fs_rootdir + 28 * i + 16"
definition entry_first_block :: "nat \<Rightarrow> nat" where "entry_first_block i = fs_rootdir + 28 * i + 20"
definition entry_is_used :: "nat \<Rightarrow> nat" where "entry_is_used i = fs_rootdir + 28 * i + 24"

lemma layout_simps:
  "fs_sb = 0" "fs_bitmap = 4096" "fs_rootdir = 8192"
  "sb_magic = 0" "sb_total_blocks = 4" "sb_block_size = 8" "sb_num_data_blocks = 12"
  "sb_free_block_count = 16" "sb_bitmap_block = 20" "sb_root_dir_block = 24"
  "sb_first_data_block = 28" "sb_timestamp = 32"
  "entry_name i = 8192 + 28 * i" "entry_file_size i = 8208 + 28 * i"
  "entry_first_block i = 8212 + 28 * i" "entry_is_used i = 8216 + 28 * i"
  by (simp_all add: sb_magic_def sb_total_blocks_def sb_block_size_def sb_num_data_blocks_def
      sb_free_block_count_def sb_bitmap_block_def sb_root_dir_block_def sb_first_data_block_def
      sb_timestamp_def entry_name_def entry_file_size_def entry_first_block_def entry_is_used_def
      fs_sb_def fs_bitmap_def fs_rootdir_def fs_consts)

definition fs_say :: "string \<Rightarrow> karg list \<Rightarrow> fs \<Rightarrow> fs option" where
  "fs_say f args st = do {
     c \<leftarrow> kprintf (lit f) args (fs_console st);
     Some (st\<lparr>fs_console := c\<rparr>)
   }"

section \<open>Initialisation\<close>

fun fs_zero_loop :: "mem \<Rightarrow> nat \<Rightarrow> nat \<Rightarrow> mem" where
  "fs_zero_loop d i 0 = d"
| "fs_zero_loop d i (Suc n) = fs_zero_loop (d(i := 0)) (Suc i) n"

definition fs_init :: "fs \<Rightarrow> fs option" where
  "fs_init st =
     (let d0 = fs_zero_loop (fs_disk st) 0 (unat (TOTAL_BLOCKS * BLOCK_SIZE));
          d1 = st32 d0 sb_magic SUPERBLOCK_MAGIC;
          d2 = st32 d1 sb_total_blocks TOTAL_BLOCKS;
          d3 = st32 d2 sb_block_size BLOCK_SIZE;
          d4 = st32 d3 sb_num_data_blocks NUM_DATA_BLOCKS;
          d5 = st32 d4 sb_free_block_count NUM_DATA_BLOCKS;
          d6 = st32 d5 sb_bitmap_block BITMAP_BLOCK;
          d7 = st32 d6 sb_root_dir_block ROOT_DIR_BLOCK;
          d8 = st32 d7 sb_first_data_block FIRST_DATA_BLOCK;
          d9 = st32 (st32 d8 sb_timestamp 0) (sb_timestamp + 4) 0
      in fs_say (''easyfs: initialised. %d blocks, %d data blocks'' @ [CHR 0x0A])
           [AInt TOTAL_BLOCKS, AInt NUM_DATA_BLOCKS] (st\<lparr>fs_disk := d9\<rparr>))"

section \<open>Blocks\<close>

definition fs_write_block :: "mem \<Rightarrow> u32 \<Rightarrow> u32 \<Rightarrow> fs \<Rightarrow> fs option" where
  "fs_write_block ram block buf st =
     (if TOTAL_BLOCKS \<le> block \<or> buf = 0
      then fs_say (''easyfs: failed to write block. Invalid block or buffer'' @ [CHR 0x0A]) [] st
      else Some (st\<lparr>fs_disk := copy_up ram (unat buf) (fs_disk st)
                    (unat (block * BLOCK_SIZE)) (unat BLOCK_SIZE)\<rparr>))"

definition fs_read_block :: "fs \<Rightarrow> u32 \<Rightarrow> u32 \<Rightarrow> mem \<Rightarrow> mem option" where
  "fs_read_block st block buf ram =
     (let src = unat (block * BLOCK_SIZE)
      in if src + unat BLOCK_SIZE \<le> unat (TOTAL_BLOCKS * BLOCK_SIZE)
         then Some (copy_up (fs_disk st) src ram (unat buf) (unat BLOCK_SIZE)) else None)"

definition fs_block_is_free :: "u32 \<Rightarrow> mem \<Rightarrow> bool" where
  "fs_block_is_free block d =
     (if ld32 d sb_num_data_blocks \<le> block then False
      else d (fs_bitmap + unat (block div 8)) AND push_bit (unat (block mod 8)) 1 = 0)"

definition fs_mark_block_used :: "u32 \<Rightarrow> mem \<Rightarrow> bool \<times> mem" where
  "fs_mark_block_used block d =
     (if ld32 d sb_num_data_blocks \<le> block then (False, d)
      else let at = fs_bitmap + unat (block div 8);
               d1 = d(at := d at OR push_bit (unat (block mod 8)) 1)
           in (True, st32 d1 sb_free_block_count (ld32 d1 sb_free_block_count - 1)))"

definition fs_mark_block_free :: "u32 \<Rightarrow> mem \<Rightarrow> bool \<times> mem" where
  "fs_mark_block_free block d =
     (if ld32 d sb_num_data_blocks \<le> block then (False, d)
      else let at = fs_bitmap + unat (block div 8);
               d1 = d(at := d at AND NOT (push_bit (unat (block mod 8)) 1))
           in (True, st32 d1 sb_free_block_count (ld32 d1 sb_free_block_count + 1)))"

text \<open>The count of a scan is the number of iterations left.\<close>

fun alloc_scan :: "nat \<Rightarrow> u32 \<Rightarrow> mem \<Rightarrow> u32 \<times> mem" where
  "alloc_scan 0 i d = (- 1, d)"
| "alloc_scan (Suc n) i d =
     (if fs_block_is_free i d then
        let (ok, d') = fs_mark_block_used i d in (ld32 d' sb_first_data_block + i, d')
      else alloc_scan n (i + 1) d)"

definition fs_alloc_block :: "mem \<Rightarrow> u32 \<times> mem" where
  "fs_alloc_block d = alloc_scan (unat (ld32 d sb_num_data_blocks)) 0 d"

section \<open>Directory\<close>

fun find_scan :: "nat \<Rightarrow> nat \<Rightarrow> cptr \<Rightarrow> mem \<Rightarrow> nat option option" where
  "find_scan 0 i name d = Some None"
| "find_scan (Suc n) i name d =
     (if d (entry_is_used i) \<noteq> 0 then do {
        c \<leftarrow> strcmp (ptr_at d (entry_name i)) name;
        if c = 0 then Some (Some i) else find_scan n (Suc i) name d
      } else find_scan n (Suc i) name d)"

text \<open>The result is the index of the entry that the returned pointer points to.\<close>

definition fs_find_file :: "cptr \<Rightarrow> mem \<Rightarrow> nat option option" where
  "fs_find_file name d = find_scan MAX_DIR_ENTRIES 0 name d"

fun copy_name :: "nat \<Rightarrow> nat \<Rightarrow> cptr \<Rightarrow> nat \<Rightarrow> mem \<Rightarrow> mem" where
  "copy_name to j name 0 d = d(to + j := 0)"
| "copy_name to j name (Suc n) d =
     (if name j \<noteq> 0 then copy_name to (Suc j) name n (d(to + j := name j)) else d(to + j := 0))"

fun create_scan :: "nat \<Rightarrow> nat \<Rightarrow> cptr \<Rightarrow> fs \<Rightarrow> (int \<times> fs) option" where
  "create_scan 0 i name st = do {
     st' \<leftarrow> fs_say (''easyfs: root directory full'' @ [CHR 0x0A]) [] st;
     Some (-1, st')
   }"
| "create_scan (Suc n) i name st =
     (if fs_disk st (entry_is_used i) = 0 then
        let (block, d1) = fs_alloc_block (fs_disk st)
        in if block <s 0 then do {
             st' \<leftarrow> fs_say (''easyfs: no free blocks'' @ [CHR 0x0A]) [] (st\<lparr>fs_disk := d1\<rparr>);
             Some (-1, st')
           } else
             let d2 = copy_name (entry_name i) 0 name (MAX_FILENAME_LEN - 1) d1;
                 d3 = st32 d2 (entry_file_size i) 0;
                 d4 = st32 d3 (entry_first_block i) block;
                 d5 = d4(entry_is_used i := 1)
             in Some (0, st\<lparr>fs_disk := d5\<rparr>)
      else create_scan n (Suc i) name st)"

definition fs_create_file :: "cptr \<Rightarrow> fs \<Rightarrow> (int \<times> fs) option" where
  "fs_create_file name st = do {
     e \<leftarrow> fs_find_file name (fs_disk st);
     if e \<noteq> None then do {
       st' \<leftarrow> fs_say (''easyfs: file '' @ [CHR 0x27] @ ''%s'' @ [CHR 0x27] @ '' already exists'' @ [CHR 0x0A])
         [AStr name] st;
       Some (-1, st')
     } else create_scan MAX_DIR_ENTRIES 0 name st
   }"

fun delete_scan :: "nat \<Rightarrow> nat \<Rightarrow> cptr \<Rightarrow> fs \<Rightarrow> (int \<times> fs) option" where
  "delete_scan 0 i name st = do {
     st' \<leftarrow> fs_say (''easyfs: file '' @ [CHR 0x27] @ ''%s'' @ [CHR 0x27] @ '' not found'' @ [CHR 0x0A])
       [AStr name] st;
     Some (-1, st')
   }"
| "delete_scan (Suc n) i name st =
     (let d = fs_disk st
      in if d (entry_is_used i) \<noteq> 0 then do {
           c \<leftarrow> strcmp (ptr_at d (entry_name i)) name;
           if c = 0 then
             let (ok, d1) = fs_mark_block_free
                   (ld32 d (entry_first_block i) - ld32 d sb_first_data_block) d
             in Some (0, st\<lparr>fs_disk := d1(entry_is_used i := 0)\<rparr>)
           else delete_scan n (Suc i) name st
         } else delete_scan n (Suc i) name st)"

definition fs_delete_file :: "cptr \<Rightarrow> fs \<Rightarrow> (int \<times> fs) option" where
  "fs_delete_file name st = delete_scan MAX_DIR_ENTRIES 0 name st"

fun list_scan :: "nat \<Rightarrow> nat \<Rightarrow> nat \<Rightarrow> fs \<Rightarrow> (nat \<times> fs) option" where
  "list_scan 0 i found st = Some (found, st)"
| "list_scan (Suc n) i found st =
     (let d = fs_disk st
      in if d (entry_is_used i) \<noteq> 0 then do {
           st' \<leftarrow> fs_say (''  %s (%d bytes)'' @ [CHR 0x0A])
             [AStr (ptr_at d (entry_name i)), AInt (ld32 d (entry_file_size i))] st;
           list_scan n (Suc i) (Suc found) st'
         } else list_scan n (Suc i) found st)"

definition fs_list_files :: "fs \<Rightarrow> fs option" where
  "fs_list_files st = do {
     (found, st') \<leftarrow> list_scan MAX_DIR_ENTRIES 0 0 st;
     if found = 0 then fs_say (''  (empty)'' @ [CHR 0x0A]) [] st' else Some st'
   }"

section \<open>Files\<close>

fun read_blocks :: "nat \<Rightarrow> u32 \<Rightarrow> nat \<Rightarrow> u32 \<Rightarrow> fs \<Rightarrow> mem \<Rightarrow> mem option" where
  "read_blocks 0 i e buf st ram = Some ram"
| "read_blocks (Suc n) i e buf st ram = do {
     ram' \<leftarrow> fs_read_block st (ld32 (fs_disk st) (entry_first_block e) + i) (buf + i * BLOCK_SIZE) ram;
     read_blocks n (i + 1) e buf st ram'
   }"

text \<open>The result \<open>-1\<close> is the largest word.\<close>

definition fs_read_file :: "cptr \<Rightarrow> u32 \<Rightarrow> u32 \<Rightarrow> fs \<Rightarrow> mem \<Rightarrow> (u32 \<times> mem) option" where
  "fs_read_file name buf sz st ram = do {
     entry \<leftarrow> fs_find_file name (fs_disk st);
     case entry of
       None \<Rightarrow> Some (- 1, ram)
     | Some e \<Rightarrow> do {
         let file_size = ld32 (fs_disk st) (entry_file_size e);
         let blocks_to_read = sz div BLOCK_SIZE + 1;
         let file_blocks = file_size div BLOCK_SIZE + 1;
         let blocks = (if file_blocks < blocks_to_read then file_blocks else blocks_to_read);
         ram' \<leftarrow> read_blocks (unat blocks) 0 e buf st ram;
         Some (file_size, ram')
       }
   }"

fun write_blocks :: "nat \<Rightarrow> u32 \<Rightarrow> nat \<Rightarrow> u32 \<Rightarrow> mem \<Rightarrow> fs \<Rightarrow> fs option" where
  "write_blocks 0 i e buf ram st = Some st"
| "write_blocks (Suc n) i e buf ram st = do {
     st' \<leftarrow> fs_write_block ram (ld32 (fs_disk st) (entry_first_block e) + i) (buf + i * BLOCK_SIZE) st;
     write_blocks n (i + 1) e buf ram st'
   }"

definition fs_write_file :: "cptr \<Rightarrow> u32 \<Rightarrow> u32 \<Rightarrow> mem \<Rightarrow> fs \<Rightarrow> (u32 \<times> fs) option" where
  "fs_write_file name buf sz ram st = do {
     entry \<leftarrow> fs_find_file name (fs_disk st);
     case entry of
       None \<Rightarrow> Some (- 1, st)
     | Some e \<Rightarrow> do {
         st' \<leftarrow> write_blocks (unat (sz div BLOCK_SIZE + 1)) 0 e buf ram st;
         Some (sz, st'\<lparr>fs_disk := st32 (fs_disk st') (entry_file_size e) sz\<rparr>)
       }
   }"

end
