(* ===== verification/FsSpec.thy ===== *)
theory FsSpec
  imports Prelude
begin

text \<open>
  What \<open>fs/easyfs.c\<close> promises, free of bytes: a directory is a list of 64 slots, each empty or
  holding a file's name, size and first block; creating takes the first empty slot and the lowest
  free data block, deleting empties the slot.  The contents are a store of blocks, whose laws are
  the locale \<open>block_store\<close>; its lemmas are what writing a file over consecutive blocks rests on.
\<close>

section \<open>Directory\<close>

record dirent =
  ename :: "u8 list"
  esize :: u32
  eblock :: nat

type_synonym dir = "dirent option list"

fun find_index :: "('a \<Rightarrow> bool) \<Rightarrow> 'a list \<Rightarrow> nat option" where
  "find_index P [] = None"
| "find_index P (x # xs) = (if P x then Some 0 else map_option Suc (find_index P xs))"

lemma find_index_None: "find_index P xs = None \<longleftrightarrow> (\<forall>x \<in> set xs. \<not> P x)"
  by (induction xs) auto

lemma find_index_SomeD:
  "find_index P xs = Some i \<Longrightarrow> i < length xs \<and> P (xs ! i) \<and> (\<forall>j < i. \<not> P (xs ! j))"
  by (induction xs arbitrary: i) (auto split: if_splits simp: nth_Cons split: nat.splits)

definition has_name :: "u8 list \<Rightarrow> dirent option \<Rightarrow> bool" where
  "has_name s e = (case e of Some f \<Rightarrow> ename f = s | None \<Rightarrow> False)"

definition dir_find :: "u8 list \<Rightarrow> dir \<Rightarrow> nat option" where
  "dir_find s dir = find_index (has_name s) dir"

definition dir_slot :: "dir \<Rightarrow> nat option" where
  "dir_slot dir = find_index (\<lambda>e. e = None) dir"

fun dir_blocks :: "dir \<Rightarrow> nat list" where
  "dir_blocks [] = []"
| "dir_blocks (e # dir) = (case e of Some f \<Rightarrow> eblock f # dir_blocks dir | None \<Rightarrow> dir_blocks dir)"

definition free_blocks :: "dir \<Rightarrow> nat list" where
  "free_blocks dir = filter (\<lambda>b. b \<notin> set (dir_blocks dir)) [3..<1024]"

text \<open>The result of an operation and the directory after it; \<open>-1\<close> is failure.  There is no
  failure for want of blocks, because the 64 slots are fewer than the 1021 blocks.\<close>

definition dir_create :: "u8 list \<Rightarrow> dir \<Rightarrow> int \<times> dir" where
  "dir_create s dir =
     (case dir_find s dir of
        Some i \<Rightarrow> (-1, dir)
      | None \<Rightarrow> (case dir_slot dir of
          None \<Rightarrow> (-1, dir)
        | Some i \<Rightarrow> (0, dir[i := Some \<lparr>ename = take 15 s, esize = 0, eblock = hd (free_blocks dir)\<rparr>])))"

definition dir_delete :: "u8 list \<Rightarrow> dir \<Rightarrow> int \<times> dir" where
  "dir_delete s dir = (case dir_find s dir of Some i \<Rightarrow> (0, dir[i := None]) | None \<Rightarrow> (-1, dir))"

text \<open>Every entry owns one data block, no two the same; a stored name leaves room for its
  terminator.\<close>

definition dir_ok :: "dir \<Rightarrow> bool" where
  "dir_ok dir \<longleftrightarrow> length dir = 64 \<and> distinct (dir_blocks dir) \<and> set (dir_blocks dir) \<subseteq> {3..<1024}
     \<and> (\<forall>f. Some f \<in> set dir \<longrightarrow> length (ename f) \<le> 15 \<and> 0 \<notin> set (ename f))"

lemma dir_blocks_append: "dir_blocks (xs @ ys) = dir_blocks xs @ dir_blocks ys"
  by (induction xs) (auto split: option.splits)

lemma dir_blocks_mem: "b \<in> set (dir_blocks dir) \<longleftrightarrow> (\<exists>f. Some f \<in> set dir \<and> eblock f = b)"
  by (induction dir) (auto split: option.splits)

lemma dir_blocks_length: "length (dir_blocks dir) \<le> length dir"
  by (induction dir) (auto split: option.splits)

lemma dir_split: "i < length dir \<Longrightarrow> dir = take i dir @ dir ! i # drop (Suc i) dir"
  by (rule id_take_nth_drop)

lemma filter_upt_empty: "filter P [a..<c] = [] \<longleftrightarrow> (\<forall>x. a \<le> x \<and> x < c \<longrightarrow> \<not> P x)"
  by (auto simp: filter_empty_conv)

lemma free_block_exists:
  assumes "length dir = 64"
  shows "free_blocks dir \<noteq> []"
proof
  assume "free_blocks dir = []"
  then have "{3..<1024} \<subseteq> set (dir_blocks dir)"
    unfolding free_blocks_def filter_upt_empty by (meson atLeastLessThan_iff subsetI)
  then have "card {3..<1024::nat} \<le> card (set (dir_blocks dir))" by (intro card_mono) simp_all
  also have "\<dots> \<le> 64" using card_length [of "dir_blocks dir"] dir_blocks_length [of dir] assms by linarith
  finally show False by simp
qed

lemma hd_filter_upt:
  "filter P [a..<c] \<noteq> [] \<Longrightarrow> hd (filter P [a..<c]) = b \<Longrightarrow>
    a \<le> b \<and> b < c \<and> P b \<and> (\<forall>x. a \<le> x \<and> x < b \<longrightarrow> \<not> P x)"
proof (induction c)
  case (Suc c)
  have ac: "a \<le> c" using Suc.prems(1) by (rule contrapos_np) simp
  have e: "filter P [a..<Suc c] = filter P [a..<c] @ (if P c then [c] else [])" using ac by simp
  show ?case
  proof (cases "filter P [a..<c] = []")
    case True
    then have no: "\<forall>x. a \<le> x \<and> x < c \<longrightarrow> \<not> P x" by (simp only: filter_upt_empty)
    have "P c" using Suc.prems(1) unfolding e True by (cases "P c") simp_all
    moreover from this have "b = c" using Suc.prems(2) unfolding e True by simp
    ultimately show ?thesis using no ac by blast
  next
    case False
    have "hd (filter P [a..<c]) = b" using Suc.prems(2) unfolding e hd_append2 [OF False] .
    from Suc.IH [OF False this] show ?thesis using less_SucI by blast
  qed
qed simp

lemma free_block_least:
  assumes "length dir = 64" and "b = hd (free_blocks dir)"
  shows "3 \<le> b \<and> b < 1024 \<and> b \<notin> set (dir_blocks dir) \<and> (\<forall>x. 3 \<le> x \<and> x < b \<longrightarrow> x \<in> set (dir_blocks dir))"
proof -
  show ?thesis
    using hd_filter_upt [OF free_block_exists [OF assms(1), unfolded free_blocks_def]
        assms(2) [symmetric, unfolded free_blocks_def]]
    by blast
qed

lemma dir_blocks_at:
  assumes "i < length dir"
  shows "dir_blocks (dir[i := e]) = dir_blocks (take i dir)
    @ (case e of Some f \<Rightarrow> [eblock f] | None \<Rightarrow> []) @ dir_blocks (drop (Suc i) dir)"
  using assms by (simp add: upd_conv_take_nth_drop dir_blocks_append split: option.split)

lemma dir_blocks_fill:
  assumes "i < length dir" and "dir ! i = None"
  shows "\<exists>xs ys. dir_blocks dir = xs @ ys \<and> dir_blocks (dir[i := Some f]) = xs @ eblock f # ys"
  using dir_blocks_at [OF assms(1), of "dir ! i", unfolded list_update_id] dir_blocks_at [OF assms(1), of "Some f"] assms(2)
  by auto

lemma dir_blocks_clear:
  assumes "i < length dir" and "dir ! i = Some f"
  shows "\<exists>xs ys. dir_blocks dir = xs @ eblock f # ys \<and> dir_blocks (dir[i := None]) = xs @ ys"
  using dir_blocks_at [OF assms(1), of "dir ! i", unfolded list_update_id] dir_blocks_at [OF assms(1), of None] assms(2)
  by auto

lemma dir_slotD: "dir_slot dir = Some i \<Longrightarrow> i < length dir \<and> dir ! i = None \<and> (\<forall>j < i. dir ! j \<noteq> None)"
  unfolding dir_slot_def by (drule find_index_SomeD) blast

lemma dir_findD:
  "dir_find s dir = Some i \<Longrightarrow> i < length dir \<and> (\<exists>f. dir ! i = Some f \<and> ename f = s)"
  unfolding dir_find_def by (drule find_index_SomeD) (auto simp: has_name_def split: option.splits)

lemma dir_find_None: "dir_find s dir = None \<longleftrightarrow> (\<forall>f. Some f \<in> set dir \<longrightarrow> ename f \<noteq> s)"
  by (auto simp: dir_find_def find_index_None has_name_def split: option.splits)

lemma dir_ok_fill:
  assumes "dir_ok dir" and "i < length dir" and "dir ! i = None"
    and "length (ename f) \<le> 15" and "0 \<notin> set (ename f)"
    and "3 \<le> eblock f" and "eblock f < 1024" and "eblock f \<notin> set (dir_blocks dir)"
  shows "dir_ok (dir[i := Some f])"
proof -
  obtain xs ys where b: "dir_blocks dir = xs @ ys" "dir_blocks (dir[i := Some f]) = xs @ eblock f # ys"
    using dir_blocks_fill [OF assms(2,3)] by blast
  show ?thesis using assms b set_update_subset_insert [of dir i "Some f"]
    unfolding dir_ok_def by (auto simp: b)
qed

lemma dir_ok_clear:
  assumes "dir_ok dir" and "i < length dir" and "dir ! i = Some f"
  shows "dir_ok (dir[i := None])"
proof -
  obtain xs ys where b: "dir_blocks dir = xs @ eblock f # ys" "dir_blocks (dir[i := None]) = xs @ ys"
    using dir_blocks_clear [OF assms(2,3)] by blast
  show ?thesis using assms b set_update_subset_insert [of dir i None]
    unfolding dir_ok_def by (auto simp: b)
qed

lemma dir_create_ok:
  assumes "dir_ok dir" and "0 \<notin> set s"
  shows "dir_ok (snd (dir_create s dir))"
proof (cases "dir_find s dir = None \<and> dir_slot dir \<noteq> None")
  case True
  then obtain i where i: "dir_slot dir = Some i" by blast
  have len: "length dir = 64" using assms(1) by (simp add: dir_ok_def)
  have "0 \<notin> set (take 15 s)" using assms(2) set_take_subset [of 15 s] by blast
  then show ?thesis
    using dir_ok_fill [OF assms(1), of i] dir_slotD [OF i] free_block_least [OF len refl] i True
    by (simp add: dir_create_def)
next
  case False
  then show ?thesis using assms(1) by (auto simp: dir_create_def split: option.splits)
qed

lemma dir_delete_ok: "dir_ok dir \<Longrightarrow> dir_ok (snd (dir_delete s dir))"
  by (auto simp: dir_delete_def split: option.splits dest: dir_findD intro: dir_ok_clear)

section \<open>Block store\<close>

text \<open>
  \<open>count\<close> blocks, numbered from 0; a write outside them is ignored.
\<close>

locale block_store =
  fixes read_blk :: "'d \<Rightarrow> nat \<Rightarrow> u8 list"
    and write_blk :: "'d \<Rightarrow> nat \<Rightarrow> u8 list \<Rightarrow> 'd"
    and count :: nat
    and len :: nat
  assumes read_write_same: "b < count \<Longrightarrow> length v = len \<Longrightarrow> read_blk (write_blk d b v) b = v"
    and read_write_other: "b \<noteq> c \<Longrightarrow> c < count \<Longrightarrow> read_blk (write_blk d b v) c = read_blk d c"
begin

text \<open>Writing a list of blocks to consecutive numbers.\<close>

definition write_run :: "'d \<Rightarrow> nat \<Rightarrow> u8 list list \<Rightarrow> 'd" where
  "write_run d b vs = fst (fold (\<lambda>v (d, b). (write_blk d b v, Suc b)) vs (d, b))"

lemma write_run_simps [simp]:
  "write_run d b [] = d" "write_run d b (v # vs) = write_run (write_blk d b v) (Suc b) vs"
  by (simp_all add: write_run_def)

lemma read_run_other:
  "c < b \<or> b + length vs \<le> c \<Longrightarrow> c < count \<Longrightarrow> read_blk (write_run d b vs) c = read_blk d c"
  by (induction vs arbitrary: d b) (auto simp: read_write_other)

lemma read_run_same:
  "b + length vs \<le> count \<Longrightarrow> \<forall>v \<in> set vs. length v = len \<Longrightarrow> i < length vs \<Longrightarrow>
    read_blk (write_run d b vs) (b + i) = vs ! i"
proof (induction vs arbitrary: d b i)
  case (Cons v vs)
  show ?case
  proof (cases i)
    case 0
    then show ?thesis using Cons.prems read_run_other [of b "Suc b" vs "write_blk d b v"]
      by (simp add: read_write_same)
  next
    case (Suc j)
    then show ?thesis using Cons.IH [of "Suc b" j "write_blk d b v"] Cons.prems by simp
  qed
qed simp

text \<open>A run longer than one block replaces what the next block held.\<close>

lemma run_overwrites_next:
  assumes "b + 1 < count" and "length v = len" and "length w = len"
  shows "read_blk (write_run d b [v, w]) (b + 1) = w"
  using read_run_same [of b "[v, w]" 1] assms by simp

end

end
