(* ===== verification/FsCorrect.thy ===== *)
theory FsCorrect
  imports EasyFS FsSpec
begin

text \<open>
  The file system of theory \<open>EasyFS\<close> against the specification of theory \<open>FsSpec\<close>.
  \<open>fs_rep d dir\<close> says that the bytes of the disk hold the directory \<open>dir\<close>, with a bitmap that marks
  exactly the blocks of its entries and a superblock that counts them.  Creation, deletion and
  lookup implement the abstract operations for every name; the disk is an instance of the block
  store, and reading and writing files is a run of block operations on it.
\<close>

section \<open>Representation\<close>

definition entry_rep :: "mem \<Rightarrow> nat \<Rightarrow> dirent option \<Rightarrow> bool" where
  "entry_rep d i e = (case e of
     None \<Rightarrow> d (entry_is_used i) = 0
   | Some f \<Rightarrow> d (entry_is_used i) \<noteq> 0 \<and> cstr (ptr_at d (entry_name i)) (ename f)
       \<and> length (ename f) \<le> 15 \<and> ld32 d (entry_file_size i) = esize f
       \<and> ld32 d (entry_first_block i) = of_nat (eblock f))"

definition dir_rep :: "mem \<Rightarrow> dir \<Rightarrow> bool" where
  "dir_rep d dir \<longleftrightarrow> length dir = 64 \<and> (\<forall>i < 64. entry_rep d i (dir ! i))"

definition bitmap_rep :: "mem \<Rightarrow> nat set \<Rightarrow> bool" where
  "bitmap_rep d used \<longleftrightarrow> (\<forall>b < 1021. bit (d (fs_bitmap + b div 8)) (b mod 8) = (b + 3 \<in> used))"

definition sb_rep :: "mem \<Rightarrow> nat \<Rightarrow> bool" where
  "sb_rep d used \<longleftrightarrow> ld32 d sb_magic = SUPERBLOCK_MAGIC \<and> ld32 d sb_total_blocks = TOTAL_BLOCKS
     \<and> ld32 d sb_block_size = BLOCK_SIZE \<and> ld32 d sb_num_data_blocks = NUM_DATA_BLOCKS
     \<and> ld32 d sb_first_data_block = FIRST_DATA_BLOCK
     \<and> ld32 d sb_free_block_count = NUM_DATA_BLOCKS - of_nat used"

definition fs_rep :: "mem \<Rightarrow> dir \<Rightarrow> bool" where
  "fs_rep d dir \<longleftrightarrow> dir_ok dir \<and> dir_rep d dir \<and> bitmap_rep d (set (dir_blocks dir))
     \<and> sb_rep d (length (dir_blocks dir))"

lemma cstr_agree: "(\<And>k. k \<le> length s \<Longrightarrow> p k = q k) \<Longrightarrow> cstr p s = cstr q s"
  by (auto simp: cstr_def)

text \<open>What an entry, the bitmap and the superblock depend on.\<close>

lemma entry_rep_agree:
  assumes "entry_rep d i e" and "\<And>x. fs_rootdir + 28 * i \<le> x \<Longrightarrow> x < fs_rootdir + 28 * i + 28 \<Longrightarrow> d' x = d x"
  shows "entry_rep d' i e"
proof (cases e)
  case None
  then show ?thesis using assms by (simp add: entry_rep_def layout_simps)
next
  case (Some f)
  have "cstr (ptr_at d' (entry_name i)) (ename f)"
    if "cstr (ptr_at d (entry_name i)) (ename f)" "length (ename f) \<le> 15"
    using that(1) by (rule iffD1 [OF cstr_agree, rotated]) (use that(2) in \<open>simp add: assms(2) layout_simps\<close>)
  moreover have "ld32 d' (entry_file_size i) = ld32 d (entry_file_size i)"
    "ld32 d' (entry_first_block i) = ld32 d (entry_first_block i)"
    by (rule ld32_cong, simp add: assms(2) layout_simps)+
  ultimately show ?thesis using assms Some by (auto simp: entry_rep_def layout_simps)
qed

lemma dir_rep_agree:
  assumes "dir_rep d dir" and "\<And>x. fs_rootdir \<le> x \<Longrightarrow> x < fs_rootdir + 1792 \<Longrightarrow> d' x = d x"
  shows "dir_rep d' dir"
  unfolding dir_rep_def
proof (intro conjI allI impI)
  show "length dir = 64" using assms(1) by (simp add: dir_rep_def)
  fix i :: nat assume i: "i < 64"
  then have "entry_rep d i (dir ! i)" using assms(1) by (simp add: dir_rep_def)
  then show "entry_rep d' i (dir ! i)"
    by (rule entry_rep_agree) (use i in \<open>simp add: assms(2)\<close>)
qed

lemma dir_rep_update:
  assumes "dir_rep d dir" and "i < 64" and "entry_rep d' i e"
    and "\<And>x. x < fs_rootdir + 28 * i \<or> fs_rootdir + 28 * i + 28 \<le> x \<Longrightarrow> d' x = d x"
  shows "dir_rep d' (dir[i := e])"
  unfolding dir_rep_def
proof (intro conjI allI impI)
  show "length (dir[i := e]) = 64" using assms(1) by (simp add: dir_rep_def)
  fix j :: nat assume j: "j < 64"
  show "entry_rep d' j (dir[i := e] ! j)"
  proof (cases "j = i")
    case True
    then show ?thesis using assms by (simp add: dir_rep_def)
  next
    case False
    then have "entry_rep d j (dir ! j)" using assms(1) j by (simp add: dir_rep_def)
    then have "entry_rep d' j (dir ! j)"
    proof (rule entry_rep_agree)
      fix x assume "fs_rootdir + 28 * j \<le> x" "x < fs_rootdir + 28 * j + 28"
      then show "d' x = d x" using False by (intro assms(4)) (cases "j < i"; simp)
    qed
    then show ?thesis using False by simp
  qed
qed

lemma bitmap_rep_agree:
  assumes "bitmap_rep d B" and "\<And>x. 4096 \<le> x \<Longrightarrow> x < 4224 \<Longrightarrow> d' x = d x"
  shows "bitmap_rep d' B"
  using assms by (auto simp: bitmap_rep_def layout_simps)

lemma sb_rep_agree:
  assumes "sb_rep d n" and "\<And>x. x < 40 \<Longrightarrow> d' x = d x"
  shows "sb_rep d' n"
proof -
  have "ld32 d' a = ld32 d a" if "a \<le> 36" for a
    by (rule ld32_cong) (use that in \<open>simp add: assms(2)\<close>)
  then show ?thesis using assms(1) by (simp add: sb_rep_def layout_simps)
qed

section \<open>Bitmap operations\<close>

lemma block_index:
  assumes "b < 1021"
  shows "unat ((of_nat b :: u32) div 8) = b div 8" and "unat ((of_nat b :: u32) mod 8) = b mod 8"
    and "\<not> NUM_DATA_BLOCKS \<le> of_nat b"
  using assms unat_of_nat32 [of b] by (simp_all add: unat_div unat_mod fs_consts word_le_nat_alt)

lemma is_free_iff:
  assumes "bitmap_rep d B" and "sb_rep d n" and "b < 1021"
  shows "fs_block_is_free (of_nat b) d \<longleftrightarrow> b + 3 \<notin> B"
  using assms(1,2) block_index [OF assms(3)] assms(3) bit_iff_and_push_bit_not_eq_0
  by (auto simp: fs_block_is_free_def sb_rep_def bitmap_rep_def)

lemma split8: "(b :: nat) = b' \<longleftrightarrow> b div 8 = b' div 8 \<and> b mod 8 = b' mod 8"
  by (metis div_mult_mod_eq)

lemma mark_used:
  assumes "bitmap_rep d B" and "sb_rep d n" and "b < 1021"
  shows "\<exists>d'. fs_mark_block_used (of_nat b) d = (True, d') \<and> bitmap_rep d' (insert (b + 3) B)
    \<and> sb_rep d' (n + 1) \<and> (\<forall>x \<ge> 4224. d' x = d x)"
proof -
  let ?at = "4096 + b div 8"
  let ?d1 = "d(?at := d ?at OR push_bit (b mod 8) 1)"
  let ?d2 = "st32 ?d1 16 (ld32 ?d1 16 - 1)"
  have at: "?at < 4224" "4096 \<le> ?at" using assms(3) by auto
  have m: "fs_mark_block_used (of_nat b) d = (True, ?d2)"
    using assms(2) block_index [OF assms(3)] by (simp add: fs_mark_block_used_def sb_rep_def layout_simps Let_def)
  have "bitmap_rep ?d1 (insert (b + 3) B)"
    using assms(1,3) split8 [of _ b] by (auto simp: bitmap_rep_def layout_simps bit_simps)
  then have "bitmap_rep ?d2 (insert (b + 3) B)"
    by (rule bitmap_rep_agree) (simp add: st32_other)
  moreover have "sb_rep ?d1 n" using assms(2) by (rule sb_rep_agree) (use at in auto)
  then have "sb_rep ?d2 (n + 1)"
    by (simp add: sb_rep_def layout_simps ld32_st32_other algebra_simps)
  ultimately show ?thesis using m at by (auto simp: st32_other)
qed

lemma mark_free:
  assumes "bitmap_rep d B" and "sb_rep d (n + 1)" and "b < 1021"
  shows "\<exists>d'. fs_mark_block_free (of_nat b) d = (True, d') \<and> bitmap_rep d' (B - {b + 3})
    \<and> sb_rep d' n \<and> (\<forall>x \<ge> 4224. d' x = d x)"
proof -
  let ?at = "4096 + b div 8"
  let ?d1 = "d(?at := d ?at AND NOT (push_bit (b mod 8) 1))"
  let ?d2 = "st32 ?d1 16 (ld32 ?d1 16 + 1)"
  have at: "?at < 4224" "4096 \<le> ?at" using assms(3) by auto
  have m: "fs_mark_block_free (of_nat b) d = (True, ?d2)"
    using assms(2) block_index [OF assms(3)] by (simp add: fs_mark_block_free_def sb_rep_def layout_simps Let_def)
  have "bitmap_rep ?d1 (B - {b + 3})"
    using assms(1,3) split8 [of _ b] by (auto simp: bitmap_rep_def layout_simps bit_simps)
  then have "bitmap_rep ?d2 (B - {b + 3})"
    by (rule bitmap_rep_agree) (simp add: st32_other)
  moreover have "sb_rep ?d1 (n + 1)" using assms(2) by (rule sb_rep_agree) (use at in auto)
  then have "sb_rep ?d2 n"
    by (simp add: sb_rep_def layout_simps ld32_st32_other algebra_simps)
  ultimately show ?thesis using m at by (auto simp: st32_other)
qed

section \<open>Scans\<close>

lemma alloc_scan_least:
  assumes "bitmap_rep d B" and "sb_rep d k" and "b < 1021" and "b + 3 \<notin> B"
    and "\<forall>x < b. x + 3 \<in> B" and "i \<le> b" and "b < i + n"
  shows "alloc_scan n (of_nat i) d
    = (of_nat (b + 3), snd (fs_mark_block_used (of_nat b) d))"
  using assms(6,7)
proof (induction n arbitrary: i)
  case (Suc n)
  have free: "fs_block_is_free (of_nat i) d \<longleftrightarrow> i = b"
    using is_free_iff [OF assms(1,2), of i] assms(3-5) Suc.prems(1) by (cases "i = b") auto
  show ?case
  proof (cases "i = b")
    case True
    obtain d' where d': "fs_mark_block_used (of_nat b) d = (True, d')" "sb_rep d' (k + 1)"
      using mark_used [OF assms(1-3)] by blast
    then have "ld32 d' sb_first_data_block = 3" by (simp add: sb_rep_def fs_consts)
    then show ?thesis using True free d'(1) by (simp add: add.commute)
  next
    case False
    then have "i + 1 \<le> b" "b < i + 1 + n" using Suc.prems by auto
    then show ?thesis using Suc.IH [of "i + 1"] free False by (simp add: add.commute)
  qed
qed simp

lemma fs_alloc_spec:
  assumes "fs_rep d dir"
  defines "b \<equiv> hd (free_blocks dir)"
  shows "\<exists>d'. fs_alloc_block d = (of_nat b, d') \<and> bitmap_rep d' (insert b (set (dir_blocks dir)))
    \<and> sb_rep d' (length (dir_blocks dir) + 1) \<and> (\<forall>x \<ge> 4224. d' x = d x)"
proof -
  have rep: "bitmap_rep d (set (dir_blocks dir))" "sb_rep d (length (dir_blocks dir))"
    using assms(1) by (simp_all add: fs_rep_def)
  have b: "3 \<le> b" "b < 1024" "b \<notin> set (dir_blocks dir)" "\<forall>x. 3 \<le> x \<and> x < b \<longrightarrow> x \<in> set (dir_blocks dir)"
    using free_block_least [of dir b] assms by (simp_all add: fs_rep_def dir_ok_def)
  obtain c where c: "b = c + 3" using b(1) by (metis add.commute le_Suc_ex)
  have num: "unat (ld32 d sb_num_data_blocks) = 1021" using rep(2) by (simp add: sb_rep_def fs_consts)
  have "fs_alloc_block d = (of_nat (c + 3), snd (fs_mark_block_used (of_nat c) d))"
    unfolding fs_alloc_block_def num using alloc_scan_least [OF rep, of c 0 1021] b c by auto
  moreover obtain d' where "fs_mark_block_used (of_nat c) d = (True, d')"
    "bitmap_rep d' (insert (c + 3) (set (dir_blocks dir)))" "sb_rep d' (length (dir_blocks dir) + 1)"
    "\<forall>x \<ge> 4224. d' x = d x" using mark_used [OF rep, of c] b c by auto
  ultimately show ?thesis by (simp add: c)
qed

lemma entry_strcmp:
  assumes "cstr p t" and "cstr name s"
  shows "\<exists>c. strcmp p name = Some c \<and> (c = 0 \<longleftrightarrow> t = s)"
  by (rule strcmp_cstr [OF assms]) blast

lemma find_scan_dir:
  assumes "dir_rep d dir" and "cstr name s"
  shows "i + n = 64 \<Longrightarrow> find_scan n i name d = Some (map_option (\<lambda>k. i + k) (dir_find s (drop i dir)))"
proof (induction n arbitrary: i)
  case 0
  then show ?case using assms(1) by (simp add: dir_rep_def dir_find_def)
next
  case (Suc n)
  have i: "i < 64" "i < length dir" using Suc.prems assms(1) by (simp_all add: dir_rep_def)
  have e: "entry_rep d i (dir ! i)" using assms(1) i by (simp add: dir_rep_def)
  have dr: "drop i dir = dir ! i # drop (Suc i) dir" using i(2) by (rule Cons_nth_drop_Suc [symmetric])
  have IH: "find_scan n (Suc i) name d = Some (map_option (\<lambda>k. Suc i + k) (dir_find s (drop (Suc i) dir)))"
    using Suc.IH [of "Suc i"] Suc.prems by simp
  have mo: "map_option (\<lambda>k. i + k) (map_option Suc r) = map_option (\<lambda>k. Suc i + k) r" for r
    by (cases r) simp_all
  show ?case
  proof (cases "dir ! i")
    case None
    then show ?thesis using e IH by (simp add: dr dir_find_def has_name_def entry_rep_def mo)
  next
    case (Some f)
    then have f: "d (entry_is_used i) \<noteq> 0" "cstr (ptr_at d (entry_name i)) (ename f)"
      using e by (simp_all add: entry_rep_def)
    obtain c where c: "strcmp (ptr_at d (entry_name i)) name = Some c" "c = 0 \<longleftrightarrow> ename f = s"
      using entry_strcmp [OF f(2) assms(2)] by blast
    then show ?thesis using f(1) IH Some
      by (simp add: dr dir_find_def has_name_def mo)
  qed
qed

lemma fs_find_spec:
  assumes "fs_rep d dir" and "cstr name s"
  shows "fs_find_file name d = Some (dir_find s dir)"
  using find_scan_dir [of d dir name s 0 64] assms
  by (simp add: fs_find_file_def fs_rep_def fs_consts option.map_id [unfolded id_def])

lemma copy_name_other: "x < to + j \<or> to + j + n < x \<Longrightarrow> copy_name to j name n d x = d x"
  by (induction n arbitrary: j d) auto

lemma copy_name_cstr:
  assumes "cstr (ptr_at name j) s"
  shows "cstr (ptr_at (copy_name to j name n d) (to + j)) (take n s)"
  using assms
proof (induction n arbitrary: j s d)
  case (Suc n)
  show ?case
  proof (cases s)
    case Nil
    then show ?thesis using Suc.prems by (simp add: cstr_Nil_at)
  next
    case (Cons x t)
    then have x: "x \<noteq> 0" "name j = x" "cstr (ptr_at name (Suc j)) t" using Suc.prems by auto
    let ?d = "d(to + j := x)"
    have e: "copy_name to j name (Suc n) d = copy_name to (Suc j) name n ?d" using x(1,2) by simp
    have "cstr (ptr_at (copy_name to (Suc j) name n ?d) (to + Suc j)) (take n t)" by (rule Suc.IH [OF x(3)])
    then show ?thesis unfolding e Cons take_Suc_Cons cstr_Cons using x(1) by (simp add: copy_name_other)
  qed
qed (simp add: cstr_Nil_at)

section \<open>Operations on the directory\<close>

lemma sint_of_nat32: "n < 2 ^ 31 \<Longrightarrow> sint (of_nat n :: u32) = int n"
  by (simp add: signed_of_nat signed_take_bit_int_eq_self)

lemma fs_say_total:
  "well_typed (lit f) args \<Longrightarrow> string_args args \<Longrightarrow> \<exists>c. fs_say f args st = Some (st\<lparr>fs_console := c\<rparr>)"
  using kprintf_total [of "lit f" args "fs_console st"] by (auto simp: fs_say_def)

lemma fs_messages:
  "well_typed (lit (''easyfs: root directory full'' @ [CHR 0x0A])) []"
  "well_typed (lit (''easyfs: no free blocks'' @ [CHR 0x0A])) []"
  "well_typed (lit (''easyfs: failed to write block. Invalid block or buffer'' @ [CHR 0x0A])) []"
  "well_typed (lit (''easyfs: initialised. %d blocks, %d data blocks'' @ [CHR 0x0A])) [AInt TOTAL_BLOCKS, AInt NUM_DATA_BLOCKS]"
  "well_typed (lit (''easyfs: file '' @ [CHR 0x27] @ ''%s'' @ [CHR 0x27] @ '' already exists'' @ [CHR 0x0A])) [AStr p]"
  "well_typed (lit (''easyfs: file '' @ [CHR 0x27] @ ''%s'' @ [CHR 0x27] @ '' not found'' @ [CHR 0x0A])) [AStr p]"
  by (code_simp, code_simp, code_simp, code_simp, code_simp, code_simp)

lemma create_fill:
  assumes rep: "fs_rep (fs_disk st) dir" and k: "dir_slot dir = Some k" and name: "cstr name s"
  defines "f \<equiv> \<lparr>ename = take 15 s, esize = 0, eblock = hd (free_blocks dir)\<rparr>"
  shows "\<exists>d'. create_scan (Suc n) k name st = Some (0, st\<lparr>fs_disk := d'\<rparr>)
    \<and> fs_rep d' (dir[k := Some f]) \<and> (\<forall>x \<ge> 12288. d' x = fs_disk st x)"
proof -
  let ?d = "fs_disk st" and ?b = "hd (free_blocks dir)"
  have len: "length dir = 64" using rep by (simp add: fs_rep_def dir_ok_def)
  have k64: "k < 64" "dir ! k = None" using dir_slotD [OF k] len by auto
  have b: "3 \<le> ?b" "?b < 1024" "?b \<notin> set (dir_blocks dir)" using free_block_least [OF len refl] by auto
  have unused: "?d (entry_is_used k) = 0"
    using rep k64 by (auto simp: fs_rep_def dir_rep_def entry_rep_def dest!: spec [of _ k])
  obtain d1 where d1: "fs_alloc_block ?d = (of_nat ?b, d1)" "bitmap_rep d1 (insert ?b (set (dir_blocks dir)))"
    "sb_rep d1 (length (dir_blocks dir) + 1)" "\<forall>x \<ge> 4224. d1 x = ?d x" using fs_alloc_spec [OF rep] by blast
  have pos: "\<not> (of_nat ?b :: u32) <s 0" using b(2) by (simp add: word_sless_alt sint_of_nat32)
  let ?d2 = "copy_name (entry_name k) 0 name 15 d1"
  let ?d4 = "st32 (st32 ?d2 (entry_file_size k) 0) (entry_first_block k) (of_nat ?b)"
  let ?d5 = "?d4(entry_is_used k := 1)"
  have step: "create_scan (Suc n) k name st = Some (0, st\<lparr>fs_disk := ?d5\<rparr>)"
    by (simp add: unused d1(1) pos fs_consts)
  have other: "?d5 x = d1 x" if "x < fs_rootdir + 28 * k \<or> fs_rootdir + 28 * k + 28 \<le> x" for x
    using that by (auto simp: layout_simps st32_other copy_name_other)
  have "cstr (ptr_at ?d2 (entry_name k)) (take 15 s)"
    using copy_name_cstr [of name 0 s "entry_name k" 15 d1] name by simp
  then have "cstr (ptr_at ?d5 (entry_name k)) (take 15 s)"
    by (rule iffD1 [OF cstr_agree, rotated]) (simp add: layout_simps st32_other)
  then have entry: "entry_rep ?d5 k (Some f)"
    by (simp add: entry_rep_def f_def layout_simps ld32_upd_other ld32_st32_other)
  have "dir_rep d1 dir" using rep d1(4) by (auto simp: fs_rep_def layout_simps intro!: dir_rep_agree [of ?d])
  then have "dir_rep ?d5 (dir[k := Some f])" using k64(1) entry other by (rule dir_rep_update)
  moreover have "bitmap_rep ?d5 (insert ?b (set (dir_blocks dir)))"
    using d1(2) by (rule bitmap_rep_agree) (intro other, simp add: layout_simps)
  moreover have "sb_rep ?d5 (length (dir_blocks dir) + 1)"
    using d1(3) by (rule sb_rep_agree) (intro other, simp add: layout_simps)
  moreover have "set (dir_blocks (dir[k := Some f])) = insert ?b (set (dir_blocks dir))"
    "length (dir_blocks (dir[k := Some f])) = length (dir_blocks dir) + 1"
    using dir_blocks_fill [of k dir f] k64 len by (auto simp: f_def)
  moreover have "dir_ok (dir[k := Some f])"
    using dir_create_ok [of dir s]
    using dir_ok_fill [of dir k f] k64 len b rep name set_take_subset [of 15 s]
    by (auto simp: f_def fs_rep_def cstr_def)
  moreover have "?d5 x = ?d x" if "12288 \<le> x" for x
    using that other [of x] d1(4) k64(1) by (simp add: layout_simps)
  ultimately show ?thesis using step by (auto simp: fs_rep_def)
qed

lemma create_scan_skip:
  assumes "dir_rep (fs_disk st) dir" and "\<forall>j < i + m. i \<le> j \<longrightarrow> dir ! j \<noteq> None" and "i + m \<le> 64"
  shows "create_scan (m + n) i name st = create_scan n (i + m) name st"
  using assms(2,3)
proof (induction m arbitrary: i)
  case (Suc m)
  then have "i < 64" "dir ! i \<noteq> None" by auto
  then have "fs_disk st (entry_is_used i) \<noteq> 0"
    using assms(1) by (auto simp: dir_rep_def entry_rep_def dest!: spec [of _ i])
  then show ?case using Suc.IH [of "Suc i"] Suc.prems by simp
qed simp

lemma create_file_spec:
  assumes rep: "fs_rep (fs_disk st) dir" and name: "cstr name s"
  shows "\<exists>st'. fs_create_file name st = Some (fst (dir_create s dir), st')
    \<and> fs_rep (fs_disk st') (snd (dir_create s dir)) \<and> (\<forall>x \<ge> 12288. fs_disk st' x = fs_disk st x)"
proof -
  have len: "length dir = 64" and drep: "dir_rep (fs_disk st) dir"
    using rep by (simp_all add: fs_rep_def dir_ok_def)
  note found = fs_find_spec [OF rep name]
  show ?thesis
  proof (cases "dir_find s dir")
    case (Some i)
    obtain c where "fs_say (''easyfs: file '' @ [CHR 0x27] @ ''%s'' @ [CHR 0x27] @ '' already exists'' @ [CHR 0x0A])
        [AStr name] st = Some (st\<lparr>fs_console := c\<rparr>)"
      using fs_say_total [OF fs_messages(5)] name by auto
    then show ?thesis using rep found Some by (simp add: fs_create_file_def dir_create_def)
  next
    case None
    show ?thesis
    proof (cases "dir_slot dir")
      case None': None
      then have "\<forall>j < 64. dir ! j \<noteq> None" using len by (auto simp: dir_slot_def find_index_None)
      then have skip: "create_scan 64 0 name st = create_scan 0 64 name st"
        using create_scan_skip [OF drep, of 0 64 0 name] by simp
      obtain c where "fs_say (''easyfs: root directory full'' @ [CHR 0x0A]) [] st = Some (st\<lparr>fs_console := c\<rparr>)"
        using fs_say_total [OF fs_messages(1)] by auto
      then show ?thesis using rep found None None' skip
        by (simp add: fs_create_file_def dir_create_def fs_consts)
    next
      case (Some k)
      then have k: "k < 64" "\<forall>j < k. dir ! j \<noteq> None" using dir_slotD [OF Some] len by auto
      then have "create_scan 64 0 name st = create_scan (Suc (63 - k)) k name st"
        using create_scan_skip [OF drep, of 0 k "Suc (63 - k)" name] by simp
      then show ?thesis using create_fill [OF rep Some name, of "63 - k"] found None Some
        by (auto simp: fs_create_file_def dir_create_def fs_consts)
    qed
  qed
qed

lemma delete_scan_spec:
  assumes rep: "fs_rep (fs_disk st) dir" and name: "cstr name s"
  shows "i + n = 64 \<Longrightarrow> (case dir_find s (drop i dir) of
      None \<Rightarrow> (\<exists>c. delete_scan n i name st = Some (-1, st\<lparr>fs_console := c\<rparr>))
    | Some k \<Rightarrow> (\<exists>d1 r. delete_scan n i name st = Some (0, st\<lparr>fs_disk := d1(entry_is_used (i + k) := 0)\<rparr>)
        \<and> fs_mark_block_free (ld32 (fs_disk st) (entry_first_block (i + k)) - 3) (fs_disk st) = (r, d1)))"
proof (induction n arbitrary: i)
  case 0
  obtain c where "fs_say (''easyfs: file '' @ [CHR 0x27] @ ''%s'' @ [CHR 0x27] @ '' not found'' @ [CHR 0x0A])
      [AStr name] st = Some (st\<lparr>fs_console := c\<rparr>)"
    using fs_say_total [OF fs_messages(6)] name by auto
  then show ?case using 0 rep by (auto simp: fs_rep_def dir_rep_def dir_find_def)
next
  case (Suc n)
  have drep: "dir_rep (fs_disk st) dir" using rep by (simp add: fs_rep_def)
  have i: "i < 64" "i < length dir" using Suc.prems drep by (simp_all add: dir_rep_def)
  have e: "entry_rep (fs_disk st) i (dir ! i)" using drep i by (simp add: dir_rep_def)
  have dr: "drop i dir = dir ! i # drop (Suc i) dir" using i(2) by (rule Cons_nth_drop_Suc [symmetric])
  have first: "ld32 (fs_disk st) sb_first_data_block = 3"
    using rep by (simp add: fs_rep_def sb_rep_def fs_consts)
  have IH: "case dir_find s (drop (Suc i) dir) of
      None \<Rightarrow> (\<exists>c. delete_scan n (Suc i) name st = Some (-1, st\<lparr>fs_console := c\<rparr>))
    | Some k \<Rightarrow> (\<exists>d1 r. delete_scan n (Suc i) name st = Some (0, st\<lparr>fs_disk := d1(entry_is_used (Suc i + k) := 0)\<rparr>)
        \<and> fs_mark_block_free (ld32 (fs_disk st) (entry_first_block (Suc i + k)) - 3) (fs_disk st) = (r, d1))"
    using Suc.IH [of "Suc i"] Suc.prems by simp
  show ?case
  proof (cases "dir ! i")
    case None
    then show ?thesis using e IH
      by (simp add: dr dir_find_def has_name_def entry_rep_def Let_def split: option.splits)
  next
    case (Some f)
    then have f: "fs_disk st (entry_is_used i) \<noteq> 0" "cstr (ptr_at (fs_disk st) (entry_name i)) (ename f)"
      using e by (simp_all add: entry_rep_def)
    obtain c where c: "strcmp (ptr_at (fs_disk st) (entry_name i)) name = Some c" "c = 0 \<longleftrightarrow> ename f = s"
      using entry_strcmp [OF f(2) name] by blast
    show ?thesis
    proof (cases "ename f = s")
      case True
      then show ?thesis using c f(1) Some
        by (simp add: dr dir_find_def has_name_def first Let_def split: prod.split)
    next
      case False
      then show ?thesis using c f(1) IH Some
        by (simp add: dr dir_find_def has_name_def Let_def split: option.splits)
    qed
  qed
qed

lemma delete_file_spec:
  assumes rep: "fs_rep (fs_disk st) dir" and name: "cstr name s"
  shows "\<exists>st'. fs_delete_file name st = Some (fst (dir_delete s dir), st')
    \<and> fs_rep (fs_disk st') (snd (dir_delete s dir)) \<and> (\<forall>x \<ge> 12288. fs_disk st' x = fs_disk st x)"
proof (cases "dir_find s dir")
  case None
  then show ?thesis using delete_scan_spec [OF rep name, of 0 64] rep
    by (auto simp: dir_delete_def fs_delete_file_def fs_consts)
next
  case (Some k)
  let ?d = "fs_disk st"
  have len: "length dir = 64" and ok: "dir_ok dir" and drep: "dir_rep ?d dir"
    using rep by (simp_all add: fs_rep_def dir_ok_def)
  obtain f where f: "k < 64" "dir ! k = Some f" using dir_findD [OF Some] len by auto
  have "f = f \<and> Some f \<in> set dir" using f len by (metis nth_mem)
  then have mem: "eblock f \<in> set (dir_blocks dir)" by (auto simp: dir_blocks_mem)
  then have "eblock f \<in> {3..<1024}" using ok by (auto simp: dir_ok_def)
  then have "eblock f = (eblock f - 3) + 3" "eblock f - 3 < 1021" by auto
  then obtain b where b: "eblock f = b + 3" "b < 1021" by blast
  have first: "ld32 ?d (entry_first_block k) - 3 = of_nat b"
    using drep f b by (auto simp: dir_rep_def entry_rep_def dest!: spec [of _ k])
  obtain xs ys where xs: "dir_blocks dir = xs @ eblock f # ys" "dir_blocks (dir[k := None]) = xs @ ys"
    using dir_blocks_clear [of k dir f] f len by auto
  have rep': "bitmap_rep ?d (set (dir_blocks dir))" "sb_rep ?d (length (xs @ ys) + 1)"
    using rep xs(1) by (simp_all add: fs_rep_def)
  obtain d1 where d1: "fs_mark_block_free (of_nat b) ?d = (True, d1)"
    "bitmap_rep d1 (set (dir_blocks dir) - {b + 3})" "sb_rep d1 (length (xs @ ys))" "\<forall>x \<ge> 4224. d1 x = ?d x"
    using mark_free [OF rep' b(2)] by blast
  have del: "fs_delete_file name st = Some (0, st\<lparr>fs_disk := d1(entry_is_used k := 0)\<rparr>)"
    using delete_scan_spec [OF rep name, of 0 64] Some d1(1) first by (auto simp: fs_delete_file_def fs_consts)
  let ?d2 = "d1(entry_is_used k := 0)"
  have other: "?d2 x = d1 x" if "x < fs_rootdir + 28 * k \<or> fs_rootdir + 28 * k + 28 \<le> x" for x
    using that by (auto simp: layout_simps)
  have "dir_rep d1 dir" using drep d1(4) by (auto simp: layout_simps intro!: dir_rep_agree [of ?d])
  then have "dir_rep ?d2 (dir[k := None])" using f(1) _ other
    by (rule dir_rep_update) (simp add: entry_rep_def)
  moreover have "set (dir_blocks (dir[k := None])) = set (dir_blocks dir) - {b + 3}"
    using ok xs b(1) by (auto simp: dir_ok_def)
  then have "bitmap_rep d1 (set (dir_blocks (dir[k := None])))" using d1(2) by simp
  then have "bitmap_rep ?d2 (set (dir_blocks (dir[k := None])))"
    by (rule bitmap_rep_agree) (intro other, simp add: layout_simps)
  moreover have "sb_rep ?d2 (length (dir_blocks (dir[k := None])))"
    unfolding xs(2) using d1(3) by (rule sb_rep_agree) (intro other, simp add: layout_simps)
  moreover have "dir_ok (dir[k := None])" using dir_ok_clear [OF ok] f len by simp
  moreover have "?d2 x = ?d x" if "12288 \<le> x" for x
    using that other [of x] d1(4) f(1) by (simp add: layout_simps)
  ultimately show ?thesis using del Some by (auto simp: fs_rep_def dir_delete_def)
qed

section \<open>The disk as a block store\<close>

definition disk_read :: "mem \<Rightarrow> nat \<Rightarrow> u8 list" where
  "disk_read d b = List.map (copy_up d (4096 * b) (\<lambda>x. 0) 0 4096) [0..<4096]"

definition disk_write :: "mem \<Rightarrow> nat \<Rightarrow> u8 list \<Rightarrow> mem" where
  "disk_write d b v = (if b < 1024 then copy_up (lit_ptr v) 0 d (4096 * b) 4096 else d)"

definition ram_block :: "mem \<Rightarrow> nat \<Rightarrow> u8 list" where
  "ram_block ram a = List.map (ptr_at ram a) [0..<4096]"

lemma disk_read_nth: "k < 4096 \<Longrightarrow> disk_read d b ! k = d (4096 * b + k)"
  by (simp add: disk_read_def copy_up_apply)

lemma disk_read_length [simp]: "length (disk_read d b) = 4096"
  by (simp add: disk_read_def)

lemma ram_block_nth: "k < 4096 \<Longrightarrow> ram_block ram a ! k = ram (a + k)"
  by (simp add: ram_block_def)

lemma ram_block_length [simp]: "length (ram_block ram a) = 4096"
  by (simp add: ram_block_def)

lemma disk_write_apply:
  "disk_write d b v x = (if b < 1024 \<and> 4096 * b \<le> x \<and> x < 4096 * b + 4096 then lit_ptr v (x - 4096 * b) else d x)"
  by (simp add: disk_write_def copy_up_apply)

interpretation disk: block_store disk_read disk_write 1024 4096
proof
  fix b :: nat and v :: "u8 list" and d
  assume "b < 1024" "length v = 4096"
  then show "disk_read (disk_write d b v) b = v"
    by (intro nth_equalityI) (simp_all add: disk_read_nth disk_write_apply lit_ptr_def)
next
  fix b c :: nat and d v
  assume "b \<noteq> c"
  then have "\<not> (4096 * b \<le> 4096 * c + k \<and> 4096 * c + k < 4096 * b + 4096)" if "k < 4096" for k
    using that by (cases "b < c") auto
  then show "disk_read (disk_write d b v) c = disk_read d c"
    by (intro nth_equalityI) (auto simp: disk_read_nth disk_write_apply)
qed

section \<open>Files as runs of blocks\<close>

lemma disk_write_meta: "3 \<le> b \<Longrightarrow> x < 12288 \<Longrightarrow> disk_write d b v x = d x"
  by (auto simp: disk_write_apply)

lemma fs_rep_agree: "fs_rep d dir \<Longrightarrow> (\<And>x. x < 12288 \<Longrightarrow> d' x = d x) \<Longrightarrow> fs_rep d' dir"
  unfolding fs_rep_def
  by (auto simp: layout_simps intro: dir_rep_agree [of d] bitmap_rep_agree [of d] sb_rep_agree [of d])

lemma fs_rep_entry:
  assumes "fs_rep d dir" and "e < 64" and "dir ! e = Some f"
  shows "ld32 d (entry_first_block e) = of_nat (eblock f)" and "ld32 d (entry_file_size e) = esize f"
    and "3 \<le> eblock f" and "eblock f < 1024"
proof -
  have "entry_rep d e (dir ! e)" using assms(1,2) by (simp add: fs_rep_def dir_rep_def)
  then show "ld32 d (entry_first_block e) = of_nat (eblock f)" "ld32 d (entry_file_size e) = esize f"
    using assms(3) by (simp_all add: entry_rep_def)
  have "Some f \<in> set dir" using assms by (metis fs_rep_def dir_rep_def nth_mem)
  then have "eblock f \<in> set (dir_blocks dir)" by (auto simp: dir_blocks_mem)
  then show "3 \<le> eblock f" "eblock f < 1024" using assms(1) by (auto simp: fs_rep_def dir_ok_def)
qed

lemma write_block_cases:
  assumes "k < 2 ^ 32"
  shows "\<exists>c. fs_write_block ram (of_nat k) buf st = Some (st\<lparr>fs_console := c,
    fs_disk := if buf = 0 then fs_disk st else disk_write (fs_disk st) k (ram_block ram (unat buf))\<rparr>)"
proof (cases "1024 \<le> k \<or> buf = 0")
  case True
  then have "TOTAL_BLOCKS \<le> of_nat k \<or> buf = 0"
    using assms of_nat32_le [of 1024 k] by (auto simp: fs_consts)
  then show ?thesis using True fs_say_total [OF fs_messages(3), of st]
    by (auto simp: fs_write_block_def disk_write_def fs.defs)
next
  case False
  then have "\<not> TOTAL_BLOCKS \<le> of_nat k" using of_nat32_le [of 1024 k] assms by (auto simp: fs_consts)
  moreover have at: "unat ((of_nat k :: u32) * BLOCK_SIZE) = 4096 * k"
    using False unat_of_nat32 [of "k * 4096"] by (simp add: fs_consts mult.commute)
  have "copy_up ram (unat buf) (fs_disk st) (4096 * k) 4096
      = disk_write (fs_disk st) k (ram_block ram (unat buf))"
    using False by (auto simp: fun_eq_iff disk_write_apply copy_up_apply lit_ptr_def ram_block_nth)
  ultimately show ?thesis using False at
    by (intro exI [of _ "fs_console st"]) (simp add: fs_write_block_def BLOCK_SIZE_def)
qed

text \<open>The state after a loop of block writes: metadata never changes, and if the buffer's
  addresses do not wrap the blocks form a run.\<close>

lemma write_blocks_meta:
  assumes "fs_rep (fs_disk st) dir" and "e < 64" and "dir ! e = Some f" and "eblock f + i + n < 2 ^ 32"
  shows "\<exists>st'. write_blocks n (of_nat i) e buf ram st = Some st' \<and> (\<forall>x < 12288. fs_disk st' x = fs_disk st x)"
  using assms(1,4)
proof (induction n arbitrary: i st)
  case (Suc n)
  note entry = fs_rep_entry [OF Suc.prems(1) assms(2,3)]
  let ?k = "eblock f + i"
  obtain c d where w: "fs_write_block ram (of_nat ?k) (buf + of_nat i * BLOCK_SIZE) st
      = Some (st\<lparr>fs_console := c, fs_disk := d\<rparr>)" "\<forall>x < 12288. d x = fs_disk st x"
    using write_block_cases [of ?k ram "buf + of_nat i * BLOCK_SIZE" st] Suc.prems(2) entry(3)
    by (auto simp: disk_write_meta)
  have rep': "fs_rep d dir" using Suc.prems(1) by (rule fs_rep_agree) (use w(2) in simp)
  then obtain st' where "write_blocks n (of_nat (Suc i)) e buf ram (st\<lparr>fs_console := c, fs_disk := d\<rparr>) = Some st'"
    "\<forall>x < 12288. fs_disk st' x = d x"
    using Suc.IH [of "st\<lparr>fs_console := c, fs_disk := d\<rparr>" "Suc i"] Suc.prems(2) by auto
  then show ?case using w entry(1) by (simp add: add.commute)
qed simp

lemma write_blocks_run:
  assumes "fs_rep (fs_disk st) dir" and "e < 64" and "dir ! e = Some f" and "0 < a"
    and "a + 4096 * (i + n) \<le> 2 ^ 32"
  shows "\<exists>st'. write_blocks n (of_nat i) e (of_nat a) ram st = Some st'
    \<and> fs_disk st' = disk.write_run (fs_disk st) (eblock f + i)
        (List.map (\<lambda>j. ram_block ram (a + 4096 * j)) [i..<i + n])"
  using assms(1,5)
proof (induction n arbitrary: i st)
  case (Suc n)
  note entry = fs_rep_entry [OF Suc.prems(1) assms(2,3)]
  let ?k = "eblock f + i"
  let ?d = "disk_write (fs_disk st) ?k (ram_block ram (a + 4096 * i))"
  have lt: "a + 4096 * i < 2 ^ 32" "?k < 2 ^ 32" using Suc.prems(2) entry(4) by auto
  have addr: "(of_nat a :: u32) + of_nat i * BLOCK_SIZE = of_nat (a + 4096 * i)"
    by (simp add: fs_consts)
  have nz: "(of_nat (a + 4096 * i) :: u32) \<noteq> 0" "unat (of_nat (a + 4096 * i) :: u32) = a + 4096 * i"
    using lt assms(4) by (simp_all only: of_nat32_eq_0 unat_of_nat32)
  obtain c where w: "fs_write_block ram (of_nat ?k) (of_nat (a + 4096 * i)) st
      = Some (st\<lparr>fs_console := c, fs_disk := ?d\<rparr>)"
    using write_block_cases [OF lt(2), of ram "of_nat (a + 4096 * i)" st] unfolding nz(2) using nz(1)
    by auto
  have rep': "fs_rep ?d dir" using Suc.prems(1) by (rule fs_rep_agree) (use entry(3) in \<open>simp add: disk_write_meta\<close>)
  then obtain st' where st': "write_blocks n (of_nat (Suc i)) e (of_nat a) ram (st\<lparr>fs_console := c, fs_disk := ?d\<rparr>) = Some st'"
    "fs_disk st' = disk.write_run ?d (eblock f + Suc i) (List.map (\<lambda>j. ram_block ram (a + 4096 * j)) [Suc i..<Suc i + n])"
    using Suc.IH [of "st\<lparr>fs_console := c, fs_disk := ?d\<rparr>" "Suc i"] Suc.prems(2) by auto
  have "[i..<i + Suc n] = i # [Suc i..<Suc i + n]" by (simp add: upt_conv_Cons)
  moreover have "(of_nat (eblock f) :: u32) + of_nat i = of_nat ?k" "(of_nat i :: u32) + 1 = of_nat (Suc i)" by simp_all
  ultimately show ?case using st' by (simp only: write_blocks.simps entry(1) addr w bind.bind_lunit) simp
qed simp

section \<open>Writing and reading files\<close>

lemma find_index_update: "P x = P (xs ! i) \<Longrightarrow> find_index P (xs[i := x]) = find_index P xs"
proof (induction xs arbitrary: i)
  case (Cons y ys)
  then show ?case by (cases i) auto
qed simp

lemma dir_resize_facts:
  assumes "e < length dir" and "dir ! e = Some f"
  shows "dir_blocks (dir[e := Some (f\<lparr>esize := n\<rparr>)]) = dir_blocks dir"
    and "dir_find s (dir[e := Some (f\<lparr>esize := n\<rparr>)]) = dir_find s dir"
proof -
  show "dir_blocks (dir[e := Some (f\<lparr>esize := n\<rparr>)]) = dir_blocks dir"
    using dir_blocks_at [OF assms(1), of "Some (f\<lparr>esize := n\<rparr>)"]
      dir_blocks_at [OF assms(1), of "dir ! e", unfolded list_update_id] assms(2) by simp
  show "dir_find s (dir[e := Some (f\<lparr>esize := n\<rparr>)]) = dir_find s dir"
    unfolding dir_find_def by (rule find_index_update) (simp add: has_name_def assms(2))
qed

lemma set_size_rep:
  assumes "fs_rep d dir" and "e < 64" and "dir ! e = Some f"
  shows "fs_rep (st32 d (entry_file_size e) n) (dir[e := Some (f\<lparr>esize := n\<rparr>)])"
proof -
  let ?d = "st32 d (entry_file_size e) n" and ?dir = "dir[e := Some (f\<lparr>esize := n\<rparr>)]"
  have len: "length dir = 64" using assms(1) by (simp add: fs_rep_def dir_ok_def)
  have other: "?d x = d x" if "x < fs_rootdir + 28 * e \<or> fs_rootdir + 28 * e + 28 \<le> x" for x
    using that by (auto simp: layout_simps st32_other)
  have e: "entry_rep d e (Some f)" using assms unfolding fs_rep_def dir_rep_def by metis
  have "cstr (ptr_at ?d (entry_name e)) (ename f)"
    using e by (subst cstr_agree [of _ _ "ptr_at d (entry_name e)"])
      (simp_all add: entry_rep_def layout_simps st32_other)
  then have "entry_rep ?d e (Some (f\<lparr>esize := n\<rparr>))"
    using e by (simp add: entry_rep_def layout_simps ld32_st32_other st32_other)
  then have "dir_rep ?d ?dir" using assms(1,2) other by (intro dir_rep_update) (auto simp: fs_rep_def)
  moreover have "bitmap_rep ?d (set (dir_blocks dir))"
    by (rule bitmap_rep_agree [of d]) (use assms(1) in \<open>simp_all add: fs_rep_def layout_simps st32_other\<close>)
  moreover have "sb_rep ?d (length (dir_blocks dir))"
    by (rule sb_rep_agree [of d]) (use assms(1) in \<open>simp_all add: fs_rep_def layout_simps st32_other\<close>)
  moreover have "dir_ok ?dir"
  proof -
    have ok: "dir_ok dir" using assms(1) by (simp add: fs_rep_def)
    have f: "Some f \<in> set dir" using assms(2,3) len by (metis nth_mem)
    have "\<exists>h. Some h \<in> set dir \<and> ename g = ename h" if "Some g \<in> set ?dir" for g
      using that f set_update_subset_insert [of dir e "Some (f\<lparr>esize := n\<rparr>)"] by fastforce
    then show ?thesis using ok len assms(2,3) dir_resize_facts(1) [of e dir f n]
      unfolding dir_ok_def by (metis length_list_update)
  qed
  ultimately show ?thesis using len assms(2,3) dir_resize_facts(1) [of e dir f n] by (simp add: fs_rep_def)
qed

lemma block_count: "unat (sz div BLOCK_SIZE + 1) = unat sz div 4096 + 1"
proof -
  have "unat (sz div BLOCK_SIZE) = unat sz div 4096" by (simp add: fs_consts unat_div)
  then have "sz div BLOCK_SIZE + 1 = of_nat (unat sz div 4096 + 1)"
    by (metis of_nat_1 of_nat_add of_nat_unat ucast_id)
  moreover have "unat sz div 4096 + 1 < 2 ^ 32" using unat32_less [of sz] by simp
  ultimately show ?thesis by (simp only: unat_of_nat32)
qed

text \<open>The directory after a write.\<close>

definition dir_resize :: "u8 list \<Rightarrow> u32 \<Rightarrow> dir \<Rightarrow> dir" where
  "dir_resize s n dir = (case dir_find s dir of
     Some e \<Rightarrow> dir[e := map_option (\<lambda>f. f\<lparr>esize := n\<rparr>) (dir ! e)] | None \<Rightarrow> dir)"

lemma dir_found:
  assumes "fs_rep d dir" and "dir_find s dir = Some e"
  obtains f where "e < 64" "e < length dir" "dir ! e = Some f" "ename f = s"
  using dir_findD [OF assms(2)] assms(1) by (auto simp: fs_rep_def dir_ok_def)

lemma write_file_meta:
  assumes rep: "fs_rep (fs_disk st) dir" and name: "cstr name s"
  shows "\<exists>r st'. fs_write_file name buf sz ram st = Some (r, st') \<and> fs_rep (fs_disk st') (dir_resize s sz dir)"
proof (cases "dir_find s dir")
  case None
  then show ?thesis using rep fs_find_spec [OF rep name] by (simp add: fs_write_file_def dir_resize_def)
next
  case (Some e)
  obtain f where f: "e < 64" "dir ! e = Some f" using dir_found [OF rep Some] .
  have lt: "eblock f + 0 + (unat sz div 4096 + 1) < 2 ^ 32"
    using fs_rep_entry(4) [OF rep f] unat32_less [of sz] by simp
  obtain st' where w: "write_blocks (unat sz div 4096 + 1) 0 e buf ram st = Some st'"
    "\<forall>x < 12288. fs_disk st' x = fs_disk st x"
    using write_blocks_meta [OF rep f lt, of buf ram] by auto
  have "fs_rep (fs_disk st') dir" using rep by (rule fs_rep_agree) (use w(2) in simp)
  then have "fs_rep (st32 (fs_disk st') (entry_file_size e) sz) (dir[e := Some (f\<lparr>esize := sz\<rparr>)])"
    using f by (rule set_size_rep)
  then show ?thesis using fs_find_spec [OF rep name] Some f w(1)
    by (simp add: fs_write_file_def dir_resize_def block_count del: write_blocks.simps)
qed

definition buffer_ok :: "u32 \<Rightarrow> u32 \<Rightarrow> bool" where
  "buffer_ok buf sz \<longleftrightarrow> buf \<noteq> 0 \<and> unat buf + 4096 * (unat sz div 4096 + 1) \<le> 2 ^ 32"

definition buffer_blocks :: "mem \<Rightarrow> u32 \<Rightarrow> u32 \<Rightarrow> u8 list list" where
  "buffer_blocks ram buf sz = List.map (\<lambda>j. ram_block ram (unat buf + 4096 * j)) [0..<unat sz div 4096 + 1]"

lemma write_file_run:
  assumes rep: "fs_rep (fs_disk st) dir" and name: "cstr name s" and found: "dir_find s dir = Some e"
    and f: "dir ! e = Some f" and buf: "buffer_ok buf sz"
  shows "\<exists>st'. fs_write_file name buf sz ram st = Some (sz, st')
    \<and> fs_rep (fs_disk st') (dir[e := Some (f\<lparr>esize := sz\<rparr>)])
    \<and> (\<forall>c. 3 \<le> c \<longrightarrow> disk_read (fs_disk st') c
         = disk_read (disk.write_run (fs_disk st) (eblock f) (buffer_blocks ram buf sz)) c)"
proof -
  have e: "e < 64" using dir_found [OF rep found] by blast
  have nz: "0 < unat buf" using buf by (simp add: buffer_ok_def unat_gt_0)
  have lt: "unat buf + 4096 * (0 + (unat sz div 4096 + 1)) \<le> 2 ^ 32"
    using buf by (simp add: buffer_ok_def)
  obtain st' where w: "write_blocks (unat sz div 4096 + 1) 0 e buf ram st = Some st'"
    "fs_disk st' = disk.write_run (fs_disk st) (eblock f) (buffer_blocks ram buf sz)"
    using write_blocks_run [OF rep e f nz lt, of ram] by (auto simp: buffer_blocks_def simp del: upt_Suc)
  let ?st = "st'\<lparr>fs_disk := st32 (fs_disk st') (entry_file_size e) sz\<rparr>"
  have w': "fs_write_file name buf sz ram st = Some (sz, ?st)"
    using fs_find_spec [OF rep name] found w(1)
    by (simp add: fs_write_file_def block_count del: write_blocks.simps)
  obtain r st'' where "fs_write_file name buf sz ram st = Some (r, st'')" "fs_rep (fs_disk st'') (dir_resize s sz dir)"
    using write_file_meta [OF rep name] by blast
  then have "fs_rep (fs_disk ?st) (dir[e := Some (f\<lparr>esize := sz\<rparr>)])"
    using w' found f by (auto simp: dir_resize_def)
  moreover have "disk_read (fs_disk ?st) c = disk_read (fs_disk st') c" if "3 \<le> c" for c
    using that e by (intro nth_equalityI) (simp_all add: disk_read_nth layout_simps st32_other)
  ultimately show ?thesis using w' w(2) by auto
qed

lemma read_block_spec:
  assumes "k < 2 ^ 20"
  shows "fs_read_block st (of_nat k) (of_nat a) ram = (if k < 1024
    then Some (copy_up (fs_disk st) (4096 * k) ram (unat (of_nat a :: u32)) 4096) else None)"
  using assms unat_of_nat32 [of "k * 4096"]
  by (simp add: fs_read_block_def fs_consts mult.commute)

lemma read_blocks_run:
  assumes rep: "fs_rep (fs_disk st) dir" and e: "e < 64" and f: "dir ! e = Some f"
    and "eblock f + i + n \<le> 1024" and "a + 4096 * (i + n) \<le> 2 ^ 32"
  shows "\<exists>ram'. read_blocks n (of_nat i) e (of_nat a) st ram = Some ram'
    \<and> (\<forall>x. ram' x = (if a + 4096 * i \<le> x \<and> x < a + 4096 * (i + n)
         then fs_disk st (4096 * eblock f + (x - a)) else ram x))"
  using assms(4,5)
proof (induction n arbitrary: i ram)
  case (Suc n)
  note entry = fs_rep_entry [OF rep e f]
  let ?k = "eblock f + i"
  let ?r = "copy_up (fs_disk st) (4096 * ?k) ram (a + 4096 * i) 4096"
  have lt: "a + 4096 * i < 2 ^ 32" "?k < 2 ^ 20" "?k < 1024" using Suc.prems by auto
  have addr: "(of_nat a :: u32) + of_nat i * BLOCK_SIZE = of_nat (a + 4096 * i)"
    by (simp add: fs_consts)
  have blk: "fs_read_block st (of_nat ?k) (of_nat (a + 4096 * i)) ram = Some ?r"
    using read_block_spec [OF lt(2), of st "a + 4096 * i" ram] lt(3) unat_of_nat32 [OF lt(1)] by metis
  obtain ram' where ram': "read_blocks n (of_nat (Suc i)) e (of_nat a) st ?r = Some ram'"
    "\<forall>x. ram' x = (if a + 4096 * Suc i \<le> x \<and> x < a + 4096 * (Suc i + n)
         then fs_disk st (4096 * eblock f + (x - a)) else ?r x)"
    using Suc.IH [of "Suc i" ?r] Suc.prems by auto
  have sums: "(of_nat (eblock f) :: u32) + of_nat i = of_nat ?k" "(of_nat i :: u32) + 1 = of_nat (Suc i)" by simp_all
  have "read_blocks (Suc n) (of_nat i) e (of_nat a) st ram = Some ram'"
    by (simp only: read_blocks.simps entry(1) addr sums blk ram'(1) bind.bind_lunit)
  moreover have "ram' x = (if a + 4096 * i \<le> x \<and> x < a + 4096 * (i + Suc n)
         then fs_disk st (4096 * eblock f + (x - a)) else ram x)" for x
    using ram'(2) by (auto simp: copy_up_apply algebra_simps)
  ultimately show ?case by blast
qed auto

lemma read_blocks_outside:
  assumes rep: "fs_rep (fs_disk st) dir" and e: "e < 64" and f: "dir ! e = Some f"
    and "1024 < eblock f + i + n" and "eblock f + i \<le> 1024"
  shows "read_blocks n (of_nat i) e buf st ram = None"
  using assms(4,5)
proof (induction n arbitrary: i ram)
  case (Suc n)
  note entry = fs_rep_entry [OF rep e f]
  let ?k = "eblock f + i"
  obtain a where a: "buf + of_nat i * BLOCK_SIZE = of_nat a" by (rule u32_cases)
  have sums: "(of_nat (eblock f) :: u32) + of_nat i = of_nat ?k" "(of_nat i :: u32) + 1 = of_nat (Suc i)" by simp_all
  have blk: "fs_read_block st (of_nat ?k) (of_nat a) ram = (if ?k < 1024
      then Some (copy_up (fs_disk st) (4096 * ?k) ram (unat (of_nat a :: u32)) 4096) else None)"
    by (rule read_block_spec) (use Suc.prems(2) in simp)
  show ?case
  proof (cases "?k < 1024")
    case True
    then have "read_blocks n (of_nat (Suc i)) e buf st r = None" for r
      using Suc.IH [of "Suc i"] Suc.prems(1) by simp
    then show ?thesis using True
      by (simp only: read_blocks.simps entry(1) a sums blk if_True bind.bind_lunit)
  next
    case False
    then show ?thesis by (simp only: read_blocks.simps entry(1) a sums blk if_False bind.bind_lzero)
  qed
qed simp

lemma read_count:
  assumes "unat n div 4096 \<le> unat sz div 4096"
  shows "unat (if n div BLOCK_SIZE + 1 < sz div BLOCK_SIZE + 1 then n div BLOCK_SIZE + 1 else sz div BLOCK_SIZE + 1)
    = unat n div 4096 + 1"
  using assms by (simp add: word_less_nat_alt block_count)

lemma read_file_spec:
  assumes rep: "fs_rep (fs_disk st) dir" and name: "cstr name s" and found: "dir_find s dir = Some e"
    and f: "dir ! e = Some f" and sz: "unat (esize f) div 4096 \<le> unat sz div 4096"
    and buf: "buffer_ok buf (esize f)" and inside: "eblock f + unat (esize f) div 4096 < 1024"
  shows "\<exists>ram'. fs_read_file name buf sz st ram = Some (esize f, ram')
    \<and> (\<forall>x. ram' x = (if unat buf \<le> x \<and> x < unat buf + 4096 * (unat (esize f) div 4096 + 1)
         then fs_disk st (4096 * eblock f + (x - unat buf)) else ram x))"
proof -
  have e: "e < 64" using dir_found [OF rep found] by blast
  have "unat buf + 4096 * (0 + (unat (esize f) div 4096 + 1)) \<le> 2 ^ 32"
    "eblock f + 0 + (unat (esize f) div 4096 + 1) \<le> 1024"
    using buf inside by (simp_all add: buffer_ok_def)
  from read_blocks_run [OF rep e f this(2,1), of ram]
  obtain ram' where "read_blocks (unat (esize f) div 4096 + 1) 0 e buf st ram = Some ram'"
    "\<forall>x. ram' x = (if unat buf \<le> x \<and> x < unat buf + 4096 * (unat (esize f) div 4096 + 1)
         then fs_disk st (4096 * eblock f + (x - unat buf)) else ram x)"
    by (auto simp del: read_blocks.simps)
  then show ?thesis using fs_find_spec [OF rep name] found fs_rep_entry(2) [OF rep e f]
    by (simp add: fs_read_file_def Let_def read_count [OF sz] del: read_blocks.simps)
qed

section \<open>Histories\<close>

lemma fs_zero_loop_apply: "fs_zero_loop d i n x = (if i \<le> x \<and> x < i + n then 0 else d x)"
  by (induction n arbitrary: i d) auto

lemma fs_init_rep: "\<exists>st'. fs_init st = Some st' \<and> fs_rep (fs_disk st') (replicate 64 None)"
proof -
  let ?z = "fs_zero_loop (fs_disk st) 0 (unat (TOTAL_BLOCKS * BLOCK_SIZE))"
  let ?d = "st32 (st32 (st32 (st32 (st32 (st32 (st32 (st32 (st32 (st32 ?z sb_magic SUPERBLOCK_MAGIC)
    sb_total_blocks TOTAL_BLOCKS) sb_block_size BLOCK_SIZE) sb_num_data_blocks NUM_DATA_BLOCKS)
    sb_free_block_count NUM_DATA_BLOCKS) sb_bitmap_block BITMAP_BLOCK) sb_root_dir_block ROOT_DIR_BLOCK)
    sb_first_data_block FIRST_DATA_BLOCK) sb_timestamp 0) (sb_timestamp + 4) 0"
  obtain c where init: "fs_init st = Some (st\<lparr>fs_disk := ?d, fs_console := c\<rparr>)"
    using fs_say_total [OF fs_messages(4), of "st\<lparr>fs_disk := ?d\<rparr>"] by (auto simp: fs_init_def Let_def)
  have size: "unat (TOTAL_BLOCKS * BLOCK_SIZE) = 4194304" by (simp add: fs_consts)
  have zero: "?d x = 0" if "40 \<le> x" "x < 12288" for x
    using that by (simp add: size fs_zero_loop_apply st32_other layout_simps)
  have blocks: "dir_blocks (replicate n None) = []" for n by (induction n) simp_all
  have "?d (entry_is_used i) = 0" if "i < 64" for i
    by (rule zero) (use that in \<open>simp_all add: layout_simps\<close>)
  then have "dir_rep ?d (replicate 64 None)" by (simp only: dir_rep_def entry_rep_def) simp
  moreover have "?d (fs_bitmap + b div 8) = 0" if "b < 1021" for b
    by (rule zero) (use that in \<open>simp_all add: layout_simps\<close>)
  then have "bitmap_rep ?d {}" by (simp only: bitmap_rep_def) simp
  moreover have "sb_rep ?d 0" by (simp add: sb_rep_def layout_simps ld32_st32_other)
  moreover have "dir_ok (replicate 64 None)" using blocks [of 64] by (simp add: dir_ok_def)
  ultimately show ?thesis using init blocks [of 64] by (simp add: fs_rep_def)
qed

inductive fs_step :: "fs \<Rightarrow> fs \<Rightarrow> bool" where
  "cstr name s \<Longrightarrow> fs_create_file name st = Some (r, st') \<Longrightarrow> fs_step st st'"
| "cstr name s \<Longrightarrow> fs_delete_file name st = Some (r, st') \<Longrightarrow> fs_step st st'"
| "cstr name s \<Longrightarrow> fs_write_file name buf sz ram st = Some (n, st') \<Longrightarrow> fs_step st st'"

inductive fs_reachable :: "fs \<Rightarrow> bool" where
  fs_start: "fs_init st = Some st' \<Longrightarrow> fs_reachable st'"
| fs_next: "fs_reachable st \<Longrightarrow> fs_step st st' \<Longrightarrow> fs_reachable st'"

inductive_cases fs_stepE: "fs_step st st'"

lemma dir_resize_rep_step:
  assumes "fs_rep (fs_disk st) dir" and "fs_step st st'"
  shows "\<exists>dir'. fs_rep (fs_disk st') dir'"
  using assms(2)
proof cases
  case (1 name s r)
  then show ?thesis using create_file_spec [OF assms(1) 1(1)] by auto
next
  case (2 name s r)
  then show ?thesis using delete_file_spec [OF assms(1) 2(1)] by auto
next
  case (3 name s buf sz ram n)
  then show ?thesis using write_file_meta [OF assms(1) 3(1), of buf sz ram] by auto
qed

lemma reachable_rep: "fs_reachable st \<Longrightarrow> \<exists>dir. fs_rep (fs_disk st) dir"
proof (induction rule: fs_reachable.induct)
  case (fs_start st st')
  then show ?case using fs_init_rep [of st] by auto
next
  case (fs_next st st')
  then show ?case using dir_resize_rep_step by blast
qed

section \<open>A disk with two files\<close>

text \<open>The state after creating \<open>a\<close> and \<open>b\<close> on a new disk, for the witnesses below.\<close>

definition two_files :: dir where
  "two_files = (replicate 64 None)[0 := Some \<lparr>ename = lit ''a'', esize = 0, eblock = 3\<rparr>,
     1 := Some \<lparr>ename = lit ''b'', esize = 0, eblock = 4\<rparr>]"

lemma lit_names: "0 \<notin> set (lit ''a'')" "0 \<notin> set (lit ''b'')" "lit ''a'' \<noteq> lit ''b''"
  by code_simp+

lemma free_blocks_hd:
  assumes "b < 1024" "b \<notin> set (dir_blocks dir)" "3 \<le> b" "\<forall>x. 3 \<le> x \<and> x < b \<longrightarrow> x \<in> set (dir_blocks dir)"
    and "length dir = 64"
  shows "hd (free_blocks dir) = b"
  using free_block_least [OF assms(5) refl] assms(1-4) by (metis linorder_neqE_nat)

lemma dir_create_two:
  "dir_create (lit ''b'') (snd (dir_create (lit ''a'') (replicate 64 None))) = (0, two_files)"
proof -
  have blocks: "dir_blocks (replicate n None) = []" for n by (induction n) simp_all
  let ?fa = "\<lparr>ename = lit ''a'', esize = 0, eblock = 3\<rparr>"
  let ?d1 = "(replicate 64 None)[0 := Some ?fa]"
  have one: "?d1 = Some ?fa # replicate 63 None" by (simp add: numeral_eq_Suc)
  have b1: "hd (free_blocks (replicate 64 None)) = 3"
    by (rule free_blocks_hd) (auto simp: blocks)
  have b2: "hd (free_blocks ?d1) = 4"
    unfolding one by (rule free_blocks_hd) (auto simp: blocks)
  have none: "dir_find s (replicate n None) = None" for s n
    by (auto simp: dir_find_None)
  have slot: "dir_slot (replicate 64 None) = Some 0" by (simp add: dir_slot_def numeral_eq_Suc)
  have "dir_create (lit ''a'') (replicate 64 None) = (0, ?d1)"
    by (simp only: dir_create_def none slot b1 option.case) simp
  moreover have "dir_find (lit ''b'') ?d1 = None" unfolding one using none [of _ 63] lit_names(3)
    by (simp add: dir_find_def has_name_def)
  moreover have "dir_slot ?d1 = Some 1" unfolding one by (simp add: dir_slot_def numeral_eq_Suc)
  ultimately show ?thesis unfolding two_files_def
    by (simp only: dir_create_def [of "lit ''b''"] snd_conv b2 option.case) simp
qed

lemma two_files_exist: "\<exists>st. fs_reachable st \<and> fs_rep (fs_disk st) two_files"
proof -
  obtain st0 where st0: "fs_init undefined = Some st0" "fs_rep (fs_disk st0) (replicate 64 None)"
    using fs_init_rep by blast
  obtain st1 where st1: "fs_create_file (lit_ptr (lit ''a'')) st0 = Some (fst (dir_create (lit ''a'') (replicate 64 None)), st1)"
    "fs_rep (fs_disk st1) (snd (dir_create (lit ''a'') (replicate 64 None)))"
    using create_file_spec [OF st0(2) cstr_lit [OF lit_names(1)]] by blast
  obtain st2 r where st2: "fs_create_file (lit_ptr (lit ''b'')) st1 = Some (r, st2)" "fs_rep (fs_disk st2) two_files"
    using create_file_spec [OF st1(2) cstr_lit [OF lit_names(2)]] dir_create_two by auto
  have "fs_reachable st2"
    using fs_start [OF st0(1)] fs_step.intros(1) [OF cstr_lit [OF lit_names(1)] st1(1)]
      fs_step.intros(1) [OF cstr_lit [OF lit_names(2)] st2(1)] fs_next by blast
  then show ?thesis using st2(2) by blast
qed

lemma two_files_find:
  "dir_find (lit ''a'') two_files = Some 0" "dir_find (lit ''b'') two_files = Some 1"
  "two_files ! 0 = Some \<lparr>ename = lit ''a'', esize = 0, eblock = 3\<rparr>"
  "two_files ! 1 = Some \<lparr>ename = lit ''b'', esize = 0, eblock = 4\<rparr>"
  using lit_names(3) by (simp_all add: two_files_def dir_find_def has_name_def numeral_eq_Suc)

section \<open>Isolation of files\<close>

lemma other_block:
  assumes "dir_ok dir" and "dir ! e = Some f" and "e < 64" and "dir ! j = Some g" and "j < 64" and "j \<noteq> e"
  shows "eblock g \<noteq> eblock f"
proof -
  have len: "length dir = 64" using assms(1) by (simp add: dir_ok_def)
  obtain xs ys where b: "dir_blocks dir = xs @ eblock f # ys" "dir_blocks (dir[e := None]) = xs @ ys"
    using dir_blocks_clear [of e dir f] assms(2,3) len by auto
  have "dir[e := None] ! j = Some g" using assms(4,6) by simp
  then have "Some g \<in> set (dir[e := None])" using assms(5) len by (metis length_list_update nth_mem)
  then have "eblock g \<in> set (xs @ ys)" unfolding b(2) [symmetric] by (auto simp: dir_blocks_mem)
  then show ?thesis using assms(1) b(1) by (auto simp: dir_ok_def)
qed

lemma buffer_blocks_facts:
  "length (buffer_blocks ram buf sz) = unat sz div 4096 + 1"
  "\<forall>v \<in> set (buffer_blocks ram buf sz). length v = 4096"
  "i \<le> unat sz div 4096 \<Longrightarrow> buffer_blocks ram buf sz ! i = ram_block ram (unat buf + 4096 * i)"
  by (auto simp: buffer_blocks_def simp del: upt_Suc)

text \<open>
  C6. In every state that initialisation and any sequence of file operations reach, the disk holds
  a well-formed directory: at most 64 files with terminated names, each owning one data block and
  no two the same, a bitmap that marks exactly those blocks, and a superblock whose free count is
  the number of unmarked blocks.
\<close>
theorem fs_invariant:
  "fs_reachable st \<Longrightarrow> \<exists>dir. fs_rep (fs_disk st) dir"
  by (rule reachable_rep)

theorem fs_invariant_witness:
  "\<exists>st. fs_reachable st \<and> (\<exists>dir. fs_rep (fs_disk st) dir)"
  using two_files_exist fs_invariant by blast

text \<open>
  C7. Creating a file always returns and implements the specification: an existing name or a full
  directory gives \<open>-1\<close> and no change, otherwise the first empty slot gets the name, cut to 15
  characters, and the lowest free data block; there is always a free block, and no data block is
  touched.
\<close>
theorem create_refines:
  assumes "fs_rep (fs_disk st) dir" and "cstr name s"
  shows "\<exists>st'. fs_create_file name st = Some (fst (dir_create s dir), st')
    \<and> fs_rep (fs_disk st') (snd (dir_create s dir))
    \<and> (\<forall>b. 3 \<le> b \<longrightarrow> disk_read (fs_disk st') b = disk_read (fs_disk st) b)"
proof -
  obtain st' where "fs_create_file name st = Some (fst (dir_create s dir), st')"
    "fs_rep (fs_disk st') (snd (dir_create s dir))" "\<forall>x \<ge> 12288. fs_disk st' x = fs_disk st x"
    using create_file_spec [OF assms] by blast
  then show ?thesis by (auto simp: disk_read_nth intro!: nth_equalityI)
qed

theorem create_refines_witness:
  "\<exists>st st'. fs_reachable st \<and> fs_create_file (lit_ptr (lit ''a'')) st = Some (-1, st') \<and> fs_rep (fs_disk st') two_files"
proof -
  obtain st where st: "fs_reachable st" "fs_rep (fs_disk st) two_files" using two_files_exist by blast
  then show ?thesis
    using create_refines [OF st(2) cstr_lit [OF lit_names(1)]] two_files_find(1)
    by (auto simp: dir_create_def)
qed

text \<open>
  C8. Deleting a file always returns and implements the specification: the slot of the named file
  becomes empty and its block free, and every other file and every data block is left alone; an
  unknown name gives \<open>-1\<close>.
\<close>
theorem delete_refines:
  assumes "fs_rep (fs_disk st) dir" and "cstr name s"
  shows "\<exists>st'. fs_delete_file name st = Some (fst (dir_delete s dir), st')
    \<and> fs_rep (fs_disk st') (snd (dir_delete s dir))
    \<and> (\<forall>b. 3 \<le> b \<longrightarrow> disk_read (fs_disk st') b = disk_read (fs_disk st) b)"
proof -
  obtain st' where "fs_delete_file name st = Some (fst (dir_delete s dir), st')"
    "fs_rep (fs_disk st') (snd (dir_delete s dir))" "\<forall>x \<ge> 12288. fs_disk st' x = fs_disk st x"
    using delete_file_spec [OF assms] by blast
  then show ?thesis by (auto simp: disk_read_nth intro!: nth_equalityI)
qed

theorem delete_refines_witness:
  "\<exists>st st'. fs_reachable st \<and> fs_delete_file (lit_ptr (lit ''a'')) st = Some (0, st')
    \<and> fs_rep (fs_disk st') (two_files[0 := None])"
proof -
  obtain st where st: "fs_reachable st" "fs_rep (fs_disk st) two_files" using two_files_exist by blast
  then show ?thesis
    using delete_refines [OF st(2) cstr_lit [OF lit_names(1)]] two_files_find(1)
    by (auto simp: dir_delete_def)
qed

text \<open>
  C9. What \<open>fs_write_file\<close> stores, \<open>fs_read_file\<close> gives back: for a file whose blocks end on the
  disk and buffers that do not wrap around the address space, writing and then reading with the
  same size succeeds and returns the same bytes.
\<close>
theorem write_read_roundtrip:
  assumes "fs_rep (fs_disk st) dir" and "cstr name s"
    and "dir_find s dir = Some e" and "dir ! e = Some f"
    and "eblock f + unat sz div 4096 < 1024" and "buffer_ok buf sz" and "buffer_ok buf' sz"
  shows "\<exists>st' ram''. fs_write_file name buf sz ram st = Some (sz, st')
    \<and> fs_read_file name buf' sz st' ram' = Some (sz, ram'')
    \<and> (\<forall>k < unat sz. ram'' (unat buf' + k) = ram (unat buf + k))"
proof -
  have e: "e < 64" "e < length dir" using dir_found [OF assms(1,3)] by blast+
  have b3: "3 \<le> eblock f" using fs_rep_entry(3) [OF assms(1) e(1) assms(4)] .
  let ?dir = "dir[e := Some (f\<lparr>esize := sz\<rparr>)]"
  obtain st' where w: "fs_write_file name buf sz ram st = Some (sz, st')" "fs_rep (fs_disk st') ?dir"
    "\<forall>c. 3 \<le> c \<longrightarrow> disk_read (fs_disk st') c
         = disk_read (disk.write_run (fs_disk st) (eblock f) (buffer_blocks ram buf sz)) c"
    using write_file_run [OF assms(1-4,6)] by blast
  have found: "dir_find s ?dir = Some e" "?dir ! e = Some (f\<lparr>esize := sz\<rparr>)"
    using dir_resize_facts(2) [OF e(2) assms(4)] assms(3) e(2) by simp_all
  obtain ram'' where r: "fs_read_file name buf' sz st' ram' = Some (sz, ram'')"
    "\<forall>x. ram'' x = (if unat buf' \<le> x \<and> x < unat buf' + 4096 * (unat sz div 4096 + 1)
         then fs_disk st' (4096 * eblock f + (x - unat buf')) else ram' x)"
    using read_file_spec [OF w(2) assms(2) found, of sz buf' ram'] assms(5,7) by auto
  have "ram'' (unat buf' + k) = ram (unat buf + k)" if k: "k < unat sz" for k
  proof -
    let ?i = "k div 4096" and ?m = "k mod 4096"
    have i: "?i \<le> unat sz div 4096" "k = 4096 * ?i + ?m" using k by (simp_all add: div_le_mono)
      have "?m < 4096" by simp
    have "4096 * q + r < 4096 * (n + 1)" if "r < 4096" "q \<le> n" for q r n :: nat using that by simp
    from this [OF \<open>?m < 4096\<close> i(1)] have "k < 4096 * (unat sz div 4096 + 1)" using i(2) by simp
    then have "ram'' (unat buf' + k) = fs_disk st' (4096 * eblock f + k)" by (simp add: r(2))
    also have "\<dots> = disk_read (fs_disk st') (eblock f + ?i) ! ?m"
      by (subst i(2)) (simp add: disk_read_nth algebra_simps)
    also have "\<dots> = ram_block ram (unat buf + 4096 * ?i) ! ?m"
      using w(3) b3 disk.read_run_same [of "eblock f" "buffer_blocks ram buf sz" ?i "fs_disk st"]
        buffer_blocks_facts(1,2) [of ram buf sz] buffer_blocks_facts(3) [of _ sz ram buf] i(1) assms(5) by simp
    also have "\<dots> = ram (unat buf + k)" by (simp add: ram_block_nth add.assoc)
    finally show ?thesis .
  qed
  then show ?thesis using w(1) r(1) by blast
qed

lemma small_buffer: "buffer_ok 0x1000 3" "buffer_ok 0x4000 3" "buffer_ok 0x1000 0x1000"
  by (simp_all add: buffer_ok_def)

theorem write_read_roundtrip_witness:
  "\<exists>st st' ram''. fs_reachable st \<and> fs_write_file (lit_ptr (lit ''a'')) 0x1000 3 (\<lambda>x. of_nat x) st = Some (3, st')
    \<and> fs_read_file (lit_ptr (lit ''a'')) 0x4000 3 st' (\<lambda>x. 0) = Some (3, ram'') \<and> ram'' 0x4002 = 2"
proof -
  obtain st where st: "fs_reachable st" "fs_rep (fs_disk st) two_files" using two_files_exist by blast
  obtain st' ram'' where "fs_write_file (lit_ptr (lit ''a'')) 0x1000 3 (\<lambda>x. of_nat x) st = Some (3, st')"
    "fs_read_file (lit_ptr (lit ''a'')) 0x4000 3 st' (\<lambda>x. 0) = Some (3, ram'')"
    "\<forall>k < 3. ram'' (0x4000 + k) = of_nat (0x1000 + k)"
    using write_read_roundtrip [OF st(2) cstr_lit [OF lit_names(1)] two_files_find(1,3) _ small_buffer(1,2), of "\<lambda>x. of_nat x" "\<lambda>x. 0"]
    by auto
  moreover from this(3) have "ram'' 0x4002 = 2" by (auto dest!: spec [of _ 2])
  ultimately show ?thesis using st(1) by blast
qed

text \<open>
  Writing fewer than 4096 bytes changes no other file: its name, size and contents stay.
\<close>
theorem small_write_isolated:
  assumes "fs_rep (fs_disk st) dir" and "cstr name s" and "dir_find s dir = Some e"
    and "dir ! e = Some f" and "unat sz < 4096" and "buffer_ok buf sz"
    and "j < 64" and "j \<noteq> e" and "dir ! j = Some g"
  shows "\<exists>st' dir'. fs_write_file name buf sz ram st = Some (sz, st') \<and> fs_rep (fs_disk st') dir'
    \<and> dir' ! j = Some g \<and> disk_read (fs_disk st') (eblock g) = disk_read (fs_disk st) (eblock g)"
proof -
  have e: "e < 64" using dir_found [OF assms(1,3)] by blast
  have ne: "eblock g \<noteq> eblock f"
    using other_block [OF _ assms(4) e assms(9,7,8)] assms(1) by (simp add: fs_rep_def)
  have "3 \<le> eblock g" "eblock g < 1024" using fs_rep_entry(3,4) [OF assms(1,7,9)] .
  moreover obtain st' where "fs_write_file name buf sz ram st = Some (sz, st')"
    "fs_rep (fs_disk st') (dir[e := Some (f\<lparr>esize := sz\<rparr>)])"
    "\<forall>c. 3 \<le> c \<longrightarrow> disk_read (fs_disk st') c
         = disk_read (disk.write_run (fs_disk st) (eblock f) (buffer_blocks ram buf sz)) c"
    using write_file_run [OF assms(1-4,6)] by blast
  moreover have "eblock g < eblock f \<or> eblock f + length (buffer_blocks ram buf sz) \<le> eblock g"
    using ne assms(5) by (auto simp: buffer_blocks_facts(1))
  ultimately show ?thesis
    using disk.read_run_other [of "eblock g" "eblock f" "buffer_blocks ram buf sz" "fs_disk st"] assms(8,9)
    by (intro exI [of _ st'] exI [of _ "dir[e := Some (f\<lparr>esize := sz\<rparr>)]"]) simp
qed

theorem small_write_isolated_witness:
  "\<exists>st st'. fs_reachable st \<and> fs_write_file (lit_ptr (lit ''a'')) 0x1000 3 (\<lambda>x. 0) st = Some (3, st')
    \<and> disk_read (fs_disk st') 4 = disk_read (fs_disk st) 4"
proof -
  obtain st where st: "fs_reachable st" "fs_rep (fs_disk st) two_files" using two_files_exist by blast
  then show ?thesis
    using small_write_isolated [OF st(2) cstr_lit [OF lit_names(1)] two_files_find(1,3) _ small_buffer(1) _ _ two_files_find(4), of "\<lambda>x. 0"]
    by auto
qed

text \<open>
  A file owns a single block, but a write of 4096 bytes or more goes on into the following
  ones: the contents of the file that owns the next block are replaced by the second page of the
  buffer.
\<close>
theorem large_write_clobbers:
  assumes "fs_rep (fs_disk st) dir" and "cstr name s" and "dir_find s dir = Some e"
    and "dir ! e = Some f" and "4096 \<le> unat sz" and "eblock f + unat sz div 4096 < 1024" and "buffer_ok buf sz"
    and "j < 64" and "dir ! j = Some g" and "eblock g = eblock f + 1"
  shows "\<exists>st'. fs_write_file name buf sz ram st = Some (sz, st')
    \<and> disk_read (fs_disk st') (eblock g) = ram_block ram (unat buf + 4096)"
proof -
  obtain st' where "fs_write_file name buf sz ram st = Some (sz, st')"
    "\<forall>c. 3 \<le> c \<longrightarrow> disk_read (fs_disk st') c
         = disk_read (disk.write_run (fs_disk st) (eblock f) (buffer_blocks ram buf sz)) c"
    using write_file_run [OF assms(1-4,7)] by blast
  moreover have "1 \<le> unat sz div 4096" using assms(5) div_le_mono [of 4096 "unat sz" 4096] by simp
  moreover have "3 \<le> eblock g" using fs_rep_entry(3) [OF assms(1,8,9)] .
  ultimately show ?thesis
    using disk.read_run_same [of "eblock f" "buffer_blocks ram buf sz" 1 "fs_disk st"]
      buffer_blocks_facts(1,2) [of ram buf sz] buffer_blocks_facts(3) [of _ sz ram buf] assms(6,10) by simp
qed

theorem large_write_clobbers_witness:
  "\<exists>st st'. fs_reachable st \<and> fs_write_file (lit_ptr (lit ''a'')) 0x1000 0x1000 (\<lambda>x. 7) st = Some (0x1000, st')
    \<and> disk_read (fs_disk st') 4 ! 0 = 7"
proof -
  obtain st where st: "fs_reachable st" "fs_rep (fs_disk st) two_files" using two_files_exist by blast
  then show ?thesis
    using large_write_clobbers [OF st(2) cstr_lit [OF lit_names(1)] two_files_find(1,3) _ _ small_buffer(3) _ two_files_find(4), of "\<lambda>x. 7"]
    by (auto simp: ram_block_nth)
qed

lemma long_name_absent: "dir_ok dir \<Longrightarrow> 16 \<le> length s \<Longrightarrow> dir_find s dir = None"
  by (auto simp: dir_find_None dir_ok_def)

text \<open>
  A name of 16 or more characters is cut when it is stored but not when it is looked up:
  creating such a file succeeds whenever a slot is free, yet the file cannot be found under that
  name afterwards, however often it is created.
\<close>
theorem long_name_lost:
  assumes "fs_rep (fs_disk st) dir" and "cstr name s" and "16 \<le> length s" and "None \<in> set dir"
  shows "\<exists>st'. fs_create_file name st = Some (0, st') \<and> fs_find_file name (fs_disk st') = Some None"
proof -
  have ok: "dir_ok dir" using assms(1) by (simp add: fs_rep_def)
  have "dir_slot dir \<noteq> None" using assms(4) by (auto simp: dir_slot_def find_index_None)
  then have "fst (dir_create s dir) = 0"
    using long_name_absent [OF ok assms(3)] by (auto simp: dir_create_def)
  moreover obtain st' where "fs_create_file name st = Some (fst (dir_create s dir), st')"
    "fs_rep (fs_disk st') (snd (dir_create s dir))"
    using create_file_spec [OF assms(1,2)] by blast
  moreover have "dir_find s (snd (dir_create s dir)) = None"
    using long_name_absent assms(3) calculation(3) by (simp add: fs_rep_def)
  ultimately show ?thesis using fs_find_spec assms(2) by auto
qed

theorem long_name_lost_witness:
  "\<exists>st st'. fs_reachable st \<and> fs_create_file (lit_ptr (lit ''averylongfilename'')) st = Some (0, st')
    \<and> fs_find_file (lit_ptr (lit ''averylongfilename'')) (fs_disk st') = Some None"
proof -
  obtain st where st: "fs_reachable st" "fs_rep (fs_disk st) two_files" using two_files_exist by blast
  have "0 \<notin> set (lit ''averylongfilename'')" by code_simp
  moreover have "None \<in> set two_files" by (simp add: two_files_def numeral_eq_Suc)
  ultimately show ?thesis
    using long_name_lost [OF st(2) cstr_lit] st(1) by fastforce
qed

text \<open>
  The recorded size of a file is whatever the last write was asked to store, and reading does
  not check block numbers: once the size covers blocks past the end of the disk, reading that much
  of the file runs past the disk array, which is undefined.
\<close>
theorem read_past_disk:
  assumes "fs_rep (fs_disk st) dir" and "cstr name s"
    and "dir_find s dir = Some e" and "dir ! e = Some f"
    and "1024 \<le> eblock f + unat sz div 4096"
  shows "\<exists>st'. fs_write_file name buf sz ram st = Some (sz, st')
    \<and> fs_read_file name buf' sz st' ram' = None"
proof -
  have e: "e < 64" "e < length dir" using dir_found [OF assms(1,3)] by blast+
  let ?dir = "dir[e := Some (f\<lparr>esize := sz\<rparr>)]"
  obtain r st' where w: "fs_write_file name buf sz ram st = Some (r, st')" "fs_rep (fs_disk st') ?dir"
    using write_file_meta [OF assms(1,2), of buf sz ram] assms(3,4) by (auto simp: dir_resize_def)
  have r: "r = sz" using w(1) fs_find_spec [OF assms(1,2)] assms(3)
    by (auto simp: fs_write_file_def simp del: write_blocks.simps split: Option.bind_splits)
  have found: "dir_find s ?dir = Some e" "?dir ! e = Some (f\<lparr>esize := sz\<rparr>)"
    using dir_resize_facts(2) [OF e(2) assms(4)] assms(3) e(2) by simp_all
  have "read_blocks (unat sz div 4096 + 1) (of_nat 0) e buf' st' ram' = None"
    using fs_rep_entry(4) [OF assms(1) e(1) assms(4)] assms(5)
    by (intro read_blocks_outside [OF w(2) e(1) found(2)]) simp_all
  then have "fs_read_file name buf' sz st' ram' = None"
    using fs_find_spec [OF w(2) assms(2)] found(1) fs_rep_entry(2) [OF w(2) e(1) found(2)]
    by (simp add: fs_read_file_def Let_def block_count del: read_blocks.simps)
  then show ?thesis using w(1) r by blast
qed

theorem read_past_disk_witness:
  "\<exists>st st'. fs_reachable st \<and> fs_write_file (lit_ptr (lit ''a'')) 0x1000 0x400000 (\<lambda>x. 0) st = Some (0x400000, st')
    \<and> fs_read_file (lit_ptr (lit ''a'')) 0x1000 0x400000 st' (\<lambda>x. 0) = None"
proof -
  obtain st where st: "fs_reachable st" "fs_rep (fs_disk st) two_files" using two_files_exist by blast
  have "(1024 :: nat) \<le> 3 + unat (0x400000 :: u32) div 4096" by simp
  then show ?thesis
    using read_past_disk [OF st(2) cstr_lit [OF lit_names(1)] two_files_find(1,3), of "0x400000" "0x1000" "\<lambda>x. 0" "0x1000" "\<lambda>x. 0"] st(1)
    by auto
qed

end
