(* ===== verification/Ports.thy ===== *)
theory Ports
  imports Prelude
begin

text \<open>
  Port input and output (\<open>read_port\<close> and \<open>write_port\<close> of the boot assembly).  What the devices
  answer is not part of the repository: the answers to successive reads of a port are an arbitrary
  stream, and what the kernel writes is recorded in order.  Nothing is assumed about the stream
  except where a lemma says so.  A polling loop that no answer ends gives \<open>None\<close>.
\<close>

record io =
  port_in :: "u16 \<Rightarrow> nat \<Rightarrow> u8"
  port_pos :: "u16 \<Rightarrow> nat"
  port_out :: "(u16 \<times> u8) list"

definition read_port :: "u16 \<Rightarrow> io \<Rightarrow> u8 \<times> io" where
  "read_port p s = (port_in s p (port_pos s p), s\<lparr>port_pos := (port_pos s)(p := Suc (port_pos s p))\<rparr>)"

definition write_port :: "u16 \<Rightarrow> u8 \<Rightarrow> io \<Rightarrow> io" where
  "write_port p b s = s\<lparr>port_out := port_out s @ [(p, b)]\<rparr>"

text \<open>The bytes written to one port, in order.\<close>

definition written :: "u16 \<Rightarrow> io \<Rightarrow> u8 list" where
  "written p s = List.map snd (filter (\<lambda>w. fst w = p) (port_out s))"

lemma written_write [simp]:
  "written p (write_port q b s) = written p s @ (if q = p then [b] else [])"
  by (simp add: written_def write_port_def)

lemma written_read [simp]: "written p (snd (read_port q s)) = written p s"
  by (simp add: written_def read_port_def)

lemma port_io_simps [simp]:
  "port_in (write_port p b s) = port_in s" "port_pos (write_port p b s) = port_pos s"
  "port_out (write_port p b s) = port_out s @ [(p, b)]"
  "port_in (snd (read_port p s)) = port_in s" "port_out (snd (read_port p s)) = port_out s"
  "fst (read_port p s) = port_in s p (port_pos s p)"
  "port_pos (snd (read_port p s)) = (port_pos s)(p := Suc (port_pos s p))"
  by (simp_all add: write_port_def read_port_def)

text \<open>\<open>while (!(read_port(p) & bit));\<close> and its negation.\<close>

partial_function (option) poll_until :: "bool \<Rightarrow> u16 \<Rightarrow> u8 \<Rightarrow> io \<Rightarrow> io option" where
  "poll_until want p msk s =
     (let (b, s') = read_port p s
      in if (b AND msk \<noteq> 0) = want then Some s' else poll_until want p msk s')"

lemma poll_until_returns:
  assumes "(port_in s p (port_pos s p + n) AND msk \<noteq> 0) = want"
  shows "\<exists>s'. poll_until want p msk s = Some s' \<and> port_out s' = port_out s \<and> port_in s' = port_in s"
  using assms
proof (induction n arbitrary: s)
  case 0
  then show ?case by (subst poll_until.simps) (simp add: read_port_def)
next
  case (Suc n)
  show ?case
  proof (cases "(port_in s p (port_pos s p) AND msk \<noteq> 0) = want")
    case True
    then show ?thesis by (subst poll_until.simps) (simp add: read_port_def)
  next
    case False
    have "(port_in (snd (read_port p s)) p (port_pos (snd (read_port p s)) p + n) AND msk \<noteq> 0) = want"
      using Suc.prems by simp
    from Suc.IH [OF this] False show ?thesis
      by (subst poll_until.simps) (simp add: case_prod_beta)
  qed
qed

end
