(* ===== verification/QueueSpec.thy ===== *)
theory QueueSpec
  imports Prelude
begin

text \<open>
  The contract of a bounded first-in first-out buffer that drops what does not fit, and what its
  users may rely on: any sequence of insertions and removals has the result it has on a list.
\<close>

datatype 'a qop = Push 'a | Pop

text \<open>On a list: the values removed so far, and the list.\<close>

fun list_op :: "nat \<Rightarrow> 'a qop \<Rightarrow> 'a list \<times> 'a list \<Rightarrow> 'a list \<times> 'a list" where
  "list_op cap (Push x) (out, xs) = (out, if List.length xs < cap then xs @ [x] else xs)"
| "list_op cap Pop (out, xs) = (case xs of [] \<Rightarrow> (out, []) | y # ys \<Rightarrow> (out @ [y], ys))"

locale bounded_queue =
  fixes push :: "'a \<Rightarrow> 'q \<Rightarrow> 'q"
    and pop :: "'q \<Rightarrow> ('a \<times> 'q) option"
    and contents :: "'q \<Rightarrow> 'a list"
    and inv :: "'q \<Rightarrow> bool"
    and cap :: nat
  assumes push_inv: "inv q \<Longrightarrow> inv (push x q)"
    and push_contents: "inv q \<Longrightarrow>
      contents (push x q) = (if List.length (contents q) < cap then contents q @ [x] else contents q)"
    and pop_empty: "inv q \<Longrightarrow> contents q = [] \<Longrightarrow> pop q = None"
    and pop_first: "inv q \<Longrightarrow> contents q = y # ys \<Longrightarrow> \<exists>q'. pop q = Some (y, q') \<and> inv q' \<and> contents q' = ys"
    and bounded: "inv q \<Longrightarrow> List.length (contents q) \<le> cap"
begin

fun queue_op :: "'a qop \<Rightarrow> 'a list \<times> 'q \<Rightarrow> 'a list \<times> 'q" where
  "queue_op (Push x) (out, q) = (out, push x q)"
| "queue_op Pop (out, q) = (case pop q of None \<Rightarrow> (out, q) | Some (y, q') \<Rightarrow> (out @ [y], q'))"

lemma queue_op_sim:
  assumes "inv q"
  shows "inv (snd (queue_op p (out, q)))
    \<and> (fst (queue_op p (out, q)), contents (snd (queue_op p (out, q)))) = list_op cap p (out, contents q)"
proof (cases p)
  case (Push x)
  then show ?thesis using assms push_inv push_contents by simp
next
  case Pop
  then show ?thesis using assms pop_empty [OF assms] pop_first [OF assms]
    by (cases "contents q") (auto split: option.splits)
qed

lemma queue_run_sim:
  "inv q \<Longrightarrow> inv (snd (fold queue_op ps (out, q)))
    \<and> (fst (fold queue_op ps (out, q)), contents (snd (fold queue_op ps (out, q))))
      = fold (list_op cap) ps (out, contents q)"
proof (induction ps arbitrary: out q)
  case (Cons p ps)
  obtain out' q' where q': "queue_op p (out, q) = (out', q')" by (cases "queue_op p (out, q)")
  then have "inv q'" "(out', contents q') = list_op cap p (out, contents q)"
    using queue_op_sim [OF Cons.prems, of p out] by simp_all
  then show ?case using Cons.IH [of q' out'] q' by simp
qed simp

text \<open>While there is room nothing is lost: everything pushed is taken out or still inside, in
  order.\<close>

fun pushed :: "'a qop list \<Rightarrow> 'a list" where
  "pushed [] = []"
| "pushed (Push x # ps) = x # pushed ps"
| "pushed (Pop # ps) = pushed ps"

lemma list_run_fifo:
  "List.length xs + List.length (pushed ps) \<le> cap \<Longrightarrow>
    (\<lambda>(out', xs'). out' @ xs') (fold (list_op cap) ps (out, xs)) = out @ xs @ pushed ps"
proof (induction ps arbitrary: out xs rule: pushed.induct)
  case (3 ps)
  then show ?case by (cases xs) simp_all
qed simp_all

lemma queue_run_fifo:
  assumes "inv q" and "List.length (contents q) + List.length (pushed ps) \<le> cap"
  shows "fst (fold queue_op ps ([], q)) @ contents (snd (fold queue_op ps ([], q)))
    = contents q @ pushed ps"
proof -
  have "(fst (fold queue_op ps ([], q)), contents (snd (fold queue_op ps ([], q))))
      = fold (list_op cap) ps ([], contents q)"
    using queue_run_sim [OF assms(1), of ps "[]"] by simp
  then show ?thesis using list_run_fifo [OF assms(2), of "[]"] by (simp add: case_prod_beta prod_eq_iff)
qed

end

end
