(* ===== verification/Keyboard.thy ===== *)
theory Keyboard
  imports Ports QueueSpec CString
begin

text \<open>
  The PS/2 keyboard driver of \<open>drivers/kbd_driver.c\<close> with the key maps of
  \<open>drivers/keyboard_map.h\<close>: a ring buffer of 256 key codes between the interrupt handler, which
  pushes, and \<open>kbd_getchar\<close>, which waits for a key and removes it.  A key code is an \<open>int\<close>, kept
  as a 32-bit word; characters are stored as themselves and special keys as 1000 and up.
\<close>

definition KBD_BUF_SIZE :: u32 where "KBD_BUF_SIZE = 256"
definition KEYBOARD_PORT :: u16 where "KEYBOARD_PORT = 0x60"
definition KEYBOARD_STATUS_PORT :: u16 where "KEYBOARD_STATUS_PORT = 0x64"
definition ENTER_KEY_CODE :: u8 where "ENTER_KEY_CODE = 0x1C"
definition BACKSPACE_KEY_CODE :: u8 where "BACKSPACE_KEY_CODE = 0x0E"
definition SCANCODE_UP :: u8 where "SCANCODE_UP = 0x48"
definition SCANCODE_DOWN :: u8 where "SCANCODE_DOWN = 0x50"
definition SCANCODE_LEFT :: u8 where "SCANCODE_LEFT = 0x4B"
definition SCANCODE_RIGHT :: u8 where "SCANCODE_RIGHT = 0x4D"
definition SCANCODE_HOME :: u8 where "SCANCODE_HOME = 0x47"
definition SCANCODE_END :: u8 where "SCANCODE_END = 0x4F"
definition SCANCODE_PGUP :: u8 where "SCANCODE_PGUP = 0x49"
definition SCANCODE_PGDN :: u8 where "SCANCODE_PGDN = 0x51"
definition SCANCODE_DEL :: u8 where "SCANCODE_DEL = 0x53"
definition SCANCODE_LSHIFT :: u8 where "SCANCODE_LSHIFT = 0x2A"
definition SCANCODE_RSHIFT :: u8 where "SCANCODE_RSHIFT = 0x36"
definition SCANCODE_LSHIFT_R :: u8 where "SCANCODE_LSHIFT_R = 0xAA"
definition SCANCODE_RSHIFT_R :: u8 where "SCANCODE_RSHIFT_R = 0xB6"
definition ARROW_UP :: u32 where "ARROW_UP = 1000"
definition ARROW_DOWN :: u32 where "ARROW_DOWN = 1001"
definition ARROW_LEFT :: u32 where "ARROW_LEFT = 1002"
definition ARROW_RIGHT :: u32 where "ARROW_RIGHT = 1003"
definition KEY_HOME :: u32 where "KEY_HOME = 1004"
definition KEY_END :: u32 where "KEY_END = 1005"
definition KEY_PAGE_UP :: u32 where "KEY_PAGE_UP = 1006"
definition KEY_PAGE_DOWN :: u32 where "KEY_PAGE_DOWN = 1007"
definition KEY_DEL :: u32 where "KEY_DEL = 1008"

lemmas scancode_defs = ENTER_KEY_CODE_def BACKSPACE_KEY_CODE_def SCANCODE_UP_def SCANCODE_DOWN_def
  SCANCODE_LEFT_def SCANCODE_RIGHT_def SCANCODE_HOME_def SCANCODE_END_def SCANCODE_PGUP_def
  SCANCODE_PGDN_def SCANCODE_DEL_def SCANCODE_LSHIFT_def SCANCODE_RSHIFT_def SCANCODE_LSHIFT_R_def
  SCANCODE_RSHIFT_R_def

lemmas keycode_defs = ARROW_UP_def ARROW_DOWN_def ARROW_LEFT_def ARROW_RIGHT_def KEY_HOME_def
  KEY_END_def KEY_PAGE_UP_def KEY_PAGE_DOWN_def KEY_DEL_def

section \<open>Key maps\<close>

definition keyboard_map :: "u8 list" where
  "keyboard_map = [0, 27] @ lit ''1234567890[]'' @ [8, 9, 0x27] @ lit '',.pyfgcrl/='' @ [10, 0]
     @ lit ''aoeuidhtns-`'' @ [0, 0x5C] @ lit '';qjkxbmwvz'' @ [0] @ lit ''*'' @ [0] @ lit '' '' @ [0]
     @ replicate 15 0 @ lit ''-'' @ [0, 0, 0] @ lit ''+'' @ replicate 49 0"

definition keyboard_map_shift :: "u8 list" where
  "keyboard_map_shift = [0, 27] @ lit ''!@#$%^&*(){}'' @ [8, 9, 0x22] @ lit ''<>PYFGCRL?+'' @ [10, 0]
     @ lit ''AOEUIDHTNS_~'' @ [0] @ lit ''|:QJKXBMWVZ'' @ [0] @ lit ''*'' @ [0] @ lit '' '' @ [0]
     @ replicate 15 0 @ lit ''-'' @ [0, 0, 0] @ lit ''+'' @ replicate 49 0"

section \<open>Driver\<close>

record kbd =
  kbd_buf :: "u32 list"
  kbd_buf_read :: u32
  kbd_buf_write :: u32
  shift_held :: bool
  kbd_initialized :: bool
  kbd_enabled :: bool

definition kbd_push :: "u32 \<Rightarrow> kbd \<Rightarrow> kbd" where
  "kbd_push code k =
     (if (kbd_buf_write k + 1) mod KBD_BUF_SIZE = kbd_buf_read k then k
      else k\<lparr>kbd_buf := (kbd_buf k)[unat (kbd_buf_write k) := code],
             kbd_buf_write := (kbd_buf_write k + 1) mod KBD_BUF_SIZE\<rparr>)"

text \<open>\<open>None\<close> means that the loop of \<open>kbd_getchar\<close> spins: it goes on when an interrupt has pushed.\<close>

definition kbd_getchar :: "kbd \<Rightarrow> (u32 \<times> kbd) option" where
  "kbd_getchar k =
     (if kbd_buf_read k = kbd_buf_write k then None
      else let c = kbd_buf k ! unat (kbd_buf_read k)
           in Some (c, k\<lparr>kbd_buf_read := (kbd_buf_read k + 1) mod KBD_BUF_SIZE\<rparr>))"

definition kbd_init :: "kbd \<Rightarrow> io \<Rightarrow> int \<times> kbd \<times> io" where
  "kbd_init k s =
     (if kbd_initialized k then (0, k, s)
      else (0, k\<lparr>kbd_initialized := True, kbd_enabled := False\<rparr>, write_port 0x21 0xFD s))"

definition kbd_enable :: "kbd \<Rightarrow> kbd" where
  "kbd_enable k = (if \<not> kbd_initialized k then k else k\<lparr>kbd_enabled := True\<rparr>)"

definition kbd_disable :: "kbd \<Rightarrow> kbd" where
  "kbd_disable k = k\<lparr>kbd_enabled := False\<rparr>"

text \<open>The byte read is the result (the pointer \<open>out\<close> of its caller is never null); \<open>None\<close> is
  \<open>DRIVER_ERR\<close>.\<close>

definition kbd_read :: "kbd \<Rightarrow> io \<Rightarrow> u8 option \<times> io" where
  "kbd_read k s =
     (if \<not> kbd_enabled k then (None, s)
      else let (status, s1) = read_port KEYBOARD_STATUS_PORT s
           in if status AND 1 = 0 then (None, s1)
              else let (b, s2) = read_port KEYBOARD_PORT s1 in (Some b, s2))"

definition kbd_write :: "u8 \<Rightarrow> kbd \<Rightarrow> io \<Rightarrow> (int \<times> io) option" where
  "kbd_write b k s =
     (if \<not> kbd_enabled k then Some (-1, s)
      else do {
        s1 \<leftarrow> poll_until False KEYBOARD_STATUS_PORT 2 s;
        Some (0, write_port KEYBOARD_PORT b s1)
      })"

definition special_key :: "u8 \<Rightarrow> u32 option" where
  "special_key keycode =
     (if keycode = SCANCODE_UP then Some ARROW_UP
      else if keycode = SCANCODE_DOWN then Some ARROW_DOWN
      else if keycode = SCANCODE_LEFT then Some ARROW_LEFT
      else if keycode = SCANCODE_RIGHT then Some ARROW_RIGHT
      else if keycode = SCANCODE_HOME then Some KEY_HOME
      else if keycode = SCANCODE_END then Some KEY_END
      else if keycode = SCANCODE_PGUP then Some KEY_PAGE_UP
      else if keycode = SCANCODE_PGDN then Some KEY_PAGE_DOWN
      else if keycode = SCANCODE_DEL then Some KEY_DEL
      else if keycode = BACKSPACE_KEY_CODE then Some 8
      else if keycode = ENTER_KEY_CODE then Some 10
      else None)"

definition kbd_handler_main :: "kbd \<Rightarrow> io \<Rightarrow> kbd \<times> io" where
  "kbd_handler_main k s =
     (let s0 = write_port 0x20 0x20 s
      in if \<not> kbd_enabled k then (k, s0)
         else let (r, s1) = kbd_read k s0
              in case r of
                   None \<Rightarrow> (k, s1)
                 | Some keycode \<Rightarrow>
                     (if keycode = SCANCODE_LSHIFT_R \<or> keycode = SCANCODE_RSHIFT_R
                      then (k\<lparr>shift_held := False\<rparr>, s1)
                      else if keycode AND 0x80 \<noteq> 0 then (k, s1)
                      else if keycode = SCANCODE_LSHIFT \<or> keycode = SCANCODE_RSHIFT
                      then (k\<lparr>shift_held := True\<rparr>, s1)
                      else case special_key keycode of
                          Some code \<Rightarrow> (kbd_push code k, s1)
                        | None \<Rightarrow>
                            let c = (if shift_held k then keyboard_map_shift ! unat keycode
                                     else keyboard_map ! unat keycode)
                            in (if c \<noteq> 0 then kbd_push (scast c) k else k, s1)))"

section \<open>The ring\<close>

definition ring_ok :: "kbd \<Rightarrow> bool" where
  "ring_ok k \<longleftrightarrow> length (kbd_buf k) = 256 \<and> unat (kbd_buf_read k) < 256 \<and> unat (kbd_buf_write k) < 256"

definition ring_length :: "nat \<Rightarrow> nat \<Rightarrow> nat" where
  "ring_length r w = (if r \<le> w then w - r else w + 256 - r)"

definition ring_index :: "nat \<Rightarrow> nat \<Rightarrow> nat" where
  "ring_index r i = (if r + i < 256 then r + i else r + i - 256)"

definition ring_contents :: "kbd \<Rightarrow> u32 list" where
  "ring_contents k = List.map (\<lambda>i. kbd_buf k ! ring_index (unat (kbd_buf_read k)) i)
     [0..<ring_length (unat (kbd_buf_read k)) (unat (kbd_buf_write k))]"

lemma ring_next:
  assumes "unat (i :: u32) < 256"
  shows "unat ((i + 1) mod KBD_BUF_SIZE) = (if unat i = 255 then 0 else unat i + 1)"
proof -
  obtain n where n: "i = of_nat n" "n < 2 ^ 32" by (rule u32_cases)
  have lt: "n < 256" using assms n by (simp add: unat_of_nat32)
  have "(i + 1) mod KBD_BUF_SIZE = of_nat (n + 1) mod 256" by (simp add: n(1) KBD_BUF_SIZE_def add.commute)
  moreover have "unat (of_nat (n + 1) mod (256 :: u32)) = (n + 1) mod 256"
    using unat_of_nat32 [of "n + 1"] lt by (subst unat_mod) simp
  ultimately show ?thesis using lt n by (simp add: unat_of_nat32)
qed

lemma ring_arith:
  assumes "r < 256" and "w < (256 :: nat)" and "w' = (if w = 255 then 0 else w + 1)"
  shows "w' \<noteq> r \<Longrightarrow> ring_length r w' = Suc (ring_length r w)"
    and "w' = r \<longleftrightarrow> ring_length r w = 255" and "ring_length r w \<le> 255"
    and "i < ring_length r w \<Longrightarrow> ring_index r i \<noteq> w" and "ring_index r (ring_length r w) = w"
    and "i < ring_length r w \<Longrightarrow> ring_index r i < 256"
  using assms by (auto simp: ring_length_def ring_index_def split: if_splits)

lemma ring_arith_pop:
  assumes "r < 256" and "w < (256 :: nat)" and "r' = (if r = 255 then 0 else r + 1)"
  shows "r \<noteq> w \<Longrightarrow> ring_length r w = Suc (ring_length r' w)"
    and "r \<noteq> w \<Longrightarrow> i < ring_length r' w \<Longrightarrow> ring_index r' i = ring_index r (Suc i)"
    and "ring_index r 0 = r" and "ring_length r w = 0 \<longleftrightarrow> r = w"
  using assms by (auto simp: ring_length_def ring_index_def split: if_splits)

lemma push_ok:
  assumes "ring_ok k"
  shows "ring_ok (kbd_push c k)"
    and "ring_contents (kbd_push c k)
      = (if length (ring_contents k) < 255 then ring_contents k @ [c] else ring_contents k)"
proof -
  let ?r = "unat (kbd_buf_read k)" and ?w = "unat (kbd_buf_write k)"
  let ?w' = "unat ((kbd_buf_write k + 1) mod KBD_BUF_SIZE)"
  have b: "?r < 256" "?w < 256" "length (kbd_buf k) = 256" using assms by (simp_all add: ring_ok_def)
  have w': "?w' = (if ?w = 255 then 0 else ?w + 1)" using b(2) by (rule ring_next)
  note ar = ring_arith [OF b(1,2) w']
  have full: "(kbd_buf_write k + 1) mod KBD_BUF_SIZE = kbd_buf_read k \<longleftrightarrow> ring_length ?r ?w = 255"
    using ar(2) by (simp only: word_unat_eq_iff)
  show "ring_ok (kbd_push c k)" using assms b w' by (simp add: ring_ok_def kbd_push_def)
  show "ring_contents (kbd_push c k)
      = (if length (ring_contents k) < 255 then ring_contents k @ [c] else ring_contents k)"
  proof (cases "ring_length ?r ?w = 255")
    case True
    then show ?thesis using full by (simp add: kbd_push_def ring_contents_def)
  next
    case False
    then have ne: "?w' \<noteq> ?r" and lt: "ring_length ?r ?w < 255" using ar(2,3) by auto
    have "ring_contents (kbd_push c k) = List.map (\<lambda>i. (kbd_buf k)[?w := c] ! ring_index ?r i) [0..<Suc (ring_length ?r ?w)]"
      using full False ar(1) [OF ne] by (simp add: kbd_push_def ring_contents_def del: upt_Suc)
    also have "\<dots> = ring_contents k @ [c]"
      using ar(4) [THEN not_sym] ar(5) b(2,3) by (simp add: ring_contents_def)
    finally show ?thesis using lt by (simp add: ring_contents_def)
  qed
qed

lemma pop_ok:
  assumes "ring_ok k" and "ring_contents k = c # cs"
  shows "\<exists>k'. kbd_getchar k = Some (c, k') \<and> ring_ok k' \<and> ring_contents k' = cs"
proof -
  let ?r = "unat (kbd_buf_read k)" and ?w = "unat (kbd_buf_write k)"
  let ?r' = "unat ((kbd_buf_read k + 1) mod KBD_BUF_SIZE)"
  have b: "?r < 256" "?w < 256" "length (kbd_buf k) = 256" using assms by (simp_all add: ring_ok_def)
  have r': "?r' = (if ?r = 255 then 0 else ?r + 1)" using b(1) by (rule ring_next)
  note ar = ring_arith_pop [OF b(1,2) r']
  have ne: "?r \<noteq> ?w" using assms(2) ar(4) by (auto simp: ring_contents_def)
  have up: "[0..<ring_length ?r ?w] = 0 # List.map Suc [0..<ring_length ?r' ?w]"
    using ar(1) [OF ne] by (simp add: upt_conv_Cons map_Suc_upt del: upt_Suc)
  have cs: "c = kbd_buf k ! ?r" "cs = List.map (\<lambda>i. kbd_buf k ! ring_index ?r (Suc i)) [0..<ring_length ?r' ?w]"
    using assms(2) unfolding ring_contents_def up by (auto simp: ar(3))
  let ?k' = "k\<lparr>kbd_buf_read := (kbd_buf_read k + 1) mod KBD_BUF_SIZE\<rparr>"
  have "ring_contents ?k' = cs" using ar(2) [OF ne] by (simp add: cs(2) ring_contents_def)
  moreover have "ring_ok ?k'" using b r' by (simp add: ring_ok_def)
  moreover have "kbd_getchar k = Some (c, ?k')" using ne by (auto simp: kbd_getchar_def cs(1))
  ultimately show ?thesis by blast
qed

interpretation ring: bounded_queue kbd_push kbd_getchar ring_contents ring_ok 255
proof
  fix q :: kbd and x
  assume q: "ring_ok q"
  show "ring_ok (kbd_push x q)" using q by (rule push_ok(1))
  show "ring_contents (kbd_push x q) = (if length (ring_contents q) < 255 then ring_contents q @ [x] else ring_contents q)"
    using q by (rule push_ok(2))
  show "length (ring_contents q) \<le> 255"
    using q ring_arith(3) [OF _ _ refl, of "unat (kbd_buf_read q)" "unat (kbd_buf_write q)"]
    by (simp add: ring_ok_def ring_contents_def)
next
  fix q assume "ring_ok q" "ring_contents q = []"
  then show "kbd_getchar q = None"
    using ring_arith_pop(4) [OF _ _ refl, of "unat (kbd_buf_read q)" "unat (kbd_buf_write q)"]
    by (simp add: ring_ok_def ring_contents_def kbd_getchar_def word_unat_eq_iff)
next
  fix q y ys assume "ring_ok q" "ring_contents q = y # ys"
  then show "\<exists>q'. kbd_getchar q = Some (y, q') \<and> ring_ok q' \<and> ring_contents q' = ys" by (rule pop_ok)
qed

section \<open>Waiting for a key while interrupts arrive\<close>

text \<open>
  \<open>kbd_getchar\<close> is not atomic: the handler may run between the test of its loop, the load of the
  code and the update of the read index.  The handler itself runs with interrupts off.  \<open>accepted\<close>
  and \<open>delivered\<close> record the codes that entered the ring and those returned.
\<close>

datatype getchar_pc = Testing | Loading | Advancing u32

record kbd_run =
  krun :: kbd
  kpc :: getchar_pc
  accepted :: "u32 list"
  delivered :: "u32 list"

inductive kbd_run_step :: "kbd_run \<Rightarrow> kbd_run \<Rightarrow> bool" where
  test: "kpc x = Testing \<Longrightarrow> kbd_buf_read (krun x) \<noteq> kbd_buf_write (krun x) \<Longrightarrow>
    kbd_run_step x (x\<lparr>kpc := Loading\<rparr>)"
| load: "kpc x = Loading \<Longrightarrow>
    kbd_run_step x (x\<lparr>kpc := Advancing (kbd_buf (krun x) ! unat (kbd_buf_read (krun x)))\<rparr>)"
| advance: "kpc x = Advancing c \<Longrightarrow>
    kbd_run_step x (x\<lparr>krun := (krun x)\<lparr>kbd_buf_read := (kbd_buf_read (krun x) + 1) mod KBD_BUF_SIZE\<rparr>,
      kpc := Testing, delivered := delivered x @ [c]\<rparr>)"
| interrupt: "kbd_run_step x (x\<lparr>krun := fst (kbd_handler_main (krun x) s),
      accepted := accepted x @ drop (length (ring_contents (krun x)))
        (ring_contents (fst (kbd_handler_main (krun x) s)))\<rparr>)"

inductive kbd_running :: "kbd_run \<Rightarrow> bool" where
  "ring_ok k \<Longrightarrow> ring_contents k = [] \<Longrightarrow>
    kbd_running \<lparr>krun = k, kpc = Testing, accepted = [], delivered = []\<rparr>"
| "kbd_running x \<Longrightarrow> kbd_run_step x y \<Longrightarrow> kbd_running y"

inductive_cases kbd_run_stepE: "kbd_run_step x y"

section \<open>The interrupt handler\<close>

text \<open>What a scan code means: the shift state after it, and the key it stands for.\<close>

definition decode :: "bool \<Rightarrow> u8 \<Rightarrow> bool \<times> u32 option" where
  "decode shift b =
     (if b = 0xAA \<or> b = 0xB6 then (False, None)
      else if 0x80 \<le> b then (shift, None)
      else if b = 0x2A \<or> b = 0x36 then (True, None)
      else (shift, case special_key b of Some code \<Rightarrow> Some code
        | None \<Rightarrow> (let c = (if shift then keyboard_map_shift else keyboard_map) ! unat b
                   in if c = 0 then None else Some (ucast c))))"

definition push_opt :: "u32 option \<Rightarrow> kbd \<Rightarrow> kbd" where
  "push_opt r k = (case r of Some c \<Rightarrow> kbd_push c k | None \<Rightarrow> k)"

text \<open>The byte that the handler finds, if it takes one.\<close>

definition scancode :: "kbd \<Rightarrow> io \<Rightarrow> u8 option" where
  "scancode k s =
     (if kbd_enabled k \<and> bit (port_in s KEYBOARD_STATUS_PORT (port_pos s KEYBOARD_STATUS_PORT)) 0
      then Some (port_in s KEYBOARD_PORT (port_pos s KEYBOARD_PORT)) else None)"

lemma release_bit: "(b :: u8) AND 0x80 = 0 \<longleftrightarrow> \<not> 0x80 \<le> b"
proof -
  have "\<forall>n \<in> set [0..<256]. ((of_nat n :: u8) AND 0x80 = 0) = (\<not> 0x80 \<le> (of_nat n :: u8))" by code_simp
  moreover have "unat b < 256" using unsigned_less [of b, where ?'a = nat] by simp
  then have "unat b \<in> set [0..<256]" by simp
  ultimately have "((of_nat (unat b) :: u8) AND 0x80 = 0) = (\<not> 0x80 \<le> (of_nat (unat b) :: u8))" by blast
  then show ?thesis by simp
qed

lemma status_bit: "(w :: u8) AND 1 = 0 \<longleftrightarrow> \<not> bit w 0"
  using bit_iff_and_push_bit_not_eq_0 [of w 0] by simp

lemma map_facts:
  "\<forall>b \<in> set keyboard_map. b < 0x80" "\<forall>b \<in> set keyboard_map_shift. b < 0x80"
  "length keyboard_map = 128" "length keyboard_map_shift = 128"
  by (code_simp, code_simp, code_simp, code_simp)

lemma scast_small: "(b :: u8) < 0x80 \<Longrightarrow> (scast b :: u32) = ucast b"
proof -
  assume "b < 0x80"
  then have "uint b < 128" by (simp add: word_less_def)
  moreover have "- 128 \<le> uint b" using unsigned_greater_eq [of b, where ?'a = int] by linarith
  ultimately have "sint b = uint b" 
    using signed_take_bit_int_eq_self [of 7 "uint b"]
    by (simp add: sint_uint)
  then show ?thesis by (metis scast_eq ucast_eq)
qed

lemma map_scast:
  assumes "\<not> 0x80 \<le> (b :: u8)"
  shows "(scast (keyboard_map ! unat b) :: u32) = ucast (keyboard_map ! unat b)"
    and "(scast (keyboard_map_shift ! unat b) :: u32) = ucast (keyboard_map_shift ! unat b)"
proof -
  have "unat b < 128" using assms by (simp add: word_le_nat_alt)
  then show "(scast (keyboard_map ! unat b) :: u32) = ucast (keyboard_map ! unat b)"
    "(scast (keyboard_map_shift ! unat b) :: u32) = ucast (keyboard_map_shift ! unat b)"
    using map_facts by (metis nth_mem scast_small)+
qed

lemma handler_decodes:
  "fst (kbd_handler_main k s) =
    (case scancode k s of
       None \<Rightarrow> k
     | Some b \<Rightarrow> push_opt (snd (decode (shift_held k) b)) (k\<lparr>shift_held := fst (decode (shift_held k) b)\<rparr>))"
proof (cases "scancode k s")
  case None
  then show ?thesis
    by (auto simp: scancode_def kbd_handler_main_def kbd_read_def Let_def status_bit read_port_def KEYBOARD_STATUS_PORT_def KEYBOARD_PORT_def split: if_splits)
next
  case (Some b)
  have ports: "KEYBOARD_STATUS_PORT \<noteq> KEYBOARD_PORT" by (simp add: KEYBOARD_STATUS_PORT_def KEYBOARD_PORT_def)
  have same: "shift_held k = v \<Longrightarrow> k\<lparr>shift_held := v\<rparr> = k" for v by auto
  have read: "fst (kbd_read k (write_port 0x20 0x20 s)) = Some b" "kbd_enabled k"
    using Some ports by (auto simp: scancode_def kbd_read_def Let_def status_bit read_port_def split: if_splits)
  obtain s1 where r: "kbd_read k (write_port 0x20 0x20 s) = (Some b, s1)"
    using read(1) by (cases "kbd_read k (write_port 0x20 0x20 s)") auto
  show ?thesis
  proof (cases "0x80 \<le> b")
    case True
    then show ?thesis using Some read(2) r
      by (simp add: kbd_handler_main_def decode_def push_opt_def release_bit scancode_defs same)
  next
    case False
    then have "b \<noteq> 0xAA" "b \<noteq> 0xB6" by auto
    then show ?thesis using Some read(2) r False map_scast [OF False]
      by (simp add: kbd_handler_main_def decode_def push_opt_def release_bit same Let_def
          SCANCODE_LSHIFT_def SCANCODE_RSHIFT_def SCANCODE_LSHIFT_R_def SCANCODE_RSHIFT_R_def
          split: option.split)
  qed
qed

lemma handler_eoi: "port_out (snd (kbd_handler_main k s)) = port_out s @ [(0x20, 0x20)]"
proof -
  have out: "port_out (snd (kbd_read k s')) = port_out s'" for s'
    by (simp add: kbd_read_def case_prod_beta Let_def)
  have "snd (kbd_handler_main k s)
      = (if kbd_enabled k then snd (kbd_read k (write_port 0x20 0x20 s)) else write_port 0x20 0x20 s)"
    by (simp add: kbd_handler_main_def case_prod_beta Let_def split: option.split)
  then show ?thesis using out by simp
qed

text \<open>
  One interrupt does what the scan code means and nothing else: with the driver enabled and a
  byte ready, the shift state follows the press and release of the shift keys and at most one key
  code enters the ring; otherwise the driver does not change.  The end of interrupt is sent first,
  exactly once, in every case.
\<close>
theorem handler_effect:
  "fst (kbd_handler_main k s) =
    (case scancode k s of
       None \<Rightarrow> k
     | Some b \<Rightarrow> push_opt (snd (decode (shift_held k) b)) (k\<lparr>shift_held := fst (decode (shift_held k) b)\<rparr>))
   \<and> port_out (snd (kbd_handler_main k s)) = port_out s @ [(0x20, 0x20)]"
  using handler_decodes [of k s] handler_eoi by simp

lemma handler_ring:
  assumes "ring_ok k"
  shows "ring_ok (fst (kbd_handler_main k s)) \<and> kbd_buf_read (fst (kbd_handler_main k s)) = kbd_buf_read k
    \<and> (\<exists>cs. ring_contents (fst (kbd_handler_main k s)) = ring_contents k @ cs)"
proof -
  have shift: "ring_ok (k\<lparr>shift_held := b\<rparr>)" "ring_contents (k\<lparr>shift_held := b\<rparr>) = ring_contents k" for b
    using assms by (simp_all add: ring_ok_def ring_contents_def)
  have read: "kbd_buf_read (kbd_push c k') = kbd_buf_read k'" for c k' by (simp add: kbd_push_def)
  show ?thesis unfolding handler_decodes
    using assms shift push_ok [OF shift(1)]
    by (auto simp: push_opt_def read split: option.splits)
qed

text \<open>What the waiting call still has to deliver.\<close>

fun undelivered :: "kbd_run \<Rightarrow> bool" where
  "undelivered x = (case kpc x of
     Testing \<Rightarrow> True
   | Loading \<Rightarrow> ring_contents (krun x) \<noteq> []
   | Advancing c \<Rightarrow> ring_contents (krun x) \<noteq> [] \<and> hd (ring_contents (krun x)) = c)"

lemma contents_hd:
  assumes "ring_ok k" and "ring_contents k \<noteq> []"
  shows "hd (ring_contents k) = kbd_buf k ! unat (kbd_buf_read k)"
    and "ring_contents (k\<lparr>kbd_buf_read := (kbd_buf_read k + 1) mod KBD_BUF_SIZE\<rparr>) = tl (ring_contents k)"
    and "ring_ok (k\<lparr>kbd_buf_read := (kbd_buf_read k + 1) mod KBD_BUF_SIZE\<rparr>)"
proof -
  obtain c cs where "ring_contents k = c # cs" using assms(2) by (cases "ring_contents k") auto
  then show "hd (ring_contents k) = kbd_buf k ! unat (kbd_buf_read k)"
    "ring_contents (k\<lparr>kbd_buf_read := (kbd_buf_read k + 1) mod KBD_BUF_SIZE\<rparr>) = tl (ring_contents k)"
    "ring_ok (k\<lparr>kbd_buf_read := (kbd_buf_read k + 1) mod KBD_BUF_SIZE\<rparr>)"
    using pop_ok [OF assms(1)] by (auto simp: kbd_getchar_def Let_def split: if_splits)
qed

lemma not_empty:
  assumes "ring_ok k" and "kbd_buf_read k \<noteq> kbd_buf_write k"
  shows "ring_contents k \<noteq> []"
  using ring.pop_empty [OF assms(1)] assms(2) by (auto simp: kbd_getchar_def Let_def)

lemma kbd_run_step_inv:
  assumes "kbd_run_step x y" and "ring_ok (krun x)" and "undelivered x"
    and "accepted x = delivered x @ ring_contents (krun x)"
  shows "ring_ok (krun y) \<and> undelivered y \<and> accepted y = delivered y @ ring_contents (krun y)"
  using assms(1)
proof cases
  case test
  then show ?thesis using assms(2-4) not_empty by simp
next
  case load
  then show ?thesis using assms(2-4) contents_hd(1) by simp
next
  case (advance c)
  then show ?thesis using assms(2-4) contents_hd(2,3) [of "krun x"]
    by (simp add: hd_Cons_tl) (metis hd_Cons_tl)
next
  case (interrupt s)
  obtain cs where "ring_contents (fst (kbd_handler_main (krun x) s)) = ring_contents (krun x) @ cs"
    using handler_ring [OF assms(2), of s] by blast
  then show ?thesis using interrupt assms(2-4) handler_ring [OF assms(2), of s]
    by (auto split: getchar_pc.splits)
qed


text \<open>
  On any sequence of insertions and removals the ring behaves as a list of at most 255 codes
  that drops what does not fit: starting from an empty ring, as long as no more than 255 codes are
  inserted, those taken out followed by those left are exactly the ones inserted, in order.
\<close>
theorem ring_is_fifo:
  assumes "ring_ok k" and "ring_contents k = []" and "length (ring.pushed ps) \<le> 255"
  shows "fst (fold ring.queue_op ps ([], k)) @ ring_contents (snd (fold ring.queue_op ps ([], k))) = ring.pushed ps"
  using ring.queue_run_fifo [OF assms(1), of ps] assms(2,3) by simp

text \<open>A ring to evaluate on.\<close>

definition kbd0 :: kbd where
  "kbd0 = \<lparr>kbd_buf = replicate 256 0, kbd_buf_read = 0, kbd_buf_write = 0, shift_held = False,
     kbd_initialized = True, kbd_enabled = True\<rparr>"

lemma kbd0_ring: "ring_ok kbd0" "ring_contents kbd0 = []"
  by (simp_all add: kbd0_def ring_ok_def ring_contents_def ring_length_def)

definition key_io :: "u8 \<Rightarrow> io" where
  "key_io b = \<lparr>port_in = (\<lambda>p n. if p = 0x64 then 1 else b), port_pos = (\<lambda>p. 0), port_out = []\<rparr>"

lemma handler_a: "ring_contents (fst (kbd_handler_main kbd0 (key_io 0x1E))) = [0x61]"
  by code_simp


theorem ring_is_fifo_witness:
  "ring_ok kbd0 \<and> fst (fold ring.queue_op [Push 1, Push 2, Pop] ([], kbd0))
     @ ring_contents (snd (fold ring.queue_op [Push 1, Push 2, Pop] ([], kbd0))) = [1, 2]"
  using ring_is_fifo [OF kbd0_ring, of "[Push 1, Push 2, Pop]"] kbd0_ring(1) by simp

end
