(* ===== verification/Editor.thy ===== *)
theory Editor
  imports FsCorrect Keyboard "HOL-Library.Signed_Division"
begin

text \<open>
  The text editor of \<open>fs/ed.c\<close>.  The state is the global \<open>E\<close> with the yank buffer and the file
  system under it.  A row is the list of its characters; the array \<open>E.rows\<close> is the list of rows and
  \<open>E.numrows\<close> its length.  An access to a row or a character that does not exist, and a write past
  the end of a local buffer, are undefined and give \<open>None\<close>.  This is the editor without its storage: the theories
  \<open>EditorRows\<close> to \<open>EditorStore\<close> place the rows in the heap and show that the functions there implement
  those of this theory while the heap has room, which bounds the sizes by 1 MB.  Keys come from \<open>kbd_getchar\<close>: the
  step function takes the key it reads and the one it would read next.  The bytes of a local buffer
  before it is written are the argument \<open>junk\<close>.
\<close>

section \<open>State\<close>

definition MODE_NORMAL :: int where "MODE_NORMAL = 0"
definition MODE_INSERT :: int where "MODE_INSERT = 1"
definition MODE_COMMAND :: int where "MODE_COMMAND = 2"

lemmas mode_defs = MODE_NORMAL_def MODE_INSERT_def MODE_COMMAND_def

record editor =
  cx :: int
  cy :: int
  rowoff :: int
  coloff :: int
  screenrows :: int
  screencols :: int
  dirty :: int
  mode :: int
  rows :: "u8 list list"
  filename :: "u8 list"
  cmdbuf :: "u8 list"
  yank_buf :: "u8 list"
  ed_fs :: fs

definition numrows :: "editor \<Rightarrow> int" where "numrows E = int (length (rows E))"

text \<open>\<open>E.cmdlen\<close> and \<open>yank_len\<close> always are the lengths of their buffers.\<close>

definition cmdlen :: "editor \<Rightarrow> int" where "cmdlen E = int (length (cmdbuf E))"
definition yank_len :: "editor \<Rightarrow> int" where "yank_len E = int (length (yank_buf E))"

definition row_at :: "editor \<Rightarrow> int \<Rightarrow> u8 list option" where
  "row_at E i = (if 0 \<le> i \<and> i < numrows E then Some (rows E ! nat i) else None)"

definition initEditor :: "editor \<Rightarrow> editor" where
  "initEditor E = E\<lparr>cx := 0, cy := 0, rowoff := 0, coloff := 0, dirty := 0, mode := MODE_NORMAL,
     rows := [], filename := [], cmdbuf := []\<rparr>"

section \<open>Rows\<close>

definition editorInsertRow :: "int \<Rightarrow> u8 list \<Rightarrow> editor \<Rightarrow> editor" where
  "editorInsertRow at s E =
     (if at < 0 \<or> numrows E < at then E
      else E\<lparr>rows := take (nat at) (rows E) @ s # drop (nat at) (rows E)\<rparr>)"

definition editorDelRow :: "int \<Rightarrow> editor \<Rightarrow> editor" where
  "editorDelRow at E =
     (if at < 0 \<or> numrows E \<le> at then E
      else E\<lparr>rows := take (nat at) (rows E) @ drop (Suc (nat at)) (rows E), dirty := 1\<rparr>)"

text \<open>The row operations take the index of the row.\<close>

definition editorRowInsertChar :: "int \<Rightarrow> int \<Rightarrow> u8 \<Rightarrow> editor \<Rightarrow> editor option" where
  "editorRowInsertChar i at c E = do {
     row \<leftarrow> row_at E i;
     let at' = (if at < 0 \<or> int (length row) < at then int (length row) else at);
     Some (E\<lparr>rows := (rows E)[nat i := take (nat at') row @ c # drop (nat at') row], dirty := 1\<rparr>)
   }"

definition editorRowDelChar :: "int \<Rightarrow> int \<Rightarrow> editor \<Rightarrow> editor option" where
  "editorRowDelChar i at E = do {
     row \<leftarrow> row_at E i;
     if at < 0 \<or> int (length row) \<le> at then Some E
     else Some (E\<lparr>rows := (rows E)[nat i := take (nat at) row @ drop (Suc (nat at)) row], dirty := 1\<rparr>)
   }"

definition editorRowAppendString :: "int \<Rightarrow> u8 list \<Rightarrow> editor \<Rightarrow> editor option" where
  "editorRowAppendString i s E = do {
     row \<leftarrow> row_at E i;
     Some (E\<lparr>rows := (rows E)[nat i := row @ s], dirty := 1\<rparr>)
   }"

section \<open>Editing\<close>

definition editorInsertChar :: "u8 \<Rightarrow> editor \<Rightarrow> editor option" where
  "editorInsertChar c E = do {
     let E1 = (if cy E = numrows E then editorInsertRow (numrows E) [] E else E);
     E2 \<leftarrow> editorRowInsertChar (cy E1) (cx E1) c E1;
     Some (E2\<lparr>cx := cx E2 + 1, dirty := 1\<rparr>)
   }"

definition editorInsertNewline :: "editor \<Rightarrow> editor option" where
  "editorInsertNewline E = do {
     E' \<leftarrow> (if cx E = 0 then Some (editorInsertRow (cy E) [] E)
            else do {
              row \<leftarrow> row_at E (cy E);
              (if cx E < 0 \<or> int (length row) < cx E then None else Some ());
              let E1 = editorInsertRow (cy E + 1) (drop (nat (cx E)) row) E;
              Some (E1\<lparr>rows := (rows E1)[nat (cy E) := take (nat (cx E)) row]\<rparr>)
            });
     Some (E'\<lparr>cy := cy E' + 1, cx := 0\<rparr>)
   }"

definition editorDelChar :: "editor \<Rightarrow> editor option" where
  "editorDelChar E =
     (if cy E = numrows E then Some E
      else if cx E = 0 \<and> cy E = 0 then Some E
      else if 0 < cx E then do {
        E1 \<leftarrow> editorRowDelChar (cy E) (cx E - 1) E;
        Some (E1\<lparr>cx := cx E1 - 1, dirty := 1\<rparr>)
      } else do {
        prev \<leftarrow> row_at E (cy E - 1);
        row \<leftarrow> row_at E (cy E);
        E1 \<leftarrow> editorRowAppendString (cy E - 1) row (E\<lparr>cx := int (length prev)\<rparr>);
        let E2 = editorDelRow (cy E1) E1;
        Some (E2\<lparr>cy := cy E2 - 1, dirty := 1\<rparr>)
      })"

definition editorYankLine :: "editor \<Rightarrow> editor option" where
  "editorYankLine E =
     (if numrows E \<le> cy E then Some E
      else do { row \<leftarrow> row_at E (cy E); Some (E\<lparr>yank_buf := take (unat BLOCK_SIZE - 1) row\<rparr>) })"

definition editorPasteLine :: "editor \<Rightarrow> editor" where
  "editorPasteLine E =
     (if yank_len E = 0 then E
      else let E1 = editorInsertRow (cy E + 1) (yank_buf E) E in E1\<lparr>cy := cy E1 + 1, cx := 0\<rparr>)"

definition editorDeleteLine :: "editor \<Rightarrow> editor option" where
  "editorDeleteLine E =
     (if numrows E = 0 then Some E
      else do {
        E1 \<leftarrow> editorYankLine E;
        let E2 = editorDelRow (cy E1) E1;
        let E3 = (if numrows E2 \<le> cy E2 \<and> 0 < cy E2 then E2\<lparr>cy := cy E2 - 1\<rparr> else E2);
        Some (E3\<lparr>cx := 0\<rparr>)
      })"

section \<open>Files\<close>

text \<open>The loop of \<open>editorOpen\<close> over \<open>buf[0..len]\<close>: the row so far, and the bytes left, the last of
  which is the terminator.\<close>

fun open_rows :: "u8 list \<Rightarrow> u8 list \<Rightarrow> editor \<Rightarrow> editor" where
  "open_rows row [] E = E"
| "open_rows row (b # bs) E =
     (if b = chr CHR 0x0A \<or> b = 0 then open_rows [] bs (editorInsertRow (numrows E) row E)
      else open_rows (row @ [b]) bs E)"

definition local_buf :: u32 where "local_buf = 0x1000"

definition editorOpen :: "mem \<Rightarrow> u8 list \<Rightarrow> editor \<Rightarrow> editor option" where
  "editorOpen junk name E = do {
     let E0 = E\<lparr>filename := take 63 name\<rparr>;
     let d = fs_disk (ed_fs E);
     entry \<leftarrow> fs_find_file (lit_ptr name) d;
     case entry of
       None \<Rightarrow> Some E0
     | Some e \<Rightarrow>
         if ld32 d (entry_file_size e) = 0 then Some E0
         else do {
           buf \<leftarrow> fs_read_block (ed_fs E) (ld32 d (entry_first_block e)) local_buf junk;
           let len = sint (ld32 d (entry_file_size e));
           let len = (if int (unat BLOCK_SIZE) - 1 < len then int (unat BLOCK_SIZE) - 1 else len);
           (if len < 0 then None else Some ());
           let text = List.map (ptr_at buf (unat local_buf)) [0..<nat len] @ [0];
           Some ((open_rows [] text E0)\<lparr>dirty := 0\<rparr>)
         }
   }"

text \<open>The loop of \<open>editorSave\<close>: the text collected so far.\<close>

fun save_rows :: "u8 list list \<Rightarrow> u8 list \<Rightarrow> u8 list" where
  "save_rows [] buf = buf"
| "save_rows (r # rs) buf =
     (if length buf < unat BLOCK_SIZE - 1 then
        let space = unat BLOCK_SIZE - 1 - length buf;
            buf1 = buf @ take (if length r < space then length r else space) r;
            buf2 = (if length buf1 < unat BLOCK_SIZE - 1 then buf1 @ [chr CHR 0x0A] else buf1)
        in save_rows rs buf2
      else buf)"

definition editorSave :: "mem \<Rightarrow> editor \<Rightarrow> editor option" where
  "editorSave junk E =
     (if filename E = [] then Some E
      else do {
        let text = save_rows (rows E) [];
        let ram = (\<lambda>x. if unat local_buf \<le> x \<and> x < unat local_buf + length text
                       then text ! (x - unat local_buf)
                       else if x = unat local_buf + length text then 0 else junk x);
        e0 \<leftarrow> fs_find_file (lit_ptr (filename E)) (fs_disk (ed_fs E));
        st \<leftarrow> (if e0 = None then do { (r, st) \<leftarrow> fs_create_file (lit_ptr (filename E)) (ed_fs E); Some st }
               else Some (ed_fs E));
        entry \<leftarrow> fs_find_file (lit_ptr (filename E)) (fs_disk st);
        case entry of
          None \<Rightarrow> Some (E\<lparr>ed_fs := st\<rparr>)
        | Some e \<Rightarrow> do {
            st1 \<leftarrow> fs_write_block ram (ld32 (fs_disk st) (entry_first_block e)) local_buf st;
            let st2 = st1\<lparr>fs_disk := st32 (fs_disk st1) (entry_file_size e) (of_nat (length text))\<rparr>;
            Some (E\<lparr>ed_fs := st2, dirty := 0\<rparr>)
          }
      })"

section \<open>Drawing\<close>

definition editorScroll :: "editor \<Rightarrow> editor" where
  "editorScroll E =
     (let E1 = (if cy E < rowoff E then E\<lparr>rowoff := cy E\<rparr> else E);
          E2 = (if rowoff E1 + screenrows E1 \<le> cy E1 then E1\<lparr>rowoff := cy E1 - screenrows E1 + 1\<rparr> else E1);
          E3 = (if cx E2 < coloff E2 then E2\<lparr>coloff := cx E2\<rparr> else E2)
      in if coloff E3 + screencols E3 \<le> cx E3 then E3\<lparr>coloff := cx E3 - screencols E3 + 1\<rparr> else E3)"

text \<open>\<open>for (int p = from; p < to; p++) kvga_write_char(row, p, f(p), attr);\<close>\<close>

fun draw_cells :: "int \<Rightarrow> int \<Rightarrow> nat \<Rightarrow> (int \<Rightarrow> u8) \<Rightarrow> u8 \<Rightarrow> console \<Rightarrow> console" where
  "draw_cells row p 0 f attr c = c"
| "draw_cells row p (Suc n) f attr c =
     draw_cells row (p + 1) n f attr (kvga_write_char (of_int row) (of_int p) (f p) attr c)"

definition SHED_VERSION :: "u8 list" where "SHED_VERSION = lit ''0.0.1''"

definition draw_welcome :: "editor \<Rightarrow> int \<Rightarrow> console \<Rightarrow> console option" where
  "draw_welcome E y c = do {
     welcome \<leftarrow> ksprintf (lit ''Shed v%s  --  i=insert  :w=save  :q=quit'') [AStr (lit_ptr SHED_VERSION)];
     (if 80 \<le> length welcome then None else Some ());
     let wlen = (if screencols E < int (length welcome) then screencols E else int (length welcome));
     let pad = (screencols E - wlen) sdiv 2;
     let c1 = kvga_write_char (of_int y) 0 (chr CHR ''~'') 0x07 c;
     let c2 = draw_cells y 1 (nat (pad - 1)) (\<lambda>p. chr CHR '' '') 0x07 c1;
     let c3 = kvga_set_cursor (of_int y) (of_int pad) c2;
     c4 \<leftarrow> kprintf (lit ''%.*s'') [AInt (of_int wlen), AStr (lit_ptr welcome)] c3;
     kvga_clear_to_eol (of_int y) (of_int (pad + wlen)) c4
   }"

text \<open>\<open>&row->chars[start]\<close> may point at the terminator but not past it.\<close>

definition draw_row :: "editor \<Rightarrow> u8 list \<Rightarrow> int \<Rightarrow> console \<Rightarrow> console option" where
  "draw_row E row y c = do {
     let start = coloff E;
     let len = int (length row) - start;
     let len = (if len < 0 then 0 else len);
     let len = (if screencols E < len then screencols E else len);
     (if start < 0 \<or> int (length row) < start then None else Some ());
     c1 \<leftarrow> kprintf (lit ''%.*s'') [AInt (of_int len), AStr (lit_ptr (drop (nat start) row))] c;
     kvga_clear_to_eol (of_int y) (of_int len) c1
   }"

fun draw_rows :: "editor \<Rightarrow> int \<Rightarrow> nat \<Rightarrow> console \<Rightarrow> console option" where
  "draw_rows E y 0 c = Some c"
| "draw_rows E y (Suc n) c = do {
     let filerow = y + rowoff E;
     let c0 = kvga_set_cursor (of_int y) 0 c;
     c1 \<leftarrow> (if numrows E \<le> filerow then
               if numrows E = 0 \<and> y = screenrows E sdiv 3 then draw_welcome E y c0
               else kvga_clear_to_eol (of_int y) 1 (kvga_write_char (of_int y) 0 (chr CHR ''~'') 0x07 c0)
             else do { row \<leftarrow> row_at E filerow; draw_row E row y c0 });
     draw_rows E (y + 1) n c1
   }"

definition editorDrawRows :: "editor \<Rightarrow> console \<Rightarrow> console option" where
  "editorDrawRows E c = draw_rows E 0 (nat (screenrows E)) c"

definition editorDrawStatusBar :: "editor \<Rightarrow> console \<Rightarrow> console option" where
  "editorDrawStatusBar E c = do {
     let mode_str = (if mode E = MODE_COMMAND then lit ''COMMAND''
                     else if mode E = MODE_INSERT then lit ''INSERT'' else lit ''NORMAL'');
     status \<leftarrow> ksprintf (lit '' %s | %.20s %s'')
       [AStr (lit_ptr mode_str),
        AStr (lit_ptr (if filename E \<noteq> [] then filename E else lit ''[No Name]'')),
        AStr (lit_ptr (if 0 < dirty E then lit ''[+]'' else []))];
     (if 80 \<le> length status then None else Some ());
     let len = (if screencols E < int (length status) then screencols E else int (length status));
     let c1 = draw_cells (screenrows E) 0 (nat len) (\<lambda>i. status ! nat i) 0x70 c;
     let c2 = draw_cells (screenrows E) len (nat (screencols E - len)) (\<lambda>i. chr CHR '' '') 0x70 c1;
     let cmdrow = screenrows E + 1;
     let c3 = kvga_set_cursor (of_int cmdrow) 0 c2;
     (if mode E = MODE_COMMAND then do {
        c4 \<leftarrow> kprintf (lit '':%.*s'') [AInt (of_int (cmdlen E)), AStr (lit_ptr (cmdbuf E))] c3;
        kvga_clear_to_eol (of_int cmdrow) (of_int (cmdlen E + 1)) c4
      } else kvga_clear_to_eol (of_int cmdrow) 0 c3)
   }"

definition editorRefreshScreen :: "editor \<Rightarrow> editor option" where
  "editorRefreshScreen E = do {
     let E1 = editorScroll E;
     c1 \<leftarrow> editorDrawRows E1 (fs_console (ed_fs E1));
     c2 \<leftarrow> editorDrawStatusBar E1 c1;
     let c3 = (if mode E1 = MODE_COMMAND
               then kvga_set_cursor (of_int (screenrows E1 + 1)) (of_int (cmdlen E1 + 1)) c2
               else kvga_set_cursor (of_int (cy E1 - rowoff E1)) (of_int (cx E1 - coloff E1)) c2);
     Some (E1\<lparr>ed_fs := (ed_fs E1)\<lparr>fs_console := c3\<rparr>\<rparr>)
   }"

section \<open>Keys\<close>

abbreviation key :: "char \<Rightarrow> u32" where
  "key c \<equiv> ucast (chr c)"

text \<open>The \<open>switch\<close> of \<open>editorMoveCursor\<close>, before the cursor is cut to the row.\<close>

definition move_key :: "u32 \<Rightarrow> editor \<Rightarrow> editor option" where
  "move_key k E =
     (if k = key CHR ''h'' \<or> k = ARROW_LEFT then
        if 0 < cx E then Some (E\<lparr>cx := cx E - 1\<rparr>)
        else if 0 < cy E then do {
          prev \<leftarrow> row_at E (cy E - 1);
          Some (E\<lparr>cy := cy E - 1, cx := int (length prev)\<rparr>)
        } else Some E
      else if k = key CHR ''l'' \<or> k = ARROW_RIGHT then
        Some (case row_at E (cy E) of
            Some r \<Rightarrow> if cx E < int (length r) then E\<lparr>cx := cx E + 1\<rparr> else E
          | None \<Rightarrow> E)
      else if k = key CHR ''k'' \<or> k = ARROW_UP then
        Some (if 0 < cy E then E\<lparr>cy := cy E - 1\<rparr> else E)
      else if k = key CHR ''j'' \<or> k = ARROW_DOWN then
        Some (if cy E < numrows E - 1 then E\<lparr>cy := cy E + 1\<rparr> else E)
      else Some E)"

definition editorMoveCursor :: "u32 \<Rightarrow> editor \<Rightarrow> editor option" where
  "editorMoveCursor k E = do {
     E1 \<leftarrow> move_key k E;
     let rowlen = (case row_at E1 (cy E1) of Some r \<Rightarrow> int (length r) | None \<Rightarrow> 0);
     Some (if rowlen < cx E1 then E1\<lparr>cx := rowlen\<rparr> else E1)
   }"

text \<open>\<open>-1\<close> asks to leave the editor.  The messages are built in arrays of 80 bytes.\<close>

definition editorExecCommand :: "mem \<Rightarrow> editor \<Rightarrow> (int \<times> editor) option" where
  "editorExecCommand junk E =
     (if cmdbuf E = lit ''q'' then
        if 0 < dirty E then Some (0, E\<lparr>cmdbuf := lit ''No write since last change (use :q!)''\<rparr>)
        else Some (-1, E)
      else if cmdbuf E = lit ''q!'' then Some (-1, E)
      else if cmdbuf E = lit ''w'' then do { E1 \<leftarrow> editorSave junk E; Some (0, E1) }
      else if cmdbuf E = lit ''wq'' then do { E1 \<leftarrow> editorSave junk E; Some (-1, E1) }
      else do {
        tmp \<leftarrow> ksprintf (lit ''Not an editor command: %s'') [AStr (lit_ptr (cmdbuf E))];
        (if 80 \<le> length tmp then None else Some ());
        Some (0, E\<lparr>cmdbuf := take 79 tmp\<rparr>)
      })"

definition insert_key :: "u32 \<Rightarrow> editor \<Rightarrow> editor option" where
  "insert_key c E =
     (if c = 0x1b then Some (let E1 = E\<lparr>mode := MODE_NORMAL\<rparr> in if 0 < cx E1 then E1\<lparr>cx := cx E1 - 1\<rparr> else E1)
      else if c = 0x0A then do { E1 \<leftarrow> editorInsertNewline E; Some (E1\<lparr>dirty := 1\<rparr>) }
      else if c = 8 \<or> c = 127 then editorDelChar E
      else if 32 \<le> c \<and> c < 127 then editorInsertChar (ucast c) E
      else Some E)"

definition command_key :: "mem \<Rightarrow> u32 \<Rightarrow> editor \<Rightarrow> editor option" where
  "command_key junk c E =
     (if c = 0x1b then Some (E\<lparr>mode := MODE_NORMAL, cmdbuf := []\<rparr>)
      else if c = 0x0A then do {
        (result, E1) \<leftarrow> editorExecCommand junk E;
        Some (if result = -1 then E1\<lparr>dirty := -9999\<rparr> else E1\<lparr>mode := MODE_NORMAL\<rparr>)
      }
      else if c = 8 \<or> c = 127 then Some (E\<lparr>cmdbuf := butlast (cmdbuf E)\<rparr>)
      else if 32 \<le> c \<and> c < 127 \<and> cmdlen E < 78 then Some (E\<lparr>cmdbuf := cmdbuf E @ [ucast c]\<rparr>)
      else Some E)"

definition normal_key :: "u32 \<Rightarrow> u32 \<Rightarrow> editor \<Rightarrow> editor option" where
  "normal_key c next_key E =
     (if c \<in> {key CHR ''h'', key CHR ''j'', key CHR ''k'', key CHR ''l'', ARROW_UP, ARROW_DOWN, ARROW_LEFT, ARROW_RIGHT}
      then editorMoveCursor c E
      else if c = key CHR ''i'' then Some (E\<lparr>mode := MODE_INSERT\<rparr>)
      else if c = key CHR ''a'' then
        Some (let E1 = E\<lparr>mode := MODE_INSERT\<rparr>
              in case row_at E1 (cy E1) of
                   Some r \<Rightarrow> if cx E1 < int (length r) then E1\<lparr>cx := cx E1 + 1\<rparr> else E1
                 | None \<Rightarrow> E1)
      else if c = key CHR ''o'' then do {
        let E1 = (case row_at E (cy E) of Some r \<Rightarrow> E\<lparr>cx := int (length r)\<rparr> | None \<Rightarrow> E);
        E2 \<leftarrow> editorInsertNewline E1;
        Some (E2\<lparr>mode := MODE_INSERT\<rparr>)
      }
      else if c = key CHR ''O'' then
        Some ((editorInsertRow (cy E) [] (E\<lparr>cx := 0\<rparr>))\<lparr>mode := MODE_INSERT\<rparr>)
      else if c = key CHR ''x'' then
        (case row_at E (cy E) of
           None \<Rightarrow> Some E
         | Some r \<Rightarrow>
             if cx E < int (length r) then do {
               E1 \<leftarrow> editorRowDelChar (cy E) (cx E) E;
               r1 \<leftarrow> row_at E1 (cy E1);
               Some (if int (length r1) \<le> cx E1 \<and> 0 < cx E1 then E1\<lparr>cx := cx E1 - 1\<rparr> else E1)
             } else Some E)
      else if c = key CHR ''d'' then (if next_key = key CHR ''d'' then editorDeleteLine E else Some E)
      else if c = key CHR ''y'' then (if next_key = key CHR ''y'' then editorYankLine E else Some E)
      else if c = key CHR ''p'' then Some (editorPasteLine E)
      else if c = key CHR '':'' then Some (E\<lparr>mode := MODE_COMMAND, cmdbuf := []\<rparr>)
      else Some E)"

definition editorProcessKeypress :: "mem \<Rightarrow> u32 \<Rightarrow> u32 \<Rightarrow> editor \<Rightarrow> editor option" where
  "editorProcessKeypress junk c next_key E =
     (if mode E = MODE_INSERT then insert_key c E
      else if mode E = MODE_COMMAND then command_key junk c E
      else normal_key c next_key E)"

text \<open>\<open>editorRun\<close>: what precedes the loop, and one iteration; the flag says that the loop ends.\<close>

definition editor_start :: "mem \<Rightarrow> u8 list \<Rightarrow> editor \<Rightarrow> editor option" where
  "editor_start junk name E =
     editorOpen junk name ((initEditor E)\<lparr>screenrows := int (unat LINES) - 2, screencols := int (unat COLUMNS_IN_LINE)\<rparr>)"

definition editor_iteration :: "mem \<Rightarrow> u32 \<Rightarrow> u32 \<Rightarrow> editor \<Rightarrow> (bool \<times> editor) option" where
  "editor_iteration junk c next_key E = do {
     E1 \<leftarrow> editorRefreshScreen E;
     E2 \<leftarrow> editorProcessKeypress junk c next_key E1;
     Some (if dirty E2 = -9999
           then (True, E2\<lparr>ed_fs := (ed_fs E2)\<lparr>fs_console := clear_screen (fs_console (ed_fs E2))\<rparr>\<rparr>)
           else (False, E2))
   }"

section \<open>The cursor\<close>

text \<open>The cursor is on a row or just below the last one, and not past the end of its row.\<close>

definition row_size :: "editor \<Rightarrow> int \<Rightarrow> int" where
  "row_size E i = (case row_at E i of Some r \<Rightarrow> int (length r) | None \<Rightarrow> 0)"

definition cursor_ok :: "editor \<Rightarrow> bool" where
  "cursor_ok E \<longleftrightarrow> 0 \<le> cy E \<and> cy E \<le> numrows E \<and> 0 \<le> cx E \<and> cx E \<le> row_size E (cy E)"

lemma row_at_simps:
  "row_at E i = None \<longleftrightarrow> i < 0 \<or> numrows E \<le> i"
  "row_at E i = Some r \<longleftrightarrow> 0 \<le> i \<and> i < numrows E \<and> r = rows E ! nat i"
  by (auto simp: row_at_def)

lemma row_size_if: "row_size E i = (if 0 \<le> i \<and> i < numrows E then int (length (rows E ! nat i)) else 0)"
  by (simp add: row_size_def row_at_def)

lemmas cursor_defs = cursor_ok_def row_size_if numrows_def

lemma insert_newline_ok:
  assumes "cursor_ok E"
  shows "\<exists>E'. editorInsertNewline E = Some E' \<and> cursor_ok E' \<and> cmdbuf E' = cmdbuf E \<and> mode E' = mode E \<and> ed_fs E' = ed_fs E \<and> filename E' = filename E"
proof (cases "cx E = 0")
  case True
  then show ?thesis using assms
    by (auto simp: editorInsertNewline_def editorInsertRow_def cursor_defs)
next
  case False
  then have b: "0 \<le> cy E" "cy E < numrows E" "0 < cx E" "cx E \<le> int (length (rows E ! nat (cy E)))"
    using assms by (auto simp: cursor_defs split: if_splits)
  then have "row_at E (cy E) = Some (rows E ! nat (cy E))" by (simp add: row_at_simps)
  then show ?thesis using b
    by (auto simp: editorInsertNewline_def editorInsertRow_def cursor_defs)
qed

lemma del_char_ok:
  assumes "cursor_ok E"
  shows "\<exists>E'. editorDelChar E = Some E' \<and> cursor_ok E' \<and> cmdbuf E' = cmdbuf E \<and> mode E' = mode E \<and> ed_fs E' = ed_fs E \<and> filename E' = filename E"
proof -
  consider "cy E = numrows E" | "cx E = 0" "cy E = 0" | "cy E < numrows E" "0 < cx E"
    | "0 < cy E" "cy E < numrows E" "cx E = 0"
    using assms unfolding cursor_ok_def by linarith
  then show ?thesis
  proof cases
    case 3
    then have "row_at E (cy E) = Some (rows E ! nat (cy E))" "cx E \<le> int (length (rows E ! nat (cy E)))"
      using assms by (auto simp: row_at_simps cursor_defs)
    then show ?thesis using 3 assms
      by (auto simp: editorDelChar_def editorRowDelChar_def cursor_defs)
  next
    case 4
    then have "row_at E (cy E) = Some (rows E ! nat (cy E))" "row_at E (cy E - 1) = Some (rows E ! nat (cy E - 1))"
      by (auto simp: row_at_simps)
    then show ?thesis using 4
      by (auto simp: editorDelChar_def editorRowAppendString_def editorDelRow_def row_at_def cursor_defs
          nth_append nat_diff_distrib)
  qed (use assms in \<open>auto simp: editorDelChar_def\<close>)
qed

lemma insert_char_ok:
  assumes "cursor_ok E"
  shows "\<exists>E'. editorInsertChar c E = Some E' \<and> cursor_ok E' \<and> cmdbuf E' = cmdbuf E \<and> mode E' = mode E \<and> ed_fs E' = ed_fs E \<and> filename E' = filename E"
proof (cases "cy E = numrows E")
  case True
  then have "cx E = 0" using assms by (auto simp: cursor_defs)
  then show ?thesis using True
    by (auto simp: editorInsertChar_def editorInsertRow_def editorRowInsertChar_def row_at_def cursor_defs nth_append)
next
  case False
  then have b: "0 \<le> cy E" "cy E < numrows E" "0 \<le> cx E" "cx E \<le> int (length (rows E ! nat (cy E)))"
    using assms by (auto simp: cursor_defs split: if_splits)
  then show ?thesis using False
    by (auto simp: editorInsertChar_def editorRowInsertChar_def row_at_def cursor_defs nat_less_iff Let_def)
qed

lemma yank_ok: "cursor_ok E \<Longrightarrow> \<exists>y. editorYankLine E = Some (E\<lparr>yank_buf := y\<rparr>)"
  by (cases "numrows E \<le> cy E") (auto simp: editorYankLine_def row_at_def cursor_ok_def intro: exI [of _ "yank_buf E"])

lemma delete_line_ok:
  assumes "cursor_ok E"
  shows "\<exists>E'. editorDeleteLine E = Some E' \<and> cursor_ok E' \<and> cmdbuf E' = cmdbuf E \<and> mode E' = mode E \<and> ed_fs E' = ed_fs E \<and> filename E' = filename E"
proof -
  obtain y where "editorYankLine E = Some (E\<lparr>yank_buf := y\<rparr>)" using yank_ok [OF assms] by blast
  then show ?thesis using assms
    by (auto simp: editorDeleteLine_def editorDelRow_def cursor_defs Let_def)
qed

lemma move_key_ok:
  assumes "cursor_ok E"
  shows "\<exists>E1. move_key k E = Some E1 \<and> 0 \<le> cy E1 \<and> cy E1 \<le> numrows E1 \<and> 0 \<le> cx E1
      \<and> cmdbuf E1 = cmdbuf E \<and> mode E1 = mode E \<and> ed_fs E1 = ed_fs E \<and> filename E1 = filename E \<and> rows E1 = rows E"
proof -
  have b: "0 \<le> cy E" "cy E \<le> numrows E" "0 \<le> cx E" using assms by (simp_all add: cursor_ok_def)
  have prev: "\<exists>p. row_at E (cy E - 1) = Some p" if "0 < cy E"
    using b that by (auto simp: row_at_def)
  let ?ok = "\<lambda>E1. 0 \<le> cy E1 \<and> cy E1 \<le> numrows E1 \<and> 0 \<le> cx E1
      \<and> cmdbuf E1 = cmdbuf E \<and> mode E1 = mode E \<and> ed_fs E1 = ed_fs E \<and> filename E1 = filename E \<and> rows E1 = rows E"
  have right: "?ok (case row_at E (cy E) of Some r \<Rightarrow> if cx E < int (length r) then E\<lparr>cx := cx E + 1\<rparr> else E | None \<Rightarrow> E)"
    using b by (simp add: numrows_def split: option.split)
  have vert: "?ok (if 0 < cy E then E\<lparr>cy := cy E - 1\<rparr> else E)"
    "?ok (if cy E < numrows E - 1 then E\<lparr>cy := cy E + 1\<rparr> else E)"
    using b by (simp_all add: numrows_def)
  have left: "\<exists>E1. (if 0 < cx E then Some (E\<lparr>cx := cx E - 1\<rparr>)
        else if 0 < cy E then do { p \<leftarrow> row_at E (cy E - 1); Some (E\<lparr>cy := cy E - 1, cx := int (length p)\<rparr>) }
        else Some E) = Some E1 \<and> ?ok E1"
    using b prev by (auto simp: numrows_def)
  show ?thesis
    unfolding move_key_def
    by (rule some_if, rule left, rule some_if, rule some_Some, rule right, rule some_if, rule some_Some,
        rule vert(1), rule some_if, rule some_Some, rule vert(2), rule some_Some) (use b in simp)
qed

lemma move_cursor_ok:
  assumes "cursor_ok E"
  shows "\<exists>E'. editorMoveCursor k E = Some E' \<and> cursor_ok E' \<and> cmdbuf E' = cmdbuf E \<and> mode E' = mode E \<and> ed_fs E' = ed_fs E \<and> filename E' = filename E
    \<and> rows E' = rows E"
proof -
  obtain E1 where E1: "move_key k E = Some E1" "0 \<le> cy E1" "cy E1 \<le> numrows E1" "0 \<le> cx E1"
    "cmdbuf E1 = cmdbuf E" "mode E1 = mode E" "ed_fs E1 = ed_fs E" "filename E1 = filename E" "rows E1 = rows E"
    using move_key_ok [OF assms] by blast
  then show ?thesis by (auto simp: editorMoveCursor_def cursor_ok_def row_size_def numrows_def row_at_def Let_def)
qed

section \<open>Saving\<close>

definition file_text :: "u8 list list \<Rightarrow> u8 list" where
  "file_text rs = concat (List.map (\<lambda>r. r @ [chr CHR 0x0A]) rs)"

lemma take_take_append: "take n (take n xs @ ys) = take n (xs @ ys)"
  by (cases "length xs \<le> n") simp_all

lemma save_rows_text:
  "length buf \<le> 4095 \<Longrightarrow> save_rows rs buf = take 4095 (buf @ file_text rs)"
proof (induction rs arbitrary: buf)
  case Nil
  then show ?case by (simp add: file_text_def)
next
  case (Cons r rs)
  have nl: "file_text (r # rs) = r @ chr CHR 0x0A # file_text rs" by (simp add: file_text_def)
  show ?case
  proof (cases "length buf < 4095")
    case True
    let ?b1 = "buf @ take (4095 - length buf) r"
    have b1: "?b1 = take 4095 (buf @ r)" using True by simp
    have m: "take (if length r < 4095 - length buf then length r else 4095 - length buf) r = take (4095 - length buf) r"
      by simp
    let ?b2 = "if length ?b1 < 4095 then ?b1 @ [chr CHR 0x0A] else ?b1"
    have b2: "?b2 = take 4095 (buf @ r @ [chr CHR 0x0A])" using True by (auto simp: not_less)
    have "save_rows (r # rs) buf = save_rows rs ?b2" using True m by (auto simp: BLOCK_SIZE_def Let_def)
    also have "\<dots> = take 4095 (?b2 @ file_text rs)" by (rule Cons.IH) (use True in auto)
    also have "\<dots> = take 4095 ((buf @ r @ [chr CHR 0x0A]) @ file_text rs)" unfolding b2 by (rule take_take_append)
    finally show ?thesis by (simp add: nl)
  next
    case False
    then show ?thesis using Cons.prems by (simp add: BLOCK_SIZE_def)
  qed
qed

text \<open>What saving keeps true: the file system is well formed and the name is a string.\<close>

definition editor_ok :: "editor \<Rightarrow> bool" where
  "editor_ok E \<longleftrightarrow> cursor_ok E \<and> (\<exists>dir. fs_rep (fs_disk (ed_fs E)) dir)
     \<and> 0 \<notin> set (filename E) \<and> 0 \<notin> set (cmdbuf E) \<and> length (cmdbuf E) \<le> 79"

lemma save_buffer_bytes:
  assumes "length text \<le> 4095" and "k < length text"
  shows "ram_block (\<lambda>x. if unat local_buf \<le> x \<and> x < unat local_buf + length text
      then text ! (x - unat local_buf) else if x = unat local_buf + length text then 0 else junk x) (unat local_buf) ! k
    = text ! k"
  using assms by (simp add: ram_block_nth)

lemma set_file_size:
  assumes "fs_rep d dir" and "dir_find s dir = Some e" and "d' = st32 d (entry_file_size e) n"
  shows "\<exists>f. dir ! e = Some f \<and> e < 64 \<and> fs_rep d' (dir[e := Some (f\<lparr>esize := n\<rparr>)])"
  using dir_found [OF assms(1,2)] set_size_rep [OF assms(1)] assms(3) by metis

lemma save_spec:
  assumes rep: "fs_rep (fs_disk (ed_fs E)) dir" and name: "0 \<notin> set (filename E)"
  shows "\<exists>E' st d. editorSave junk E = Some (E'\<lparr>ed_fs := st\<rparr>) \<and> (E' = E \<or> E' = E\<lparr>dirty := 0\<rparr>)
    \<and> fs_rep (fs_disk st) d
    \<and> (\<forall>e. filename E \<noteq> [] \<and> dir_find (filename E) dir = Some e \<longrightarrow>
         (\<exists>f. dir ! e = Some f \<and> d = dir[e := Some (f\<lparr>esize := of_nat (length (take 4095 (file_text (rows E))))\<rparr>)]
            \<and> (\<forall>k < length (take 4095 (file_text (rows E))).
                 disk_read (fs_disk st) (eblock f) ! k = take 4095 (file_text (rows E)) ! k)))"
proof (cases "filename E = []")
  case True
  have "E = E\<lparr>ed_fs := ed_fs E\<rparr>" by simp
  then show ?thesis using True rep by (metis editorSave_def)
next
  case False
  let ?n = "lit_ptr (filename E)"
  let ?t = "take 4095 (file_text (rows E))"
  have cs: "cstr ?n (filename E)" using name by (rule cstr_lit)
  have tx: "save_rows (rows E) [] = ?t" by (simp add: save_rows_text)
  let ?ram = "\<lambda>x. if unat local_buf \<le> x \<and> x < unat local_buf + length ?t
      then ?t ! (x - unat local_buf) else if x = unat local_buf + length ?t then 0 else junk x"
  note found = fs_find_spec [OF rep cs]
  have "\<exists>st d1. (if dir_find (filename E) dir = None then do { (r, st) \<leftarrow> fs_create_file ?n (ed_fs E); Some st }
      else Some (ed_fs E)) = Some st \<and> fs_rep (fs_disk st) d1 \<and> (dir_find (filename E) dir \<noteq> None \<longrightarrow> st = ed_fs E \<and> d1 = dir)"
    using create_file_spec [OF rep cs] rep by (cases "dir_find (filename E) dir") auto
  then obtain st d1 where st: "(if dir_find (filename E) dir = None then do { (r, st) \<leftarrow> fs_create_file ?n (ed_fs E); Some st }
      else Some (ed_fs E)) = Some st" "fs_rep (fs_disk st) d1"
    "dir_find (filename E) dir \<noteq> None \<longrightarrow> st = ed_fs E \<and> d1 = dir" by blast
  note found1 = fs_find_spec [OF st(2) cs]
  show ?thesis
  proof (cases "dir_find (filename E) d1")
    case None
    then have "editorSave junk E = Some (E\<lparr>ed_fs := st\<rparr>)"
      using False found st(1) found1 by (simp add: editorSave_def Let_def)
    moreover have "dir_find (filename E) dir = None" using None st(3) by auto
    ultimately show ?thesis using st(2) by (metis option.distinct(1))
  next
    case (Some e)
    obtain f where f: "e < 64" "d1 ! e = Some f" using dir_found [OF st(2) Some] by blast
    note entry = fs_rep_entry [OF st(2) f]
    have nz: "local_buf \<noteq> 0" by (simp add: local_buf_def)
    obtain c where w: "fs_write_block ?ram (of_nat (eblock f)) local_buf st = Some (st\<lparr>fs_console := c,
        fs_disk := disk_write (fs_disk st) (eblock f) (ram_block ?ram (unat local_buf))\<rparr>)"
      using write_block_cases [of "eblock f" ?ram local_buf st] entry(4) nz by auto
    let ?d = "disk_write (fs_disk st) (eblock f) (ram_block ?ram (unat local_buf))"
    let ?st2 = "st\<lparr>fs_console := c, fs_disk := st32 ?d (entry_file_size e) (of_nat (length ?t))\<rparr>"
    have "editorSave junk E = Some (E\<lparr>ed_fs := ?st2, dirty := 0\<rparr>)"
      using False found st(1) found1 Some w entry(1)
      by (simp add: editorSave_def Let_def tx del: take_append)
    moreover have "fs_rep ?d d1" using st(2) by (rule fs_rep_agree) (use entry(3) in \<open>simp add: disk_write_meta\<close>)
    then have "fs_rep (fs_disk ?st2) (d1[e := Some (f\<lparr>esize := of_nat (length ?t)\<rparr>)])"
      using set_size_rep f by simp
    moreover have "disk_read (fs_disk ?st2) (eblock f) ! k = ?t ! k" if k: "k < length ?t" for k
    proof -
      have "disk_read (fs_disk ?st2) (eblock f) ! k = ?d (4096 * eblock f + k)"
        using k f(1) entry(3) by (simp add: disk_read_nth layout_simps st32_other)
      also have "\<dots> = ram_block ?ram (unat local_buf) ! k"
        using k entry(4) by (simp add: disk_write_apply lit_ptr_def)
      also have "\<dots> = ?t ! k" using k by (intro save_buffer_bytes) simp_all
      finally show ?thesis .
    qed
    ultimately show ?thesis using st(3) Some f(2)
      by (intro exI [of _ "E\<lparr>dirty := 0\<rparr>"] exI [of _ ?st2] exI [of _ "d1[e := Some (f\<lparr>esize := of_nat (length ?t)\<rparr>)]"]) auto
  qed
qed

section \<open>Keys\<close>

lemma ksprintf_plain:
  "chr CHR ''%'' \<notin> set f \<Longrightarrow> ksprintf_loop (f @ g) args out = ksprintf_loop g args (out @ f)"
proof (induction f arbitrary: out)
  case (Cons b f)
  then show ?case by (cases "b = chr CHR 0x0A") auto
qed simp

lemma command_message:
  assumes "cstr p s"
  shows "ksprintf (lit ''Not an editor command: %s'') [AStr p] = Some (lit ''Not an editor command: '' @ s)"
proof -
  have split: "lit ''Not an editor command: %s'' = lit ''Not an editor command: '' @ lit ''%s''" by simp
  have plain: "chr CHR ''%'' \<notin> set (lit ''Not an editor command: '')" by code_simp
  have "ksprintf_loop (lit ''%s'') [AStr p] out = Some (out @ s)" for out
    using assms copy_str_cstr [of p 0 s out]
    by (simp add: newline_chr parse_precision_def ksprintf_conv_def fmt_chars)
  then show ?thesis unfolding ksprintf_def split ksprintf_plain [OF plain] by simp
qed

lemma lits_no_nul:
  "0 \<notin> set (lit ''No write since last change (use :q!)'')" "0 \<notin> set (lit ''Not an editor command: '')"
  by (code_simp, code_simp)

lemma exec_command_ok:
  assumes "editor_ok E" and "length (cmdbuf E) \<le> 56"
  shows "\<exists>r E'. editorExecCommand junk E = Some (r, E') \<and> editor_ok E'"
proof -
  obtain dir where rep: "fs_rep (fs_disk (ed_fs E)) dir" using assms(1) by (auto simp: editor_ok_def)
  have name: "0 \<notin> set (filename E)" and cmd: "0 \<notin> set (cmdbuf E)" using assms(1) by (auto simp: editor_ok_def)
  have save: "\<exists>E'. editorSave junk E = Some E' \<and> editor_ok E'"
  proof -
    obtain E' st d where s: "editorSave junk E = Some (E'\<lparr>ed_fs := st\<rparr>)" "E' = E \<or> E' = E\<lparr>dirty := 0\<rparr>" "fs_rep (fs_disk st) d"
      using save_spec [OF rep name, of junk] by blast
    have "cursor_ok (E'\<lparr>ed_fs := st\<rparr>) = cursor_ok E" using s(2) by (auto simp: cursor_defs)
    then show ?thesis using s assms(1) by (auto simp: editor_ok_def)
  qed
  have ok: "editor_ok (E\<lparr>cmdbuf := b\<rparr>)" if "0 \<notin> set b" "length b \<le> 79" for b
    using assms(1) that by (auto simp: editor_ok_def cursor_defs)
  let ?m = "lit ''Not an editor command: '' @ cmdbuf E"
  have msg: "ksprintf (lit ''Not an editor command: %s'') [AStr (lit_ptr (cmdbuf E))] = Some ?m"
    by (rule command_message) (rule cstr_lit [OF cmd])
  have "0 \<notin> set (take 79 ?m)" using lits_no_nul(2) cmd set_take_subset [of 79 ?m] by auto
  then have bad: "editor_ok (E\<lparr>cmdbuf := take 79 ?m\<rparr>)" by (rule ok) simp
  have q: "editor_ok (E\<lparr>cmdbuf := lit ''No write since last change (use :q!)''\<rparr>)"
    by (rule ok [OF lits_no_nul(1)]) simp
  have len: "\<not> 80 \<le> length ?m" using assms(2) by simp
  have last: "\<exists>r E'. (do { tmp \<leftarrow> ksprintf (lit ''Not an editor command: %s'') [AStr (lit_ptr (cmdbuf E))];
        (if 80 \<le> length tmp then None else Some ()); Some (0, E\<lparr>cmdbuf := take 79 tmp\<rparr>) }) = Some (r, E') \<and> editor_ok E'"
    unfolding msg using bad len by simp
  obtain E1 where E1: "editorSave junk E = Some E1" "editor_ok E1" using save by blast
  show ?thesis
    unfolding editorExecCommand_def E1(1)
    using last q E1(2) assms(1) by (simp only: bind.bind_lunit split: if_split) blast
qed

lemma editor_ok_keep:
  assumes "editor_ok E" and "cursor_ok E'" and "cmdbuf E' = cmdbuf E" and "ed_fs E' = ed_fs E"
    and "filename E' = filename E"
  shows "editor_ok E'"
  using assms by (simp add: editor_ok_def)

lemma editor_ok_fields:
  "editor_ok (E\<lparr>mode := m\<rparr>) = editor_ok E" "editor_ok (E\<lparr>dirty := n\<rparr>) = editor_ok E"
  "cursor_ok (E\<lparr>mode := m\<rparr>) = cursor_ok E" "cursor_ok (E\<lparr>dirty := n\<rparr>) = cursor_ok E"
  "cursor_ok (E\<lparr>cmdbuf := b\<rparr>) = cursor_ok E" "cursor_ok (E\<lparr>yank_buf := y\<rparr>) = cursor_ok E"
  by (simp_all add: editor_ok_def cursor_defs)

lemma editor_ok_cx:
  assumes "editor_ok E" and "0 \<le> i" and "i \<le> row_size E (cy E)"
  shows "editor_ok (E\<lparr>cx := i\<rparr>)"
  using assms by (auto simp: editor_ok_def cursor_defs)

lemma insert_key_ok:
  assumes "editor_ok E"
  shows "\<exists>E'. insert_key c E = Some E' \<and> editor_ok E'"
proof -
  have cur: "cursor_ok E" using assms by (simp add: editor_ok_def)
  note keep = editor_ok_keep [OF assms]
  have esc: "editor_ok (let E1 = E\<lparr>mode := MODE_NORMAL\<rparr> in if 0 < cx E1 then E1\<lparr>cx := cx E1 - 1\<rparr> else E1)"
    using assms by (auto simp: editor_ok_def cursor_defs Let_def split: if_splits)
  obtain E1 where nl: "editorInsertNewline E = Some E1" "editor_ok E1"
    using insert_newline_ok [OF cur] keep by blast
  show ?thesis
    unfolding insert_key_def
    by (rule some_if, rule some_Some, rule esc, rule some_if, simp add: nl editor_ok_fields, rule some_if,
        use del_char_ok [OF cur] keep in blast, rule some_if, use insert_char_ok [OF cur] keep in blast,
        rule some_Some, rule assms)
qed

lemma command_key_ok:
  assumes "editor_ok E" and "c = 0x0A \<longrightarrow> length (cmdbuf E) \<le> 56"
  shows "\<exists>E'. command_key junk c E = Some E' \<and> editor_ok E'"
proof -
  have buf: "editor_ok (E\<lparr>cmdbuf := b\<rparr>)" if "0 \<notin> set b" "length b \<le> 79" for b
    using assms(1) that by (simp add: editor_ok_def editor_ok_fields)
  have esc: "editor_ok (E\<lparr>mode := MODE_NORMAL, cmdbuf := []\<rparr>)"
    using assms(1) by (auto simp: editor_ok_def cursor_defs)
  have bs: "editor_ok (E\<lparr>cmdbuf := butlast (cmdbuf E)\<rparr>)"
    using assms(1) by (intro buf) (auto simp: editor_ok_def dest: in_set_butlastD)
  have add: "editor_ok (E\<lparr>cmdbuf := cmdbuf E @ [ucast c]\<rparr>)" if "32 \<le> c \<and> c < 127 \<and> cmdlen E < 78"
  proof (rule buf)
    have "unat (ucast c :: u8) = unat c" using that by (simp add: word_less_nat_alt unsigned_ucast_eq take_bit_nat_eq_self)
    then have "(ucast c :: u8) \<noteq> 0" using that by (auto simp: word_le_nat_alt)
    then show "0 \<notin> set (cmdbuf E @ [ucast c])" using assms(1) by (auto simp: editor_ok_def)
    show "length (cmdbuf E @ [ucast c]) \<le> 79" using that by (simp add: cmdlen_def)
  qed
  have ex: "\<exists>E'. (do { (result, E1) \<leftarrow> editorExecCommand junk E;
      Some (if result = -1 then E1\<lparr>dirty := -9999\<rparr> else E1\<lparr>mode := MODE_NORMAL\<rparr>) }) = Some E' \<and> editor_ok E'"
    if "length (cmdbuf E) \<le> 56"
    using exec_command_ok [OF assms(1) that, of junk] by (auto simp: editor_ok_fields)
  show ?thesis
    unfolding command_key_def
    by (rule some_if, rule some_Some, rule esc, rule some_if, rule ex, use assms(2) in blast, rule some_if,
        rule some_Some, rule bs, rule some_if, rule some_Some, erule add, rule some_Some, rule assms(1))
qed

lemma normal_key_ok:
  assumes "editor_ok E" and paste: "c = key CHR ''p'' \<longrightarrow> cy E < numrows E \<or> yank_len E = 0"
  shows "\<exists>E'. normal_key c n E = Some E' \<and> editor_ok E'"
proof -
  have cur: "cursor_ok E" using assms(1) by (simp add: editor_ok_def)
  note keep = editor_ok_keep [OF assms(1)]
  have move: "\<exists>E'. editorMoveCursor c E = Some E' \<and> editor_ok E'" using move_cursor_ok [OF cur, of c] keep by blast
  have a: "editor_ok (let E1 = E\<lparr>mode := MODE_INSERT\<rparr>
      in case row_at E1 (cy E1) of Some r \<Rightarrow> if cx E1 < int (length r) then E1\<lparr>cx := cx E1 + 1\<rparr> else E1 | None \<Rightarrow> E1)"
    using assms(1) by (auto simp: Let_def editor_ok_def cursor_defs row_at_def)
  have o: "\<exists>E'. (do { let E1 = (case row_at E (cy E) of Some r \<Rightarrow> E\<lparr>cx := int (length r)\<rparr> | None \<Rightarrow> E);
      E2 \<leftarrow> editorInsertNewline E1; Some (E2\<lparr>mode := MODE_INSERT\<rparr>) }) = Some E' \<and> editor_ok E'"
  proof -
    let ?E1 = "case row_at E (cy E) of Some r \<Rightarrow> E\<lparr>cx := int (length r)\<rparr> | None \<Rightarrow> E"
    have "editor_ok ?E1"
      using assms(1) by (auto simp: editor_ok_def cursor_defs row_at_def)
    moreover have "cursor_ok ?E1" using calculation by (simp add: editor_ok_def)
    ultimately obtain E2 where "editorInsertNewline ?E1 = Some E2" "editor_ok E2"
      using insert_newline_ok [of ?E1] editor_ok_keep [of ?E1] by blast
    then show ?thesis by (simp add: Let_def editor_ok_fields)
  qed
  have O: "editor_ok ((editorInsertRow (cy E) [] (E\<lparr>cx := 0\<rparr>))\<lparr>mode := MODE_INSERT\<rparr>)"
    using assms(1) by (auto simp: editor_ok_def editorInsertRow_def cursor_defs)
  have x: "\<exists>E'. (case row_at E (cy E) of None \<Rightarrow> Some E
      | Some r \<Rightarrow> if cx E < int (length r) then do {
            E1 \<leftarrow> editorRowDelChar (cy E) (cx E) E;
            r1 \<leftarrow> row_at E1 (cy E1);
            Some (if int (length r1) \<le> cx E1 \<and> 0 < cx E1 then E1\<lparr>cx := cx E1 - 1\<rparr> else E1)
          } else Some E) = Some E' \<and> editor_ok E'"
    using assms(1) by (auto simp: editorRowDelChar_def editor_ok_def cursor_defs row_at_def split: option.split if_splits)
  have p: "editor_ok (editorPasteLine E)" if "c = key CHR ''p''"
    using assms(1) paste that by (auto simp: editorPasteLine_def editorInsertRow_def editor_ok_def cursor_defs Let_def)
  have colon: "editor_ok (E\<lparr>mode := MODE_COMMAND, cmdbuf := []\<rparr>)"
    using assms(1) by (auto simp: editor_ok_def cursor_defs)
  have dd: "\<exists>E'. (if n = key CHR ''d'' then editorDeleteLine E else Some E) = Some E' \<and> editor_ok E'"
    using delete_line_ok [OF cur] keep assms(1) by (cases "n = key CHR ''d''") (simp_all, blast)
  have yy: "\<exists>E'. (if n = key CHR ''y'' then editorYankLine E else Some E) = Some E' \<and> editor_ok E'"
  proof -
    obtain y where "editorYankLine E = Some (E\<lparr>yank_buf := y\<rparr>)" using yank_ok [OF cur] by blast
    moreover have "editor_ok (E\<lparr>yank_buf := y\<rparr>)" using assms(1) by (simp add: editor_ok_def editor_ok_fields)
    ultimately show ?thesis using assms(1) by (cases "n = key CHR ''y''") simp_all
  qed
  show ?thesis
    unfolding normal_key_def
    by (rule some_if, rule move, rule some_if, rule some_Some, simp add: editor_ok_fields assms(1),
        rule some_if, rule some_Some, rule a, rule some_if, rule o, rule some_if, rule some_Some, rule O,
        rule some_if, rule x, rule some_if, rule dd, rule some_if, rule yy, rule some_if, rule some_Some, erule p,
        rule some_if, rule some_Some, rule colon, rule some_Some, rule assms(1))
qed

text \<open>An editor on the file \<open>a\<close> with one row, for the witnesses.\<close>

definition demo_editor :: "fs \<Rightarrow> editor" where
  "demo_editor st = \<lparr>cx = 1, cy = 0, rowoff = 0, coloff = 0, screenrows = 23, screencols = 80, dirty = 0,
     mode = MODE_NORMAL, rows = [lit ''ok''], filename = lit ''a'', cmdbuf = [], yank_buf = lit ''ok'', ed_fs = st\<rparr>"

lemma demo_editor_cursor: "cursor_ok (demo_editor st)" "cy (demo_editor st) < numrows (demo_editor st)"
  by (simp_all add: demo_editor_def cursor_defs)

lemma demo_editor_ok: "fs_rep (fs_disk st) dir \<Longrightarrow> editor_ok (demo_editor st)"
  using demo_editor_cursor(1) lit_names by (auto simp: editor_ok_def demo_editor_def)



section \<open>Edits that undo each other\<close>

text \<open>
  Typing a character on a row and deleting it again restores the text and the cursor.
\<close>
theorem insert_then_delete:
  assumes "cursor_ok E" and "cy E < numrows E"
  shows "\<exists>E1 E2. editorInsertChar c E = Some E1 \<and> editorDelChar E1 = Some E2
    \<and> rows E2 = rows E \<and> cx E2 = cx E \<and> cy E2 = cy E"
proof -
  have b: "0 \<le> cy E" "nat (cy E) < length (rows E)" "0 \<le> cx E" "nat (cx E) \<le> length (rows E ! nat (cy E))"
    using assms by (auto simp: cursor_defs)
  let ?row = "rows E ! nat (cy E)"
  let ?new = "take (nat (cx E)) ?row @ c # drop (nat (cx E)) ?row"
  let ?E1 = "E\<lparr>rows := (rows E)[nat (cy E) := ?new], dirty := 1, cx := cx E + 1\<rparr>"
  have one: "editorInsertChar c E = Some ?E1"
    using assms b by (auto simp: editorInsertChar_def editorRowInsertChar_def row_at_def cursor_defs Let_def)
  have "nat (cx E + 1 - 1) = nat (cx E)" by simp
  moreover have "take (nat (cx E)) ?new @ drop (Suc (nat (cx E))) ?new = ?row" using b(4) by simp
  ultimately have "editorDelChar ?E1 = Some (?E1\<lparr>rows := rows E, cx := cx E\<rparr>)"
    using assms b by (auto simp: editorDelChar_def editorRowDelChar_def row_at_def numrows_def Let_def)
  then show ?thesis using one by (intro exI [of _ ?E1] exI [of _ "?E1\<lparr>rows := rows E, cx := cx E\<rparr>"]) simp
qed

theorem insert_then_delete_witness:
  "cursor_ok (demo_editor undefined) \<and> (\<exists>E1 E2. editorInsertChar 0x41 (demo_editor undefined) = Some E1
    \<and> editorDelChar E1 = Some E2 \<and> rows E2 = [lit ''ok''])"
  using insert_then_delete [OF demo_editor_cursor, of "0x41" undefined] demo_editor_cursor
  by (auto simp: demo_editor_def)

text \<open>
  C29. Splitting a row with the enter key and deleting backwards joins it again: text and cursor are
  restored, wherever the row was split.
\<close>
theorem newline_then_delete:
  assumes "cursor_ok E" and "cy E < numrows E"
  shows "\<exists>E1 E2. editorInsertNewline E = Some E1 \<and> editorDelChar E1 = Some E2
    \<and> rows E2 = rows E \<and> cx E2 = cx E \<and> cy E2 = cy E"
proof -
  have b: "0 \<le> cy E" "nat (cy E) < length (rows E)" "0 \<le> cx E" "nat (cx E) \<le> length (rows E ! nat (cy E))"
    using assms by (auto simp: cursor_defs)
  let ?i = "nat (cy E)" and ?row = "rows E ! nat (cy E)" and ?k = "nat (cx E)"
  have split: "rows E = take ?i (rows E) @ ?row # drop (Suc ?i) (rows E)"
    using b(2) by (rule id_take_nth_drop)
  let ?rs = "take ?i (rows E) @ take ?k ?row # drop ?k ?row # drop (Suc ?i) (rows E)"
  let ?E1 = "E\<lparr>rows := ?rs, cy := cy E + 1, cx := 0\<rparr>"
  have one: "editorInsertNewline E = Some ?E1"
  proof (cases "cx E = 0")
    case True
    then have "?rs = take ?i (rows E) @ [] # drop ?i (rows E)" using b(2) by (simp add: Cons_nth_drop_Suc)
    then show ?thesis using True assms b
      by (auto simp: editorInsertNewline_def editorInsertRow_def numrows_def cursor_ok_def)
  next
    case False
    have "(take (Suc ?i) (rows E) @ drop ?k ?row # drop (Suc ?i) (rows E))[?i := take ?k ?row] = ?rs"
      using b(2) by (simp add: take_Suc_conv_app_nth list_update_append)
    moreover have "nat (cy E + 1) = Suc ?i" using b(1) by simp
    ultimately show ?thesis using False assms b
      by (auto simp: editorInsertNewline_def editorInsertRow_def row_at_def numrows_def cursor_ok_def Let_def)
  qed
  have len: "length (take ?i (rows E)) = ?i" using b(2) by simp
  have at: "?rs ! ?i = take ?k ?row" "?rs ! Suc ?i = drop ?k ?row"
    using len by (simp_all add: nth_append)
  have ix: "nat (cy E + 1) = Suc ?i" "nat (cy E + 1 - 1) = ?i" using b(1) by simp_all
  have joined: "?rs[?i := take ?k ?row @ drop ?k ?row] = take ?i (rows E) @ ?row # drop ?k ?row # drop (Suc ?i) (rows E)"
    using len by (simp add: list_update_append)
  have del: "take (Suc ?i) (take ?i (rows E) @ ?row # drop ?k ?row # drop (Suc ?i) (rows E))
      @ drop (Suc (Suc ?i)) (take ?i (rows E) @ ?row # drop ?k ?row # drop (Suc ?i) (rows E)) = rows E"
    using len split by simp
  let ?E2 = "?E1\<lparr>rows := rows E, cx := cx E, cy := cy E, dirty := 1\<rparr>"
  have "editorDelChar ?E1 = Some ?E2"
    using b joined del
    by (auto simp: editorDelChar_def editorRowAppendString_def editorDelRow_def row_at_def numrows_def at ix Let_def)
  then show ?thesis using one by (intro exI [of _ ?E1] exI [of _ ?E2]) simp
qed

theorem newline_then_delete_witness:
  "cursor_ok (demo_editor undefined) \<and> (\<exists>E1 E2. editorInsertNewline (demo_editor undefined) = Some E1
    \<and> editorDelChar E1 = Some E2 \<and> rows E2 = [lit ''ok''])"
  using newline_then_delete [OF demo_editor_cursor, of undefined] demo_editor_cursor
  by (auto simp: demo_editor_def)

end
