(* ===== verification/EditorFiles.thy ===== *)
theory EditorFiles
  imports Editor
begin

text \<open>
  The editor and its file: saving followed by opening, and the edits, commands and views of
  \<open>fs/ed.c\<close> that lose text or have no defined result.
\<close>

section \<open>Opening what was saved\<close>

definition plain_row :: "u8 list \<Rightarrow> bool" where
  "plain_row r \<longleftrightarrow> chr CHR 0x0A \<notin> set r \<and> 0 \<notin> set r"

lemma insert_last_row: "editorInsertRow (numrows E) s E = E\<lparr>rows := rows E @ [s]\<rparr>"
  by (simp add: editorInsertRow_def numrows_def)

lemma open_rows_row: "plain_row r \<Longrightarrow> open_rows row (r @ bs) E = open_rows (row @ r) bs E"
  by (induction r arbitrary: row) (auto simp: plain_row_def)

lemma open_rows_text:
  "\<forall>r \<in> set rs. plain_row r \<Longrightarrow> open_rows [] (file_text rs @ [0]) E = E\<lparr>rows := rows E @ rs @ [[]]\<rparr>"
proof (induction rs arbitrary: E)
  case Nil
  then show ?case by (simp add: file_text_def insert_last_row)
next
  case (Cons r rs)
  have "file_text (r # rs) @ [0] = r @ chr CHR 0x0A # (file_text rs @ [0])" by (simp add: file_text_def)
  then have "open_rows [] (file_text (r # rs) @ [0]) E = open_rows [] (file_text rs @ [0]) (E\<lparr>rows := rows E @ [r]\<rparr>)"
    using Cons.prems by (simp add: open_rows_row insert_last_row)
  then show ?case using Cons by simp
qed

lemma open_spec:
  assumes rep: "fs_rep (fs_disk (ed_fs E)) dir" and name: "0 \<notin> set s" and find: "dir_find s dir = Some e"
    and f: "dir ! e = Some f" and len: "esize f = of_nat (length t)" and t: "t \<noteq> []" "length t \<le> 4095"
    and bytes: "\<And>k. k < length t \<Longrightarrow> disk_read (fs_disk (ed_fs E)) (eblock f) ! k = t ! k"
  shows "editorOpen junk s E = Some ((open_rows [] (t @ [0]) (E\<lparr>filename := take 63 s\<rparr>))\<lparr>dirty := 0\<rparr>)"
proof -
  have e: "e < 64" using dir_found [OF rep find] by metis
  note entry = fs_rep_entry [OF rep e f]
  have found: "fs_find_file (lit_ptr s) (fs_disk (ed_fs E)) = Some (Some e)"
    using fs_find_spec [OF rep cstr_lit [OF name]] find by simp
  let ?buf = "copy_up (fs_disk (ed_fs E)) (4096 * eblock f) junk (unat local_buf) 4096"
  have read: "fs_read_block (ed_fs E) (of_nat (eblock f)) local_buf junk = Some ?buf"
    using read_block_spec [of "eblock f" "ed_fs E" "unat local_buf" junk] entry(4) by simp
  have pos: "0 < length t" using t(1) by simp
  have "unat (of_nat (length t) :: u32) = length t" using t(2) by (intro unat_of_nat32) simp
  then have nz: "(of_nat (length t) :: u32) \<noteq> 0" using pos by (metis less_irrefl unat_0)
  have sint: "sint (of_nat (length t) :: u32) = int (length t)" using t(2) by (intro sint_of_nat32) simp
  have "List.map (ptr_at ?buf (unat local_buf)) [0..<length t] = t"
    using bytes t(2) by (intro nth_equalityI) (auto simp: disk_read_nth)
  then show ?thesis using found read nz t(2)
    by (simp add: editorOpen_def Let_def entry(1,2) len sint BLOCK_SIZE_def)
qed

text \<open>
  C31. Saving a text and opening the file again gives the same rows and one empty row more, since
  the last line feed starts a new row: the editor's own file grows by a line with every save and
  open.  The text has at least one row, fits the block and has no line feed or NUL in a row.
\<close>
theorem open_after_save:
  assumes "fs_rep (fs_disk (ed_fs E)) dir" and "0 \<notin> set (filename E)" and "filename E \<noteq> []"
    and "dir_find (filename E) dir = Some e" and "rows E \<noteq> []" and "length (file_text (rows E)) \<le> 4095"
    and "\<forall>r \<in> set (rows E). plain_row r"
  shows "\<exists>E1 E2. editorSave junk E = Some E1 \<and> editorOpen junk' (filename E) (initEditor E1) = Some E2
    \<and> rows E1 = rows E \<and> rows E2 = rows E @ [[]] \<and> dirty E2 = 0"
proof -
  have full: "take 4095 (file_text (rows E)) = file_text (rows E)" using assms(6) by simp
  obtain E' st d f where s: "editorSave junk E = Some (E'\<lparr>ed_fs := st\<rparr>)" "E' = E \<or> E' = E\<lparr>dirty := 0\<rparr>"
    "fs_rep (fs_disk st) d" "dir ! e = Some f" "d = dir[e := Some (f\<lparr>esize := of_nat (length (file_text (rows E)))\<rparr>)]"
    "\<forall>k < length (file_text (rows E)). disk_read (fs_disk st) (eblock f) ! k = file_text (rows E) ! k"
    using save_spec [OF assms(1,2), of junk] assms(3,4) unfolding full by metis
  have found: "dir_find (filename E) d = Some e" "d ! e = Some (f\<lparr>esize := of_nat (length (file_text (rows E)))\<rparr>)"
    using dir_resize_facts(2) [OF _ s(4)] dir_found [OF assms(1,4)] s(5) assms(4)
    by (metis, metis nth_list_update_eq)
  have ne: "file_text (rows E) \<noteq> []" using assms(5) by (cases "rows E") (simp_all add: file_text_def)
  let ?E1 = "E'\<lparr>ed_fs := st\<rparr>"
  have "editorOpen junk' (filename E) (initEditor ?E1)
    = Some ((open_rows [] (file_text (rows E) @ [0]) ((initEditor ?E1)\<lparr>filename := take 63 (filename E)\<rparr>))\<lparr>dirty := 0\<rparr>)"
    by (rule open_spec [OF _ assms(2) found(1) found(2)]) (use s ne assms(6) in \<open>simp_all add: initEditor_def\<close>)
  then show ?thesis using s(1,2) by (auto simp: open_rows_text [OF assms(7)] initEditor_def)
qed

theorem open_after_save_witness:
  "\<exists>st E1 E2. fs_reachable st \<and> editorSave (\<lambda>x. 0) (demo_editor st) = Some E1
    \<and> editorOpen (\<lambda>x. 0) (lit ''a'') (initEditor E1) = Some E2 \<and> rows E2 = [lit ''ok'', []]"
proof -
  obtain st where st: "fs_reachable st" "fs_rep (fs_disk st) two_files" using two_files_exist by blast
  let ?E = "demo_editor st"
  have E: "filename ?E = lit ''a''" "rows ?E = [lit ''ok'']" "ed_fs ?E = st" by (simp_all add: demo_editor_def)
  have "plain_row (lit ''ok'')" by code_simp
  then have plain: "\<forall>r \<in> set (rows ?E). plain_row r" by (simp add: E)
  have len: "length (file_text (rows ?E)) \<le> 4095" by (simp add: E file_text_def)
  show ?thesis
    using open_after_save [of ?E two_files 0 "\<lambda>x. 0" "\<lambda>x. 0", OF _ _ _ _ _ len plain] st lit_names(1) two_files_find(1)
    unfolding E by auto
qed


section \<open>Edits without a defined result\<close>

text \<open>The key codes as numbers, and the branch of the \<open>switch\<close> that each key selects.\<close>

lemma key_codes:
  "key CHR ''h'' = 0x68" "key CHR ''j'' = 0x6a" "key CHR ''k'' = 0x6b" "key CHR ''l'' = 0x6c" "key CHR ''i'' = 0x69" "key CHR ''a'' = 0x61" "key CHR ''o'' = 0x6f" "key CHR ''O'' = 0x4f" "key CHR ''x'' = 0x78" "key CHR ''d'' = 0x64" "key CHR ''y'' = 0x79" "key CHR ''p'' = 0x70" "key CHR '':'' = 0x3a" "key CHR ''q'' = 0x71"
  by code_simp+

lemma normal_keys:
  "normal_key (key CHR ''d'') n E = (if n = key CHR ''d'' then editorDeleteLine E else Some E)"
  "normal_key (key CHR ''p'') n E = Some (editorPasteLine E)"
  "normal_key (key CHR '':'') n E = Some (E\<lparr>mode := MODE_COMMAND, cmdbuf := []\<rparr>)"
  unfolding normal_key_def key_codes by (simp_all add: keycode_defs)

text \<open>
  Deleting the only line of a text and pasting it back (\<open>dd\<close>, then \<open>p\<close>) inserts nothing and
  moves the cursor below the text: the next character typed is written through a row that does not
  exist.
\<close>
theorem paste_after_only_line_deleted:
  assumes "mode E = MODE_NORMAL" and "rows E = [r]" and "r \<noteq> []" and "cy E = 0"
  shows "\<exists>E1 E2. editorProcessKeypress junk (key CHR ''d'') (key CHR ''d'') E = Some E1
    \<and> editorProcessKeypress junk (key CHR ''p'') n E1 = Some E2
    \<and> rows E2 = [] \<and> cy E2 = 1 \<and> editorInsertChar c E2 = None"
proof -
  let ?y = "take (unat BLOCK_SIZE - 1) r"
  let ?E1 = "E\<lparr>yank_buf := ?y, rows := [], dirty := 1, cx := 0\<rparr>"
  have y: "?y \<noteq> []" using assms(3) by (simp add: BLOCK_SIZE_def)
  have "editorDeleteLine E = Some ?E1"
    using assms by (simp add: editorDeleteLine_def editorYankLine_def editorDelRow_def row_at_def numrows_def Let_def)
  then have "normal_key (key CHR ''d'') (key CHR ''d'') E = Some ?E1"
    by (simp add: normal_keys)
  moreover have "normal_key (key CHR ''p'') n ?E1 = Some (?E1\<lparr>cy := 1\<rparr>)"
    using y assms(4) by (simp add: normal_keys editorPasteLine_def yank_len_def editorInsertRow_def numrows_def Let_def)
  moreover have "editorInsertChar c (?E1\<lparr>cy := 1\<rparr>) = None"
    by (simp add: editorInsertChar_def numrows_def editorRowInsertChar_def row_at_def)
  ultimately show ?thesis using assms(1)
    by (intro exI [of _ ?E1] exI [of _ "?E1\<lparr>cy := 1\<rparr>"]) (simp add: editorProcessKeypress_def mode_defs)
qed

theorem paste_after_only_line_deleted_witness:
  "\<exists>E1 E2. editorProcessKeypress (\<lambda>x. 0) (key CHR ''d'') (key CHR ''d'') (demo_editor undefined) = Some E1
    \<and> editorProcessKeypress (\<lambda>x. 0) (key CHR ''p'') 0 E1 = Some E2 \<and> cy E2 = 1 \<and> editorInsertChar 0x41 E2 = None"
  using paste_after_only_line_deleted [of "demo_editor undefined" "lit ''ok''" "\<lambda>x. 0" 0 "0x41"]
  by (auto simp: demo_editor_def)

text \<open>
  An unknown command of more than 56 characters overflows the 80-byte message buffer.
\<close>
theorem long_command_overflows:
  assumes "0 \<notin> set (cmdbuf E)" and "57 \<le> length (cmdbuf E)"
  shows "editorExecCommand junk E = None"
proof -
  have "cmdbuf E \<noteq> lit ''q''" "cmdbuf E \<noteq> lit ''q!''" "cmdbuf E \<noteq> lit ''w''" "cmdbuf E \<noteq> lit ''wq''"
    using assms(2) by auto
  moreover have "ksprintf (lit ''Not an editor command: %s'') [AStr (lit_ptr (cmdbuf E))]
      = Some (lit ''Not an editor command: '' @ cmdbuf E)"
    by (rule command_message) (rule cstr_lit [OF assms(1)])
  ultimately show ?thesis using assms(2)
    by (simp only: editorExecCommand_def if_False bind.bind_lunit length_append) simp
qed

theorem long_command_overflows_witness:
  "editorExecCommand (\<lambda>x. 0) ((demo_editor undefined)\<lparr>cmdbuf := replicate 57 0x41\<rparr>) = None"
  using long_command_overflows [of "(demo_editor undefined)\<lparr>cmdbuf := replicate 57 0x41\<rparr>" "\<lambda>x. 0"] by simp

text \<open>The keys of a sequence, none of which reads a second key.\<close>

fun press_keys :: "mem \<Rightarrow> u32 list \<Rightarrow> editor \<Rightarrow> editor option" where
  "press_keys junk [] E = Some E"
| "press_keys junk (c # cs) E = do { E' \<leftarrow> editorProcessKeypress junk c 0 E; press_keys junk cs E' }"

text \<open>
  Pasting a line does not mark the text as changed: \<open>p\<close> followed by the command \<open>:q\<close> leaves the
  editor, and the pasted line is lost without the warning that \<open>:q\<close> gives for other edits.
\<close>
theorem paste_then_quit:
  assumes "mode E = MODE_NORMAL" and "dirty E = 0" and "yank_buf E \<noteq> []" and "0 \<le> cy E" and "cy E < numrows E"
  shows "\<exists>E'. press_keys junk [key CHR ''p'', key CHR '':'', key CHR ''q'', 0x0A] E = Some E'
    \<and> length (rows E') = Suc (length (rows E)) \<and> dirty E' = -9999 \<and> ed_fs E' = ed_fs E"
proof -
  let ?E1 = "editorPasteLine E"
  have p: "mode ?E1 = MODE_NORMAL" "dirty ?E1 = 0" "length (rows ?E1) = Suc (length (rows E))" "ed_fs ?E1 = ed_fs E"
    using assms by (auto simp: editorPasteLine_def editorInsertRow_def yank_len_def numrows_def Let_def)
  let ?E2 = "?E1\<lparr>mode := MODE_COMMAND, cmdbuf := []\<rparr>"
  have colon: "editorProcessKeypress junk (key CHR '':'') 0 ?E1 = Some ?E2"
    using p(1) by (simp add: editorProcessKeypress_def normal_keys mode_defs)
  have "(ucast (key CHR ''q'') :: u8) = chr CHR ''q''" by code_simp
  moreover have "command_key junk 0x71 ?E2 = Some (?E2\<lparr>cmdbuf := [ucast (0x71 :: u32)]\<rparr>)"
    by (simp add: command_key_def cmdlen_def)
  ultimately have q: "editorProcessKeypress junk (key CHR ''q'') 0 ?E2 = Some (?E2\<lparr>cmdbuf := lit ''q''\<rparr>)"
    by (simp add: editorProcessKeypress_def mode_defs key_codes)
  have "command_key junk 0x0A (?E2\<lparr>cmdbuf := lit ''q''\<rparr>) = Some (?E2\<lparr>cmdbuf := lit ''q'', dirty := -9999\<rparr>)"
    using p(2) by (simp add: command_key_def editorExecCommand_def)
  then have enter: "editorProcessKeypress junk 0x0A 0 (?E2\<lparr>cmdbuf := lit ''q''\<rparr>) = Some (?E2\<lparr>cmdbuf := lit ''q'', dirty := -9999\<rparr>)"
    by (simp add: editorProcessKeypress_def mode_defs)
  have paste: "editorProcessKeypress junk (key CHR ''p'') 0 E = Some ?E1"
    using assms(1) by (simp add: editorProcessKeypress_def normal_keys mode_defs)
  show ?thesis using p by (simp only: press_keys.simps paste colon q enter bind.bind_lunit) simp
qed

theorem paste_then_quit_witness:
  "\<exists>E'. press_keys (\<lambda>x. 0) [key CHR ''p'', key CHR '':'', key CHR ''q'', 0x0A] (demo_editor undefined) = Some E'
    \<and> length (rows E') = 2 \<and> dirty E' = -9999"
  using paste_then_quit [of "demo_editor undefined" "\<lambda>x. 0"] by (auto simp: demo_editor_def numrows_def)

section \<open>Drawing a scrolled text\<close>

lemma draw_rows_undefined:
  assumes "y \<le> i" and "i < y + int n" and "row_at E (i + rowoff E) = Some r" and "int (length r) < coloff E"
  shows "draw_rows E y n c = None"
  using assms
proof (induction n arbitrary: y c)
  case (Suc n)
  then have vis: "i + rowoff E < numrows E" by (simp add: row_at_simps)
  show ?case
  proof (cases "i = y")
    case True
    then show ?thesis using Suc.prems(3,4) vis by (simp add: draw_row_def Let_def)
  next
    case False
    then have "draw_rows E (y + 1) n c' = None" for c' using Suc by simp
    then show ?thesis by (simp add: Let_def bind_eq_None_conv)
  qed
qed simp

text \<open>
  A text scrolled to the right has no defined drawing when a visible row is shorter than the
  scroll offset: the row is printed from beyond its terminator.
\<close>
theorem scrolled_short_row:
  assumes "rowoff E \<le> cy E" and "cy E < rowoff E + screenrows E"
    and "coloff E \<le> cx E" and "cx E < coloff E + screencols E"
    and "0 \<le> i" and "i < screenrows E" and "row_at E (i + rowoff E) = Some r" and "int (length r) < coloff E"
  shows "editorRefreshScreen E = None"
proof -
  have "editorScroll E = E" using assms(1-4) by (simp add: editorScroll_def Let_def)
  moreover have "editorDrawRows E c = None" for c
    unfolding editorDrawRows_def by (rule draw_rows_undefined [OF _ _ assms(7,8)]) (use assms(5,6) in simp_all)
  ultimately show ?thesis by (simp add: editorRefreshScreen_def)
qed

text \<open>Two rows, of 90 and of 2 characters, with the cursor at the end of the long one.\<close>

definition wide_editor :: "fs \<Rightarrow> editor" where
  "wide_editor st = (demo_editor st)\<lparr>rows := [replicate 90 0x41, lit ''ok''], cx := 90, coloff := 11\<rparr>"

theorem scrolled_short_row_witness: "editorRefreshScreen (wide_editor undefined) = None"
  using scrolled_short_row [of "wide_editor undefined" 1 "lit ''ok''"]
  by (simp add: wide_editor_def demo_editor_def row_at_def numrows_def)


section \<open>Drawing that succeeds\<close>

lemma ksprintf_string:
  assumes "cstr p s"
  shows "ksprintf_loop (chr CHR ''%'' # chr CHR ''s'' # g) (AStr p # as) out = ksprintf_loop g as (out @ s)"
  using copy_str_cstr [of p 0 s] assms
  by (simp add: parse_precision_def ksprintf_conv_def fmt_chars newline_chr)

lemma ksprintf_string20:
  assumes "cstr p s"
  shows "ksprintf_loop (lit ''%.20s'' @ g) (AStr p # as) out = ksprintf_loop g as (out @ take 20 s)"
proof -
  have codes: "lit ''%.20s'' = [0x25, 0x2E, 0x32, 0x30, 0x73]" "chr CHR ''*'' = 0x2A" "chr CHR ''2'' = 0x32" "chr CHR ''0'' = 0x30" "chr CHR ''9'' = 0x39"
    by code_simp+
  have "parse_precision (0x2E # 0x32 # 0x30 # 0x73 # g) (AStr p # as) = Some (20, 0x73 # g, AStr p # as)"
    by (simp add: parse_precision_def fmt_chars codes)
  then show ?thesis using copy_str_upto_cstr [of p 0 s] assms
    by (simp add: codes fmt_chars newline_chr ksprintf_conv_def)
qed

lemma kprintf_star:
  assumes "cstr p s"
  shows "kprintf (lit ''%.*s'') [AInt n, AStr p] c = Some (show_bytes s c)"
  using put_str_cstr [of p 0 s c] assms
  by (simp add: parse_precision_def kprintf_conv_def fmt_chars newline_chr)

lemma clear_cells:
  assumes "0 \<le> y" and "y < 25" and "0 \<le> k" and "k \<le> 80"
  shows "\<exists>c'. kvga_clear_to_eol (of_int y) (of_int k) c = Some c'"
proof -
  obtain a b where "y = int a" "k = int b" using assms(1,3) nonneg_int_cases by metis
  then show ?thesis using clear_to_eol_row [of a b c] assms by auto
qed

lemma draw_row_total:
  assumes "0 \<le> y" and "y < 25" and "0 \<le> coloff E" and "coloff E \<le> int (length row)" and "0 \<notin> set row"
    and "screencols E = 80"
  shows "\<exists>c'. draw_row E row y c = Some c'"
proof -
  let ?n = "int (length row) - coloff E"
  let ?l = "if screencols E < (if ?n < 0 then 0 else ?n) then screencols E else (if ?n < 0 then 0 else ?n)"
  have "0 \<notin> set (drop (nat (coloff E)) row)" using assms(5) set_drop_subset [of "nat (coloff E)" row] by blast
  then have "kprintf (lit ''%.*s'') [AInt (of_int ?l), AStr (lit_ptr (drop (nat (coloff E)) row))] c
      = Some (show_bytes (drop (nat (coloff E)) row) c)"
    by (intro kprintf_star cstr_lit)
  moreover have "0 \<le> ?l \<and> ?l \<le> 80" using assms(6) by auto
  then obtain c' where "kvga_clear_to_eol (of_int y) (of_int ?l) (show_bytes (drop (nat (coloff E)) row) c) = Some c'"
    using clear_cells [of y ?l] assms(1,2) by blast
  ultimately show ?thesis using assms(3,4) unfolding draw_row_def Let_def by (simp only: bind.bind_lunit) simp
qed

lemma welcome_message:
  "ksprintf (lit ''Shed v%s  --  i=insert  :w=save  :q=quit'') [AStr (lit_ptr SHED_VERSION)]
    = Some (lit ''Shed v0.0.1  --  i=insert  :w=save  :q=quit'')"
proof -
  have plain: "chr CHR ''%'' \<notin> set (lit ''Shed v'')" "chr CHR ''%'' \<notin> set (lit ''  --  i=insert  :w=save  :q=quit'')"
    by code_simp+
  have "0 \<notin> set SHED_VERSION" by code_simp
  then have v: "cstr (lit_ptr SHED_VERSION) SHED_VERSION" by (rule cstr_lit)
  have split: "lit ''Shed v%s  --  i=insert  :w=save  :q=quit''
      = lit ''Shed v'' @ chr CHR ''%'' # chr CHR ''s'' # lit ''  --  i=insert  :w=save  :q=quit'' @ []" by simp
  show ?thesis unfolding ksprintf_def split ksprintf_plain [OF plain(1)] ksprintf_string [OF v] ksprintf_plain [OF plain(2)]
    by (simp add: SHED_VERSION_def)
qed

lemma draw_welcome_total:
  assumes "0 \<le> y" and "y < 25" and "screencols E = 80"
  shows "\<exists>c'. draw_welcome E y c = Some c'"
proof -
  let ?w = "lit ''Shed v0.0.1  --  i=insert  :w=save  :q=quit''"
  have "0 \<notin> set ?w" by code_simp
  then have p: "kprintf (lit ''%.*s'') [AInt n, AStr (lit_ptr ?w)] c = Some (show_bytes ?w c)" for n c
    by (intro kprintf_star cstr_lit)
  have len: "length ?w = 43" by simp
  have clear: "\<exists>c'. kvga_clear_to_eol (of_int y) (of_int ((80 - 43) sdiv 2 + 43)) c = Some c'" for c
    by (rule clear_cells [OF assms(1,2)]) code_simp+
  show ?thesis unfolding draw_welcome_def welcome_message Let_def
    using assms(3) clear by (simp only: bind.bind_lunit len p) simp
qed

lemma draw_rows_total:
  assumes "screencols E = 80" and "0 \<le> coloff E" and "0 \<le> rowoff E" and "\<forall>r \<in> set (rows E). 0 \<notin> set r"
    and "\<forall>i r. rowoff E + y \<le> i \<longrightarrow> i < rowoff E + y + int n \<longrightarrow> row_at E i = Some r \<longrightarrow> coloff E \<le> int (length r)"
    and "0 \<le> y" and "y + int n \<le> 25"
  shows "\<exists>c'. draw_rows E y n c = Some c'"
  using assms(5-)
proof (induction n arbitrary: y c)
  case (Suc n)
  have next_rows: "\<exists>c'. draw_rows E (y + 1) n c1 = Some c'" for c1
  proof (rule Suc.IH)
    show "\<forall>i r. rowoff E + (y + 1) \<le> i \<longrightarrow> i < rowoff E + (y + 1) + int n \<longrightarrow> row_at E i = Some r \<longrightarrow> coloff E \<le> int (length r)"
      using Suc.prems(1) by (intro allI impI) (elim allE impE, simp_all)
  qed (use Suc.prems(2,3) in simp_all)
  let ?c0 = "kvga_set_cursor (of_int y) 0 c"
  have "\<exists>c1. (if numrows E \<le> y + rowoff E then
               if numrows E = 0 \<and> y = screenrows E sdiv 3 then draw_welcome E y ?c0
               else kvga_clear_to_eol (of_int y) 1 (kvga_write_char (of_int y) 0 (chr CHR ''~'') 0x07 ?c0)
             else do { row \<leftarrow> row_at E (y + rowoff E); draw_row E row y ?c0 }) = Some c1"
  proof (cases "numrows E \<le> y + rowoff E")
    case True
    then show ?thesis using Suc.prems(2,3) assms(1) draw_welcome_total [of y E ?c0] clear_cells [of y 1] by auto
  next
    case False
    then obtain r where r: "row_at E (y + rowoff E) = Some r" using Suc.prems(2) assms(3) by (auto simp: row_at_def)
    then have "r \<in> set (rows E)" by (auto simp: row_at_def numrows_def nat_less_iff split: if_splits)
    moreover have "coloff E \<le> int (length r)" using Suc.prems(1)[rule_format, of "y + rowoff E" r] r by simp
    ultimately show ?thesis using False r draw_row_total [of y E r ?c0] Suc.prems(2,3) assms(1,2,4) by auto
  qed
  then obtain c1 where c1: "(if numrows E \<le> y + rowoff E then
               if numrows E = 0 \<and> y = screenrows E sdiv 3 then draw_welcome E y ?c0
               else kvga_clear_to_eol (of_int y) 1 (kvga_write_char (of_int y) 0 (chr CHR ''~'') 0x07 ?c0)
             else do { row \<leftarrow> row_at E (y + rowoff E); draw_row E row y ?c0 }) = Some c1" by blast
  show ?case using next_rows [of c1] by (simp only: draw_rows.simps Let_def c1 bind.bind_lunit)
qed simp

lemma status_message:
  assumes "cstr m ms" and "cstr f fs" and "cstr d ds" and "length ms \<le> 7" and "length ds \<le> 3"
  shows "\<exists>status. ksprintf (lit '' %s | %.20s %s'') [AStr m, AStr f, AStr d] = Some status \<and> length status < 80"
proof -
  have plain: "chr CHR ''%'' \<notin> set (lit '' '')" "chr CHR ''%'' \<notin> set (lit '' | '')" by code_simp+
  have split: "lit '' %s | %.20s %s'' = lit '' '' @ chr CHR ''%'' # chr CHR ''s'' # lit '' | '' @ lit ''%.20s'' @ lit '' ''
      @ chr CHR ''%'' # chr CHR ''s'' # []" by simp
  show ?thesis
    unfolding ksprintf_def split ksprintf_plain [OF plain(1)] ksprintf_string [OF assms(1)] ksprintf_plain [OF plain(2)]
      ksprintf_string20 [OF assms(2)] ksprintf_string [OF assms(3)]
    using assms(4,5) by simp
qed

lemma show_prompt:
  assumes "cstr p s"
  shows "\<exists>c'. kprintf (lit '':%.*s'') [AInt n, AStr p] c = Some c'"
proof -
  have "lit '':%.*s'' = chr CHR '':'' # lit ''%.*s''" "chr CHR '':'' \<noteq> chr CHR ''%''" by (simp, code_simp)
  then show ?thesis using format_char(1) kprintf_star [OF assms] by metis
qed

lemma draw_status_total:
  assumes "screencols E = 80" and "screenrows E = 23" and "0 \<notin> set (filename E)" and "0 \<notin> set (cmdbuf E)"
    and "length (cmdbuf E) \<le> 79"
  shows "\<exists>c'. editorDrawStatusBar E c = Some c'"
proof -
  have nul: "0 \<notin> set (lit ''COMMAND'')" "0 \<notin> set (lit ''INSERT'')" "0 \<notin> set (lit ''NORMAL'')"
    "0 \<notin> set (lit ''[No Name]'')" "0 \<notin> set (lit ''[+]'')" "0 \<notin> set ([] :: u8 list)" by code_simp+
  let ?m = "if mode E = MODE_COMMAND then lit ''COMMAND'' else if mode E = MODE_INSERT then lit ''INSERT'' else lit ''NORMAL''"
  let ?f = "if filename E \<noteq> [] then filename E else lit ''[No Name]''"
  let ?d = "if 0 < dirty E then lit ''[+]'' else []"
  have strs: "cstr (lit_ptr ?m) ?m" "cstr (lit_ptr ?f) ?f" "cstr (lit_ptr ?d) ?d"
    using nul assms(3) by (intro cstr_lit; simp only: split: if_split; blast)+
  have len: "length ?m \<le> 7" "length ?d \<le> 3" by simp_all
  obtain status where st: "ksprintf (lit '' %s | %.20s %s'') [AStr (lit_ptr ?m), AStr (lit_ptr ?f), AStr (lit_ptr ?d)]
      = Some status" "length status < 80"
    using status_message [OF strs len] by blast
  have c: "cstr (lit_ptr (cmdbuf E)) (cmdbuf E)" by (rule cstr_lit [OF assms(4)])
  have k: "0 \<le> cmdlen E + 1 \<and> cmdlen E + 1 \<le> 80" using assms(5) by (simp add: cmdlen_def)
  have bar: "\<exists>c'. (if mode E = MODE_COMMAND then do {
        c4 \<leftarrow> kprintf (lit '':%.*s'') [AInt (of_int (cmdlen E)), AStr (lit_ptr (cmdbuf E))] c3;
        kvga_clear_to_eol (of_int (screenrows E + 1)) (of_int (cmdlen E + 1)) c4
      } else kvga_clear_to_eol (of_int (screenrows E + 1)) (of_int 0) c3) = Some c'" for c3
    using show_prompt [OF c, of "of_int (cmdlen E)" c3] clear_cells [of 24 "cmdlen E + 1"] clear_cells [of 24 0 c3] k assms(2)
    by (cases "mode E = MODE_COMMAND") auto
  have "\<not> 80 \<le> length status" using st(2) by simp
  then show ?thesis using bar unfolding editorDrawStatusBar_def Let_def st(1) by (simp only: bind.bind_lunit if_False of_int_0)
qed

text \<open>What a redraw needs: every visible row reaches the left edge of the window.\<close>

definition rows_visible :: "editor \<Rightarrow> bool" where
  "rows_visible E \<longleftrightarrow> (\<forall>i r. rowoff E \<le> i \<longrightarrow> i < rowoff E + screenrows E \<longrightarrow> row_at E i = Some r \<longrightarrow> coloff E \<le> int (length r))"

lemma scroll_keeps:
  "rows (editorScroll E) = rows E" "cx (editorScroll E) = cx E" "cy (editorScroll E) = cy E"
  "screenrows (editorScroll E) = screenrows E" "screencols (editorScroll E) = screencols E"
  "filename (editorScroll E) = filename E" "cmdbuf (editorScroll E) = cmdbuf E" "ed_fs (editorScroll E) = ed_fs E"
  by (simp_all add: editorScroll_def Let_def)

lemma scroll_window:
  assumes "0 \<le> cy E" and "0 \<le> cx E" and "0 \<le> rowoff E" and "0 \<le> coloff E" and "0 < screenrows E" and "0 < screencols E"
  shows "0 \<le> rowoff (editorScroll E)" "0 \<le> coloff (editorScroll E)"
    "rowoff (editorScroll E) \<le> cy E" "cy E < rowoff (editorScroll E) + screenrows E"
    "coloff (editorScroll E) \<le> cx E" "cx E < coloff (editorScroll E) + screencols E"
  using assms by (simp_all add: editorScroll_def Let_def)



end
