(* ===== verification/Paging.thy ===== *)
theory Paging
  imports Memory
begin

text \<open>
  Page frames (\<open>kernel/mm.c\<close>) and page tables (\<open>kernel/kernel.c\<close>).  Physical memory is a byte
  memory; the page directory and the two kernel tables lie at fixed addresses.  \<open>kernel_end\<close> is
  the address of the linker's symbol, a parameter.  The kernel reaches a table by its physical
  address through the identity mapping of the first 8 MB; a store to a table beyond it faults and
  gives \<open>None\<close>.  \<open>map_kernel_page\<close> adds \<open>0xC0000000\<close> to a table's address, where nothing is mapped
  unless the caller has arranged it, so its accesses take the mapping as it is.

  \<open>page_walk\<close> is the translation of the processor (present bit, 4 KB pages, no 4 MB pages).
\<close>

definition PAGE_SIZE :: u32 where "PAGE_SIZE = 4096"
definition PHYS_MEM_END :: u32 where "PHYS_MEM_END = 0x8000000"
definition PAGE_PRESENT :: u32 where "PAGE_PRESENT = push_bit 0 1"
definition PAGE_WRITE :: u32 where "PAGE_WRITE = push_bit 1 1"
definition PAGE_USER :: u32 where "PAGE_USER = push_bit 2 1"
definition page_directory :: nat where "page_directory = 0x9C000"
definition page_table_kernel :: nat where "page_table_kernel = 0x9D000"
definition page_table_kernel2 :: nat where "page_table_kernel2 = 0x9E000"

record paging =
  phys :: mem
  next_free_page :: u32

section \<open>Frames\<close>

definition paging_alloc_init :: "u32 \<Rightarrow> paging \<Rightarrow> paging" where
  "paging_alloc_init kernel_end p = p\<lparr>next_free_page := (kernel_end + 0xFFF) AND NOT 0xFFF\<rparr>"

definition alloc_page_frame :: "paging \<Rightarrow> u32 \<times> paging" where
  "alloc_page_frame p =
     (if PHYS_MEM_END \<le> next_free_page p then (0, p)
      else (next_free_page p, p\<lparr>next_free_page := next_free_page p + PAGE_SIZE\<rparr>))"

section \<open>Tables\<close>

fun init_paging_loop :: "nat \<Rightarrow> nat \<Rightarrow> mem \<Rightarrow> mem" where
  "init_paging_loop i 0 m = m"
| "init_paging_loop i (Suc n) m =
     init_paging_loop (Suc i) n
       (st32 (st32 (st32 m (page_directory + 4 * i) 0)
          (page_table_kernel + 4 * i) ((of_nat i * 0x1000) OR PAGE_PRESENT OR PAGE_WRITE))
          (page_table_kernel2 + 4 * i) ((0x400000 + of_nat i * 0x1000) OR PAGE_PRESENT OR PAGE_WRITE))"

definition init_paging :: "paging \<Rightarrow> paging" where
  "init_paging p =
     (let m = init_paging_loop 0 1024 (phys p);
          m1 = st32 m page_directory (of_nat page_table_kernel OR PAGE_PRESENT OR PAGE_WRITE);
          m2 = st32 m1 (page_directory + 4) (of_nat page_table_kernel2 OR PAGE_PRESENT OR PAGE_WRITE)
      in p\<lparr>phys := m2\<rparr>)"

definition dir_index :: "u32 \<Rightarrow> nat" where "dir_index virt = unat (drop_bit 22 virt)"
definition table_index :: "u32 \<Rightarrow> nat" where "table_index virt = unat (drop_bit 12 virt AND 0x3FF)"

definition dir_entry :: "mem \<Rightarrow> nat \<Rightarrow> u32" where "dir_entry m i = ld32 m (page_directory + 4 * i)"

definition store_table :: "nat \<Rightarrow> u32 \<Rightarrow> mem \<Rightarrow> mem option" where
  "store_table a v m = (if a + 4 \<le> 0x800000 then Some (st32 m a v) else None)"

definition map_user_page :: "u32 \<Rightarrow> u32 \<Rightarrow> paging \<Rightarrow> paging option" where
  "map_user_page virt frame p = do {
     let i = dir_index virt;
     let p1 = (if dir_entry (phys p) i AND PAGE_PRESENT = 0 then
                 let (new_table, p') = alloc_page_frame p
                 in p'\<lparr>phys := st32 (phys p') (page_directory + 4 * i)
                          (new_table OR PAGE_PRESENT OR PAGE_WRITE OR PAGE_USER)\<rparr>
               else p);
     let table = dir_entry (phys p1) i AND NOT 0xFFF;
     m \<leftarrow> store_table (unat table + 4 * table_index virt) (frame OR PAGE_PRESENT OR PAGE_WRITE OR PAGE_USER) (phys p1);
     Some (p1\<lparr>phys := m\<rparr>)
   }"

section \<open>The processor's translation\<close>

definition page_walk :: "mem \<Rightarrow> u32 \<Rightarrow> u32 option" where
  "page_walk m virt =
     (let pde = dir_entry m (dir_index virt)
      in if pde AND PAGE_PRESENT = 0 then None
         else let pte = ld32 m (unat (pde AND NOT 0xFFF) + 4 * table_index virt)
              in if pte AND PAGE_PRESENT = 0 then None
                 else Some (pte AND NOT 0xFFF OR virt AND 0xFFF))"

text \<open>Whether user mode may access the page.\<close>

definition user_page :: "mem \<Rightarrow> u32 \<Rightarrow> bool" where
  "user_page m virt =
     (let pde = dir_entry m (dir_index virt); pte = ld32 m (unat (pde AND NOT 0xFFF) + 4 * table_index virt)
      in page_walk m virt \<noteq> None \<and> pde AND PAGE_USER \<noteq> 0 \<and> pte AND PAGE_USER \<noteq> 0)"

text \<open>
  \<open>map_kernel_page\<close> reaches tables through virtual addresses: a store at a virtual address
  goes through \<open>page_walk\<close>.
\<close>

definition store_virt :: "u32 \<Rightarrow> u32 \<Rightarrow> mem \<Rightarrow> mem option" where
  "store_virt v w m = map_option (\<lambda>a. st32 m (unat a) w) (page_walk m v)"

fun zero_table_virt :: "u32 \<Rightarrow> nat \<Rightarrow> nat \<Rightarrow> mem \<Rightarrow> mem option" where
  "zero_table_virt tbl i 0 m = Some m"
| "zero_table_virt tbl i (Suc n) m = do {
     m' \<leftarrow> store_virt (tbl + 4 * of_nat i) 0 m;
     zero_table_virt tbl (Suc i) n m'
   }"

definition PHYS_TO_VIRT :: "u32 \<Rightarrow> u32" where "PHYS_TO_VIRT p = p + 0xC0000000"

definition map_kernel_page :: "u32 \<Rightarrow> u32 \<Rightarrow> paging \<Rightarrow> paging option" where
  "map_kernel_page virt frame p = do {
     let i = dir_index virt;
     p1 \<leftarrow> (if dir_entry (phys p) i AND 1 = 0 then
               let (new_table, p') = alloc_page_frame p
               in do {
                 m \<leftarrow> zero_table_virt (PHYS_TO_VIRT new_table) 0 1024 (phys p');
                 Some (p'\<lparr>phys := st32 m (page_directory + 4 * i) (new_table OR 3)\<rparr>)
               }
             else Some p);
     m \<leftarrow> store_virt (PHYS_TO_VIRT (dir_entry (phys p1) i AND NOT 0xFFF) + 4 * of_nat (table_index virt))
            ((frame AND NOT 0xFFF) OR 3) (phys p1);
     Some (p1\<lparr>phys := m\<rparr>)
   }"

section \<open>Addresses and entries\<close>

lemma page_flags: "PAGE_PRESENT = mask 1" "PAGE_PRESENT OR PAGE_WRITE = mask 2"
  "PAGE_PRESENT OR PAGE_WRITE OR PAGE_USER = mask 3"
  "x OR PAGE_PRESENT OR PAGE_WRITE = x OR mask 2" "x OR PAGE_PRESENT OR PAGE_WRITE OR PAGE_USER = x OR mask 3"
  by (simp_all add: PAGE_PRESENT_def PAGE_WRITE_def PAGE_USER_def or.assoc mask_eq_exp_minus_1)

lemma offset_mask: "(0xFFF :: u32) = mask 12" "(0x3FF :: u32) = mask 10"
  by (simp_all add: mask_eq_exp_minus_1)

definition aligned :: "u32 \<Rightarrow> bool" where
  "aligned a \<longleftrightarrow> take_bit 12 a = 0"

lemma aligned_bit: "aligned a \<Longrightarrow> n < 12 \<Longrightarrow> \<not> bit a n"
  by (metis aligned_def bit_0_eq bit_take_bit_iff bot_apply bot_bool_def)

lemma aligned_flags:
  assumes "aligned a" and "n \<le> 12"
  shows "(a OR mask n) AND NOT 0xFFF = a"
  unfolding offset_mask
proof (rule bit_word_eqI)
  fix k assume k: "k < LENGTH(32)"
  show "bit ((a OR mask n) AND NOT (mask 12)) k = bit a k"
    using aligned_bit [OF assms(1), of k] assms(2) k by (cases "k < 12") (auto simp: bit_simps)
qed

lemma flag_present: "0 < n \<Longrightarrow> (a OR mask n :: u32) AND PAGE_PRESENT \<noteq> 0"
proof -
  assume "0 < n"
  then have "bit ((a OR mask n) AND mask 1) 0" by (simp add: bit_simps)
  then show ?thesis unfolding page_flags(1) by auto
qed

lemma flag_user:
  assumes "aligned a"
  shows "(a OR mask n :: u32) AND PAGE_USER \<noteq> 0 \<longleftrightarrow> 3 \<le> n"
proof -
  have user: "x AND PAGE_USER \<noteq> 0 \<longleftrightarrow> bit x 2" for x :: u32
    using and_exp_eq_0_iff_not_bit [of x 2] by (simp add: PAGE_USER_def)
  show ?thesis unfolding user using aligned_bit [OF assms, of 2] by (auto simp: bit_simps)
qed

lemma aligned_push: "aligned (push_bit 12 a)"
  by (simp add: aligned_def take_bit_push_bit)

lemma aligned_iff: "aligned a \<longleftrightarrow> unat a mod 4096 = 0"
proof -
  have "aligned a \<longleftrightarrow> unat (take_bit 12 a) = 0" by (simp add: aligned_def unat_eq_0)
  then show ?thesis by (simp add: unsigned_take_bit_eq take_bit_nat_def)
qed

lemma page_split: "push_bit 12 (drop_bit 12 v) OR v AND 0xFFF = (v :: u32)"
  unfolding offset_mask
proof (rule bit_word_eqI)
  fix k assume "k < LENGTH(32)"
  then show "bit (push_bit 12 (drop_bit 12 v) OR v AND mask 12) k = bit v k"
    by (cases "k < 12") (auto simp: bit_simps)
qed

lemma dir_index_nat: "dir_index v = unat v div 2 ^ 22"
  by (simp add: dir_index_def unat_drop_bit_eq drop_bit_nat_def)

lemma table_index_nat: "table_index v = unat v div 4096 mod 1024"
  by (simp add: table_index_def offset_mask(2) unsigned_take_bit_eq unat_drop_bit_eq take_bit_nat_def
      drop_bit_nat_def flip: take_bit_eq_mask)

lemma index_bounds: "dir_index v < 1024" "table_index v < 1024"
  using unat32_less [of v] by (simp_all add: dir_index_nat table_index_nat)

lemma page_number: "unat v div 4096 = dir_index v * 1024 + table_index v"
proof -
  have "unat v div 2 ^ 22 = unat v div 4096 div 1024" by (simp add: div_mult2_eq [symmetric])
  then show ?thesis by (simp add: dir_index_nat table_index_nat)
qed

lemma same_page:
  "dir_index v = dir_index w \<and> table_index v = table_index w \<longleftrightarrow> unat v div 4096 = unat w div 4096"
proof -
  have "a = c \<and> b = d \<longleftrightarrow> a * 1024 + b = c * 1024 + d" if "b < 1024" "d < 1024" for a b c d :: nat
    
  proof -
    have "(a * 1024 + b) div 1024 = a" "(c * 1024 + d) div 1024 = c" using that by simp_all
    then show ?thesis by (metis add_left_cancel)
  qed
  then show ?thesis using index_bounds [of v] index_bounds [of w] by (simp only: page_number)
qed

section \<open>Initial tables\<close>

lemma init_loop_entries:
  assumes "j < 1024"
  shows "i + n \<le> 1024 \<Longrightarrow> ld32 (init_paging_loop i n m) (page_directory + 4 * j)
      = (if i \<le> j \<and> j < i + n then 0 else ld32 m (page_directory + 4 * j))
    \<and> ld32 (init_paging_loop i n m) (page_table_kernel + 4 * j)
      = (if i \<le> j \<and> j < i + n then (of_nat j * 0x1000) OR PAGE_PRESENT OR PAGE_WRITE
         else ld32 m (page_table_kernel + 4 * j))
    \<and> ld32 (init_paging_loop i n m) (page_table_kernel2 + 4 * j)
      = (if i \<le> j \<and> j < i + n then (0x400000 + of_nat j * 0x1000) OR PAGE_PRESENT OR PAGE_WRITE
         else ld32 m (page_table_kernel2 + 4 * j))"
proof (induction n arbitrary: i m)
  case (Suc n)
  let ?m = "st32 (st32 (st32 m (page_directory + 4 * i) 0)
      (page_table_kernel + 4 * i) ((of_nat i * 0x1000) OR PAGE_PRESENT OR PAGE_WRITE))
      (page_table_kernel2 + 4 * i) ((0x400000 + of_nat i * 0x1000) OR PAGE_PRESENT OR PAGE_WRITE)"
  have i: "i < 1024" using Suc.prems by simp
  have IH: "ld32 (init_paging_loop (Suc i) n ?m) (page_directory + 4 * j)
      = (if Suc i \<le> j \<and> j < Suc i + n then 0 else ld32 ?m (page_directory + 4 * j))
    \<and> ld32 (init_paging_loop (Suc i) n ?m) (page_table_kernel + 4 * j)
      = (if Suc i \<le> j \<and> j < Suc i + n then (of_nat j * 0x1000) OR PAGE_PRESENT OR PAGE_WRITE
         else ld32 ?m (page_table_kernel + 4 * j))
    \<and> ld32 (init_paging_loop (Suc i) n ?m) (page_table_kernel2 + 4 * j)
      = (if Suc i \<le> j \<and> j < Suc i + n then (0x400000 + of_nat j * 0x1000) OR PAGE_PRESENT OR PAGE_WRITE
         else ld32 ?m (page_table_kernel2 + 4 * j))"
    by (rule Suc.IH) (use Suc.prems in simp)
  have "ld32 ?m (page_directory + 4 * j) = (if j = i then 0 else ld32 m (page_directory + 4 * j))"
    "ld32 ?m (page_table_kernel + 4 * j) = (if j = i then (of_nat i * 0x1000) OR PAGE_PRESENT OR PAGE_WRITE
       else ld32 m (page_table_kernel + 4 * j))"
    "ld32 ?m (page_table_kernel2 + 4 * j) = (if j = i then (0x400000 + of_nat i * 0x1000) OR PAGE_PRESENT OR PAGE_WRITE
       else ld32 m (page_table_kernel2 + 4 * j))"
    using assms i by (cases i j rule: linorder_cases;
      simp add: ld32_st32_other page_directory_def page_table_kernel_def page_table_kernel2_def)+
  then show ?case using IH by (auto simp: not_less_eq_eq less_Suc_eq)
qed auto

lemma init_paging_entries:
  assumes "j < 1024"
  shows "dir_entry (phys (init_paging p)) j
      = (if j = 0 then of_nat page_table_kernel OR mask 2 else if j = 1 then of_nat page_table_kernel2 OR mask 2 else 0)"
    and "ld32 (phys (init_paging p)) (page_table_kernel + 4 * j) = push_bit 12 (of_nat j) OR mask 2"
    and "ld32 (phys (init_paging p)) (page_table_kernel2 + 4 * j) = push_bit 12 (of_nat (1024 + j)) OR mask 2"
proof -
  have shift: "of_nat j * 0x1000 = push_bit 12 (of_nat j :: u32)"
    "0x400000 + push_bit 12 (of_nat j) = push_bit 12 (1024 + of_nat j :: u32)"
    by (simp_all add: push_bit_eq_mult algebra_simps)
  note e = init_loop_entries [OF assms, of 0 1024 "phys p"]
  show "dir_entry (phys (init_paging p)) j
      = (if j = 0 then of_nat page_table_kernel OR mask 2 else if j = 1 then of_nat page_table_kernel2 OR mask 2 else 0)"
    using e assms by (auto simp: dir_entry_def init_paging_def Let_def page_flags(4) ld32_st32_other)
  show "ld32 (phys (init_paging p)) (page_table_kernel + 4 * j) = push_bit 12 (of_nat j) OR mask 2"
    "ld32 (phys (init_paging p)) (page_table_kernel2 + 4 * j) = push_bit 12 (of_nat (1024 + j)) OR mask 2"
    using e assms unfolding shift
    by (simp_all add: init_paging_def Let_def page_flags(4) ld32_st32_other page_directory_def
        page_table_kernel_def page_table_kernel2_def)
qed

lemma walk_mapped:
  assumes "dir_entry m (dir_index v) = t OR mask n" and "aligned t" and "0 < n" and "n \<le> 12"
    and "ld32 m (unat t + 4 * table_index v) = f OR mask k" and "aligned f" and "0 < k" and "k \<le> 12"
  shows "page_walk m v = Some (f OR v AND 0xFFF)"
proof -
  have "(t OR mask n) AND NOT 0xFFF = t" "(f OR mask k) AND NOT 0xFFF = f"
    using assms(2,4,6,8) by (simp_all only: aligned_flags)
  moreover have "(t OR mask n) AND PAGE_PRESENT \<noteq> 0" "(f OR mask k) AND PAGE_PRESENT \<noteq> 0"
    using assms(3,7) by (simp_all only: flag_present) simp_all
  ultimately show ?thesis by (simp only: page_walk_def Let_def assms(1,5) if_False)
qed

lemma init_paging_walk:
  "page_walk (phys (init_paging p)) v = (if v < 0x800000 then Some v else None)
   \<and> \<not> user_page (phys (init_paging p)) v"
proof -
  let ?m = "phys (init_paging p)"
  have ib: "dir_index v < 1024" "table_index v < 1024" by (rule index_bounds)+
  note dir = init_paging_entries(1) [OF ib(1), of p]
  have tables: "unat (of_nat page_table_kernel :: u32) = page_table_kernel"
    "unat (of_nat page_table_kernel2 :: u32) = page_table_kernel2"
    by (simp_all add: page_table_kernel_def page_table_kernel2_def)
  have al: "aligned (of_nat page_table_kernel)" "aligned (of_nat page_table_kernel2)"
    by (simp_all add: aligned_iff tables) (simp_all add: page_table_kernel_def page_table_kernel2_def)
  have dv: "drop_bit 12 v = of_nat (dir_index v * 1024 + table_index v)"
  proof -
    have "unat (drop_bit 12 v) = dir_index v * 1024 + table_index v"
      using page_number [of v] by (simp add: unat_drop_bit_eq drop_bit_nat_def)
    then show ?thesis by (metis of_nat_unat ucast_id)
  qed
  have small: "v < 0x800000 \<longleftrightarrow> dir_index v \<le> 1"
    by (simp add: word_less_nat_alt dir_index_nat) linarith
  consider "dir_index v = 0" | "dir_index v = 1" | "1 < dir_index v" by linarith
  then show ?thesis
  proof cases
    case 1
    have "page_walk ?m v = Some (push_bit 12 (of_nat (table_index v)) OR v AND 0xFFF)"
      by (rule walk_mapped [where n = 2 and k = 2, OF _ al(1)])
        (use dir 1 init_paging_entries(2) [OF ib(2), of p] aligned_push tables in simp_all)
    moreover have "push_bit 12 (of_nat (table_index v)) OR v AND 0xFFF = v"
      using page_split [of v] unfolding dv 1 by simp
    moreover have "dir_entry ?m (dir_index v) = of_nat page_table_kernel OR mask 2" using dir 1 by simp
    then have "dir_entry ?m (dir_index v) AND PAGE_USER = 0"
      by (simp add: PAGE_USER_def page_table_kernel_def mask_eq_exp_minus_1)
    ultimately show ?thesis using 1 small by (simp add: user_page_def Let_def)
  next
    case 2
    have "page_walk ?m v = Some (push_bit 12 (of_nat (1024 + table_index v)) OR v AND 0xFFF)"
      by (rule walk_mapped [where n = 2 and k = 2, OF _ al(2)])
        (use dir 2 init_paging_entries(3) [OF ib(2), of p] aligned_push tables in simp_all)
    moreover have "push_bit 12 (of_nat (1024 + table_index v)) OR v AND 0xFFF = v"
      using page_split [of v] unfolding dv 2 by simp
    moreover have "dir_entry ?m (dir_index v) = of_nat page_table_kernel2 OR mask 2" using dir 2 by simp
    then have "dir_entry ?m (dir_index v) AND PAGE_USER = 0"
      by (simp add: PAGE_USER_def page_table_kernel2_def mask_eq_exp_minus_1)
    ultimately show ?thesis using 2 small by (simp add: user_page_def Let_def)
  next
    case 3
    then have "page_walk ?m v = None" using dir by (simp add: page_walk_def)
    then show ?thesis using 3 small by (simp add: user_page_def Let_def)
  qed
qed

text \<open>
  C19. Once paging is set up, every address of the first 8 MB translates to itself, user mode may
  touch none of it, and no other address is mapped.
\<close>
theorem init_paging_identity:
  "page_walk (phys (init_paging p)) v = (if v < 0x800000 then Some v else None)
   \<and> \<not> user_page (phys (init_paging p)) v"
  by (rule init_paging_walk)

section \<open>Mapping a page\<close>

definition table_of :: "mem \<Rightarrow> nat \<Rightarrow> u32" where
  "table_of m i = dir_entry m i AND NOT 0xFFF"

definition present :: "mem \<Rightarrow> nat \<Rightarrow> bool" where
  "present m i \<longleftrightarrow> dir_entry m i AND PAGE_PRESENT \<noteq> 0"

text \<open>
  Every table in use lies between the fixed tables and the next free frame, and no two directory
  entries share one.  An entry is open when user mode may pass through it, or can still be let through.
\<close>

definition paging_ok :: "paging \<Rightarrow> bool" where
  "paging_ok p \<longleftrightarrow> aligned (next_free_page p) \<and> 0xA0000 \<le> unat (next_free_page p)
     \<and> (\<forall>i < 1024. present (phys p) i \<longrightarrow> 0x9D000 \<le> unat (table_of (phys p) i)
          \<and> unat (table_of (phys p) i) + 4096 \<le> unat (next_free_page p))
     \<and> (\<forall>i < 1024. \<forall>j < 1024. present (phys p) i \<longrightarrow> present (phys p) j \<longrightarrow>
          table_of (phys p) i = table_of (phys p) j \<longrightarrow> i = j)"

definition open_entry :: "mem \<Rightarrow> nat \<Rightarrow> bool" where
  "open_entry m i \<longleftrightarrow> (present m i \<longrightarrow> dir_entry m i AND PAGE_USER \<noteq> 0)"

lemma open_cong: "dir_entry m i = dir_entry m' i \<Longrightarrow> open_entry m i = open_entry m' i"
  by (simp add: open_entry_def present_def)

lemma table_aligned: "aligned (table_of m i)"
  unfolding aligned_def table_of_def offset_mask by (rule bit_word_eqI) (auto simp: bit_simps)

lemma aligned_apart:
  assumes "aligned a" and "aligned b" and "a \<noteq> b" and "i < 1024" and "j < 1024"
  shows "unat a + 4 * i + 4 \<le> unat b + 4 * j \<or> unat b + 4 * j + 4 \<le> unat a + 4 * i"
proof -
  obtain x y where xy: "unat a = 4096 * x" "unat b = 4096 * y"
    using assms(1,2) by (auto simp: aligned_iff elim!: dvdE dest!: mod_0_imp_dvd)
  have "x \<noteq> y" using assms(3) xy by (auto simp: word_unat_eq_iff)
  then have "x < y \<or> y < x" by arith
  then show ?thesis using xy assms(4,5) by auto
qed

lemma walk_of:
  "page_walk m v = (if \<not> present m (dir_index v) then None
     else let pte = ld32 m (unat (table_of m (dir_index v)) + 4 * table_index v)
          in if pte AND PAGE_PRESENT = 0 then None else Some (pte AND NOT 0xFFF OR v AND 0xFFF))"
  by (simp add: page_walk_def present_def table_of_def Let_def)

lemma dir_entry_store:
  assumes "0x9D000 \<le> a" and "i < 1024"
  shows "dir_entry (st32 m a v) i = dir_entry m i"
  using assms by (simp add: dir_entry_def page_directory_def ld32_st32_other)

text \<open>Two memories translate an address alike, for the kernel and for user mode.\<close>

definition same_walk :: "mem \<Rightarrow> mem \<Rightarrow> u32 \<Rightarrow> bool" where
  "same_walk m m' w \<longleftrightarrow> page_walk m w = page_walk m' w \<and> user_page m w = user_page m' w"

lemma same_walkI:
  assumes "dir_entry m (dir_index w) = dir_entry m' (dir_index w)"
    and "ld32 m (unat (table_of m' (dir_index w)) + 4 * table_index w)
      = ld32 m' (unat (table_of m' (dir_index w)) + 4 * table_index w)"
  shows "same_walk m m' w"
  using assms by (simp add: same_walk_def user_page_def page_walk_def table_of_def Let_def)

lemma same_walk_refl [simp]: "same_walk m m w"
  by (simp add: same_walk_def)

lemma same_walk_trans: "same_walk m m' w \<Longrightarrow> same_walk m' m'' w \<Longrightarrow> same_walk m m'' w"
  by (simp add: same_walk_def)

text \<open>The effect of storing an entry into a table in use.\<close>

lemma store_entry:
  assumes ok: "paging_ok p" and v: "present (phys p) (dir_index v)"
    and a: "a = unat (table_of (phys p) (dir_index v)) + 4 * table_index v" and f: "aligned f"
    and k: "0 < k" "k \<le> 12"
  defines "m \<equiv> st32 (phys p) a (f OR mask k)"
  shows "paging_ok (p\<lparr>phys := m\<rparr>)" and "page_walk m v = Some (f OR v AND 0xFFF)"
    and "user_page m v \<longleftrightarrow> 3 \<le> k \<and> open_entry (phys p) (dir_index v)"
    and "present (phys p) (dir_index w) \<Longrightarrow> unat w div 4096 \<noteq> unat v div 4096 \<Longrightarrow> same_walk m (phys p) w"
    and "unat (next_free_page p) \<le> x \<Longrightarrow> m x = phys p x" and "i < 1024 \<Longrightarrow> dir_entry m i = dir_entry (phys p) i"
proof -
  have iv: "dir_index v < 1024" "table_index v < 1024" by (rule index_bounds)+
  have t: "0x9D000 \<le> unat (table_of (phys p) (dir_index v))"
    "unat (table_of (phys p) (dir_index v)) + 4096 \<le> unat (next_free_page p)"
    using ok v iv by (auto simp: paging_ok_def)
  have a9: "0x9D000 \<le> a" using t(1) a by simp
  show dir: "dir_entry m i = dir_entry (phys p) i" if "i < 1024" for i
    unfolding m_def using a9 that by (rule dir_entry_store)
  have same: "table_of m i = table_of (phys p) i" "present m i = present (phys p) i" if "i < 1024" for i
    using dir [OF that] by (simp_all add: table_of_def present_def)
  show "paging_ok (p\<lparr>phys := m\<rparr>)" using ok dir same by (simp add: paging_ok_def)
  have pte: "ld32 m (unat (table_of m (dir_index v)) + 4 * table_index v) = f OR mask k"
  proof -
    have at: "unat (table_of m (dir_index v)) + 4 * table_index v = a" using same(1) [OF iv(1)] a by simp
    show ?thesis unfolding at by (simp add: m_def)
  qed
  have clean: "(f OR mask k) AND NOT 0xFFF = f" using f k(2) by (rule aligned_flags)
  have pres: "(f OR mask k) AND PAGE_PRESENT \<noteq> 0" using k(1) by (rule flag_present)
  show walk: "page_walk m v = Some (f OR v AND 0xFFF)"
    using v unfolding walk_of pte Let_def clean same(2) [OF iv(1)] by (simp only: pres if_False not_True_eq_False)
  show "user_page m v \<longleftrightarrow> 3 \<le> k \<and> open_entry (phys p) (dir_index v)"
    using walk flag_user [OF f, of k] v dir [OF iv(1)] pte [unfolded table_of_def]
    by (simp only: user_page_def Let_def open_entry_def) auto
  show "same_walk m (phys p) w"
    if w: "present (phys p) (dir_index w)" "unat w div 4096 \<noteq> unat v div 4096"
  proof -
    have iw: "dir_index w < 1024" "table_index w < 1024" by (rule index_bounds)+
    let ?b = "unat (table_of (phys p) (dir_index w)) + 4 * table_index w"
    have "?b + 4 \<le> a \<or> a + 4 \<le> ?b"
    proof (cases "table_of (phys p) (dir_index w) = table_of (phys p) (dir_index v)")
      case True
      then have "dir_index w = dir_index v" using ok v w(1) iv(1) iw(1) by (auto simp: paging_ok_def)
      then have "table_index w \<noteq> table_index v" using w(2) same_page [of w v] by blast
      then show ?thesis using a True by auto
    next
      case False
      then show ?thesis using aligned_apart [OF table_aligned table_aligned False iw(2) iv(2)] a by simp
    qed
    then have "ld32 m ?b = ld32 (phys p) ?b" by (simp add: m_def ld32_st32_other)
    then show ?thesis by (rule same_walkI [OF dir [OF iw(1)]])
  qed
  show "m x = phys p x" if "unat (next_free_page p) \<le> x"
    using that t(2) a iv(2) by (simp add: m_def st32_other)
qed

text \<open>A new table: the next frame becomes the table of an absent directory entry.\<close>

lemma frame_align:
  assumes "aligned n" and "unat n + 4096 < 2 ^ 32"
  shows "aligned (n + PAGE_SIZE)" and "unat (n + PAGE_SIZE) = unat n + 4096"
proof -
  obtain k where k: "n = of_nat k" "k < 2 ^ 32" by (rule u32_cases)
  have "n + PAGE_SIZE = of_nat (k + 4096)" by (simp add: k PAGE_SIZE_def)
  then show u: "unat (n + PAGE_SIZE) = unat n + 4096"
    using assms(2) k unat_of_nat32 [of "k + 4096"] by (simp add: unat_of_nat32)
  show "aligned (n + PAGE_SIZE)" using assms(1) by (simp add: aligned_iff u)
qed

lemma alloc_frame_spec:
  assumes "unat (next_free_page p) < 0x8000000" and "aligned (next_free_page p)"
  shows "alloc_page_frame p = (next_free_page p, p\<lparr>next_free_page := next_free_page p + PAGE_SIZE\<rparr>)"
    and "unat (next_free_page p + PAGE_SIZE) = unat (next_free_page p) + 4096"
    and "aligned (next_free_page p + PAGE_SIZE)"
proof -
  have "\<not> PHYS_MEM_END \<le> next_free_page p" using assms(1) by (simp add: word_le_nat_alt PHYS_MEM_END_def)
  then show "alloc_page_frame p = (next_free_page p, p\<lparr>next_free_page := next_free_page p + PAGE_SIZE\<rparr>)"
    by (simp add: alloc_page_frame_def)
  have lt: "unat (next_free_page p) + 4096 < 2 ^ 32" using assms(1) by simp
  show "unat (next_free_page p + PAGE_SIZE) = unat (next_free_page p) + 4096"
    using assms(2) lt by (rule frame_align(2))
  show "aligned (next_free_page p + PAGE_SIZE)" using assms(2) lt by (rule frame_align(1))
qed

lemma new_table:
  assumes ok: "paging_ok p" and absent: "\<not> present (phys p) i" and i: "i < 1024"
    and room: "unat (next_free_page p) < 0x8000000" and n: "0 < n" "n \<le> 12"
  defines "p1 \<equiv> p\<lparr>next_free_page := next_free_page p + PAGE_SIZE,
    phys := st32 (phys p) (page_directory + 4 * i) (next_free_page p OR mask n)\<rparr>"
  shows "paging_ok p1" and "present (phys p1) i" and "table_of (phys p1) i = next_free_page p"
    and "present (phys p) (dir_index w) \<Longrightarrow> present (phys p1) (dir_index w) \<and> same_walk (phys p1) (phys p) w"
    and "0x9D000 \<le> x \<Longrightarrow> phys p1 x = phys p x"
    and "j < 1024 \<Longrightarrow> open_entry (phys p1) j \<longleftrightarrow> (if j = i then 3 \<le> n else open_entry (phys p) j)"
proof -
  let ?n = "next_free_page p"
  have al: "aligned ?n" and lo: "0xA0000 \<le> unat ?n" using ok by (simp_all add: paging_ok_def)
  note fr = alloc_frame_spec(2,3) [OF room al]
  have dir: "dir_entry (phys p1) j = (if j = i then ?n OR mask n else dir_entry (phys p) j)" if "j < 1024" for j
    using that i unfolding dir_entry_def p1_def
    by (cases i j rule: linorder_cases) (simp_all add: ld32_st32_other)
  have clean: "(?n OR mask n) AND NOT 0xFFF = ?n" using al n(2) by (rule aligned_flags)
  have di: "dir_entry (phys p1) i = ?n OR mask n" using dir [OF i] by simp
  show tab: "table_of (phys p1) i = ?n" by (simp only: table_of_def di clean)
  show pr: "present (phys p1) i" unfolding present_def di using n(1) by (rule flag_present)
  have same: "table_of (phys p1) j = table_of (phys p) j" "present (phys p1) j = present (phys p) j"
    if "j < 1024" "j \<noteq> i" for j
    using dir [OF that(1)] that(2) by (simp_all add: table_of_def present_def)
  have nf: "next_free_page p1 = ?n + PAGE_SIZE" by (simp add: p1_def)
  show "paging_ok p1"
    unfolding paging_ok_def nf
  proof (intro conjI allI impI)
    show "aligned (?n + PAGE_SIZE)" by (rule fr(2))
    show "0xA0000 \<le> unat (?n + PAGE_SIZE)" using lo fr(1) by simp
    fix j assume j: "(j::nat) < 1024" "present (phys p1) j"
    show "0x9D000 \<le> unat (table_of (phys p1) j)"
      using j ok lo tab same [of j] by (cases "j = i") (auto simp: paging_ok_def)
    show "unat (table_of (phys p1) j) + 4096 \<le> unat (?n + PAGE_SIZE)"
      using j ok tab same [of j] fr(1) by (cases "j = i") (force simp: paging_ok_def)+
  next
    fix j k assume jk: "(j::nat) < 1024" "(k::nat) < 1024" "present (phys p1) j" "present (phys p1) k"
      "table_of (phys p1) j = table_of (phys p1) k"
    have old: "unat (table_of (phys p) x) < unat ?n" if "x < 1024" "x \<noteq> i" "present (phys p1) x" for x
      using that ok same(2) [of x] by (force simp: paging_ok_def)
    show "j = k"
      using jk ok tab same [of j] same [of k] old [of j] old [of k]
      by (cases "j = i"; cases "k = i") (auto simp: paging_ok_def)
  qed
  show "open_entry (phys p1) j \<longleftrightarrow> (if j = i then 3 \<le> n else open_entry (phys p) j)" if "j < 1024"
    using dir [OF that] pr flag_user [OF al, of n] same [OF that] by (auto simp: open_entry_def)
  show "phys p1 x = phys p x" if "0x9D000 \<le> x"
    using that i by (simp add: p1_def page_directory_def st32_other)
  show "present (phys p1) (dir_index w) \<and> same_walk (phys p1) (phys p) w"
    if w: "present (phys p) (dir_index w)"
  proof -
    have iw: "dir_index w < 1024" "table_index w < 1024" by (rule index_bounds)+
    have "dir_index w \<noteq> i" using w absent by blast
    note s = same [OF iw(1) this]
    have de: "dir_entry (phys p1) (dir_index w) = dir_entry (phys p) (dir_index w)"
      using dir [OF iw(1)] \<open>dir_index w \<noteq> i\<close> by simp
    have "0x9D000 \<le> unat (table_of (phys p) (dir_index w))" using ok w iw(1) by (simp add: paging_ok_def)
    then have "ld32 (phys p1) (unat (table_of (phys p) (dir_index w)) + 4 * table_index w)
        = ld32 (phys p) (unat (table_of (phys p) (dir_index w)) + 4 * table_index w)"
      using i by (simp add: p1_def page_directory_def ld32_st32_other)
    then show ?thesis using w s same_walkI [OF de] by simp
  qed
qed

definition ensure_table :: "u32 \<Rightarrow> paging \<Rightarrow> paging" where
  "ensure_table v p = (if present (phys p) (dir_index v) then p
     else p\<lparr>next_free_page := next_free_page p + PAGE_SIZE,
       phys := st32 (phys p) (page_directory + 4 * dir_index v)
         (next_free_page p OR PAGE_PRESENT OR PAGE_WRITE OR PAGE_USER)\<rparr>)"

lemma map_user_page_unfold:
  assumes "aligned (next_free_page p)" and "unat (next_free_page p) < 0x8000000"
  shows "map_user_page v f p = do {
       m \<leftarrow> store_table (unat (table_of (phys (ensure_table v p)) (dir_index v)) + 4 * table_index v) (f OR mask 3)
         (phys (ensure_table v p));
       Some ((ensure_table v p)\<lparr>phys := m\<rparr>)
     }"
  using alloc_frame_spec(1) [OF assms(2,1)]
  by (simp add: map_user_page_def ensure_table_def Let_def present_def table_of_def page_flags(5))

lemma ensure_table_ok:
  assumes "paging_ok p" and "unat (next_free_page p) < 0x8000000"
  shows "paging_ok (ensure_table v p)" and "present (phys (ensure_table v p)) (dir_index v)"
    and "present (phys p) (dir_index w) \<Longrightarrow> present (phys (ensure_table v p)) (dir_index w)
      \<and> same_walk (phys (ensure_table v p)) (phys p) w"
    and "unat (next_free_page (ensure_table v p)) = unat (next_free_page p)
      + (if present (phys p) (dir_index v) then 0 else 4096)"
    and "\<not> present (phys p) (dir_index v) \<Longrightarrow> table_of (phys (ensure_table v p)) (dir_index v) = next_free_page p"
    and "0x9D000 \<le> x \<Longrightarrow> phys (ensure_table v p) x = phys p x"
    and "i < 1024 \<Longrightarrow> open_entry (phys (ensure_table v p)) i = open_entry (phys p) i"
proof -
  have al: "aligned (next_free_page p)" using assms(1) by (simp add: paging_ok_def)
  have v: "dir_index v < 1024" by (rule index_bounds)
  have nf: "unat (next_free_page p + PAGE_SIZE) = unat (next_free_page p) + 4096"
    using alloc_frame_spec(2) [OF assms(2) al] .
  show "paging_ok (ensure_table v p)" "present (phys (ensure_table v p)) (dir_index v)"
    "present (phys p) (dir_index w) \<Longrightarrow> present (phys (ensure_table v p)) (dir_index w)
      \<and> same_walk (phys (ensure_table v p)) (phys p) w"
    "unat (next_free_page (ensure_table v p)) = unat (next_free_page p)
      + (if present (phys p) (dir_index v) then 0 else 4096)"
    "\<not> present (phys p) (dir_index v) \<Longrightarrow> table_of (phys (ensure_table v p)) (dir_index v) = next_free_page p"
    "0x9D000 \<le> x \<Longrightarrow> phys (ensure_table v p) x = phys p x"
    "i < 1024 \<Longrightarrow> open_entry (phys (ensure_table v p)) i = open_entry (phys p) i"
    using assms(1) nf new_table [OF assms(1) _ v assms(2), where n = 3]
    by (simp_all add: ensure_table_def page_flags(5) open_entry_def)
qed

lemma dir_index_onto: "i < 1024 \<Longrightarrow> \<exists>w. dir_index w = i"
proof -
  assume i: "i < 1024"
  then have "unat (of_nat (i * 2 ^ 22) :: u32) = i * 2 ^ 22" by (intro unat_of_nat32) simp
  then show ?thesis using dir_index_nat [of "of_nat (i * 2 ^ 22)"] by (intro exI [of _ "of_nat (i * 2 ^ 22)"]) simp
qed

lemma map_user_page_spec:
  assumes "paging_ok p" and "unat (next_free_page p) + 4096 \<le> 0x800000" and "aligned f"
  shows "\<exists>p'. map_user_page v f p = Some p' \<and> paging_ok p'
    \<and> page_walk (phys p') v = Some (f OR v AND 0xFFF) \<and> user_page (phys p') v = open_entry (phys p) (dir_index v)
    \<and> (\<forall>i < 1024. open_entry (phys p') i = open_entry (phys p) i)
    \<and> (\<forall>w. present (phys p) (dir_index w) \<and> unat w div 4096 \<noteq> unat v div 4096 \<longrightarrow> same_walk (phys p') (phys p) w)
    \<and> unat (next_free_page p') \<in> {unat (next_free_page p), unat (next_free_page p) + 4096}
    \<and> (\<forall>i < 1024. present (phys p) i \<longrightarrow> present (phys p') i)"
proof -
  have iv: "dir_index v < 1024" "table_index v < 1024" by (rule index_bounds)+
  have al: "aligned (next_free_page p)" and room: "unat (next_free_page p) < 0x8000000"
    using assms(1,2) by (simp_all add: paging_ok_def)
  let ?q = "ensure_table v p"
  note q = ensure_table_ok [OF assms(1) room, where v = v]
  let ?a = "unat (table_of (phys ?q) (dir_index v)) + 4 * table_index v"
  have "unat (table_of (phys ?q) (dir_index v)) + 4096 \<le> unat (next_free_page ?q)"
    using q(1,2) iv(1) by (auto simp: paging_ok_def)
  then have "?a + 4 \<le> 0x800000" using q(4) assms(2) iv(2) by (simp split: if_splits)
  then have "map_user_page v f p = Some (?q\<lparr>phys := st32 (phys ?q) ?a (f OR mask 3)\<rparr>)"
    by (simp add: map_user_page_unfold [OF al room] store_table_def)
  moreover have three: "(0 :: nat) < 3" "(3 :: nat) \<le> 12" by simp_all
  note st = store_entry [OF q(1,2) refl assms(3) three]
  moreover have "same_walk (st32 (phys ?q) ?a (f OR mask 3)) (phys p) w"
    if "present (phys p) (dir_index w)" "unat w div 4096 \<noteq> unat v div 4096" for w
    using q(3) [OF that(1)] st(4) [of w] that(2) same_walk_trans by blast
  moreover have "present (st32 (phys ?q) ?a (f OR mask 3)) i" if "i < 1024" "present (phys p) i" for i
  proof -
    have "0x9D000 \<le> ?a" using q(1,2) iv(1) by (auto simp: paging_ok_def)
    moreover have "present (phys ?q) i"
      using that dir_index_onto [OF that(1)] ensure_table_ok(3) [OF assms(1) room, where v = v] by blast
    ultimately show ?thesis using that(1) by (simp add: present_def dir_entry_store)
  qed
  moreover have "open_entry (st32 (phys ?q) ?a (f OR mask 3)) i = open_entry (phys p) i" if "i < 1024" for i
    using open_cong [OF st(6)] q(7) that by simp
  ultimately show ?thesis using q(4) q(7) [OF iv(1)]
    by (intro exI [of _ "?q\<lparr>phys := st32 (phys ?q) ?a (f OR mask 3)\<rparr>"]) auto
qed

text \<open>A page mapped to a frame taken just before, as the kernel always does it.\<close>

definition map_fresh_page :: "u32 \<Rightarrow> paging \<Rightarrow> paging option" where
  "map_fresh_page virt p = (let (frame, p1) = alloc_page_frame p in map_user_page virt frame p1)"

lemma map_fresh_page_spec:
  assumes ok: "paging_ok p" and room: "unat (next_free_page p) + 8192 \<le> 0x800000"
  shows "\<exists>p'. map_fresh_page v p = Some p' \<and> paging_ok p'
    \<and> page_walk (phys p') v = Some (next_free_page p OR v AND 0xFFF) \<and> user_page (phys p') v = open_entry (phys p) (dir_index v)
    \<and> (\<forall>i < 1024. open_entry (phys p') i = open_entry (phys p) i)
    \<and> (\<forall>w. present (phys p) (dir_index w) \<and> unat w div 4096 \<noteq> unat v div 4096 \<longrightarrow> same_walk (phys p') (phys p) w)
    \<and> unat (next_free_page p) + 4096 \<le> unat (next_free_page p')
    \<and> unat (next_free_page p') \<le> unat (next_free_page p) + 8192
    \<and> (\<forall>i < 1024. present (phys p) i \<longrightarrow> present (phys p') i)"
proof -
  have al: "aligned (next_free_page p)" and r: "unat (next_free_page p) < 0x8000000"
    using ok room by (simp_all add: paging_ok_def)
  let ?p1 = "p\<lparr>next_free_page := next_free_page p + PAGE_SIZE\<rparr>"
  note nf = alloc_frame_spec [OF r al]
  have "paging_ok ?p1" using ok nf(2,3) by (fastforce simp: paging_ok_def)
  moreover have "unat (next_free_page ?p1) + 4096 \<le> 0x800000" using room nf(2) by simp
  ultimately obtain p' where p': "map_user_page v (next_free_page p) ?p1 = Some p'" "paging_ok p'"
    "page_walk (phys p') v = Some (next_free_page p OR v AND 0xFFF)" "user_page (phys p') v = open_entry (phys p) (dir_index v)"
    "\<forall>i < 1024. open_entry (phys p') i = open_entry (phys p) i"
    "\<forall>w. present (phys p) (dir_index w) \<and> unat w div 4096 \<noteq> unat v div 4096 \<longrightarrow> same_walk (phys p') (phys p) w"
    "unat (next_free_page p') \<in> {unat (next_free_page p + PAGE_SIZE), unat (next_free_page p + PAGE_SIZE) + 4096}"
    "\<forall>i < 1024. present (phys p) i \<longrightarrow> present (phys p') i"
    using map_user_page_spec [of ?p1 "next_free_page p" v] al by auto
  then show ?thesis using nf(1,2) by (intro exI [of _ p']) (auto simp: map_fresh_page_def)
qed

lemma offset_sum:
  assumes "aligned f"
  shows "unat (f OR v AND 0xFFF) = unat f + unat v mod 4096"
proof -
  have "f AND (v AND mask 12) = 0"
    using aligned_bit [OF assms] by (intro bit_word_eqI) (auto simp: bit_simps)
  then have "f OR v AND mask 12 = f + (v AND mask 12)" by (rule disjunctive_add_eq_or [symmetric])
  moreover have off: "unat (v AND mask 12) = unat v mod 4096"
    by (simp add: unsigned_take_bit_eq take_bit_nat_def flip: take_bit_eq_mask)
  obtain k where k: "unat f = 4096 * k" using assms by (auto simp: aligned_iff elim!: dvdE dest!: mod_0_imp_dvd)
  have "unat f + unat v mod 4096 < 2 ^ 32"
  proof -
    have "k < 1048576" using unat32_less [of f] k by simp
    moreover have "unat v mod 4096 < 4096" by simp
    ultimately have "4096 * k + unat v mod 4096 < 4096 * 1048576" by linarith
    then show ?thesis using k by simp
  qed
  moreover have "unat (f + (v AND mask 12)) = (unat f + unat (v AND mask 12)) mod 2 ^ 32"
    by (simp add: unat_word_ariths)
  ultimately show ?thesis by (simp only: offset_mask(1) off mod_less)
qed

lemma map_fresh_page_same: "unat w div 4096 = unat v div 4096 \<Longrightarrow> map_fresh_page w p = map_fresh_page v p"
  using same_page [of w v] by (simp add: map_fresh_page_def map_user_page_def)

text \<open>A run of pages mapped one after the other, and all the addresses in them.\<close>

fun map_fresh_run :: "nat \<Rightarrow> nat \<Rightarrow> paging \<Rightarrow> paging option" where
  "map_fresh_run a 0 p = Some p"
| "map_fresh_run a (Suc n) p = do { p1 \<leftarrow> map_fresh_page (of_nat a) p; map_fresh_run (a + 4096) n p1 }"

definition fresh_pages :: "paging \<Rightarrow> paging \<Rightarrow> nat \<Rightarrow> nat \<Rightarrow> bool" where
  "fresh_pages p p' a n \<longleftrightarrow>
     (\<forall>w. a \<le> unat w \<and> unat w < a + 4096 * n \<longrightarrow> user_page (phys p') w = open_entry (phys p) (dir_index w)
        \<and> (\<exists>x. page_walk (phys p') w = Some x \<and> unat (next_free_page p) \<le> unat x \<and> unat x < unat (next_free_page p')))
     \<and> (\<forall>v w. a \<le> unat v \<and> unat v < a + 4096 * n \<and> a \<le> unat w \<and> unat w < a + 4096 * n
          \<and> page_walk (phys p') v = page_walk (phys p') w \<longrightarrow> v = w)
     \<and> (\<forall>w. present (phys p) (dir_index w) \<and> \<not> (a \<le> unat w \<and> unat w < a + 4096 * n) \<longrightarrow>
          same_walk (phys p') (phys p) w)"

lemma near_mod_eq:
  assumes "a \<le> x" "x < a + n" "a \<le> y" "y < a + n" "x mod n = y mod (n :: nat)"
  shows "x = y"
proof -
  have "x = y" if "x \<le> y" "x mod n = y mod n" "y < x + n" for x y
  proof -
    have "n dvd y - x" using that(1,2) by (metis mod_eq_dvd_iff_nat)
    then show ?thesis using that(1,3) by (cases "y - x") (auto dest: dvd_imp_le)
  qed
  then show ?thesis using assms by (cases "x \<le> y") (metis add_le_mono1 less_le_trans, metis add_le_mono1 less_le_trans nat_le_linear)
qed

lemma fresh_pages_Cons:
  assumes al: "aligned (next_free_page p)"
    and at: "\<And>w. a \<le> unat w \<Longrightarrow> unat w < a + 4096 \<Longrightarrow> page_walk (phys p1) w = Some (next_free_page p OR w AND 0xFFF)"
      "\<And>w. a \<le> unat w \<Longrightarrow> unat w < a + 4096 \<Longrightarrow> user_page (phys p1) w = open_entry (phys p) (dir_index w)"
    and op: "\<forall>i < 1024. open_entry (phys p1) i = open_entry (phys p) i"
    and rest: "\<And>w. present (phys p) (dir_index w) \<Longrightarrow> \<not> (a \<le> unat w \<and> unat w < a + 4096) \<Longrightarrow> same_walk (phys p1) (phys p) w"
    and nf: "unat (next_free_page p) + 4096 \<le> unat (next_free_page p1)"
    and pres: "\<forall>i < 1024. present (phys p) i \<longrightarrow> present (phys p1) i"
    and fp: "fresh_pages p1 p' (a + 4096) n" and nf': "unat (next_free_page p1) \<le> unat (next_free_page p')"
  shows "fresh_pages p p' a (Suc n)"
proof -
  have pr: "present (phys p1) (dir_index w)" if "a \<le> unat w" "unat w < a + 4096" for w
    using at(1) [OF that] by (auto simp: walk_of split: if_splits)
  have old: "same_walk (phys p') (phys p1) w" if "present (phys p1) (dir_index w)" "\<not> (a + 4096 \<le> unat w \<and> unat w < a + 4096 + 4096 * n)" for w
    using fp that by (simp add: fresh_pages_def)
  have zero: "page_walk (phys p') w = Some (next_free_page p OR w AND 0xFFF)" "user_page (phys p') w = open_entry (phys p) (dir_index w)"
    "unat (next_free_page p OR w AND 0xFFF) = unat (next_free_page p) + unat w mod 4096"
    if "a \<le> unat w" "unat w < a + 4096" for w
    using old [OF pr [OF that]] at [OF that] that offset_sum [OF al, of w] by (simp_all add: same_walk_def)
  have later: "user_page (phys p') w = open_entry (phys p) (dir_index w)" "\<exists>x. page_walk (phys p') w = Some x \<and> unat (next_free_page p1) \<le> unat x \<and> unat x < unat (next_free_page p')"
    if "a + 4096 \<le> unat w" "unat w < a + 4096 + 4096 * n" for w
    using fp that op index_bounds(1) [of w] by (auto simp: fresh_pages_def)
  have 1: "user_page (phys p') w = open_entry (phys p) (dir_index w) \<and> (\<exists>x. page_walk (phys p') w = Some x \<and> unat (next_free_page p) \<le> unat x \<and> unat x < unat (next_free_page p'))"
    if w: "a \<le> unat w" "unat w < a + 4096 * Suc n" for w
  proof (cases "unat w < a + 4096")
    case True
    have "unat w mod 4096 < 4096" by simp
    then show ?thesis using zero [OF w(1) True] nf nf' by auto
  next
    case False
    then show ?thesis using later [of w] w nf by fastforce
  qed
  have 2: "v = w" if v: "a \<le> unat v" "unat v < a + 4096 * Suc n" and w: "a \<le> unat w" "unat w < a + 4096 * Suc n"
    and e: "page_walk (phys p') v = page_walk (phys p') w" for v w
  proof -
    have low: "unat (the (page_walk (phys p') u)) < unat (next_free_page p1)" if "a \<le> unat u" "unat u < a + 4096" for u
    proof -
      have "unat u mod 4096 < 4096" by simp
      then show ?thesis using zero(1,3) [OF that] nf by simp
    qed
    have high: "unat (next_free_page p1) \<le> unat (the (page_walk (phys p') u))"
      if "\<not> unat u < a + 4096" "a \<le> unat u" "unat u < a + 4096 * Suc n" for u
      using later(2) [of u] that by auto
    consider "unat v < a + 4096" "unat w < a + 4096" | "\<not> unat v < a + 4096" "\<not> unat w < a + 4096"
      using low [OF v(1)] low [OF w(1)] high [OF _ v] high [OF _ w] e by fastforce
    then show ?thesis
    proof cases
      case 1
      then have "unat v mod 4096 = unat w mod 4096" using zero(1,3) [OF v(1)] zero(1,3) [OF w(1)] e by simp
      then have "unat v = unat w"
        using near_mod_eq [of a "unat v" 4096 "unat w"] v(1) w(1) 1 by simp
      then show ?thesis by (simp only: word_unat_eq_iff)
    next
      case 2
      then show ?thesis using fp v w e unfolding fresh_pages_def by simp
    qed
  qed
  have 3: "same_walk (phys p') (phys p) w" if w: "present (phys p) (dir_index w)" "\<not> (a \<le> unat w \<and> unat w < a + 4096 * Suc n)" for w
  proof -
    have "present (phys p1) (dir_index w)" using pres w(1) index_bounds(1) by blast
    then show ?thesis using old [of w] rest [of w] w same_walk_trans by auto
  qed
  show ?thesis unfolding fresh_pages_def using 1 2 3 by blast
qed

lemma map_fresh_run_spec:
  assumes "paging_ok p" and "unat (next_free_page p) + 8192 * n \<le> 0x800000" and "a mod 4096 = 0"
    and "a + 4096 * n \<le> 2 ^ 32"
  shows "\<exists>p'. map_fresh_run a n p = Some p' \<and> paging_ok p' \<and> fresh_pages p p' a n
    \<and> unat (next_free_page p) + 4096 * n \<le> unat (next_free_page p')
    \<and> unat (next_free_page p') \<le> unat (next_free_page p) + 8192 * n
    \<and> (\<forall>i < 1024. present (phys p) i \<longrightarrow> present (phys p') i)
    \<and> (\<forall>i < 1024. open_entry (phys p') i = open_entry (phys p) i)"
  using assms
proof (induction n arbitrary: a p)
  case 0
  then show ?case by (auto simp: fresh_pages_def same_walk_def)
next
  case (Suc n)
  let ?v = "of_nat a :: u32"
  have a: "a < 2 ^ 32" using Suc.prems(4) by simp
  have ua: "unat ?v = a" using a by (rule unat_of_nat32)
  obtain q where q: "a = 4096 * q" using Suc.prems(3) by (auto elim!: dvdE dest!: mod_0_imp_dvd)
  have page_nat: "x div 4096 = (4096 * q) div 4096 \<longleftrightarrow> 4096 * q \<le> x \<and> x < 4096 * q + 4096" for x :: nat
    by simp linarith
  have page: "unat w div 4096 = unat ?v div 4096 \<longleftrightarrow> a \<le> unat w \<and> unat w < a + 4096" for w :: u32
    unfolding ua unfolding q by (rule page_nat)
  have room: "unat (next_free_page p) + 8192 \<le> 0x800000" using Suc.prems(2) by simp
  note first = map_fresh_page_spec [OF Suc.prems(1) room]
  obtain p1 where p1: "map_fresh_page ?v p = Some p1" using first [of ?v] by auto
  have at: "page_walk (phys p1) w = Some (next_free_page p OR w AND 0xFFF)" "user_page (phys p1) w = open_entry (phys p) (dir_index w)"
    if "a \<le> unat w" "unat w < a + 4096" for w
    using first [of w] map_fresh_page_same [of w ?v p] page [of w] that p1 by auto
  have ok1: "paging_ok p1" "unat (next_free_page p) + 4096 \<le> unat (next_free_page p1)"
    "unat (next_free_page p1) \<le> unat (next_free_page p) + 8192" "\<forall>i < 1024. present (phys p) i \<longrightarrow> present (phys p1) i"
    "\<forall>i < 1024. open_entry (phys p1) i = open_entry (phys p) i"
    and rest1: "present (phys p) (dir_index w) \<Longrightarrow> \<not> (a \<le> unat w \<and> unat w < a + 4096) \<Longrightarrow> same_walk (phys p1) (phys p) w" for w
    using first [of ?v] p1 page by auto
  have r: "unat (next_free_page p1) + 8192 * n \<le> 0x800000" "(a + 4096) mod 4096 = 0" "a + 4096 + 4096 * n \<le> 2 ^ 32"
    using ok1(3) Suc.prems(2-4) by simp_all
  obtain p' where p': "map_fresh_run (a + 4096) n p1 = Some p'" "paging_ok p'" and fp: "fresh_pages p1 p' (a + 4096) n"
    and nf: "unat (next_free_page p1) + 4096 * n \<le> unat (next_free_page p')"
    "unat (next_free_page p') \<le> unat (next_free_page p1) + 8192 * n"
    and pres: "\<forall>i < 1024. present (phys p1) i \<longrightarrow> present (phys p') i"
    and op: "\<forall>i < 1024. open_entry (phys p') i = open_entry (phys p1) i"
    using Suc.IH [OF ok1(1) r] by (elim exE conjE)
  have "fresh_pages p p' a (Suc n)"
    by (rule fresh_pages_Cons [OF _ at ok1(5) rest1 ok1(2,4) fp]) (use Suc.prems(1) nf(1) in \<open>simp_all add: paging_ok_def\<close>)
  then show ?case using p1 p' ok1(2-5) nf pres op by (intro exI [of _ p']) auto
qed


text \<open>
  A table that \<open>map_user_page\<close> takes from the frame allocator is not cleared: after mapping one
  page in an unused directory entry, any other page of the same 4 MB translates by whatever bytes
  the frame held before.
\<close>
theorem map_user_page_stale_table:
  assumes "paging_ok p" and "unat (next_free_page p) + 4096 \<le> 0x800000"
    and "\<not> present (phys p) (dir_index v)" and "aligned f"
    and "dir_index w = dir_index v" and "table_index w \<noteq> table_index v"
    and "ld32 (phys p) (unat (next_free_page p) + 4 * table_index w) = g OR mask 3" and "aligned g"
  shows "page_walk (phys p) w = None
    \<and> (\<exists>p'. map_user_page v f p = Some p' \<and> page_walk (phys p') w = Some (g OR w AND 0xFFF))"
proof -
  have iv: "dir_index v < 1024" "table_index v < 1024" "table_index w < 1024" by (rule index_bounds)+
  have al: "aligned (next_free_page p)" and room: "unat (next_free_page p) < 0x8000000"
    and lo: "0xA0000 \<le> unat (next_free_page p)"
    using assms(1,2) by (simp_all add: paging_ok_def)
  let ?q = "ensure_table v p"
  note q = ensure_table_ok [OF assms(1) room, where v = v]
  note t = q(5) [OF assms(3)]
  let ?a = "unat (next_free_page p) + 4 * table_index v"
  let ?m = "st32 (phys ?q) ?a (f OR mask 3)"
  have map: "map_user_page v f p = Some (?q\<lparr>phys := ?m\<rparr>)"
    using assms(2) iv(2) by (simp add: map_user_page_unfold [OF al room] store_table_def t)
  have dir: "dir_entry ?m (dir_index v) = dir_entry (phys ?q) (dir_index v)"
    using lo iv(1) by (intro dir_entry_store) simp_all
  then have m: "present ?m (dir_index v)" "table_of ?m (dir_index v) = next_free_page p"
    using q(2) t by (simp_all add: present_def table_of_def)
  have "ld32 ?m (unat (next_free_page p) + 4 * table_index w)
      = ld32 (phys ?q) (unat (next_free_page p) + 4 * table_index w)"
    using assms(6) by (cases "table_index w" "table_index v" rule: linorder_cases) (simp_all add: ld32_st32_other)
  also have "\<dots> = ld32 (phys p) (unat (next_free_page p) + 4 * table_index w)"
    by (rule ld32_cong) (use q(6) lo in simp)
  finally have pte: "ld32 ?m (unat (next_free_page p) + 4 * table_index w) = g OR mask 3"
    using assms(7) by simp
  have "(g OR mask 3) AND NOT 0xFFF = g" "(g OR mask 3) AND PAGE_PRESENT \<noteq> 0"
    using aligned_flags [OF assms(8), of 3] flag_present [of 3 g] by simp_all
  then have "page_walk ?m w = Some (g OR w AND 0xFFF)"
    using m pte by (simp only: walk_of assms(5) Let_def not_True_eq_False if_False)
  moreover have "page_walk (phys p) w = None" using assms(3,5) by (simp add: walk_of)
  ultimately show ?thesis using map by simp
qed

text \<open>The directory entries that are open.\<close>

definition opens :: "mem \<Rightarrow> nat set" where "opens m = {i. i < 1024 \<and> open_entry m i}"

lemma opens_cong: "(\<And>i. i < 1024 \<Longrightarrow> open_entry m i = open_entry m' i) \<Longrightarrow> opens m = opens m'"
  by (auto simp: opens_def)

lemma opens_dir [simp]: "dir_index v \<in> opens m \<longleftrightarrow> open_entry m (dir_index v)"
  using index_bounds(1) by (simp add: opens_def)

text \<open>States to evaluate on: after initialisation, over memory that is not zero.\<close>

lemma init_loop_other: "i + n \<le> 1024 \<Longrightarrow> 0x9F000 \<le> x \<Longrightarrow> init_paging_loop i n m x = m x"
  by (induction n arbitrary: i m)
    (simp_all add: st32_other page_directory_def page_table_kernel_def page_table_kernel2_def)

lemma init_paging_other: "0x9F000 \<le> x \<Longrightarrow> phys (init_paging p) x = phys p x"
  by (simp add: init_paging_def Let_def st32_other page_directory_def init_loop_other)

lemma init_loop_low: "i + n \<le> 1024 \<Longrightarrow> x < 0x9C000 \<Longrightarrow> init_paging_loop i n m x = m x"
  by (induction n arbitrary: i m)
    (simp_all add: st32_other page_directory_def page_table_kernel_def page_table_kernel2_def)

lemma init_paging_low: "x < 0x9C000 \<Longrightarrow> phys (init_paging p) x = phys p x"
  by (simp add: init_paging_def Let_def st32_other page_directory_def init_loop_low)

lemma init_paging_ok:
  assumes "aligned (next_free_page p)" and "0xA0000 \<le> unat (next_free_page p)"
  shows "paging_ok (init_paging p)" and "2 \<le> i \<Longrightarrow> i < 1024 \<Longrightarrow> \<not> present (phys (init_paging p)) i"
    and "next_free_page (init_paging p) = next_free_page p"
    and "table_of (phys (init_paging p)) 0 = 0x9D000" and "table_of (phys (init_paging p)) 1 = 0x9E000"
proof -
  let ?m = "phys (init_paging p)"
  note dir = init_paging_entries(1) [of _ p]
  show absent: "\<not> present ?m i" if "2 \<le> i" "i < 1024" for i
    using dir [OF that(2)] that(1) by (simp add: present_def)
  show nf: "next_free_page (init_paging p) = next_free_page p" by (simp add: init_paging_def Let_def)
  have al: "aligned (0x9D000 :: u32)" "aligned (0x9E000 :: u32)" by (simp_all add: aligned_iff)
  have "(0x9D000 OR mask 2 :: u32) AND NOT 0xFFF = 0x9D000" "(0x9E000 OR mask 2 :: u32) AND NOT 0xFFF = 0x9E000"
    using aligned_flags [OF al(1), of 2] aligned_flags [OF al(2), of 2] by simp_all
  then show tab: "table_of ?m 0 = 0x9D000" "table_of ?m 1 = 0x9E000"
    using dir [of 0] dir [of 1] by (simp_all add: table_of_def page_table_kernel_def page_table_kernel2_def)
  have two: "i = 0 \<or> i = 1" if "present ?m i" "i < 1024" for i
    using absent [of i] that by linarith
  show "paging_ok (init_paging p)" unfolding paging_ok_def nf
  proof (intro conjI allI impI)
    show "aligned (next_free_page p)" "0xA0000 \<le> unat (next_free_page p)" by (rule assms)+
    fix i assume i: "(i::nat) < 1024" "present ?m i"
    show "0x9D000 \<le> unat (table_of ?m i)" using two [OF i(2,1)] tab by auto
    show "unat (table_of ?m i) + 4096 \<le> unat (next_free_page p)" using two [OF i(2,1)] tab assms(2) by auto
  next
    fix i j assume "(i::nat) < 1024" "(j::nat) < 1024" "present ?m i" "present ?m j" "table_of ?m i = table_of ?m j"
    then show "i = j" using two [of i] two [of j] tab by auto
  qed
qed

definition dirty_memory :: mem where
  "dirty_memory x = (if x mod 4 = 0 then 7 else if x mod 4 = 2 then 0x10 else 0)"

definition paging0 :: paging where
  "paging0 = init_paging \<lparr>phys = dirty_memory, next_free_page = 0x200000\<rparr>"

lemma paging0_ok: "paging_ok paging0" "2 \<le> i \<Longrightarrow> i < 1024 \<Longrightarrow> \<not> present (phys paging0) i"
  "next_free_page paging0 = 0x200000" "unat (next_free_page paging0) + 4096 \<le> 0x800000"
  using init_paging_ok [of "\<lparr>phys = dirty_memory, next_free_page = 0x200000\<rparr>"]
  by (simp_all add: paging0_def aligned_iff)

lemma user_shell_index: "dir_index 0xC0000000 = 768" "table_index 0xC0000000 = 0"
  "dir_index 0xC0001000 = 768" "table_index 0xC0001000 = 1" "aligned (0x300000 :: u32)" "aligned (0x100000 :: u32)"
  by (simp_all add: dir_index_nat table_index_nat aligned_iff)


lemma dirty_entry: "ld32 (phys paging0) (unat (next_free_page paging0) + 4 * 1) = 0x100000 OR mask 3"
proof -
  have "ld32 (phys paging0) 0x200004 = ld32 dirty_memory 0x200004"
    by (rule ld32_cong) (simp add: paging0_def init_paging_other)
  also have "\<dots> = 0x100000 OR mask 3" by (simp add: ld32_def dirty_memory_def mask_eq_exp_minus_1)
  finally show ?thesis by (simp add: paging0_ok(3))
qed

theorem map_user_page_stale_table_witness:
  "page_walk (phys paging0) 0xC0001000 = None
    \<and> (\<exists>p'. map_user_page 0xC0000000 0x300000 paging0 = Some p' \<and> page_walk (phys p') 0xC0001000 = Some 0x100000)"
  using map_user_page_stale_table [OF paging0_ok(1,4), of "0xC0000000" "0x300000" "0xC0001000" "0x100000"]
    user_shell_index paging0_ok(2) [of 768] dirty_entry
  by simp

end
