(* ===== verification/Time.thy ===== *)
theory Time
  imports Prelude "HOL-Library.Signed_Division"
begin

text \<open>
  Calendar and clock: \<open>kernel/time.c\<close>, and the tick counter of \<open>kernel/kernel.c\<close>.  \<open>int\<close> and
  \<open>long\<close> are 32 bits wide; signed overflow and an index outside the month table are undefined and
  give \<open>None\<close>.  The reference is the Gregorian calendar, as sums of year and month lengths.
\<close>

section \<open>The code\<close>

definition i32 :: "int \<Rightarrow> int option" where
  "i32 x = (if - 0x80000000 \<le> x \<and> x < 0x80000000 then Some x else None)"

definition MINUTE :: int where "MINUTE = 60"
definition HOUR :: int where "HOUR = MINUTE * 60"
definition DAY :: int where "DAY = 24 * HOUR"
definition YEAR :: int where "YEAR = 365 * DAY"

lemmas time_consts = MINUTE_def HOUR_def DAY_def YEAR_def

record tm =
  tm_sec :: int
  tm_min :: int
  tm_hour :: int
  tm_mday :: int
  tm_mon :: int
  tm_year :: int

definition month :: "int list" where
  "month = [0,
    DAY * 31,
    DAY * (31 + 29),
    DAY * (31 + 29 + 31),
    DAY * (31 + 29 + 31 + 30),
    DAY * (31 + 29 + 31 + 30 + 31),
    DAY * (31 + 29 + 31 + 30 + 31 + 30),
    DAY * (31 + 29 + 31 + 30 + 31 + 30 + 31),
    DAY * (31 + 29 + 31 + 30 + 31 + 30 + 31 + 31),
    DAY * (31 + 29 + 31 + 30 + 31 + 30 + 31 + 31 + 30),
    DAY * (31 + 29 + 31 + 30 + 31 + 30 + 31 + 31 + 30 + 31),
    DAY * (31 + 29 + 31 + 30 + 31 + 30 + 31 + 31 + 30 + 31 + 30)]"

text \<open>One checked addition of a product.\<close>

definition add_mul :: "int \<Rightarrow> int \<Rightarrow> int \<Rightarrow> int option" where
  "add_mul res a b = do { p \<leftarrow> i32 (a * b); i32 (res + p) }"

definition kernel_mktime :: "tm \<Rightarrow> int option" where
  "kernel_mktime t = do {
     year \<leftarrow> i32 (tm_year t - 70);
     y1 \<leftarrow> i32 (YEAR * year);
     yp \<leftarrow> i32 (year + 1);
     res \<leftarrow> add_mul y1 DAY (yp sdiv 4);
     (if tm_mon t < 0 \<or> 11 < tm_mon t then None else Some ());
     res \<leftarrow> i32 (res + month ! nat (tm_mon t));
     y4 \<leftarrow> i32 (year + 4);
     res \<leftarrow> (if tm_mon t > 1 \<and> y4 smod 4 \<noteq> 0 then i32 (res - DAY) else Some res);
     md \<leftarrow> i32 (tm_mday t - 1);
     res \<leftarrow> add_mul res DAY md;
     res \<leftarrow> add_mul res HOUR (tm_hour t);
     res \<leftarrow> add_mul res MINUTE (tm_min t);
     i32 (res + tm_sec t)
   }"

definition HZ :: u32 where "HZ = 100"

definition uptime :: "u32 \<Rightarrow> u32" where
  "uptime jiffies = jiffies div HZ"

section \<open>The calendar\<close>

definition leap :: "nat \<Rightarrow> bool" where
  "leap y = (4 dvd y \<and> (\<not> 100 dvd y \<or> 400 dvd y))"

definition month_lengths :: "nat \<Rightarrow> nat list" where
  "month_lengths y = [31, if leap y then 29 else 28, 31, 30, 31, 30, 31, 31, 30, 31, 30, 31]"

text \<open>Days from 1970-01-01 to the first of a month (counted from 0) of a year.\<close>

fun days_to_year :: "nat \<Rightarrow> nat" where
  "days_to_year 0 = 0"
| "days_to_year (Suc k) = days_to_year k + sum_list (month_lengths (1970 + k))"

definition days_to_month :: "nat \<Rightarrow> nat \<Rightarrow> nat" where
  "days_to_month k mon = days_to_year k + sum_list (take mon (month_lengths (1970 + k)))"

text \<open>The seconds since the epoch of a broken-down time in year \<open>1970 + k\<close>.\<close>

definition epoch_seconds :: "nat \<Rightarrow> tm \<Rightarrow> int" where
  "epoch_seconds k t = 86400 * (int (days_to_month k (nat (tm_mon t))) + tm_mday t - 1)
     + 3600 * tm_hour t + 60 * tm_min t + tm_sec t"

definition tm_ok :: "tm \<Rightarrow> bool" where
  "tm_ok t \<longleftrightarrow> 0 \<le> tm_sec t \<and> tm_sec t \<le> 60 \<and> 0 \<le> tm_min t \<and> tm_min t \<le> 59 \<and> 0 \<le> tm_hour t \<and> tm_hour t \<le> 23
     \<and> 1 \<le> tm_mday t \<and> tm_mday t \<le> 31 \<and> 0 \<le> tm_mon t \<and> tm_mon t \<le> 11"

lemma leap_window:
  assumes "k < 68"
  shows "leap (1970 + k) \<longleftrightarrow> k mod 4 = 2"
proof -
  have "400 dvd 1970 + k" if "100 dvd 1970 + k"
  proof -
    obtain c where c: "1970 + k = 100 * c" using \<open>100 dvd 1970 + k\<close> by (elim dvdE)
    have "c < 21" "19 < c" using c assms by linarith+
    then have "1970 + k = 2000" using c by simp
    then show ?thesis by simp
  qed
  moreover have "4 dvd 1970 + k \<longleftrightarrow> k mod 4 = 2" by presburger
  ultimately show ?thesis by (auto simp: leap_def)
qed

lemma days_to_year_closed: "k \<le> 68 \<Longrightarrow> days_to_year k = 365 * k + (k + 1) div 4"
proof (induction k)
  case (Suc k)
  have "(Suc k + 1) div 4 = (k + 1) div 4 + (if k mod 4 = 2 then 1 else 0)" by presburger
  then show ?case using Suc leap_window [of k] by (simp add: month_lengths_def)
qed simp

text \<open>The error of the code's leap correction, in days.\<close>

definition leap_error :: "nat \<Rightarrow> int \<Rightarrow> int" where
  "leap_error k mon = (if mon \<le> 1 then 0 else if k mod 4 = 0 then 1 else if k mod 4 = 2 then -1 else 0)"

lemma month_table:
  assumes "0 \<le> mon" and "mon \<le> 11" and "k < 68"
  shows "month ! nat mon - (if mon > 1 \<and> k mod 4 \<noteq> 0 then DAY else 0)
    = 86400 * (int (sum_list (take (nat mon) (month_lengths (1970 + k)))) + leap_error k mon)"
proof -
  obtain m where m: "mon = int m" "m < 12" using assms(1,2)
    by (intro that [of "nat mon"]) auto
  have "m = 0 \<or> m = 1 \<or> m = 2 \<or> m = 3 \<or> m = 4 \<or> m = 5 \<or> m = 6 \<or> m = 7 \<or> m = 8 \<or> m = 9 \<or> m = 10 \<or> m = 11"
    using m(2) by arith
  then show ?thesis using leap_window [OF assms(3)]
    by (elim disjE; cases "k mod 4 = 2"; cases "k mod 4 = 0";
        simp add: m(1) month_def month_lengths_def leap_error_def time_consts)
qed

lemma small_year:
  assumes "tm_year t = int k + 70" and "k < 68"
  shows "(int k + 1) sdiv 4 = int ((k + 1) div 4)" and "(int k + 4) smod 4 = 0 \<longleftrightarrow> k mod 4 = 0"
proof -
  show "(int k + 1) sdiv 4 = int ((k + 1) div 4)" by (simp add: signed_divide_int_def zdiv_int add.commute)
  have "(int k + 4) smod 4 = (int k + 4) mod 4" by (simp add: signed_modulo_int_def)
  also have "\<dots> = int (k mod 4)" by (simp add: zmod_int)
  finally show "(int k + 4) smod 4 = 0 \<longleftrightarrow> k mod 4 = 0" by simp
qed

lemma i32_Some: "- 0x80000000 \<le> x \<Longrightarrow> x < 0x80000000 \<Longrightarrow> i32 x = Some x"
  by (simp add: i32_def)

lemma month_bounds:
  assumes "0 \<le> mon" and "mon \<le> 11"
  shows "0 \<le> month ! nat mon \<and> month ! nat mon \<le> 28944000"
proof -
  have "nat mon \<in> set [0..<12]" using assms by auto
  moreover have "\<forall>m \<in> set [0..<12]. 0 \<le> month ! m \<and> month ! m \<le> 28944000" by code_simp
  ultimately show ?thesis by blast
qed

text \<open>
  C35. For every valid date from 1970 to the end of 2037 the conversion is free of overflow, and its
  result is the number of seconds since the epoch except from March on in the even years: a day
  too much in 1970, 1974 and every fourth year after, a day too little in the leap years.
\<close>
theorem mktime_seconds:
  assumes "tm_ok t" and "tm_year t = int k + 70" and "k < 68"
  shows "kernel_mktime t = Some (epoch_seconds k t + 86400 * leap_error k (tm_mon t))"
proof -
  let ?q = "int ((k + 1) div 4)"
  let ?m = "month ! nat (tm_mon t)" and ?corr = "if tm_mon t > 1 \<and> k mod 4 \<noteq> 0 then DAY else 0"
  have f: "0 \<le> tm_sec t" "tm_sec t \<le> 60" "0 \<le> tm_min t" "tm_min t \<le> 59" "0 \<le> tm_hour t" "tm_hour t \<le> 23"
    "1 \<le> tm_mday t" "tm_mday t \<le> 31" "0 \<le> tm_mon t" "tm_mon t \<le> 11"
    using assms(1) by (simp_all add: tm_ok_def)
  have mb: "0 \<le> ?m" "?m \<le> 28944000" using month_bounds [OF f(9,10)] by auto
  have cb: "0 \<le> ?corr" "?corr \<le> 86400" by (simp_all add: time_consts)
  have q: "0 \<le> ?q" "?q \<le> 17" using assms(3) by auto
  have k: "0 \<le> int k" "int k \<le> 67" using assms(3) by auto
  note tbl = month_table [OF f(9,10) assms(3)]
  note yr = small_year [OF assms(2,3)]
  have res: "kernel_mktime t = Some (31536000 * int k + 86400 * ?q + ?m - ?corr
      + 86400 * (tm_mday t - 1) + 3600 * tm_hour t + 60 * tm_min t + tm_sec t)"
  proof (cases "tm_mon t > 1 \<and> k mod 4 \<noteq> 0")
    case True
    then have "?corr = 86400" by (simp add: time_consts)
    then show ?thesis using f mb q k yr True
      by (simp add: kernel_mktime_def add_mul_def assms(2) time_consts i32_Some)
  next
    case False
    then have "?corr = 0" by auto
    then show ?thesis using f mb q k yr False
      by (simp add: kernel_mktime_def add_mul_def assms(2) time_consts i32_Some)
  qed
  have "31536000 * int k + 86400 * ?q = 86400 * int (days_to_year k)"
    using assms(3) by (simp add: days_to_year_closed)
  then show ?thesis unfolding res using tbl
    by (simp add: epoch_seconds_def days_to_month_def algebra_simps)
qed

definition new_year_1971 :: tm where
  "new_year_1971 = \<lparr>tm_sec = 0, tm_min = 0, tm_hour = 0, tm_mday = 1, tm_mon = 0, tm_year = 71\<rparr>"

definition march_1972 :: tm where
  "march_1972 = \<lparr>tm_sec = 0, tm_min = 0, tm_hour = 0, tm_mday = 1, tm_mon = 2, tm_year = 72\<rparr>"

text \<open>The second date shows the error: the correct value is 68256000.\<close>

theorem mktime_seconds_witness:
  "kernel_mktime new_year_1971 = Some 31536000 \<and> kernel_mktime march_1972 = Some (68256000 - 86400)
    \<and> epoch_seconds 2 march_1972 = 68256000"
proof -
  have e: "epoch_seconds 1 new_year_1971 = 31536000" "epoch_seconds 2 march_1972 = 68256000" by code_simp+
  have "kernel_mktime new_year_1971 = Some (epoch_seconds 1 new_year_1971 + 86400 * leap_error 1 (tm_mon new_year_1971))"
    by (rule mktime_seconds) (simp_all add: new_year_1971_def tm_ok_def)
  moreover have "kernel_mktime march_1972 = Some (epoch_seconds 2 march_1972 + 86400 * leap_error 2 (tm_mon march_1972))"
    by (rule mktime_seconds) (simp_all add: march_1972_def tm_ok_def)
  moreover have "leap_error 1 (tm_mon new_year_1971) = 0" "leap_error 2 (tm_mon march_1972) = -1"
    by (simp_all add: leap_error_def new_year_1971_def march_1972_def)
  ultimately show ?thesis by (simp only: e) simp
qed

end
