(* ===== verification/Boot.thy ===== *)
theory Boot
  imports Keyboard Paging Time
begin

text \<open>
  The processor tables and the board of \<open>kernel/kernel.c\<close>: the serial port, the global descriptor
  table, the interrupt gates, the interrupt controller, the timer.  A packed structure is a record
  with a function to its bytes; what the processor reads back from those bytes is decoded by the
  functions \<open>desc_...\<close> and \<open>gate_...\<close>.  The addresses of the handlers, of the task state segment and of the
  gate table are the linker's, so they are parameters.  \<open>lgdt\<close>, \<open>lidt\<close> and \<open>ltr\<close> are the stores
  to the fields \<open>gdtr\<close>, \<open>idtr\<close> and \<open>task_reg\<close>.
\<close>

section \<open>Serial port\<close>

definition COM1 :: u16 where "COM1 = 0x3F8"

definition serial_write :: "u8 \<Rightarrow> io \<Rightarrow> io option" where
  "serial_write c s = do {
     s1 \<leftarrow> poll_until True (COM1 + 5) 0x20 s;
     Some (write_port COM1 c s1)
   }"

partial_function (option) serial_print_loop :: "cptr \<Rightarrow> nat \<Rightarrow> io \<Rightarrow> io option" where
  "serial_print_loop p i s =
     (if p i \<noteq> 0 then do {
        s1 \<leftarrow> (if p i = chr CHR 0x0A then serial_write (chr CHR 0x0D) s else Some s);
        s2 \<leftarrow> serial_write (p i) s1;
        serial_print_loop p (Suc i) s2
      } else Some s)"

definition serial_print :: "cptr \<Rightarrow> io \<Rightarrow> io option" where
  "serial_print p s = serial_print_loop p 0 s"

text \<open>The argument of the loop counts the digits still to do: \<open>i\<close> is four times one less.\<close>

fun serial_hex_loop :: "nat \<Rightarrow> u32 \<Rightarrow> io \<Rightarrow> io option" where
  "serial_hex_loop 0 val s = Some s"
| "serial_hex_loop (Suc n) val s = do {
     s1 \<leftarrow> serial_write (lit ''0123456789ABCDEF'' ! unat (drop_bit (4 * n) val AND 0xF)) s;
     serial_hex_loop n val s1
   }"

definition serial_hex :: "u32 \<Rightarrow> io \<Rightarrow> io option" where
  "serial_hex val s = do { s1 \<leftarrow> serial_print (lit_ptr (lit ''0x'')) s; serial_hex_loop 8 val s1 }"

section \<open>Segment descriptors\<close>

definition GDT_SIZE :: nat where "GDT_SIZE = 8"
definition GDTBASE :: u32 where "GDTBASE = 0x00000800"

record GDT_entry =
  lim0_15 :: u16
  base0_15 :: u16
  base16_23 :: u8
  acces :: u8
  lim16_19 :: "4 word"
  other :: "4 word"
  base24_31 :: u8

definition init_gdt_descriptor :: "u32 \<Rightarrow> u32 \<Rightarrow> u8 \<Rightarrow> u8 \<Rightarrow> GDT_entry" where
  "init_gdt_descriptor base limite acc oth =
     \<lparr>lim0_15 = ucast (limite AND 0xffff),
      base0_15 = ucast (base AND 0xffff),
      base16_23 = ucast (drop_bit 16 (base AND 0xff0000)),
      acces = acc,
      lim16_19 = ucast (drop_bit 16 (limite AND 0xf0000)),
      other = ucast (oth AND 0xf),
      base24_31 = ucast (drop_bit 24 (base AND 0xff000000))\<rparr>"

text \<open>The packed layout; the first bit field is the low half of its byte.\<close>

definition GDT_entry_bytes :: "GDT_entry \<Rightarrow> u8 list" where
  "GDT_entry_bytes e =
     [ucast (lim0_15 e), ucast (drop_bit 8 (lim0_15 e)), ucast (base0_15 e), ucast (drop_bit 8 (base0_15 e)),
      base16_23 e, acces e, ucast (lim16_19 e) OR push_bit 4 (ucast (other e)), base24_31 e]"

section \<open>Gates\<close>

definition IDT_SIZE :: nat where "IDT_SIZE = 256"
definition INTERRUPT_GATE :: u8 where "INTERRUPT_GATE = 0x8e"
definition KERNEL_CODE_SEGMENT_OFFSET :: u16 where "KERNEL_CODE_SEGMENT_OFFSET = 0x08"

record IDT_entry =
  offset_lowerbits :: u16
  selector :: u16
  zero :: u8
  type_attr :: u8
  offset_higherbits :: u16

definition no_gate :: IDT_entry where
  "no_gate = \<lparr>offset_lowerbits = 0, selector = 0, zero = 0, type_attr = 0, offset_higherbits = 0\<rparr>"

record tables =
  kgdt :: "GDT_entry list"
  low_mem :: mem
  gdtr :: "u16 \<times> u32"
  data_seg :: u16
  code_seg :: u16
  task_reg :: u16
  tss_io_map :: u16
  tss_esp0 :: u32
  tss_ss0 :: u32
  IDT :: "IDT_entry list"
  idtr :: "u16 \<times> u32"

definition gdt_init :: "u32 \<Rightarrow> tables \<Rightarrow> tables" where
  "gdt_init default_tss t =
     (let t1 = t\<lparr>tss_io_map := 0, tss_esp0 := 0x1FFF0, tss_ss0 := 0x10\<rparr>;
          t2 = t1\<lparr>kgdt :=
            [init_gdt_descriptor 0x0 0x0 0x00 0x00,
             init_gdt_descriptor 0x0 0xFFFFF 0x9B 0x0D,
             init_gdt_descriptor 0x0 0xFFFFF 0x93 0x0D,
             init_gdt_descriptor 0x0 0x0 0x97 0x0D,
             init_gdt_descriptor 0x0 0xFFFFF 0xFF 0x0D,
             init_gdt_descriptor 0x0 0xFFFFF 0xF3 0x0D,
             init_gdt_descriptor 0x0 0xFFFFF 0xF7 0x0D,
             init_gdt_descriptor default_tss 0x67 0xE9 0x00]\<rparr>;
          limite = of_nat (8 * GDT_SIZE - 1);
          t3 = t2\<lparr>low_mem := copy_up (lit_ptr (concat (List.map GDT_entry_bytes (kgdt t2)))) 0 (low_mem t2)
                     (unat GDTBASE) (8 * GDT_SIZE)\<rparr>
      in t3\<lparr>gdtr := (limite, GDTBASE), data_seg := 0x10, code_seg := 0x08, task_reg := 0x38\<rparr>)"

definition set_gate :: "nat \<Rightarrow> u32 \<Rightarrow> u8 \<Rightarrow> IDT_entry list \<Rightarrow> IDT_entry list" where
  "set_gate v handler attr idt = idt[v :=
     \<lparr>offset_lowerbits = ucast (handler AND 0xffff), selector = KERNEL_CODE_SEGMENT_OFFSET, zero = 0,
      type_attr = attr, offset_higherbits = ucast (drop_bit 16 handler)\<rparr>]"

text \<open>The ten writes to the interrupt controllers.\<close>

definition pic_setup :: "io \<Rightarrow> io" where
  "pic_setup s = fold (\<lambda>(p, b). write_port p b)
     [(0x20, 0x11), (0xA0, 0x11), (0x21, 0x20), (0xA1, 0x28), (0x21, 0x04), (0xA1, 0x02),
      (0x21, 0x01), (0xA1, 0x01), (0x21, 0xFC), (0xA1, 0xFE)] s"

text \<open>\<open>idt_ptr\<close> holds the limit in its first 16 bits and the address in the 32 after them.\<close>

definition idt_init :: "u32 \<Rightarrow> u32 \<Rightarrow> u32 \<Rightarrow> u32 \<Rightarrow> tables \<Rightarrow> io \<Rightarrow> tables \<times> io" where
  "idt_init kbd_handler timer_handler syscall_handler idt_address t s =
     (let g1 = set_gate 0x21 kbd_handler INTERRUPT_GATE (IDT t);
          g2 = set_gate 0x20 timer_handler INTERRUPT_GATE g1;
          g3 = set_gate 0x80 syscall_handler 0xEF g2;
          s1 = pic_setup s;
          idt_ptr0 = of_nat (8 * IDT_SIZE) + push_bit 16 (idt_address AND 0xffff);
          idt_ptr1 = drop_bit 16 idt_address
      in (t\<lparr>IDT := g3, idtr := (ucast (idt_ptr0 AND 0xffff), drop_bit 16 idt_ptr0 OR push_bit 16 idt_ptr1)\<rparr>, s1))"

section \<open>Timer\<close>

definition PIT_FREQ :: u32 where "PIT_FREQ = 1193180"

definition pit_init :: "io \<Rightarrow> io" where
  "pit_init s =
     (let divisor = ucast (PIT_FREQ div HZ) :: u16;
          s1 = write_port 0x43 0x36 s;
          s2 = write_port 0x40 (ucast (divisor AND 0xFF)) s1
      in write_port 0x40 (ucast (drop_bit 8 divisor)) s2)"

definition timer_callback :: "u32 \<Rightarrow> io \<Rightarrow> u32 \<times> io" where
  "timer_callback jiffies s = (jiffies + 1, write_port 0x20 0x20 s)"

section \<open>What the processor reads\<close>

text \<open>The fields of the descriptor at an address, and of a gate (Intel 64 and IA-32 manual, volume 3).\<close>

definition desc_limit :: "mem \<Rightarrow> nat \<Rightarrow> u32" where
  "desc_limit m a = ucast (m a) OR push_bit 8 (ucast (m (a + 1))) OR push_bit 16 (ucast (m (a + 6) AND 0xF))"

definition desc_base :: "mem \<Rightarrow> nat \<Rightarrow> u32" where
  "desc_base m a = ucast (m (a + 2)) OR push_bit 8 (ucast (m (a + 3)))
     OR push_bit 16 (ucast (m (a + 4))) OR push_bit 24 (ucast (m (a + 7)))"

definition desc_access :: "mem \<Rightarrow> nat \<Rightarrow> u8" where "desc_access m a = m (a + 5)"
definition desc_flags :: "mem \<Rightarrow> nat \<Rightarrow> u8" where "desc_flags m a = drop_bit 4 (m (a + 6))"
definition desc_dpl :: "mem \<Rightarrow> nat \<Rightarrow> nat" where "desc_dpl m a = unat (drop_bit 5 (desc_access m a) AND 3)"

definition gate_offset :: "IDT_entry \<Rightarrow> u32" where
  "gate_offset e = ucast (offset_lowerbits e) OR push_bit 16 (ucast (offset_higherbits e))"

definition gate_present :: "IDT_entry \<Rightarrow> bool" where "gate_present e = bit (type_attr e) 7"
definition gate_kind :: "IDT_entry \<Rightarrow> u8" where "gate_kind e = type_attr e AND 0xF"
definition gate_dpl :: "IDT_entry \<Rightarrow> nat" where "gate_dpl e = unat (drop_bit 5 (type_attr e) AND 3)"

section \<open>Descriptors\<close>

lemma word_masks: "(0xffff :: u32) = mask 16" "(0xff0000 :: u32) = push_bit 16 (mask 8)" "(0xf0000 :: u32) = push_bit 16 (mask 4)"
  "(0xff000000 :: u32) = push_bit 24 (mask 8)" "(0xf :: u8) = mask 4" "(0xF :: u8) = mask 4"
  by (simp_all add: mask_eq_exp_minus_1 push_bit_eq_mult)

text \<open>A descriptor stored at \<open>a\<close>.\<close>

definition desc_at :: "mem \<Rightarrow> nat \<Rightarrow> GDT_entry \<Rightarrow> bool" where
  "desc_at m a e \<longleftrightarrow> (\<forall>k < 8. m (a + k) = GDT_entry_bytes e ! k)"

lemma desc_atD:
  assumes "desc_at m a e"
  shows "m a = ucast (lim0_15 e)" "m (a + 1) = ucast (drop_bit 8 (lim0_15 e))" "m (a + 2) = ucast (base0_15 e)"
    "m (a + 3) = ucast (drop_bit 8 (base0_15 e))" "m (a + 4) = base16_23 e" "m (a + 5) = acces e"
    "m (a + 6) = ucast (lim16_19 e) OR push_bit 4 (ucast (other e))" "m (a + 7) = base24_31 e"
proof -
  have b: "m (a + k) = GDT_entry_bytes e ! k" if "k < 8" for k using assms that by (simp add: desc_at_def)
  show "m a = ucast (lim0_15 e)" "m (a + 1) = ucast (drop_bit 8 (lim0_15 e))" "m (a + 2) = ucast (base0_15 e)"
    "m (a + 3) = ucast (drop_bit 8 (base0_15 e))" "m (a + 4) = base16_23 e" "m (a + 5) = acces e"
    "m (a + 6) = ucast (lim16_19 e) OR push_bit 4 (ucast (other e))" "m (a + 7) = base24_31 e"
    using b [of 0] b [of 1] b [of 2] b [of 3] b [of 4] b [of 5] b [of 6] b [of 7]
    by (simp_all add: GDT_entry_bytes_def)
qed

lemma desc_at_fields:
  assumes "desc_at m a (init_gdt_descriptor base limite acc oth)"
  shows "desc_base m a = base" and "take_bit 20 limite = limite \<Longrightarrow> desc_limit m a = limite"
    and "desc_access m a = acc" and "desc_flags m a = oth AND 0xF"
proof -
  note b = desc_atD [OF assms]
  show "desc_base m a = base"
    unfolding desc_base_def b init_gdt_descriptor_def GDT_entry.simps word_masks
  proof (rule bit_word_eqI, goal_cases)
    case (1 n)
    then consider "n < 8" | "8 \<le> n" "n < 16" | "16 \<le> n" "n < 24" | "24 \<le> n" "n < 32" by fastforce
    then show ?case by cases (auto simp: bit_simps)
  qed
  show "desc_access m a = acc" by (simp add: desc_access_def b init_gdt_descriptor_def)
  show "desc_flags m a = oth AND 0xF"
    unfolding desc_flags_def b init_gdt_descriptor_def GDT_entry.simps word_masks
    by (rule bit_word_eqI) (auto simp: bit_simps)
  assume l: "take_bit 20 limite = limite"
  show "desc_limit m a = limite"
    unfolding desc_limit_def b init_gdt_descriptor_def GDT_entry.simps word_masks
  proof (rule bit_word_eqI, goal_cases)
    case (1 n)
    have high: "\<not> bit limite n" if "20 \<le> n" using l that by (metis bit_take_bit_iff not_le)
    consider "n < 8" | "8 \<le> n" "n < 16" | "16 \<le> n" "n < 20" | "20 \<le> n" "n < 32" using 1 by fastforce
    then show ?case using high by cases (auto simp: bit_simps)
  qed
qed

lemma concat_blocks:
  assumes "\<And>e. length (f e) = n" and "i < length es" and "k < n"
  shows "concat (List.map f es) ! (n * i + k) = f (es ! i) ! k"
  using assms(2)
proof (induction es arbitrary: i)
  case (Cons e es)
  then show ?case using assms(1,3) by (cases i) (simp_all add: nth_append)
qed simp

lemma GDT_entry_bytes_length [simp]: "length (GDT_entry_bytes e) = 8"
  by (simp add: GDT_entry_bytes_def)

lemma gdt_image:
  assumes "length es = 8" and "i < 8"
  shows "desc_at (copy_up (lit_ptr (concat (List.map GDT_entry_bytes es))) 0 m 0x800 64) (0x800 + 8 * i) (es ! i)"
proof -
  have len: "length (concat (List.map GDT_entry_bytes es)) = 64"
    using assms(1) by (simp add: length_concat comp_def sum_list_triv)
  have "concat (List.map GDT_entry_bytes es) ! (8 * i + k) = GDT_entry_bytes (es ! i) ! k" if "k < 8" for k
    using concat_blocks [of GDT_entry_bytes 8 i es k] assms that by simp
  then show ?thesis using assms(2) len by (simp add: desc_at_def copy_up_apply lit_ptr_def add.assoc)
qed

text \<open>Base, limit, access byte and flags of the descriptor that a selector names.\<close>

definition descriptor :: "tables \<Rightarrow> u16 \<Rightarrow> u32 \<times> u32 \<times> u8 \<times> u8" where
  "descriptor t sel =
     (let a = unat (snd (gdtr t)) + 8 * unat (drop_bit 3 sel); m = low_mem t
      in (desc_base m a, desc_limit m a, desc_access m a, desc_flags m a))"

text \<open>
  The descriptor table that \<open>gdt_init\<close> copies to \<open>0x800\<close> decodes, entry by entry, to the
  segments the code means: flat ring 0 code and data behind the selectors that are loaded, flat ring
  3 code, data and stack behind the selectors of the jumps to user mode, and the task state segment
  at its address; the table register covers exactly the eight entries.
\<close>
theorem gdt_decoded:
  "gdtr (gdt_init tss t) = (63, 0x800)
   \<and> List.map (descriptor (gdt_init tss t)) [0x00, 0x08, 0x10, 0x18, 0x23, 0x2B, 0x33, 0x38]
     = [(0, 0, 0x00, 0x0), (0, 0xFFFFF, 0x9B, 0xD), (0, 0xFFFFF, 0x93, 0xD), (0, 0, 0x97, 0xD),
        (0, 0xFFFFF, 0xFF, 0xD), (0, 0xFFFFF, 0xF3, 0xD), (0, 0xFFFFF, 0xF7, 0xD), (tss, 0x67, 0xE9, 0x0)]"
proof -
  let ?t = "gdt_init tss t"
  have g: "gdtr ?t = (63, 0x800)" by (simp add: gdt_init_def Let_def GDT_SIZE_def GDTBASE_def)
  have at: "desc_at (low_mem ?t) (0x800 + 8 * i) (kgdt ?t ! i)" if "i < 8" for i
    using gdt_image [of "kgdt ?t" i "low_mem t"] that by (simp add: gdt_init_def Let_def GDT_SIZE_def GDTBASE_def)
  have d: "descriptor ?t sel = (base, limite, acc, oth AND 0xF)"
    if "unat (drop_bit 3 sel) = i" "i < 8" "kgdt ?t ! i = init_gdt_descriptor base limite acc oth" "take_bit 20 limite = limite"
    for sel i base limite acc oth
    using desc_at_fields [of "low_mem ?t" "0x800 + 8 * i" base limite acc oth] at [of i] that g
    by (simp add: descriptor_def Let_def)
  have k: "kgdt ?t = [init_gdt_descriptor 0x0 0x0 0x00 0x00, init_gdt_descriptor 0x0 0xFFFFF 0x9B 0x0D,
      init_gdt_descriptor 0x0 0xFFFFF 0x93 0x0D, init_gdt_descriptor 0x0 0x0 0x97 0x0D,
      init_gdt_descriptor 0x0 0xFFFFF 0xFF 0x0D, init_gdt_descriptor 0x0 0xFFFFF 0xF3 0x0D,
      init_gdt_descriptor 0x0 0xFFFFF 0xF7 0x0D, init_gdt_descriptor tss 0x67 0xE9 0x00]"
    by (simp add: gdt_init_def Let_def)
  have l: "take_bit 20 (0xFFFFF :: u32) = 0xFFFFF" "take_bit 20 (0x67 :: u32) = 0x67" "take_bit 20 (0 :: u32) = 0" by simp_all
  show ?thesis
    using g d [of "0x00" 0 _ _ _ "0x00"] d [of "0x08" 1 _ _ _ "0x0D"] d [of "0x10" 2 _ _ _ "0x0D"] d [of "0x18" 3 _ _ _ "0x0D"]
      d [of "0x23" 4 _ _ _ "0x0D"] d [of "0x2B" 5 _ _ _ "0x0D"] d [of "0x33" 6 _ _ _ "0x0D"] d [of "0x38" 7 _ _ _ "0x00"] l
    unfolding k by simp
qed

text \<open>
  \<open>syscall_handler\<close> of \<open>kernel/boot.asm\<close> loads the kernel's data selector into the data segment
  registers and returns with \<open>iretd\<close> without restoring them; on a return to an outer ring the
  processor clears a data segment register whose descriptor is more privileged than that ring.
\<close>

definition syscall_entry :: "tables \<Rightarrow> tables" where
  "syscall_entry t = t\<lparr>data_seg := 0x10\<rparr>"

definition outer_return :: "nat \<Rightarrow> tables \<Rightarrow> tables" where
  "outer_return cpl t =
     (let (base, limite, acc, flags) = descriptor t (data_seg t)
      in if unat (drop_bit 5 acc AND 3) < cpl then t\<lparr>data_seg := 0\<rparr> else t)"

text \<open>
  After a system call user code runs with a null data segment: the entry code loads the ring 0
  selector, nothing restores the user's \<open>0x2B\<close>, and the return to ring 3 clears it, so the next
  access to data faults; the user selector itself would have been kept.
\<close>
theorem syscall_loses_data_segment:
  "data_seg (outer_return 3 (syscall_entry (gdt_init tss t))) = 0
   \<and> data_seg (outer_return 3 ((gdt_init tss t)\<lparr>data_seg := 0x2B\<rparr>)) = 0x2B"
proof -
  let ?t = "gdt_init tss t"
  have keep: "descriptor (?t\<lparr>data_seg := x\<rparr>) = descriptor ?t" for x
    by (simp add: descriptor_def fun_eq_iff Let_def)
  have at: "desc_at (low_mem ?t) (0x800 + 8 * i) (kgdt ?t ! i)" if "i < 8" for i
    using gdt_image [of "kgdt ?t" i "low_mem t"] that by (simp add: gdt_init_def Let_def GDT_SIZE_def GDTBASE_def)
  have g: "snd (gdtr ?t) = 0x800" by (simp add: gdt_init_def Let_def GDTBASE_def)
  have k: "kgdt ?t ! 2 = init_gdt_descriptor 0x0 0xFFFFF 0x93 0x0D" "kgdt ?t ! 5 = init_gdt_descriptor 0x0 0xFFFFF 0xF3 0x0D"
    by (simp_all add: gdt_init_def Let_def)
  have "desc_access (low_mem ?t) 0x810 = 0x93" "desc_access (low_mem ?t) 0x828 = 0xF3"
    using desc_at_fields(3) [of "low_mem ?t" "0x810"] desc_at_fields(3) [of "low_mem ?t" "0x828"] at [of 2] at [of 5] k by simp_all
  then show ?thesis
    by (simp add: outer_return_def syscall_entry_def keep) (simp add: descriptor_def Let_def g)
qed

section \<open>Interrupts\<close>

lemma gate_target:
  "gate_offset \<lparr>offset_lowerbits = ucast (h AND 0xffff), selector = sel, zero = z, type_attr = a,
     offset_higherbits = ucast (drop_bit 16 h)\<rparr> = h"
  unfolding gate_offset_def IDT_entry.simps word_masks
proof (rule bit_word_eqI, goal_cases)
  case (1 n)
  then consider "n < 16" | "16 \<le> n" "n < 32" by fastforce
  then show ?case by cases (auto simp: bit_simps)
qed

lemma idtr_fields:
  "ucast ((2048 + push_bit 16 (a AND 0xffff)) AND 0xffff) = (2048 :: u16)"
  "drop_bit 16 (2048 + push_bit 16 (a AND 0xffff)) OR push_bit 16 (drop_bit 16 a) = (a :: u32)"
proof -
  have two: "(2048 :: u32) = push_bit 11 (mask 1)" by (simp add: push_bit_eq_mult mask_eq_exp_minus_1)
  have eleven: "bit (push_bit 11 (mask 1) :: u32) n \<longleftrightarrow> n = 11" for n
    by (simp only: bit_push_bit_iff bit_mask_iff) auto
  have "push_bit 11 (mask 1) AND push_bit 16 (a AND mask 16) = (0 :: u32)"
    by (rule bit_word_eqI) (simp only: bit_and_iff eleven, auto simp: bit_push_bit_iff bit_and_iff)
  then have split: "2048 + push_bit 16 (a AND 0xffff) = push_bit 11 (mask 1) OR push_bit 16 (a AND mask 16)"
    unfolding two word_masks by (rule disjunctive_add_eq_or)
  have eleven16: "bit (2048 :: u16) n \<longleftrightarrow> n = 11" "bit (2048 :: u32) n \<longleftrightarrow> n = 11" for n
  proof -
    have two: "(2048 :: u16) = push_bit 11 (mask 1)" "(2048 :: u32) = push_bit 11 (mask 1)"
      by (simp_all add: push_bit_eq_mult mask_eq_exp_minus_1)
    show "bit (2048 :: u16) n \<longleftrightarrow> n = 11" "bit (2048 :: u32) n \<longleftrightarrow> n = 11"
      unfolding two by (simp_all only: bit_push_bit_iff bit_mask_iff) auto
  qed
  show "ucast ((2048 + push_bit 16 (a AND 0xffff)) AND 0xffff) = (2048 :: u16)"
    unfolding split unfolding word_masks by (rule bit_word_eqI) (auto simp: bit_simps eleven16)
  show "drop_bit 16 (2048 + push_bit 16 (a AND 0xffff)) OR push_bit 16 (drop_bit 16 a) = a"
    unfolding split
  proof (rule bit_word_eqI, goal_cases)
    case (1 n)
    then consider "n < 16" | "16 \<le> n" "n < 32" by fastforce
    then show ?case by cases (auto simp: bit_simps)
  qed
qed

lemma idt_entries:
  fixes t s kbd_handler timer_handler syscall_handler idt_address
  defines "t' \<equiv> fst (idt_init kbd_handler timer_handler syscall_handler idt_address (t\<lparr>IDT := replicate 256 no_gate\<rparr>) s)"
  shows "idtr t' = (8 * 256, idt_address)
    \<and> List.map (\<lambda>v. (gate_offset (IDT t' ! v), selector (IDT t' ! v), gate_dpl (IDT t' ! v), gate_kind (IDT t' ! v))) [0x20, 0x21, 0x80]
      = [(timer_handler, 0x08, 0, 0xE), (kbd_handler, 0x08, 0, 0xE), (syscall_handler, 0x08, 3, 0xF)]
    \<and> {v. v < 256 \<and> gate_present (IDT t' ! v)} = {0x20, 0x21, 0x80}"
proof -
  let ?g = "\<lambda>(h :: u32) a. \<lparr>offset_lowerbits = ucast (h AND 0xffff), selector = KERNEL_CODE_SEGMENT_OFFSET, zero = 0,
      type_attr = a, offset_higherbits = ucast (drop_bit 16 h)\<rparr>"
  have t': "IDT t' = (((replicate 256 no_gate)[0x21 := ?g kbd_handler INTERRUPT_GATE])[0x20 := ?g timer_handler INTERRUPT_GATE])
      [0x80 := ?g syscall_handler 0xEF]"
    "idtr t' = (2048, idt_address)"
    using idtr_fields [of idt_address] by (simp_all add: t'_def idt_init_def Let_def set_gate_def IDT_SIZE_def)
  have at: "IDT t' ! 0x20 = ?g timer_handler INTERRUPT_GATE" "IDT t' ! 0x21 = ?g kbd_handler INTERRUPT_GATE"
    "IDT t' ! 0x80 = ?g syscall_handler 0xEF" "v < 256 \<Longrightarrow> v \<notin> {0x20, 0x21, 0x80} \<Longrightarrow> IDT t' ! v = no_gate" for v
    unfolding t'(1) by (simp_all add: nth_list_update)
  have none: "\<not> gate_present no_gate" by (simp add: gate_present_def no_gate_def)
  have p: "gate_present (?g h INTERRUPT_GATE)" "gate_present (?g h 0xEF)" "gate_dpl (?g h INTERRUPT_GATE) = 0" "gate_dpl (?g h 0xEF) = 3"
      "gate_kind (?g h INTERRUPT_GATE) = 0xE" "gate_kind (?g h 0xEF) = 0xF" for h
    by (simp_all add: gate_present_def gate_dpl_def gate_kind_def INTERRUPT_GATE_def bit_iff_odd_drop_bit)
  have "{v. v < 256 \<and> gate_present (IDT t' ! v)} = {0x20, 0x21, 0x80}"
  proof (rule set_eqI)
    fix v show "v \<in> {v. v < 256 \<and> gate_present (IDT t' ! v)} \<longleftrightarrow> v \<in> {0x20, 0x21, 0x80}"
      using at p(1,2) none by (cases "v \<in> {0x20, 0x21, 0x80}") auto
  qed
  then show ?thesis using at(1-3) p(3-6) t'(2) by (simp add: gate_target) (simp add: KERNEL_CODE_SEGMENT_OFFSET_def)
qed

text \<open>
  C34. After \<open>idt_init\<close> the processor finds the gate table at its address; exactly the timer, the
  keyboard and the system call have a gate, each leading to its handler in the kernel's code
  segment, and only the system call may be raised from ring 3.  The two interrupts go through interrupt
  gates, the system call through a trap gate (\<open>0xF\<close>), so a call that waits for a key can be interrupted by
  the keyboard.  No processor exception has a gate.
  The limit in the table register is one more than that of the 256 entries.
\<close>
theorem idt_gates:
  "let t' = fst (idt_init kbd_handler timer_handler syscall_handler idt_address (t\<lparr>IDT := replicate 256 no_gate\<rparr>) s)
   in idtr t' = (8 * 256, idt_address)
     \<and> List.map (\<lambda>v. (gate_offset (IDT t' ! v), selector (IDT t' ! v), gate_dpl (IDT t' ! v), gate_kind (IDT t' ! v))) [0x20, 0x21, 0x80]
       = [(timer_handler, 0x08, 0, 0xE), (kbd_handler, 0x08, 0, 0xE), (syscall_handler, 0x08, 3, 0xF)]
     \<and> {v. v < 256 \<and> gate_present (IDT t' ! v)} = {0x20, 0x21, 0x80}"
  unfolding Let_def by (rule idt_entries)

section \<open>The interrupt controller\<close>

text \<open>
  The state of one 8259A as its data sheet has it: a command byte with bit 4 set starts an
  initialisation, whose next three data bytes are the vector base, the wiring and the mode; every
  other data byte is the interrupt mask.
\<close>

record pic =
  pic_pending :: nat
  pic_base :: u8
  pic_mask :: u8

definition pic_byte :: "u16 \<Rightarrow> u16 \<Rightarrow> u16 \<times> u8 \<Rightarrow> pic \<Rightarrow> pic" where
  "pic_byte cmd dat w c =
     (if fst w = cmd then (if bit (snd w) 4 then c\<lparr>pic_pending := 3, pic_mask := 0\<rparr> else c)
      else if fst w = dat then
        (if pic_pending c = 0 then c\<lparr>pic_mask := snd w\<rparr>
         else (if pic_pending c = 3 then c\<lparr>pic_base := snd w\<rparr> else c)\<lparr>pic_pending := pic_pending c - 1\<rparr>)
      else c)"

definition pic_state :: "u16 \<Rightarrow> u16 \<Rightarrow> (u16 \<times> u8) list \<Rightarrow> pic" where
  "pic_state cmd dat ws = fold (pic_byte cmd dat) ws \<lparr>pic_pending = 0, pic_base = 0, pic_mask = 0\<rparr>"

lemma pic_state_append: "pic_state cmd dat (xs @ ys) = fold (pic_byte cmd dat) ys (pic_state cmd dat xs)"
  by (simp add: pic_state_def)

lemma pic_ignores: "\<forall>w \<in> set ws. fst w \<noteq> cmd \<and> fst w \<noteq> dat \<Longrightarrow> fold (pic_byte cmd dat) ws c = c"
  by (induction ws arbitrary: c) (auto simp: pic_byte_def)

abbreviation master_pic :: "io \<Rightarrow> pic" where "master_pic s \<equiv> pic_state 0x20 0x21 (port_out s)"

lemma pic_setup_out:
  "port_out (pic_setup s) = port_out s @ [(0x20, 0x11), (0xA0, 0x11), (0x21, 0x20), (0xA1, 0x28), (0x21, 0x04),
     (0xA1, 0x02), (0x21, 0x01), (0xA1, 0x01), (0x21, 0xFC), (0xA1, 0xFE)]"
  "port_in (pic_setup s) = port_in s"
  by (simp_all add: pic_setup_def)

lemma bit4: "bit (0x11 :: u8) 4"
  by (simp add: bit_iff_odd_drop_bit)

lemma pic_after_setup: "master_pic (pic_setup s) = \<lparr>pic_pending = 0, pic_base = 0x20, pic_mask = 0xFC\<rparr>"
  unfolding pic_setup_out pic_state_append by (cases "pic_state 0x20 0x21 (port_out s)") (simp add: pic_byte_def bit4)

section \<open>Serial output\<close>

text \<open>The transmitter becomes ready again and again.\<close>

definition serial_ready :: "io \<Rightarrow> bool" where
  "serial_ready s \<longleftrightarrow> (\<forall>n. \<exists>k. port_in s (COM1 + 5) (n + k) AND 0x20 \<noteq> 0)"

lemma serial_write_spec:
  assumes "serial_ready s"
  shows "\<exists>s'. serial_write c s = Some s' \<and> port_out s' = port_out s @ [(COM1, c)] \<and> port_in s' = port_in s \<and> serial_ready s'"
proof -
  obtain k where "port_in s (COM1 + 5) (port_pos s (COM1 + 5) + k) AND 0x20 \<noteq> 0"
    using assms unfolding serial_ready_def by blast
  then obtain s1 where s1: "poll_until True (COM1 + 5) 0x20 s = Some s1" "port_out s1 = port_out s" "port_in s1 = port_in s"
    using poll_until_returns [of s "COM1 + 5" k "0x20" True] by auto
  then show ?thesis using assms by (simp add: serial_write_def serial_ready_def)
qed

text \<open>What a string looks like on the wire: a carriage return in front of every line feed.\<close>

definition wire :: "u8 list \<Rightarrow> u8 list" where
  "wire t = concat (List.map (\<lambda>b. if b = chr CHR 0x0A then [chr CHR 0x0D, b] else [b]) t)"

lemma serial_print_loop_spec:
  assumes "serial_ready s" and "cstr (ptr_at p i) t"
  shows "\<exists>s'. serial_print_loop p i s = Some s' \<and> port_out s' = port_out s @ List.map (Pair COM1) (wire t)
    \<and> port_in s' = port_in s \<and> serial_ready s'"
  using assms
proof (induction t arbitrary: i s)
  case Nil
  then show ?case by (subst serial_print_loop.simps) (simp add: wire_def)
next
  case (Cons b t)
  have p: "p i = b" "b \<noteq> 0" "cstr (ptr_at p (Suc i)) t" using Cons.prems(2) by simp_all
  obtain s1 where s1: "(if b = chr CHR 0x0A then serial_write (chr CHR 0x0D) s else Some s) = Some s1"
    "port_out s1 = port_out s @ List.map (Pair COM1) (if b = chr CHR 0x0A then [chr CHR 0x0D] else [])"
    "port_in s1 = port_in s" "serial_ready s1"
    using serial_write_spec [OF Cons.prems(1), of "chr CHR 0x0D"] Cons.prems(1) by (cases "b = chr CHR 0x0A") auto
  obtain s2 where s2: "serial_write b s1 = Some s2" "port_out s2 = port_out s1 @ [(COM1, b)]" "port_in s2 = port_in s1" "serial_ready s2"
    using serial_write_spec [OF s1(4), of b] by blast
  obtain s' where s': "serial_print_loop p (Suc i) s2 = Some s'" "port_out s' = port_out s2 @ List.map (Pair COM1) (wire t)"
    "port_in s' = port_in s2" "serial_ready s'"
    using Cons.IH [OF s2(4) p(3)] by blast
  have "serial_print_loop p i s = Some s'"
    by (subst serial_print_loop.simps) (simp only: p(1,2) s1(1) s2(1) s'(1) bind.bind_lunit if_True simp_thms)
  then show ?case using s1(2,3) s2(2,3) s'(2-4) by (simp add: wire_def)
qed

lemma serial_hex_loop_spec:
  assumes "serial_ready s"
  shows "\<exists>s' ds. serial_hex_loop n val s = Some s' \<and> port_out s' = port_out s @ List.map (Pair COM1) ds
    \<and> port_in s' = port_in s \<and> serial_ready s'"
  using assms
proof (induction n arbitrary: s)
  case 0
  then show ?case by (auto intro: exI [of _ "[]"])
next
  case (Suc n)
  let ?b = "lit ''0123456789ABCDEF'' ! unat (drop_bit (4 * n) val AND 0xF)"
  obtain s1 where s1: "serial_write ?b s = Some s1" "port_out s1 = port_out s @ [(COM1, ?b)]" "port_in s1 = port_in s" "serial_ready s1"
    using serial_write_spec [OF Suc.prems, of ?b] by blast
  obtain s' ds where s': "serial_hex_loop n val s1 = Some s'" "port_out s' = port_out s1 @ List.map (Pair COM1) ds"
    "port_in s' = port_in s1" "serial_ready s'"
    using Suc.IH [OF s1(4)] by blast
  then show ?case using s1 by (intro exI [of _ s'] exI [of _ "?b # ds"]) simp
qed

text \<open>
  If the transmitter keeps becoming ready, printing a string on the serial port returns, and
  exactly the string, with a carriage return before every line feed, has gone out.
\<close>
theorem serial_print_sends:
  assumes "serial_ready s" and "cstr p t"
  shows "\<exists>s'. serial_print p s = Some s' \<and> port_out s' = port_out s @ List.map (Pair COM1) (wire t)"
  using serial_print_loop_spec [OF assms(1), of p 0 t] assms(2) by (auto simp: serial_print_def)

text \<open>Ports on which every status bit reads as set.\<close>

definition ready_io :: io where
  "ready_io = \<lparr>port_in = (\<lambda>p n. 0xFF), port_pos = (\<lambda>p. 0), port_out = []\<rparr>"

lemma ready_io: "serial_ready ready_io" "port_out ready_io = []"
  by (simp_all add: serial_ready_def ready_io_def)

theorem serial_print_sends_witness:
  "\<exists>s'. serial_print (lit_ptr (lit ''ok'' @ [chr CHR 0x0A])) ready_io = Some s'
    \<and> List.map snd (port_out s') = lit ''ok'' @ [0x0D, 0x0A]"
proof -
  have nz: "0 \<notin> set (lit ''ok'' @ [chr CHR 0x0A])" by code_simp
  have "List.map snd (List.map (Pair COM1) (wire (lit ''ok'' @ [chr CHR 0x0A]))) = lit ''ok'' @ [0x0D, 0x0A]" by code_simp
  then show ?thesis using serial_print_sends [OF ready_io(1) cstr_lit [OF nz]] ready_io(2) by auto
qed

end
