(* ===== verification/Drivers.thy ===== *)
theory Drivers
  imports Memory Ports
begin

text \<open>
  The small drivers: the linear frame buffer of \<open>drivers/vga13.c\<close>, the table checksum and word
  output of \<open>drivers/acpi.h\<close>, and the driver skeleton of \<open>kernel/template.c\<close>.  A frame buffer
  pixel is the 32-bit word at \<open>fb[i]\<close>, whose address wraps at the end of the address space.
\<close>

section \<open>Frame buffer\<close>

record vga =
  fb :: u32
  fb_pitch :: u32
  fb_width :: u32
  fb_height :: u32

definition vga13_init :: "u32 \<Rightarrow> u32 \<Rightarrow> u32 \<Rightarrow> u32 \<Rightarrow> vga \<Rightarrow> vga" where
  "vga13_init phys_addr pitch width height v =
     v\<lparr>fb_pitch := pitch, fb_width := width, fb_height := height, fb := phys_addr\<rparr>"

definition store_pixel :: "vga \<Rightarrow> u32 \<Rightarrow> u32 \<Rightarrow> mem \<Rightarrow> mem" where
  "store_pixel v i colour m = st32 m (unat (fb v + 4 * i)) colour"

definition vga13_put_pixel :: "u32 \<Rightarrow> u32 \<Rightarrow> u32 \<Rightarrow> vga \<Rightarrow> mem \<Rightarrow> mem" where
  "vga13_put_pixel x y colour v m =
     (let pixels_per_row = fb_pitch v div 4 in store_pixel v (y * pixels_per_row + x) colour m)"

fun vga13_clear_loop :: "u32 \<Rightarrow> vga \<Rightarrow> u32 \<Rightarrow> nat \<Rightarrow> mem \<Rightarrow> mem" where
  "vga13_clear_loop colour v i 0 m = m"
| "vga13_clear_loop colour v i (Suc n) m = vga13_clear_loop colour v (i + 1) n (store_pixel v i colour m)"

definition vga13_clear :: "u32 \<Rightarrow> vga \<Rightarrow> mem \<Rightarrow> mem" where
  "vga13_clear colour v m =
     (let pixels_per_row = fb_pitch v div 4; total_pixels = pixels_per_row * fb_height v
      in vga13_clear_loop colour v 0 (unat total_pixels) m)"

section \<open>ACPI\<close>

fun checksum_loop :: "mem \<Rightarrow> nat \<Rightarrow> nat \<Rightarrow> u8 \<Rightarrow> u8" where
  "checksum_loop m a 0 check = check"
| "checksum_loop m a (Suc n) check = checksum_loop m (Suc a) n (check + m a)"

text \<open>The length is the 32-bit field at offset 4 of the packed header.\<close>

definition acpi_checksum :: "mem \<Rightarrow> nat \<Rightarrow> bool" where
  "acpi_checksum m header = (checksum_loop m header (unat (ld32 m (header + 4))) 0 = 0)"

text \<open>The words written to ports, in order.\<close>

definition outw :: "u16 \<Rightarrow> u16 \<Rightarrow> (u16 \<times> u16) list \<Rightarrow> (u16 \<times> u16) list" where
  "outw port val ws = ws @ [(port, val)]"

section \<open>Driver skeleton\<close>

record driver_t =
  initialized :: bool
  enabled :: bool
  driver_state :: u32

definition driver_init :: "driver_t \<Rightarrow> int \<times> driver_t" where
  "driver_init d = (if initialized d then (0, d) else (0, d\<lparr>initialized := True, enabled := False\<rparr>))"

definition driver_enable :: "driver_t \<Rightarrow> driver_t" where
  "driver_enable d = (if \<not> initialized d then d else d\<lparr>enabled := True\<rparr>)"

definition driver_disable :: "driver_t \<Rightarrow> driver_t" where
  "driver_disable d = d\<lparr>enabled := False\<rparr>"

definition driver_read :: "driver_t \<Rightarrow> int" where
  "driver_read d = (if \<not> enabled d then -1 else 0)"

definition driver_write :: "u8 \<Rightarrow> driver_t \<Rightarrow> int" where
  "driver_write b d = (if \<not> enabled d then -1 else 0)"

definition driver_handler :: "driver_t \<Rightarrow> io \<Rightarrow> io" where
  "driver_handler d s = (let s1 = write_port 0x20 0x20 s in if \<not> enabled d then s1 else s1)"

section \<open>Pixels\<close>

text \<open>The pixels of a frame buffer that does not wrap around the address space.\<close>

definition pixel :: "vga \<Rightarrow> mem \<Rightarrow> nat \<Rightarrow> u32" where
  "pixel v m i = ld32 m (unat (fb v) + 4 * i)"

definition fits :: "vga \<Rightarrow> nat \<Rightarrow> bool" where
  "fits v n \<longleftrightarrow> unat (fb v) + 4 * n \<le> 2 ^ 32"

lemma store_pixel_at:
  assumes "fits v n" and "i < n"
  shows "store_pixel v (of_nat i) colour m = st32 m (unat (fb v) + 4 * i) colour"
proof -
  have "unat (fb v) + 4 * i < 2 ^ 32" using assms by (simp add: fits_def)
  moreover have "fb v + 4 * of_nat i = of_nat (unat (fb v) + 4 * i)" by simp
  ultimately show ?thesis unfolding store_pixel_def by (simp only: unat_of_nat32)
qed

lemma pixel_store:
  assumes "fits v n" and "i < n" and "j < n"
  shows "pixel v (store_pixel v (of_nat i) colour m) j = (if j = i then colour else pixel v m j)"
proof (cases "j = i")
  case True
  then show ?thesis by (simp add: pixel_def store_pixel_at [OF assms(1,2)])
next
  case False
  then have "unat (fb v) + 4 * j + 4 \<le> unat (fb v) + 4 * i \<or> unat (fb v) + 4 * i + 4 \<le> unat (fb v) + 4 * j" by arith
  then show ?thesis using False by (simp add: pixel_def store_pixel_at [OF assms(1,2)] ld32_st32_other)
qed

lemma clear_loop_spec:
  assumes "fits v N"
  shows "i + n \<le> N \<Longrightarrow> j < N \<Longrightarrow>
    pixel v (vga13_clear_loop colour v (of_nat i) n m) j = (if i \<le> j \<and> j < i + n then colour else pixel v m j)"
    and "i + n \<le> N \<Longrightarrow> x < unat (fb v) \<or> unat (fb v) + 4 * N \<le> x \<Longrightarrow> vga13_clear_loop colour v (of_nat i) n m x = m x"
proof (induction n arbitrary: i m)
  case (Suc n)
  {
    case 1
    then show ?case using Suc.IH(1) [of "Suc i" "store_pixel v (of_nat i) colour m"] pixel_store [OF assms, of i j colour m]
      by (cases "j = i") (simp_all add: add.commute)
  next
    case 2
    then show ?case using Suc.IH(2) [of "Suc i" "store_pixel v (of_nat i) colour m"] store_pixel_at [OF assms, of i colour m]
      by (auto simp: add.commute st32_other)
  }
qed auto

text \<open>
  Clearing the frame buffer gives every pixel of every row the colour and changes no byte outside.
\<close>
theorem vga13_clear_fills:
  assumes "n = unat (fb_pitch v div 4 * fb_height v)" and "fits v n"
  shows "(\<forall>i < n. pixel v (vga13_clear colour v m) i = colour)
    \<and> (\<forall>x. x < unat (fb v) \<or> unat (fb v) + 4 * n \<le> x \<longrightarrow> vga13_clear colour v m x = m x)"
  using clear_loop_spec [OF assms(2), of 0 n] unfolding vga13_clear_def Let_def assms(1) [symmetric] by simp

definition vga640 :: vga where
  "vga640 = \<lparr>fb = 0xFD000000, fb_pitch = 2560, fb_width = 640, fb_height = 480\<rparr>"

theorem vga13_clear_fills_witness:
  "pixel vga640 (vga13_clear 0x00FF0000 vga640 (\<lambda>x. 0)) 307199 = 0x00FF0000
    \<and> vga13_clear 0x00FF0000 vga640 (\<lambda>x. 0) 0x1000 = 0"
  using vga13_clear_fills [of 307200 vga640 "0x00FF0000" "\<lambda>x. 0"] by (simp add: vga640_def fits_def)

text \<open>
  A pixel inside the buffer is stored at its row and column and no other pixel changes; nothing
  clips the column, so the column after the last one is the first of the next row.
\<close>
theorem vga13_put_pixel_at:
  assumes "fits v n" and "w = unat (fb_pitch v) div 4" and "y * w + x < n"
  shows "(\<forall>j < n. pixel v (vga13_put_pixel (of_nat x) (of_nat y) colour v m) j
        = (if j = y * w + x then colour else pixel v m j))
    \<and> vga13_put_pixel (of_nat w) (of_nat y) colour v m = vga13_put_pixel 0 (of_nat (Suc y)) colour v m"
proof -
  have w: "fb_pitch v div 4 = of_nat w" by (simp add: assms(2) word_arith_nat_div)
  have "(of_nat y * of_nat w + of_nat x :: u32) = of_nat (y * w + x)" by simp
  then have "vga13_put_pixel (of_nat x) (of_nat y) colour v m = store_pixel v (of_nat (y * w + x)) colour m"
    unfolding vga13_put_pixel_def w Let_def by (simp only:)
  moreover have "vga13_put_pixel (of_nat w) (of_nat y) colour v m = vga13_put_pixel 0 (of_nat (Suc y)) colour v m"
    unfolding vga13_put_pixel_def w Let_def by (simp add: algebra_simps)
  ultimately show ?thesis using pixel_store [OF assms(1,3)] by simp
qed

theorem vga13_put_pixel_at_witness:
  "pixel vga640 (vga13_put_pixel 10 10 0x00FFFFFF vga640 (\<lambda>x. 0)) 6410 = 0x00FFFFFF"
  using vga13_put_pixel_at [of vga640 307200 640 10 10 "0x00FFFFFF" "\<lambda>x. 0"] by (simp add: vga640_def fits_def)

text \<open>
  Without a frame buffer (\<open>vga13_init\<close> not called) the pixel that \<open>kernel_main\<close> draws is stored in
  the interrupt vectors at address 40.
\<close>
theorem put_pixel_without_buffer:
  "ld32 (vga13_put_pixel 10 10 colour \<lparr>fb = 0, fb_pitch = 0, fb_width = 0, fb_height = 0\<rparr> m) 40 = colour"
  by (simp add: vga13_put_pixel_def store_pixel_def)

section \<open>Checksum\<close>

lemma checksum_loop_sum: "checksum_loop m a n check = check + (\<Sum>i<n. m (a + i))"
proof (induction n arbitrary: a check)
  case (Suc n)
  have "(\<Sum>i<Suc n. m (a + i)) = m a + (\<Sum>i<n. m (Suc a + i))" by (subst sum.lessThan_Suc_shift) simp
  then show ?case using Suc by (simp add: add.assoc)
qed simp

text \<open>
  \<open>acpi_checksum\<close> accepts a table exactly when its bytes, as many as its header says, add up to
  a multiple of 256.
\<close>
theorem acpi_checksum_correct:
  "acpi_checksum m a \<longleftrightarrow> 256 dvd (\<Sum>i<unat (ld32 m (a + 4)). unat (m (a + i)))"
proof -
  have "unat (\<Sum>i\<in>A. f i) = (\<Sum>i\<in>A. unat (f i)) mod 256" if "finite A" for A and f :: "nat \<Rightarrow> u8"
    using that by (induction A rule: finite_induct) (simp_all add: unat_word_ariths mod_simps)
  then have "unat (\<Sum>i<n. m (a + i)) = (\<Sum>i<n. unat (m (a + i))) mod 256" for n by blast
  then show ?thesis by (simp add: acpi_checksum_def checksum_loop_sum unat_eq_0 [symmetric] dvd_eq_mod_eq_0 del: unat_eq_0)
qed

end
