(* ===== verification/Syscall.thy ===== *)
theory Syscall
  imports HeapLive EditorFiles Boot Drivers
begin

text \<open>
  The state of the running kernel and the system calls (\<open>syscall_dispatch\<close> of \<open>kernel/kernel.c\<close>).
  The heap, the file system with its console, the editor, the keyboard and the page tables are the
  states of their theories; each is a separate object.  A pointer that a program passes is an
  address that the processor translates by the page tables: \<open>user_view\<close> is the memory as seen
  through them and \<open>store_user\<close> stores back through them.  The kernel follows such a pointer with its own privilege.
  Only an access to an address that is not mapped, which would fault, is not distinguished: it reads
  0 and a store to it is dropped.  A call that waits for a key while none is there has no result in this state.
\<close>

section \<open>State\<close>

record kernel =
  heap_st :: heap
  ed_st :: editor
  kbd_st :: kbd
  paging_st :: paging
  exit_requested :: u32
  user_heap_ptr :: u32

abbreviation k_fs :: "kernel \<Rightarrow> fs" where "k_fs k \<equiv> ed_fs (ed_st k)"
abbreviation k_console :: "kernel \<Rightarrow> console" where "k_console k \<equiv> fs_console (k_fs k)"

definition with_fs :: "fs \<Rightarrow> kernel \<Rightarrow> kernel" where
  "with_fs st k = k\<lparr>ed_st := (ed_st k)\<lparr>ed_fs := st\<rparr>\<rparr>"

definition with_console :: "console \<Rightarrow> kernel \<Rightarrow> kernel" where
  "with_console c k = with_fs ((k_fs k)\<lparr>fs_console := c\<rparr>) k"

definition k_say :: "string \<Rightarrow> karg list \<Rightarrow> kernel \<Rightarrow> kernel option" where
  "k_say f args k = do { c \<leftarrow> kprintf (lit f) args (k_console k); Some (with_console c k) }"

section \<open>Memory of the program\<close>

definition user_view :: "paging \<Rightarrow> mem" where
  "user_view p x = (case page_walk (phys p) (of_nat x) of Some a \<Rightarrow> phys p (unat a) | None \<Rightarrow> 0)"

definition user_ptr :: "paging \<Rightarrow> u32 \<Rightarrow> cptr" where
  "user_ptr p a i = user_view p (unat (a + of_nat i))"

definition store_byte :: "u32 \<Rightarrow> u8 \<Rightarrow> paging \<Rightarrow> paging" where
  "store_byte a b p = (case page_walk (phys p) a of
     Some f \<Rightarrow> p\<lparr>phys := (phys p)(unat f := b)\<rparr> | None \<Rightarrow> p)"

fun store_user :: "mem \<Rightarrow> u32 \<Rightarrow> nat \<Rightarrow> paging \<Rightarrow> paging" where
  "store_user ram a 0 p = p"
| "store_user ram a (Suc n) p = store_user ram (a + 1) n (store_byte a (ram (unat a)) p)"

section \<open>Entry to user mode\<close>

text \<open>A system call returns a value to the program, or the processor goes on in user mode at an
  entry point with a new stack.\<close>

datatype outcome = Returns u32 | Enters u32 u32

definition jump_to_userspace :: outcome where "jump_to_userspace = Enters 0xA0000020 0xB0000FF0"
definition jump_to_editor :: outcome where "jump_to_editor = Enters 0x70000000 0x71000FF0"
definition jump_to_shell :: outcome where "jump_to_shell = Enters 0xC0000000 0xD0000FF0"

section \<open>System calls\<close>

definition sys_backspace :: "console \<Rightarrow> console" where
  "sys_backspace c =
     (if 2 \<le> current_loc c then
        let c1 = c\<lparr>current_loc := current_loc c - 2\<rparr>
        in c1\<lparr>vram := (vram c1)(unat (current_loc c1) := 0x20, unat (current_loc c1 + 1) := 0x07)\<rparr>
      else c)"

text \<open>\<open>for (addr = ...; addr < new_ptr; addr += 0x1000) map_user_page(addr, alloc_page_frame());\<close>\<close>

partial_function (option) sbrk_loop :: "u32 \<Rightarrow> u32 \<Rightarrow> paging \<Rightarrow> paging option" where
  "sbrk_loop addr new_ptr p =
     (if addr < new_ptr then do {
        p' \<leftarrow> map_fresh_page addr p;
        sbrk_loop (addr + 0x1000) new_ptr p'
      } else Some p)"

definition sys_sbrk :: "u32 \<Rightarrow> kernel \<Rightarrow> (u32 \<times> kernel) option" where
  "sys_sbrk incr k = do {
     let old = user_heap_ptr k;
     let new_ptr = old + incr;
     p \<leftarrow> sbrk_loop (old AND NOT 0xFFF) new_ptr (paging_st k);
     Some (old, k\<lparr>paging_st := p, user_heap_ptr := new_ptr\<rparr>)
   }"

text \<open>The bytes that a read writes: whole blocks, as many as the file has, but no more than the size asks for.\<close>

definition read_extent :: "u32 \<Rightarrow> nat option \<Rightarrow> mem \<Rightarrow> nat" where
  "read_extent sz entry d = (case entry of
     None \<Rightarrow> 0
   | Some e \<Rightarrow> let blocks_to_read = sz div BLOCK_SIZE + 1; file_blocks = ld32 d (entry_file_size e) div BLOCK_SIZE + 1
               in 4096 * unat (if file_blocks < blocks_to_read then file_blocks else blocks_to_read))"

definition sys_read_file :: "u32 \<Rightarrow> u32 \<Rightarrow> u32 \<Rightarrow> kernel \<Rightarrow> (u32 \<times> kernel) option" where
  "sys_read_file name buf sz k = do {
     (r, ram) \<leftarrow> fs_read_file (user_ptr (paging_st k) name) buf sz (k_fs k) (user_view (paging_st k));
     entry \<leftarrow> fs_find_file (user_ptr (paging_st k) name) (fs_disk (k_fs k));
     Some (r, k\<lparr>paging_st := store_user ram buf (read_extent sz entry (fs_disk (k_fs k))) (paging_st k)\<rparr>)
   }"

definition syscall_dispatch :: "u32 \<Rightarrow> u32 \<Rightarrow> u32 \<Rightarrow> u32 \<Rightarrow> kernel \<Rightarrow> (outcome \<times> kernel) option" where
  "syscall_dispatch num arg1 arg2 arg3 k =
     (let str = user_ptr (paging_st k) in
      if num = 0 then Some (Returns 0, k\<lparr>exit_requested := 1\<rparr>)
      else if num = 1 then do { k1 \<leftarrow> k_say ''%s'' [AStr (str arg1)] k; Some (Returns 0, k1) }
      else if num = 2 then do { (c, kb) \<leftarrow> kbd_getchar (kbd_st k); Some (Returns c, k\<lparr>kbd_st := kb\<rparr>) }
      else if num = 3 then do { (p, h) \<leftarrow> malloc arg1 (heap_st k); Some (Returns p, k\<lparr>heap_st := h\<rparr>) }
      else if num = 4 then Some (Returns 0, k\<lparr>heap_st := mem_free arg1 (heap_st k)\<rparr>)
      else if num = 5 then do { st \<leftarrow> fs_list_files (k_fs k); Some (Returns 0, with_fs st k) }
      else if num = 6 then do { (r, st) \<leftarrow> fs_create_file (str arg1) (k_fs k); Some (Returns 0, with_fs st k) }
      else if num = 7 then do { (r, st) \<leftarrow> fs_delete_file (str arg1) (k_fs k); Some (Returns 0, with_fs st k) }
      else if num = 8 then do { (r, k1) \<leftarrow> sys_read_file arg1 arg2 arg3 k; Some (Returns r, k1) }
      else if num = 9 then do {
        (r, st) \<leftarrow> fs_write_file (str arg1) arg2 arg3 (user_view (paging_st k)) (k_fs k);
        Some (Returns r, with_fs st k)
      }
      else if num = 10 then Some (Returns 0, with_console (sys_backspace (k_console k)) k)
      else if num = 11 then Some (Returns 0, with_console (clear_screen (k_console k)) k)
      else if num = 12 then do { (r, k1) \<leftarrow> sys_sbrk arg1 k; Some (Returns r, k1) }
      else if num = 13 then Some (jump_to_editor, k)
      else if num = 14 then
        Some (Returns 0, with_console (kvga_write_char arg1 arg2 (ucast (arg3 AND 0xFF)) (ucast (drop_bit 8 arg3)) (k_console k)) k)
      else if num = 15 then Some (Returns 0, with_console (kvga_set_cursor arg1 arg2 (k_console k)) k)
      else if num = 16 then do { c \<leftarrow> kvga_clear_to_eol arg1 arg2 (k_console k); Some (Returns 0, with_console c k) }
      else do { k1 \<leftarrow> k_say (''unknown syscall %d'' @ [CHR 0x0A]) [AInt num] k; Some (Returns 0xFFFFFFFF, k1) })"

section \<open>The program break\<close>

lemma sbrk_loop_run:
  assumes "a + 4096 * n < 2 ^ 32" and "e \<le> a + 4096 * n" and "n \<noteq> 0 \<longrightarrow> a + 4096 * (n - 1) < e"
  shows "sbrk_loop (of_nat a) (of_nat e) p = map_fresh_run a n p"
  using assms
proof (induction n arbitrary: a p)
  case 0
  then have "\<not> (of_nat a :: u32) < of_nat e" by (subst of_nat32_less) simp_all
  then show ?case by (subst sbrk_loop.simps) simp
next
  case (Suc n)
  have lt: "(of_nat a :: u32) < of_nat e" by (subst of_nat32_less) (use Suc.prems in simp_all)
  have "sbrk_loop (of_nat (a + 4096)) (of_nat e) p1 = map_fresh_run (a + 4096) n p1" for p1
    by (rule Suc.IH) (use Suc.prems in auto)
  then have "sbrk_loop (of_nat a + 0x1000) (of_nat e) = map_fresh_run (a + 4096) n" by (simp add: fun_eq_iff)
  then show ?case using lt by (subst sbrk_loop.simps) simp
qed

text \<open>The pages that growing the break from \<open>old\<close> by \<open>incr\<close> bytes maps.\<close>

definition break_page :: "nat \<Rightarrow> nat" where "break_page old = old div 4096 * 4096"
definition break_pages :: "nat \<Rightarrow> nat \<Rightarrow> nat" where
  "break_pages old incr = (old + incr - 1) div 4096 + 1 - old div 4096"

lemma page_floor: "old AND NOT 0xFFF = (of_nat (break_page (unat old)) :: u32)"
proof -
  have "unat (old AND NOT (mask 12)) = unat old div 4096 * 4096"
  proof -
    have "old AND NOT (mask 12) = push_bit 12 (drop_bit 12 old)"
      by (rule bit_word_eqI) (auto simp: bit_simps)
    moreover have "unat (drop_bit 12 old) = unat old div 4096" by (simp add: unat_drop_bit_eq drop_bit_nat_def)
    moreover have "unat old div 4096 * 4096 < 2 ^ 32" using unat32_less [of old] by (simp add: div_times_less_eq_dividend le_less_trans)
    ultimately show ?thesis by (simp add: push_bit_eq_mult unat_word_ariths)
  qed
  then show ?thesis unfolding offset_mask break_page_def by (metis of_nat_unat ucast_id)
qed

lemma break_arith:
  fixes old i :: nat
  assumes "0 < old"
  defines "n \<equiv> break_pages old i" and "a \<equiv> break_page old"
  shows "a mod 4096 = 0" and "a \<le> old" and "old < a + 4096" and "old + i \<le> a + 4096 * n"
    and "n \<noteq> 0 \<longrightarrow> a + 4096 * (n - 1) < old + i" and "a + 4096 * n < old + i + 4096"
    and "old mod 4096 \<noteq> 0 \<Longrightarrow> 0 < n" and "old mod 4096 = 0 \<Longrightarrow> a = old"
proof -
  obtain q r where q: "old = 4096 * q + r" "r < 4096" using div_mult_mod_eq [of old 4096] mod_less_divisor [of 4096 old]
    by (metis mult.commute zero_less_numeral)
  obtain q' r' where q': "old + i - 1 = 4096 * q' + r'" "r' < 4096"
    using div_mult_mod_eq [of "old + i - 1" 4096] mod_less_divisor [of 4096 "old + i - 1"] by (metis mult.commute zero_less_numeral)
  have d: "old div 4096 = q" "(old + i - 1) div 4096 = q'" using q q' by simp_all
  have e: "old + i = 4096 * q' + r' + 1" using q'(1) assms(1) by linarith
  have a: "a = 4096 * q" unfolding a_def break_page_def d by simp
  have n: "n = q' + 1 - q" unfolding n_def break_pages_def d by (rule refl)
  have qq: "q \<le> q' + 1" using q(1) q'(2) e by linarith
  show "a mod 4096 = 0" "a \<le> old" "old < a + 4096" using a q by simp_all
  show "old + i \<le> a + 4096 * n" "n \<noteq> 0 \<longrightarrow> a + 4096 * (n - 1) < old + i" "a + 4096 * n < old + i + 4096"
    using a n qq e q'(2) q by (simp_all add: diff_mult_distrib2 algebra_simps)
  show "0 < n" if "old mod 4096 \<noteq> 0"
  proof -
    have "0 < r" using that q by (cases r) simp_all
    then have "q \<le> q'" using e q(1) q'(2) by linarith
    then show ?thesis using n by simp
  qed
  show "a = old" if "old mod 4096 = 0" using that a q by simp
qed

lemma sys_sbrk_spec:
  assumes "paging_ok (paging_st k)" and "0x800000 \<le> unat (user_heap_ptr k)"
    and "unat (user_heap_ptr k) + unat incr + 4096 \<le> 2 ^ 32"
    and "unat (next_free_page (paging_st k)) + 8192 * break_pages (unat (user_heap_ptr k)) (unat incr) \<le> 0x800000"
  shows "\<exists>p. sys_sbrk incr k = Some (user_heap_ptr k, k\<lparr>paging_st := p, user_heap_ptr := user_heap_ptr k + incr\<rparr>)
    \<and> paging_ok p \<and> fresh_pages (paging_st k) p (break_page (unat (user_heap_ptr k)))
        (break_pages (unat (user_heap_ptr k)) (unat incr))
    \<and> unat (next_free_page p) \<le> unat (next_free_page (paging_st k))
        + 8192 * break_pages (unat (user_heap_ptr k)) (unat incr)"
proof -
  let ?old = "unat (user_heap_ptr k)" and ?i = "unat incr"
  let ?a = "break_page ?old" and ?n = "break_pages ?old ?i"
  have pos: "0 < ?old" using assms(2) by simp
  note b = break_arith(1-3) [OF pos] break_arith(4-7) [OF pos, of ?i] break_arith(8) [OF pos]
  have lim: "?a + 4096 * ?n < 2 ^ 32" using b(6) assms(3) by linarith
  have new: "user_heap_ptr k + incr = of_nat (?old + ?i)" by simp
  have run: "sbrk_loop (user_heap_ptr k AND NOT 0xFFF) (user_heap_ptr k + incr) (paging_st k) = map_fresh_run ?a ?n (paging_st k)"
    unfolding page_floor new by (rule sbrk_loop_run [OF lim b(4,5)])
  obtain p where p: "map_fresh_run ?a ?n (paging_st k) = Some p" "paging_ok p" "fresh_pages (paging_st k) p ?a ?n"
    "unat (next_free_page p) \<le> unat (next_free_page (paging_st k)) + 8192 * ?n"
    using map_fresh_run_spec [OF assms(1,4) b(1) less_imp_le [OF lim]] by blast
  then show ?thesis unfolding sys_sbrk_def Let_def run by (intro exI [of _ p]) simp
qed

text \<open>A kernel to evaluate on: new heap, two files, empty key ring, no user page.\<close>

definition demo_kernel :: "fs \<Rightarrow> kernel" where
  "demo_kernel st = \<lparr>heap_st = heap0, ed_st = demo_editor st, kbd_st = kbd0, paging_st = paging0,
     exit_requested = 0, user_heap_ptr = 0xE0000000\<rparr>"

lemma demo_kernel_simps [simp]:
  "heap_st (demo_kernel st) = heap0" "ed_st (demo_kernel st) = demo_editor st" "kbd_st (demo_kernel st) = kbd0"
  "paging_st (demo_kernel st) = paging0" "user_heap_ptr (demo_kernel st) = 0xE0000000" "k_fs (demo_kernel st) = st"
  by (simp_all add: demo_kernel_def demo_editor_def)

lemma paging0_user_unmapped: "0x800000 \<le> unat w \<Longrightarrow> page_walk (phys paging0) w = None"
proof -
  assume "0x800000 \<le> unat w"
  then have "2 \<le> dir_index w" using div_le_mono [of "0x800000" "unat w" "2 ^ 22"] by (simp add: dir_index_nat)
  then show ?thesis using paging0_ok(2) index_bounds(1) by (simp add: walk_of)
qed



text \<open>
  Growing a break that is not page-aligned maps the page it lies in a second time, to a new
  frame: whatever the program had stored there, for every address of the page, is no longer
  reachable.  An increment of 0, which asks for the break, does so too.
\<close>
theorem sbrk_loses_page:
  assumes "paging_ok (paging_st k)" and "0x800000 \<le> unat (user_heap_ptr k)"
    and "unat (user_heap_ptr k) mod 4096 \<noteq> 0" and "unat (user_heap_ptr k) + unat incr + 4096 \<le> 2 ^ 32"
    and "unat (next_free_page (paging_st k)) + 8192 * break_pages (unat (user_heap_ptr k)) (unat incr) \<le> 0x800000"
    and "unat v div 4096 = unat (user_heap_ptr k) div 4096"
    and "page_walk (phys (paging_st k)) v = Some a" and "a < next_free_page (paging_st k)"
  shows "\<exists>k' b. syscall_dispatch 12 incr x y k = Some (Returns (user_heap_ptr k), k')
    \<and> page_walk (phys (paging_st k')) v = Some b \<and> next_free_page (paging_st k) \<le> b \<and> b \<noteq> a"
proof -
  let ?old = "unat (user_heap_ptr k)" and ?i = "unat incr"
  obtain p where p: "sys_sbrk incr k = Some (user_heap_ptr k, k\<lparr>paging_st := p, user_heap_ptr := user_heap_ptr k + incr\<rparr>)"
    "fresh_pages (paging_st k) p (break_page ?old) (break_pages ?old ?i)"
    using sys_sbrk_spec [OF assms(1,2,4,5)] by blast
  have pos: "0 < ?old" using assms(2) by simp
  note b = break_arith(1-3) [OF pos] break_arith(4-7) [OF pos, of ?i] break_arith(8) [OF pos]
  have "unat v mod 4096 < 4096" by simp
  then have "break_page ?old \<le> unat v \<and> unat v < break_page ?old + 4096"
    using div_mult_mod_eq [of "unat v" 4096] assms(6) unfolding break_page_def by linarith
  moreover have "4096 \<le> 4096 * break_pages ?old ?i" using b(7) [OF assms(3)] by simp
  ultimately have "break_page ?old \<le> unat v" "unat v < break_page ?old + 4096 * break_pages ?old ?i" by linarith+
  then obtain c where "page_walk (phys p) v = Some c" "next_free_page (paging_st k) \<le> c"
    using p(2) by (auto simp: fresh_pages_def word_le_nat_alt)
  then show ?thesis using p(1) assms(8)
    by (intro exI [of _ "k\<lparr>paging_st := p, user_heap_ptr := user_heap_ptr k + incr\<rparr>"] exI [of _ c]) (auto simp: syscall_dispatch_def Let_def)
qed

theorem sbrk_loses_page_witness:
  "\<exists>k1 k2 a b. syscall_dispatch 12 100 0 0 (demo_kernel undefined) = Some (Returns 0xE0000000, k1)
    \<and> page_walk (phys (paging_st k1)) 0xE0000000 = Some a
    \<and> syscall_dispatch 12 0 0 0 k1 = Some (Returns 0xE0000064, k2)
    \<and> page_walk (phys (paging_st k2)) 0xE0000000 = Some b \<and> b \<noteq> a"
proof -
  let ?k = "demo_kernel undefined"
  obtain p where p: "sys_sbrk 100 ?k = Some (0xE0000000, ?k\<lparr>paging_st := p, user_heap_ptr := 0xE0000064\<rparr>)" "paging_ok p"
    "fresh_pages paging0 p 0xE0000000 1" "unat (next_free_page p) \<le> 0x200000 + 8192"
    using sys_sbrk_spec [of ?k 100] paging0_ok(1,3) by (auto simp: break_page_def break_pages_def)
  let ?k1 = "?k\<lparr>paging_st := p, user_heap_ptr := 0xE0000064\<rparr>"
  obtain a where a: "page_walk (phys p) 0xE0000000 = Some a" "a < next_free_page p"
    using p(3) by (auto simp: fresh_pages_def word_less_nat_alt dest!: spec [of _ "0xE0000000"])
  have first: "syscall_dispatch 12 100 0 0 ?k = Some (Returns 0xE0000000, ?k1)"
    using p(1) by (simp add: syscall_dispatch_def Let_def)
  show ?thesis
    using sbrk_loses_page [of ?k1 0 "0xE0000000" a 0 0] p(2,4) a first by (auto simp: break_pages_def)
qed

section \<open>Stores through user addresses\<close>

text \<open>The bytes that the processor reads for translations.\<close>

definition table_byte :: "mem \<Rightarrow> nat \<Rightarrow> bool" where
  "table_byte m x \<longleftrightarrow> page_directory \<le> x \<and> x < page_directory + 4096
     \<or> (\<exists>i < 1024. present m i \<and> unat (table_of m i) \<le> x \<and> x < unat (table_of m i) + 4096)"

lemma plain_store:
  assumes "\<not> table_byte m x"
  shows "i < 1024 \<Longrightarrow> dir_entry (m(x := b)) i = dir_entry m i" and "page_walk (m(x := b)) w = page_walk m w"
    and "user_page (m(x := b)) w = user_page m w" and "table_byte (m(x := b)) = table_byte m"
proof -
  show dir: "dir_entry (m(x := b)) i = dir_entry m i" if "i < 1024" for i
    using assms that by (auto simp: dir_entry_def table_byte_def ld32_upd_other)
  then have same: "table_of (m(x := b)) i = table_of m i" "present (m(x := b)) i = present m i" if "i < 1024" for i
    using that by (simp_all add: table_of_def present_def)
  have iw: "dir_index w < 1024" "table_index w < 1024" by (rule index_bounds)+
  have pte: "ld32 (m(x := b)) (unat (table_of m (dir_index w)) + 4 * table_index w)
      = ld32 m (unat (table_of m (dir_index w)) + 4 * table_index w)" if "present m (dir_index w)"
  proof -
    have "\<not> (unat (table_of m (dir_index w)) \<le> x \<and> x < unat (table_of m (dir_index w)) + 4096)"
      using assms that iw(1) by (auto simp: table_byte_def)
    then show ?thesis using iw(2) by (auto simp: ld32_upd_other)
  qed
  show walk: "page_walk (m(x := b)) w = page_walk m w"
    using pte by (simp add: walk_of same iw(1))
  show "user_page (m(x := b)) w = user_page m w"
  proof (cases "present m (dir_index w)")
    case True
    then show ?thesis using walk pte dir [OF iw(1)] by (simp add: user_page_def table_of_def Let_def)
  next
    case False
    then show ?thesis using walk by (simp add: user_page_def walk_of)
  qed
  show "table_byte (m(x := b)) = table_byte m" using same by (auto simp: table_byte_def fun_eq_iff)
qed

lemma store_byte_plain:
  assumes "paging_ok p" and "\<forall>f. page_walk (phys p) a = Some f \<longrightarrow> \<not> table_byte (phys p) (unat f)"
  shows "paging_ok (store_byte a b p)" and "next_free_page (store_byte a b p) = next_free_page p"
    and "page_walk (phys (store_byte a b p)) = page_walk (phys p)"
    and "table_byte (phys (store_byte a b p)) = table_byte (phys p)"
    and "user_page (phys (store_byte a b p)) = user_page (phys p)" and "opens (phys (store_byte a b p)) = opens (phys p)"
proof -
  have same: "page_walk (phys (store_byte a b p)) w = page_walk (phys p) w" "table_byte (phys (store_byte a b p)) = table_byte (phys p)"
    "i < 1024 \<Longrightarrow> dir_entry (phys (store_byte a b p)) i = dir_entry (phys p) i" "next_free_page (store_byte a b p) = next_free_page p"
    "user_page (phys (store_byte a b p)) w = user_page (phys p) w" for w i
    using plain_store assms(2) unfolding store_byte_def by (auto split: option.split)
  then show "next_free_page (store_byte a b p) = next_free_page p" "page_walk (phys (store_byte a b p)) = page_walk (phys p)"
    "table_byte (phys (store_byte a b p)) = table_byte (phys p)" "user_page (phys (store_byte a b p)) = user_page (phys p)" by auto
  show "opens (phys (store_byte a b p)) = opens (phys p)" by (intro opens_cong open_cong same(3))
  show "paging_ok (store_byte a b p)" using assms(1) same(3,4) by (simp add: paging_ok_def present_def table_of_def)
qed

lemma store_user_plain:
  assumes "paging_ok p" and "unat a + n \<le> 2 ^ 32"
    and "\<And>v f. unat a \<le> unat v \<Longrightarrow> unat v < unat a + n \<Longrightarrow> page_walk (phys p) v = Some f \<Longrightarrow> \<not> table_byte (phys p) (unat f)"
  shows "paging_ok (store_user ram a n p) \<and> next_free_page (store_user ram a n p) = next_free_page p
    \<and> page_walk (phys (store_user ram a n p)) = page_walk (phys p)
    \<and> user_page (phys (store_user ram a n p)) = user_page (phys p)"
  using assms
proof (induction n arbitrary: a p)
  case (Suc n)
  have nt: "\<forall>f. page_walk (phys p) a = Some f \<longrightarrow> \<not> table_byte (phys p) (unat f)"
    using Suc.prems(3) [of a] by simp
  note one = store_byte_plain [where a = a and b = "ram (unat a)", OF Suc.prems(1) nt]
  show ?case
  proof (cases n)
    case 0
    then show ?thesis using one by simp
  next
    case (Suc n')
    then have up: "unat (a + 1) = unat a + 1" using Suc.prems(2) by (simp add: unat_word_ariths)
    have "\<not> table_byte (phys (store_byte a (ram (unat a)) p)) (unat f)"
      if "unat (a + 1) \<le> unat v" "unat v < unat (a + 1) + n" "page_walk (phys (store_byte a (ram (unat a)) p)) v = Some f" for v f
      using Suc.prems(3) [of v f] that unfolding one(3,4) up by simp
    from Suc.IH [OF one(1) _ this, of "a + 1"] show ?thesis using Suc.prems(2) one(2,3,5) by (simp add: up)
  qed
qed simp

text \<open>Through an identity mapping the bytes arrive at their own addresses.\<close>

lemma store_user_identity:
  assumes "paging_ok p" and "unat a + n \<le> 2 ^ 32"
    and "\<And>v. unat a \<le> unat v \<Longrightarrow> unat v < unat a + n \<Longrightarrow> page_walk (phys p) v = Some v \<and> \<not> table_byte (phys p) (unat v)"
  shows "phys (store_user ram a n p) x = (if unat a \<le> x \<and> x < unat a + n then ram x else phys p x)"
  using assms
proof (induction n arbitrary: a p)
  case (Suc n)
  have a: "page_walk (phys p) a = Some a" "\<not> table_byte (phys p) (unat a)" using Suc.prems(3) [of a] by simp_all
  then have nt: "\<forall>f. page_walk (phys p) a = Some f \<longrightarrow> \<not> table_byte (phys p) (unat f)" by simp
  note one = store_byte_plain [where a = a and b = "ram (unat a)", OF Suc.prems(1) nt]
  have here: "phys (store_byte a (ram (unat a)) p) = (phys p)(unat a := ram (unat a))" by (simp add: store_byte_def a(1))
  show ?case
  proof (cases n)
    case 0
    then show ?thesis using here by (auto simp: le_less_Suc_eq less_Suc_eq_le)
  next
    case (Suc n')
    then have up: "unat (a + 1) = unat a + 1" using Suc.prems(2) by (simp add: unat_word_ariths)
    let ?p = "store_byte a (ram (unat a)) p"
    have "page_walk (phys ?p) v = Some v \<and> \<not> table_byte (phys ?p) (unat v)"
      if "unat (a + 1) \<le> unat v" "unat v < unat (a + 1) + n" for v
      using Suc.prems(3) [of v] that unfolding one(3,4) up by simp
    from Suc.IH [OF one(1) _ this, of "a + 1"]
    have "phys (store_user ram (a + 1) n ?p) x = (if unat a + 1 \<le> x \<and> x < unat a + 1 + n then ram x else phys ?p x)"
      using Suc.prems(2) by (simp add: up)
    then show ?thesis unfolding here store_user.simps by auto
  qed
qed auto

end
