(* ===== verification/SyscallSafe.thy ===== *)
theory SyscallSafe
  imports Syscall
begin

text \<open>
  Every system call returns and keeps the kernel's invariant, under the conditions on its arguments
  that the code leaves to the program (\<open>call_ok\<close>); the run of a kernel that serves such calls and
  keyboard interrupts in any order; and what happens to the calls whose arguments are outside them.
\<close>

section \<open>The invariant of the kernel\<close>

definition kernel_ok :: "u32 \<Rightarrow> kernel \<Rightarrow> bool" where
  "kernel_ok area k \<longleftrightarrow> heap_ok area (heap_st k) \<and> (\<exists>dir. fs_rep (fs_disk (k_fs k)) dir)
     \<and> ring_ok (kbd_st k) \<and> paging_ok (paging_st k)"

lemma kernel_ok_cong:
  "heap_st k' = heap_st k \<Longrightarrow> kbd_st k' = kbd_st k \<Longrightarrow> paging_st k' = paging_st k \<Longrightarrow>
   fs_disk (k_fs k') = fs_disk (k_fs k) \<Longrightarrow> kernel_ok area k' = kernel_ok area k"
  by (simp add: kernel_ok_def)

lemma with_console_simps [simp]:
  "heap_st (with_console c k) = heap_st k" "kbd_st (with_console c k) = kbd_st k"
  "paging_st (with_console c k) = paging_st k" "fs_disk (k_fs (with_console c k)) = fs_disk (k_fs k)"
  "exit_requested (with_console c k) = exit_requested k" "user_heap_ptr (with_console c k) = user_heap_ptr k"
  "k_console (with_console c k) = c" "kernel_ok area (with_console c k) = kernel_ok area k"
  by (simp_all add: with_console_def with_fs_def kernel_ok_def)

lemma with_fs_simps [simp]:
  "heap_st (with_fs st k) = heap_st k" "kbd_st (with_fs st k) = kbd_st k" "paging_st (with_fs st k) = paging_st k"
  "k_fs (with_fs st k) = st" "exit_requested (with_fs st k) = exit_requested k" "user_heap_ptr (with_fs st k) = user_heap_ptr k"
  by (simp_all add: with_fs_def)

lemma with_fs_ok: "kernel_ok area k \<Longrightarrow> fs_rep (fs_disk st) dir \<Longrightarrow> kernel_ok area (with_fs st k)"
  by (auto simp: kernel_ok_def)

section \<open>Conditions on the arguments\<close>

text \<open>No byte of the range is one of the processor's tables.\<close>

definition no_table_in :: "paging \<Rightarrow> u32 \<Rightarrow> nat \<Rightarrow> bool" where
  "no_table_in p a n \<longleftrightarrow> unat a + n \<le> 2 ^ 32
     \<and> (\<forall>v f. unat a \<le> unat v \<longrightarrow> unat v < unat a + n \<longrightarrow> page_walk (phys p) v = Some f \<longrightarrow> \<not> table_byte (phys p) (unat f))"

definition user_string :: "kernel \<Rightarrow> u32 \<Rightarrow> bool" where
  "user_string k a \<longleftrightarrow> (\<exists>s. cstr (user_ptr (paging_st k) a) s)"

definition listable :: "mem \<Rightarrow> bool" where
  "listable d \<longleftrightarrow> (\<forall>i < 64. ld32 d (entry_file_size i) \<noteq> 0x80000000)"

definition readable :: "kernel \<Rightarrow> u32 \<Rightarrow> u32 \<Rightarrow> u32 \<Rightarrow> bool" where
  "readable k name buf sz \<longleftrightarrow> (\<forall>e. fs_find_file (user_ptr (paging_st k) name) (fs_disk (k_fs k)) = Some (Some e) \<longrightarrow>
     (let n = read_extent sz (Some e) (fs_disk (k_fs k))
      in 4096 * unat (ld32 (fs_disk (k_fs k)) (entry_first_block e)) + n \<le> 4096 * 1024 \<and> no_table_in (paging_st k) buf n))"

definition call_ok :: "u32 \<Rightarrow> u32 \<Rightarrow> u32 \<Rightarrow> u32 \<Rightarrow> kernel \<Rightarrow> bool" where
  "call_ok num arg1 arg2 arg3 k \<longleftrightarrow>
     (if num \<in> {1, 6, 7, 9} then user_string k arg1
      else if num = 2 then ring_contents (kbd_st k) \<noteq> []
      else if num = 4 then heap_live (heap_st k) (unat arg1) \<noteq> None
      else if num = 5 then listable (fs_disk (k_fs k))
      else if num = 8 then user_string k arg1 \<and> readable k arg1 arg2 arg3
      else if num = 12 then
        0x800000 \<le> unat (user_heap_ptr k) \<and> unat (user_heap_ptr k) + unat arg1 + 4096 \<le> 2 ^ 32
        \<and> unat (next_free_page (paging_st k)) + 8192 * break_pages (unat (user_heap_ptr k)) (unat arg1) \<le> 0x800000
      else if num = 16 then unat arg1 < 25 \<and> unat arg2 \<le> 80
      else num \<noteq> 0x80000000)"

section \<open>Every call returns\<close>

lemma list_scan_total:
  assumes "fs_rep (fs_disk st) dir" and "listable (fs_disk st)" and "i + n \<le> 64"
  shows "\<exists>m c. list_scan n i found st = Some (m, st\<lparr>fs_console := c\<rparr>)"
  using assms
proof (induction n arbitrary: i found st)
  case 0
  have "st = st\<lparr>fs_console := fs_console st\<rparr>" by simp
  then show ?case unfolding list_scan.simps by blast
next
  case (Suc n)
  let ?d = "fs_disk st"
  have rec: "\<exists>m c'. list_scan n (Suc i) x (st\<lparr>fs_console := c\<rparr>) = Some (m, st\<lparr>fs_console := c'\<rparr>)" for x c
    using Suc.IH [of "st\<lparr>fs_console := c\<rparr>" "Suc i" x] Suc.prems by simp
  show ?case
  proof (cases "?d (entry_is_used i) = 0")
    case True
    then show ?thesis using rec [of found "fs_console st"] by simp
  next
    case False
    have "entry_rep ?d i (dir ! i)" using Suc.prems(1,3) by (simp add: fs_rep_def dir_rep_def)
    then obtain s where "cstr (ptr_at ?d (entry_name i)) s" using False by (auto simp: entry_rep_def split: option.splits)
    moreover have "ld32 ?d (entry_file_size i) \<noteq> 0x80000000" using Suc.prems(2,3) by (simp add: listable_def)
    then have "well_typed (lit (''  %s (%d bytes)'' @ [CHR 0x0A])) [AStr (ptr_at ?d (entry_name i)), AInt (ld32 ?d (entry_file_size i))]"
      by (simp add: fmt_chars chr_def)
    ultimately obtain c where "fs_say (''  %s (%d bytes)'' @ [CHR 0x0A]) [AStr (ptr_at ?d (entry_name i)), AInt (ld32 ?d (entry_file_size i))] st
        = Some (st\<lparr>fs_console := c\<rparr>)"
      using fs_say_total by (metis string_args_simps)
    then show ?thesis using False rec [of "Suc found" c] by (simp add: Let_def)
  qed
qed

lemma list_files_total:
  assumes "fs_rep (fs_disk st) dir" and "listable (fs_disk st)"
  shows "\<exists>c. fs_list_files st = Some (st\<lparr>fs_console := c\<rparr>)"
proof -
  obtain m c where scan: "list_scan MAX_DIR_ENTRIES 0 0 st = Some (m, st\<lparr>fs_console := c\<rparr>)"
    using list_scan_total [OF assms, of 0 MAX_DIR_ENTRIES 0] by (auto simp: MAX_DIR_ENTRIES_def)
  have "well_typed (lit (''  (empty)'' @ [CHR 0x0A])) []" by code_simp
  then obtain c' where "fs_say (''  (empty)'' @ [CHR 0x0A]) [] (st\<lparr>fs_console := c\<rparr>) = Some (st\<lparr>fs_console := c'\<rparr>)"
    using fs_say_total [of "''  (empty)'' @ [CHR 0x0A]" "[]" "st\<lparr>fs_console := c\<rparr>"] by auto
  then show ?thesis using scan by (auto simp: fs_list_files_def)
qed

lemma read_file_total:
  assumes rep: "fs_rep (fs_disk st) dir" and name: "cstr p s"
    and fit: "\<And>e. fs_find_file p (fs_disk st) = Some (Some e) \<Longrightarrow>
      4096 * unat (ld32 (fs_disk st) (entry_first_block e)) + read_extent sz (Some e) (fs_disk st) \<le> 4096 * 1024
      \<and> unat buf + read_extent sz (Some e) (fs_disk st) \<le> 2 ^ 32"
  shows "\<exists>r ram' en. fs_read_file p buf sz st ram = Some (r, ram') \<and> fs_find_file p (fs_disk st) = Some en"
proof (cases "dir_find s dir")
  case None
  then show ?thesis using fs_find_spec [OF rep name] by (simp add: fs_read_file_def)
next
  case (Some e)
  obtain f where f: "e < 64" "dir ! e = Some f" using dir_found [OF rep Some] .
  note entry = fs_rep_entry [OF rep f]
  have found: "fs_find_file p (fs_disk st) = Some (Some e)" using fs_find_spec [OF rep name] Some by simp
  obtain n where n: "read_extent sz (Some e) (fs_disk st) = 4096 * n"
    "n = unat (if ld32 (fs_disk st) (entry_file_size e) div BLOCK_SIZE + 1 < sz div BLOCK_SIZE + 1
      then ld32 (fs_disk st) (entry_file_size e) div BLOCK_SIZE + 1 else sz div BLOCK_SIZE + 1)"
    by (simp add: read_extent_def Let_def)
  have "eblock f + 0 + n \<le> 1024" "unat buf + 4096 * (0 + n) \<le> 2 ^ 32"
    using fit [OF found] entry(1,4) unfolding n(1) by (simp_all add: unat_of_nat32)
  from read_blocks_run [OF rep f this] obtain ram' where "read_blocks n 0 e buf st ram = Some ram'" by auto
  then show ?thesis using found by (simp add: fs_read_file_def Let_def n(2) del: read_blocks.simps)
qed

lemma say_returns: "well_typed (lit f) args \<Longrightarrow> string_args args \<Longrightarrow> \<exists>c. k_say f args k = Some (with_console c k)"
  using kprintf_total [of "lit f" args "k_console k"] by (auto simp: k_say_def)

definition call_returns :: "u32 \<Rightarrow> u32 \<Rightarrow> u32 \<Rightarrow> u32 \<Rightarrow> u32 \<Rightarrow> kernel \<Rightarrow> bool" where
  "call_returns area num arg1 arg2 arg3 k \<longleftrightarrow>
     (\<exists>r k'. syscall_dispatch num arg1 arg2 arg3 k = Some (r, k') \<and> kernel_ok area k')"

lemma call_returnsI: "syscall_dispatch num a b c k = Some (r, k') \<Longrightarrow> kernel_ok area k' \<Longrightarrow> call_returns area num a b c k"
  by (auto simp: call_returns_def)

lemma console_calls:
  assumes ok: "kernel_ok area k"
  shows "user_string k a \<Longrightarrow> call_returns area 1 a b c k" and "call_returns area 10 a b c k"
    and "call_returns area 11 a b c k" and "call_returns area 14 a b c k" and "call_returns area 15 a b c k"
    and "unat a < 25 \<Longrightarrow> unat b \<le> 80 \<Longrightarrow> call_returns area 16 a b c k"
    and "16 < num \<Longrightarrow> num \<noteq> 0x80000000 \<Longrightarrow> call_returns area num a b c k"
proof -
  show "call_returns area 1 a b c k" if str: "user_string k a"
  proof -
    have "well_typed (lit ''%s'') [AStr (user_ptr (paging_st k) a)]" by code_simp
    then obtain c' where "k_say ''%s'' [AStr (user_ptr (paging_st k) a)] k = Some (with_console c' k)"
      using say_returns str by (metis string_args_simps user_string_def)
    then show ?thesis using ok by (auto simp: call_returns_def syscall_dispatch_def Let_def)
  qed
  show "call_returns area 10 a b c k" "call_returns area 11 a b c k" "call_returns area 14 a b c k" "call_returns area 15 a b c k"
    using ok by (simp_all add: call_returns_def syscall_dispatch_def Let_def)
  show "call_returns area 16 a b c k" if "unat a < 25" "unat b \<le> 80"
    using clear_to_eol_row [OF that, of "k_console k"] ok by (auto simp: call_returns_def syscall_dispatch_def Let_def)
  show "call_returns area num a b c k" if num: "16 < num" "num \<noteq> 0x80000000"
  proof -
    have "well_typed (lit (''unknown syscall %d'' @ [CHR 0x0A])) [AInt num]" using num(2) by (simp add: fmt_chars chr_def)
    then obtain c' where c': "k_say (''unknown syscall %d'' @ [CHR 0x0A]) [AInt num] k = Some (with_console c' k)"
      using say_returns by (metis string_args_simps(1,2))
    have "num \<noteq> of_nat n" if "n \<le> 16" for n using num(1) that by (auto simp: word_less_nat_alt unat_of_nat32)
    from this [of 0] this [of 1] this [of 2] this [of 3] this [of 4] this [of 5] this [of 6] this [of 7] this [of 8]
      this [of 9] this [of 10] this [of 11] this [of 12] this [of 13] this [of 14] this [of 15] this [of 16]
    show ?thesis using c' ok by (simp add: call_returns_def syscall_dispatch_def Let_def)
  qed
qed

lemma file_calls:
  assumes ok: "kernel_ok area k"
  shows "listable (fs_disk (k_fs k)) \<Longrightarrow> call_returns area 5 a b c k"
    and "user_string k a \<Longrightarrow> call_returns area 6 a b c k" and "user_string k a \<Longrightarrow> call_returns area 7 a b c k"
    and "user_string k a \<Longrightarrow> call_returns area 9 a b c k"
proof -
  obtain dir where dir: "fs_rep (fs_disk (k_fs k)) dir" using ok by (auto simp: kernel_ok_def)
  show "call_returns area 5 a b c k" if "listable (fs_disk (k_fs k))"
    using list_files_total [OF dir that] with_fs_ok [OF ok, of _ dir] dir
    by (auto simp: call_returns_def syscall_dispatch_def Let_def)
  show "call_returns area 6 a b c k" "call_returns area 7 a b c k" "call_returns area 9 a b c k" if str: "user_string k a"
  proof -
    obtain s where s: "cstr (user_ptr (paging_st k) a) s" using str by (auto simp: user_string_def)
    show "call_returns area 6 a b c k"
      using create_file_spec [OF dir s] with_fs_ok [OF ok] by (auto simp: call_returns_def syscall_dispatch_def Let_def)
    show "call_returns area 7 a b c k"
      using delete_file_spec [OF dir s] with_fs_ok [OF ok] by (auto simp: call_returns_def syscall_dispatch_def Let_def)
    show "call_returns area 9 a b c k"
      using write_file_meta [OF dir s, of b c "user_view (paging_st k)"] with_fs_ok [OF ok]
      by (auto simp: call_returns_def syscall_dispatch_def Let_def)
  qed
qed

lemma read_call:
  assumes ok: "kernel_ok area k" and "user_string k a" and fit: "readable k a b c"
  shows "call_returns area 8 a b c k"
proof -
  let ?p = "user_ptr (paging_st k) a" and ?d = "fs_disk (k_fs k)"
  obtain dir s where dir: "fs_rep ?d dir" and s: "cstr ?p s" using assms(1,2) by (auto simp: kernel_ok_def user_string_def)
  have pg: "paging_ok (paging_st k)" using ok by (simp add: kernel_ok_def)
  have room: "4096 * unat (ld32 ?d (entry_first_block e)) + read_extent c (Some e) ?d \<le> 4096 * 1024"
    "no_table_in (paging_st k) b (read_extent c (Some e) ?d)" if "fs_find_file ?p ?d = Some (Some e)" for e
    using fit that by (auto simp: readable_def Let_def)
  obtain r ram' en where r: "fs_read_file ?p b c (k_fs k) (user_view (paging_st k)) = Some (r, ram')" "fs_find_file ?p ?d = Some en"
    using read_file_total [OF dir s, of c b "user_view (paging_st k)"] room by (fastforce simp: no_table_in_def)
  have "no_table_in (paging_st k) b (read_extent c en ?d)"
  proof (cases en)
    case None
    have "unat b < 2 ^ 32" by (rule unat32_less)
    then show ?thesis by (simp add: None read_extent_def no_table_in_def)
  qed (use room r(2) in simp)
  then have "paging_ok (store_user ram' b (read_extent c en ?d) (paging_st k))"
    using store_user_plain [OF pg, of b "read_extent c en ?d" ram'] by (simp add: no_table_in_def)
  then show ?thesis using r ok
    by (simp add: call_returns_def syscall_dispatch_def Let_def sys_read_file_def kernel_ok_def)
qed

lemma memory_calls:
  assumes ok: "kernel_ok area k"
  shows "call_returns area 3 a b c k" and "heap_live (heap_st k) (unat a) \<noteq> None \<Longrightarrow> call_returns area 4 a b c k"
    and "call_ok 12 a b c k \<Longrightarrow> call_returns area 12 a b c k"
    and "ring_contents (kbd_st k) \<noteq> [] \<Longrightarrow> call_returns area 2 a b c k"
proof -
  have h: "heap_ok area (heap_st k)" and r: "ring_ok (kbd_st k)" and p: "paging_ok (paging_st k)"
    using ok by (simp_all add: kernel_ok_def)
  obtain p h' where m: "malloc a (heap_st k) = Some (p, h')" using kheap.alloc_returns [OF h] by blast
  then show "call_returns area 3 a b c k" using kheap.alloc_inv [OF h m] ok
    by (simp add: call_returns_def syscall_dispatch_def Let_def kernel_ok_def)
  show "call_returns area 4 a b c k" if "heap_live (heap_st k) (unat a) \<noteq> None"
    using that mem_free_ok(1) [OF h] ok by (auto simp: call_returns_def syscall_dispatch_def Let_def kernel_ok_def)
  show "call_returns area 12 a b c k" if "call_ok 12 a b c k"
    using sys_sbrk_spec [OF p, of a] that ok
    by (auto simp: call_returns_def syscall_dispatch_def Let_def kernel_ok_def call_ok_def)
  show "call_returns area 2 a b c k" if ne: "ring_contents (kbd_st k) \<noteq> []"
  proof -
    obtain x xs where "ring_contents (kbd_st k) = x # xs" using ne by (cases "ring_contents (kbd_st k)") auto
    from pop_ok [OF r this] show ?thesis using ok
      by (auto simp: call_returns_def syscall_dispatch_def Let_def kernel_ok_def)
  qed
qed


lemma demo_kernel_ok: "fs_rep (fs_disk st) dir \<Longrightarrow> kernel_ok 0x200000 (demo_kernel st)"
  using heap0_ok paging0_ok(1) kbd0_ring(1) by (auto simp: kernel_ok_def demo_editor_def)


section \<open>Pointers are not checked\<close>

text \<open>The memory below 8 MB is as paging was set up: every address is its own, none for user mode,
  and the processor's tables lie above the first 636 KB.\<close>

definition kernel_window :: "paging \<Rightarrow> bool" where
  "kernel_window p \<longleftrightarrow> (\<forall>v. unat v < 0x800000 \<longrightarrow> page_walk (phys p) v = Some v \<and> \<not> user_page (phys p) v)
     \<and> (\<forall>x < 0x9C000. \<not> table_byte (phys p) x)"

lemma tables_high: "paging_ok p \<Longrightarrow> x < 0x9C000 \<Longrightarrow> \<not> table_byte (phys p) x"
  by (auto simp: table_byte_def paging_ok_def page_directory_def)

text \<open>
  The kernel does not check that a buffer belongs to the program: reading a file of less than
  one block into address \<open>0x800\<close> returns normally, whatever the size asked for, and the segment
  descriptors that \<open>gdt_init\<close> put there are replaced by the bytes of the file, although user mode
  may not touch that address itself.
\<close>
theorem read_replaces_descriptors:
  assumes "kernel_ok area k" and "kernel_window (paging_st k)"
    and "cstr (user_ptr (paging_st k) name) s" and "fs_rep (fs_disk (k_fs k)) dir" and "dir_find s dir = Some e"
    and "dir ! e = Some f" and "unat (esize f) < 4096" and "i < 8 * GDT_SIZE"
  shows "\<not> user_page (phys (paging_st k)) GDTBASE
    \<and> (\<exists>k'. syscall_dispatch 8 name GDTBASE sz k = Some (Returns (esize f), k')
         \<and> phys (paging_st k') (unat GDTBASE + i) = fs_disk (k_fs k) (4096 * eblock f + i))"
proof -
  let ?d = "fs_disk (k_fs k)" and ?p = "paging_st k"
  have pg: "paging_ok ?p" using assms(1) by (simp add: kernel_ok_def)
  have e: "e < 64" using dir_found [OF assms(4,5)] by blast
  note entry = fs_rep_entry [OF assms(4) e assms(6)]
  have small: "unat (esize f) div 4096 = 0" using assms(7) by simp
  have base: "unat GDTBASE = 0x800" by (simp add: GDTBASE_def)
  have buf: "buffer_ok GDTBASE (esize f)" using small by (simp add: buffer_ok_def GDTBASE_def)
  obtain ram' where ram': "fs_read_file (user_ptr ?p name) GDTBASE sz (k_fs k) (user_view ?p) = Some (esize f, ram')"
    "\<forall>x. ram' x = (if 0x800 \<le> x \<and> x < 0x800 + 4096 then ?d (4096 * eblock f + (x - 0x800)) else user_view ?p x)"
    using read_file_spec [OF assms(4,3,5,6) _ buf, of sz "user_view ?p"] small entry(4) base by auto
  have find: "fs_find_file (user_ptr ?p name) ?d = Some (Some e)" using fs_find_spec [OF assms(4,3)] assms(5) by simp
  have ext: "read_extent sz (Some e) ?d = 4096"
    using read_count [of "esize f" sz] small by (simp add: read_extent_def Let_def entry(2))
  have "phys (store_user ram' 0x800 4096 ?p) (0x800 + i) = (if unat (0x800 :: u32) \<le> 0x800 + i \<and> 0x800 + i < unat (0x800 :: u32) + 4096
      then ram' (0x800 + i) else phys ?p (0x800 + i))"
    by (rule store_user_identity [OF pg]) (use assms(2) in \<open>auto simp: kernel_window_def\<close>)
  then have "phys (store_user ram' 0x800 4096 ?p) (0x800 + i) = ?d (4096 * eblock f + i)"
    using ram'(2) assms(8) by (simp add: GDT_SIZE_def)
  then show ?thesis using assms(2) ram'(1) find
    by (simp add: kernel_window_def syscall_dispatch_def Let_def sys_read_file_def ext GDTBASE_def)
qed

text \<open>
  The memory that the system call \<open>malloc\<close> returns is in the kernel's heap, which lies in the
  first 8 MB: user mode may not touch a single byte of it.
\<close>
theorem sys_malloc_unusable:
  assumes "kernel_ok area k" and "kernel_window (paging_st k)" and "unat area + 0x100000 \<le> 0x800000"
    and "syscall_dispatch 3 n x y k = Some (Returns p, k')" and "p \<noteq> 0" and "j < unat n"
  shows "\<not> user_page (phys (paging_st k')) (p + of_nat j)"
proof -
  have h: "heap_ok area (heap_st k)" using assms(1) by (simp add: kernel_ok_def)
  obtain h' where m: "malloc n (heap_st k) = Some (p, h')" "paging_st k' = paging_st k"
    using assms(4) by (auto simp: syscall_dispatch_def Let_def split: bind_splits)
  have ok': "heap_ok area h'" using kheap.alloc_inv [OF h m(1)] .
  obtain s where s: "heap_live h' (unat p) = Some s" "unat n \<le> s"
    using kheap.alloc_live [OF h m(1) assms(5)] by auto
  have "unat p + s \<le> unat area + 0x100000" using live_header(5) [OF ok' s(1)] by simp
  then have lt: "unat p + j < 0x800000" using assms(3,6) s(2) by linarith
  then have "unat (p + of_nat j) < 0x800000" by (simp add: unat_word_ariths unat_of_nat)
  then show ?thesis using assms(2) m(2) by (simp add: kernel_window_def)
qed

text \<open>The demo kernel with the name of a file in memory, at an address the program may pass.\<close>

definition named_kernel :: "fs \<Rightarrow> kernel" where
  "named_kernel st = (demo_kernel st)\<lparr>paging_st := paging0\<lparr>phys := (phys paging0)(0x100000 := 0x61, 0x100001 := 0)\<rparr>\<rparr>"

lemma paging0_window: "kernel_window paging0"
  using init_paging_walk [of "\<lparr>phys = dirty_memory, next_free_page = 0x200000\<rparr>"] tables_high [OF paging0_ok(1)]
  unfolding kernel_window_def paging0_def by (simp add: word_less_nat_alt)

lemma paging0_plain: "0x9F000 \<le> x \<Longrightarrow> \<not> table_byte (phys paging0) x"
proof -
  assume x: "0x9F000 \<le> x"
  have "unat (table_of (phys paging0) i) < 0x9F000 - 4095" if "i < 1024" "present (phys paging0) i" for i
  proof -
    have "i = 0 \<or> i = 1" using that paging0_ok(2) [of i] by linarith
    then show ?thesis using init_paging_ok(4,5) [of "\<lparr>phys = dirty_memory, next_free_page = 0x200000\<rparr>"]
      by (auto simp: paging0_def aligned_iff)
  qed
  then show ?thesis using x by (force simp: table_byte_def page_directory_def)
qed

lemma named_kernel_facts:
  "paging_ok (paging_st (named_kernel st))" "kernel_window (paging_st (named_kernel st))"
  "cstr (user_ptr (paging_st (named_kernel st)) 0x100000) (lit ''a'')" "k_fs (named_kernel st) = st"
  "heap_st (named_kernel st) = heap0" "kbd_st (named_kernel st) = kbd0"
proof -
  let ?m1 = "(phys paging0)(0x100000 := 0x61)" and ?m2 = "(phys paging0)(0x100000 := 0x61, 0x100001 := 0)"
  have p: "\<not> table_byte (phys paging0) 0x100000" "\<not> table_byte (phys paging0) 0x100001" by (simp_all add: paging0_plain)
  note s1 = plain_store [OF p(1), where b = "0x61"]
  have p2: "\<not> table_byte ?m1 0x100001" using p(2) by (simp only: s1(4) not_False_eq_True)
  note s2 = plain_store [OF p2, where b = 0]
  have walk: "page_walk ?m2 w = page_walk (phys paging0) w" "user_page ?m2 w = user_page (phys paging0) w"
    "table_byte ?m2 = table_byte (phys paging0)" for w
    using s1 s2 by simp_all
  have dir: "dir_entry ?m2 i = dir_entry (phys paging0) i" if "i < 1024" for i
    using s1(1) [OF that] s2(1) [OF that] by simp
  have st: "paging_st (named_kernel st) = paging0\<lparr>phys := ?m2\<rparr>" by (simp add: named_kernel_def)
  show "paging_ok (paging_st (named_kernel st))"
    using paging0_ok(1) dir unfolding st by (simp add: paging_ok_def present_def table_of_def)
  show "kernel_window (paging_st (named_kernel st))"
    using paging0_window unfolding st by (simp add: kernel_window_def walk)
  have "page_walk (phys paging0) 0x100000 = Some 0x100000" "page_walk (phys paging0) 0x100001 = Some 0x100001"
    using paging0_window by (simp_all add: kernel_window_def)
  then show "cstr (user_ptr (paging_st (named_kernel st)) 0x100000) (lit ''a'')"
    unfolding st by (auto simp: cstr_def user_ptr_def user_view_def walk less_Suc_eq chr_def)
  show "k_fs (named_kernel st) = st" "heap_st (named_kernel st) = heap0" "kbd_st (named_kernel st) = kbd0"
    by (simp_all add: named_kernel_def demo_kernel_def demo_editor_def)
qed

theorem read_replaces_descriptors_witness:
  "\<exists>st k'. syscall_dispatch 8 0x100000 GDTBASE 512 (named_kernel st) = Some (Returns 0, k')
    \<and> phys (paging_st k') 0x830 = fs_disk st 0x3030"
proof -
  obtain st :: fs where st: "fs_rep (fs_disk st) two_files" using two_files_exist by metis
  then have "kernel_ok 0x200000 (named_kernel st)"
    using named_kernel_facts heap0_ok kbd0_ring(1) by (auto simp: kernel_ok_def)
  from read_replaces_descriptors [where name = "0x100000" and s = "lit ''a''" and dir = two_files and e = 0 and i = "0x30" and sz = 512, OF this]
    st two_files_find named_kernel_facts
  show ?thesis by (auto simp: GDT_SIZE_def GDTBASE_def)
qed

theorem sys_malloc_unusable_witness:
  "\<exists>st k' p. syscall_dispatch 3 100 0 0 (named_kernel st) = Some (Returns p, k') \<and> p \<noteq> 0
     \<and> \<not> user_page (phys (paging_st k')) (p + 99)"
proof -
  obtain h1 where h1: "malloc 100 heap0 = Some (0x2FFF9C, h1)" by (rule heap0_malloc)
  obtain st :: fs where st: "fs_rep (fs_disk st) two_files" using two_files_exist by metis
  let ?k = "named_kernel st"
  have ok: "kernel_ok 0x200000 ?k"
    using st named_kernel_facts heap0_ok kbd0_ring(1) by (auto simp: kernel_ok_def)
  have call: "syscall_dispatch 3 100 0 0 ?k = Some (Returns 0x2FFF9C, ?k\<lparr>heap_st := h1\<rparr>)"
    using h1 by (simp add: syscall_dispatch_def Let_def named_kernel_facts)
  show ?thesis
    using sys_malloc_unusable [OF ok named_kernel_facts(2) _ call, of 99] call
    by (intro exI [of _ st] exI [of _ "?k\<lparr>heap_st := h1\<rparr>"] exI [of _ "0x2FFF9C"]) simp
qed

end
