(* ===== verification/BootPages.thy ===== *)
theory BootPages
  imports SyscallSafe
begin

text \<open>
  The pages that \<open>kernel_main\<close> gives to the programs: mapping them one after the other and filling
  them through their addresses.  \<open>placed p A\<close>: the addresses \<open>A\<close> belong to user mode, each with a byte of
  its own in a frame already taken that is no translation table.  Mapping further pages and storing
  to other addresses of \<open>A\<close> keeps the bytes there.
\<close>

section \<open>Filling memory through addresses\<close>

text \<open>A store to an address that is not mapped faults; there is no gate for the fault.\<close>

definition write_virt :: "u32 \<Rightarrow> u8 \<Rightarrow> paging \<Rightarrow> paging option" where
  "write_virt a b p = (case page_walk (phys p) a of
     Some f \<Rightarrow> Some (p\<lparr>phys := (phys p)(unat f := b)\<rparr>) | None \<Rightarrow> None)"

fun copy_binary :: "u32 \<Rightarrow> u8 list \<Rightarrow> paging \<Rightarrow> paging option" where
  "copy_binary dst [] p = Some p"
| "copy_binary dst (b # bs) p = do { p1 \<leftarrow> write_virt dst b p; copy_binary (dst + 1) bs p1 }"

fun zero_region :: "u32 \<Rightarrow> nat \<Rightarrow> paging \<Rightarrow> paging option" where
  "zero_region ptr 0 p = Some p"
| "zero_region ptr (Suc n) p = do { p1 \<leftarrow> write_virt ptr 0 p; zero_region (ptr + 1) n p1 }"

lemma zero_region_copy: "zero_region ptr n p = copy_binary ptr (replicate n 0) p"
  by (induction n arbitrary: ptr p) (simp_all cong: Option.bind_cong)

section \<open>Bytes under a new mapping\<close>

lemma map_fresh_unfold:
  fixes v :: u32
  assumes ok: "paging_ok p" and room: "unat (next_free_page p) + 8192 \<le> 0x800000"
  defines "p1 \<equiv> p\<lparr>next_free_page := next_free_page p + PAGE_SIZE\<rparr>"
  defines "q \<equiv> ensure_table v p1"
  defines "a \<equiv> unat (table_of (phys q) (dir_index v)) + 4 * table_index v"
  shows "map_fresh_page v p = Some (q\<lparr>phys := st32 (phys q) a (next_free_page p OR mask 3)\<rparr>)"
    and "paging_ok p1" and "unat (next_free_page p1) = unat (next_free_page p) + 4096"
proof -
  have al: "aligned (next_free_page p)" and r: "unat (next_free_page p) < 0x8000000"
    using ok room by (simp_all add: paging_ok_def)
  note nf = alloc_frame_spec [OF r al]
  show ok1: "paging_ok p1" using ok nf(2,3) unfolding p1_def by (fastforce simp: paging_ok_def)
  show u: "unat (next_free_page p1) = unat (next_free_page p) + 4096" using nf(2) by (simp add: p1_def)
  have al1: "aligned (next_free_page p1)" and r1: "unat (next_free_page p1) < 0x8000000"
    using ok1 u room by (simp_all add: paging_ok_def)
  note q = ensure_table_ok [OF ok1 r1, where v = v]
  have "unat (table_of (phys q) (dir_index v)) + 4096 \<le> unat (next_free_page q)"
    using q(1,2) index_bounds(1) [of v] unfolding q_def by (auto simp: paging_ok_def)
  then have "a + 4 \<le> 0x800000"
    using q(4) u room index_bounds(2) [of v] unfolding a_def q_def by (simp split: if_splits)
  then show "map_fresh_page v p = Some (q\<lparr>phys := st32 (phys q) a (next_free_page p OR mask 3)\<rparr>)"
    using map_user_page_unfold [OF al1 r1, of v "next_free_page p"] nf(1)
    unfolding map_fresh_page_def a_def q_def by (simp add: store_table_def p1_def)
qed

lemma map_fresh_bytes:
  assumes ok: "paging_ok p" and room: "unat (next_free_page p) + 8192 \<le> 0x800000"
    and map: "map_fresh_page v p = Some p'"
  shows "x < unat (next_free_page p) \<Longrightarrow> \<not> table_byte (phys p) x \<Longrightarrow> phys p' x = phys p x \<and> \<not> table_byte (phys p') x"
    and "unat (next_free_page p) \<le> x \<Longrightarrow> x < unat (next_free_page p) + 4096 \<Longrightarrow> \<not> table_byte (phys p') x"
proof -
  let ?p1 = "p\<lparr>next_free_page := next_free_page p + PAGE_SIZE\<rparr>" and ?i = "dir_index v"
  let ?q = "ensure_table v ?p1"
  let ?a = "unat (table_of (phys ?q) ?i) + 4 * table_index v"
  note un = map_fresh_unfold(1) [OF ok room, where v = v] map_fresh_unfold(2,3) [OF ok room]
  have p': "phys p' = st32 (phys ?q) ?a (next_free_page p OR mask 3)" using un(1) map by simp
  have r1: "unat (next_free_page ?p1) < 0x8000000" using un(3) room by simp
  note q = ensure_table_ok [OF un(2) r1, where v = v]
  have i: "?i < 1024" "table_index v < 1024" by (rule index_bounds)+
  have a9: "0x9D000 \<le> unat (table_of (phys ?q) ?i)" using q(1,2) i by (auto simp: paging_ok_def)
  have dirq: "dir_entry (phys ?q) j = dir_entry (phys p) j" if "j < 1024" "j \<noteq> ?i \<or> present (phys p) ?i" for j
    using that i unfolding ensure_table_def dir_entry_def
    by (cases "present (phys p) ?i"; cases j ?i rule: linorder_cases) (simp_all add: ld32_st32_other)
  have dir': "dir_entry (phys p') j = dir_entry (phys ?q) j" if "j < 1024" for j
    unfolding p' by (rule dir_entry_store) (use a9 that in auto)
  have tab: "table_of (phys p') j = (if j = ?i \<and> \<not> present (phys p) ?i then next_free_page ?p1 else table_of (phys p) j)" if "j < 1024" for j
    using dir' [OF that] dirq [OF that] q(5) by (auto simp: table_of_def)
  have pres: "present (phys p') j \<Longrightarrow> j = ?i \<and> \<not> present (phys p) ?i \<or> present (phys p) j" if "j < 1024" for j
    using dir' [OF that] dirq [OF that] unfolding present_def by (cases "j = ?i \<and> dir_entry (phys p) ?i AND PAGE_PRESENT = 0") auto
  have tb: "table_byte (phys p') x \<Longrightarrow> table_byte (phys p) x \<or> unat (next_free_page ?p1) \<le> x" for x
    unfolding table_byte_def using tab pres by (metis (no_types, lifting))
  have low: "table_byte (phys p) x \<Longrightarrow> x < unat (next_free_page p)" for x
    using ok by (auto simp: table_byte_def paging_ok_def page_directory_def)
  show "\<not> table_byte (phys p') x" if "unat (next_free_page p) \<le> x" "x < unat (next_free_page p) + 4096"
    using tb [of x] low [of x] that un(3) by auto
  show "phys p' x = phys p x \<and> \<not> table_byte (phys p') x" if x: "x < unat (next_free_page p)" "\<not> table_byte (phys p) x"
  proof -
    have "phys ?q x = phys p x"
      using x(2) i unfolding ensure_table_def table_byte_def by (auto simp: st32_other)
    moreover have "x < ?a \<or> ?a + 4 \<le> x"
    proof (cases "present (phys p) ?i")
      case True
      then have "table_of (phys ?q) ?i = table_of (phys p) ?i" using dirq [OF i(1)] by (simp add: table_of_def)
      moreover have "\<not> (unat (table_of (phys p) ?i) \<le> x \<and> x < unat (table_of (phys p) ?i) + 4096)"
        using x(2) True i(1) unfolding table_byte_def by blast
      ultimately show ?thesis using i(2) by simp linarith
    next
      case False
      then have "table_of (phys ?q) ?i = next_free_page ?p1" using q(5) by simp
      then show ?thesis using x(1) un(3) by simp
    qed
    ultimately show ?thesis using tb [of x] x un(3) by (auto simp: p' st32_other)
  qed
qed


section \<open>Pages given to the programs\<close>

definition region :: "nat \<Rightarrow> nat \<Rightarrow> u32 set" where
  "region a n = {w. a \<le> unat w \<and> unat w < a + n}"

lemma region_page: "a mod 4096 = 0 \<Longrightarrow> a < 2 ^ 32 \<Longrightarrow> region a 4096 = {w. unat w div 4096 = unat (of_nat a :: u32) div 4096}"
proof -
  assume "a mod 4096 = 0" and lt: "a < 2 ^ 32"
  then obtain k where k: "a = 4096 * k" by auto
  have "a \<le> unat w \<and> unat w < a + 4096 \<longleftrightarrow> unat w div 4096 = a div 4096" for w :: u32
    unfolding k using div_mult_mod_eq [of "unat w" 4096] mod_less_divisor [of 4096 "unat w"] by auto
  then show ?thesis unfolding unat_of_nat32 [OF lt] by (simp add: region_def)
qed

definition placed :: "paging \<Rightarrow> u32 set \<Rightarrow> bool" where
  "placed p A \<longleftrightarrow> paging_ok p \<and> kernel_window p \<and> inj_on (page_walk (phys p)) A
     \<and> (\<forall>v\<in>A. user_page (phys p) v \<and> (\<exists>f. page_walk (phys p) v = Some f \<and> 0xA0000 \<le> unat f
          \<and> unat f < unat (next_free_page p) \<and> \<not> table_byte (phys p) (unat f)))"

text \<open>The bytes at the addresses \<open>A\<close> and at the start of the memory are kept, and the open directory entries.\<close>

definition undisturbed :: "paging \<Rightarrow> paging \<Rightarrow> u32 set \<Rightarrow> bool" where
  "undisturbed p p' A \<longleftrightarrow> (\<forall>w\<in>A. user_view p' (unat w) = user_view p (unat w))
     \<and> (\<forall>x < 0x9C000. phys p' x = phys p x) \<and> opens (phys p') = opens (phys p)"

lemma undisturbed_trans: "undisturbed p p' A \<Longrightarrow> undisturbed p' p'' B \<Longrightarrow> A \<subseteq> B \<Longrightarrow> undisturbed p p'' A"
  by (auto simp: undisturbed_def)

lemma user_view_at: "user_view p (unat w) = (case page_walk (phys p) w of Some f \<Rightarrow> phys p (unat f) | None \<Rightarrow> 0)"
  by (simp add: user_view_def)

lemma window_present: "kernel_window p \<Longrightarrow> unat w < 0x800000 \<Longrightarrow> present (phys p) (dir_index w)"
  by (auto simp: kernel_window_def walk_of split: if_splits)

lemma placed_map:
  assumes pl: "placed p A" and room: "unat (next_free_page p) + 8192 \<le> 0x800000"
    and v: "0x800000 \<le> unat v" and new: "\<forall>w\<in>A. unat w div 4096 \<noteq> unat v div 4096"
    and user: "open_entry (phys p) (dir_index v)"
  shows "\<exists>p'. map_fresh_page v p = Some p' \<and> placed p' (A \<union> {w. unat w div 4096 = unat v div 4096})
    \<and> unat (next_free_page p') \<le> unat (next_free_page p) + 8192 \<and> undisturbed p p' A
    \<and> (\<forall>w. page_walk (phys p) w \<noteq> None \<and> unat w div 4096 \<noteq> unat v div 4096 \<longrightarrow> same_walk (phys p') (phys p) w)"
proof -
  have ok: "paging_ok p" and win: "kernel_window p" using pl by (simp_all add: placed_def)
  have al: "aligned (next_free_page p)" and lo: "0xA0000 \<le> unat (next_free_page p)" using ok by (simp_all add: paging_ok_def)
  let ?P = "{w. unat w div 4096 = unat v div 4096}"
  have open_P: "open_entry (phys p) (dir_index w)" if "w \<in> ?P" for w
    using that user same_page [of w v] by simp
  note spec = map_fresh_page_spec [OF ok room]
  obtain p' where p': "map_fresh_page v p = Some p'" using spec [of v] by auto
  have same: "map_fresh_page w p = Some p'" if "w \<in> ?P" for w using map_fresh_page_same [of w v p] that p' by simp
  have ok': "paging_ok p'" and nf: "unat (next_free_page p) + 4096 \<le> unat (next_free_page p')"
    "unat (next_free_page p') \<le> unat (next_free_page p) + 8192" using spec [of v] p' by auto
  have at: "page_walk (phys p') w = Some (next_free_page p OR w AND 0xFFF)" "user_page (phys p') w" if "w \<in> ?P" for w
    using spec [of w] same [OF that] open_P [OF that] by auto
  have sum: "unat (next_free_page p OR w AND 0xFFF) = unat (next_free_page p) + unat w mod 4096" for w
    by (rule offset_sum [OF al])
  have old: "same_walk (phys p') (phys p) w" if "present (phys p) (dir_index w)" "w \<notin> ?P" for w
    using spec [of v] p' that by auto
  have mine: "present (phys p) (dir_index w)" "w \<notin> ?P" if "w \<in> A" for w
    using pl that new by (auto simp: placed_def walk_of split: if_splits)
  note bytes = map_fresh_bytes [OF ok room p']
  have win': "kernel_window p'"
  proof -
    have "page_walk (phys p') w = Some w \<and> \<not> user_page (phys p') w" if "unat w < 0x800000" for w
    proof -
      have "w \<notin> ?P" using that v div_le_mono [of "0x800000" "unat v" 4096] by (auto simp: div_less_iff_less_mult)
      then show ?thesis using old [OF window_present [OF win that]] win that by (simp add: same_walk_def kernel_window_def)
    qed
    then show ?thesis using tables_high [OF ok'] by (simp add: kernel_window_def)
  qed
  have A: "page_walk (phys p') w = page_walk (phys p) w" "user_page (phys p') w = user_page (phys p) w" if "w \<in> A" for w
    using old [OF mine [OF that]] by (simp_all add: same_walk_def)
  have frame: "\<exists>f. page_walk (phys p) w = Some f \<and> 0xA0000 \<le> unat f \<and> unat f < unat (next_free_page p)
      \<and> phys p' (unat f) = phys p (unat f) \<and> \<not> table_byte (phys p') (unat f)" if "w \<in> A" for w
    using pl that bytes(1) by (auto simp: placed_def)
  have fresh: "unat (next_free_page p) \<le> unat (next_free_page p OR w AND 0xFFF)"
    "unat (next_free_page p OR w AND 0xFFF) < unat (next_free_page p) + 4096" for w using sum [of w] by simp_all
  have inj: "inj_on (page_walk (phys p')) (A \<union> ?P)"
  proof (rule inj_onI)
    fix x y assume xy: "x \<in> A \<union> ?P" "y \<in> A \<union> ?P" "page_walk (phys p') x = page_walk (phys p') y"
    have mixed: False if "a \<in> A" "b \<in> ?P" "page_walk (phys p') a = page_walk (phys p') b" for a b
      using frame [OF that(1)] A(1) [OF that(1)] at(1) [OF that(2)] that(3) fresh(1) [of b] by auto
    show "x = y"
    proof (cases "x \<in> A"; cases "y \<in> A")
      assume "x \<in> A" "y \<in> A"
      then show ?thesis using pl xy(3) A(1) by (auto simp: placed_def dest: inj_onD)
    next
      assume "x \<notin> A" "y \<notin> A"
      then have P: "x \<in> ?P" "y \<in> ?P" using xy by auto
      have "unat x mod 4096 = unat y mod 4096" using at(1) [OF P(1)] at(1) [OF P(2)] xy(3) sum [of x] sum [of y] by simp
      then have "unat x = unat y" using P div_mult_mod_eq [of "unat x" 4096] div_mult_mod_eq [of "unat y" 4096] by simp
      then show ?thesis by (simp add: word_unat_eq_iff)
    qed (use mixed [of x y] mixed [of y x] xy in auto)
  qed
  have "placed p' (A \<union> ?P)" unfolding placed_def
  proof (intro conjI ballI ok' win' inj)
    fix w assume w: "w \<in> A \<union> ?P"
    show "user_page (phys p') w" using w at(2) A(2) pl by (auto simp: placed_def)
    show "\<exists>f. page_walk (phys p') w = Some f \<and> 0xA0000 \<le> unat f \<and> unat f < unat (next_free_page p')
        \<and> \<not> table_byte (phys p') (unat f)"
    proof (cases "w \<in> A")
      case True
      then show ?thesis using frame [OF True] A(1) [OF True] nf(1) by fastforce
    next
      case False
      then have P: "w \<in> ?P" using w by simp
      show ?thesis using at(1) [OF P] fresh [of w] bytes(2) [OF fresh] lo nf(1) by auto
    qed
  qed
  moreover have "undisturbed p p' A" unfolding undisturbed_def
  proof (intro conjI ballI allI impI)
    show "user_view p' (unat w) = user_view p (unat w)" if "w \<in> A" for w
      using frame [OF that] A(1) [OF that] by (auto simp: user_view_at)
    show "phys p' x = phys p x" if "x < 0x9C000" for x
      using bytes(1) [of x] tables_high [OF ok that] lo that by simp
    show "opens (phys p') = opens (phys p)" using spec [of v] p' by (intro opens_cong) simp
  qed
  moreover have "same_walk (phys p') (phys p) w" if "page_walk (phys p) w \<noteq> None" "unat w div 4096 \<noteq> unat v div 4096" for w
    using old [of w] that by (auto simp: walk_of split: if_splits)
  ultimately show ?thesis using p' nf(2) by blast
qed

lemma placed_store:
  assumes pl: "placed p A" and v: "v \<in> A"
  shows "\<exists>p'. write_virt v b p = Some p' \<and> placed p' A \<and> next_free_page p' = next_free_page p
    \<and> (\<forall>w\<in>A. user_view p' (unat w) = (if w = v then b else user_view p (unat w))) \<and> (\<forall>x < 0x9C000. phys p' x = phys p x) \<and> opens (phys p') = opens (phys p) \<and> page_walk (phys p') = page_walk (phys p) \<and> user_page (phys p') = user_page (phys p)"
proof -
  obtain f where f: "page_walk (phys p) v = Some f" "0xA0000 \<le> unat f" "\<not> table_byte (phys p) (unat f)"
    using pl v by (auto simp: placed_def)
  let ?p = "store_byte v b p"
  have m: "phys ?p = (phys p)(unat f := b)" "write_virt v b p = Some ?p" using f(1) by (simp_all add: store_byte_def write_virt_def)
  have nt: "\<forall>g. page_walk (phys p) v = Some g \<longrightarrow> \<not> table_byte (phys p) (unat g)" using f by simp
  have pok: "paging_ok p" and inj: "inj_on (page_walk (phys p)) A" using pl by (simp_all add: placed_def)
  note st = store_byte_plain [where a = v and b = b, OF pok nt]
  have pl': "placed ?p A" using pl st(1) unfolding placed_def kernel_window_def st(2-5) by simp
  have "user_view ?p (unat w) = (if w = v then b else user_view p (unat w))" if w: "w \<in> A" for w
  proof (cases "w = v")
    case True
    then show ?thesis using f(1) unfolding user_view_at st(3) by (simp add: m(1))
  next
    case False
    then have "page_walk (phys p) w \<noteq> Some f" using inj_onD [OF inj, of w v] v w f(1) by auto
    then show ?thesis using False unfolding user_view_at st(3) by (auto simp: m(1) word_unat_eq_iff split: option.split)
  qed
  moreover have "phys ?p x = phys p x" if "x < 0x9C000" for x using f(2) that unfolding m(1) by simp
  ultimately show ?thesis using pl' st(2,3,5,6) m(2) by blast
qed

lemma placed_copy:
  assumes "placed p A" and "\<forall>i < length bs. dst + of_nat i \<in> A" and "length bs < 2 ^ 32"
  shows "\<exists>p'. copy_binary dst bs p = Some p' \<and> placed p' A \<and> next_free_page p' = next_free_page p
    \<and> (\<forall>w\<in>A. user_view p' (unat w) = (if unat (w - dst) < length bs then bs ! unat (w - dst) else user_view p (unat w)))
    \<and> (\<forall>x < 0x9C000. phys p' x = phys p x) \<and> opens (phys p') = opens (phys p) \<and> page_walk (phys p') = page_walk (phys p) \<and> user_page (phys p') = user_page (phys p)"
  using assms
proof (induction bs arbitrary: dst p)
  case Nil
  then show ?case by simp
next
  case (Cons b bs)
  have "dst \<in> A" using Cons.prems(2) by (auto dest: spec [of _ 0])
  from placed_store [OF Cons.prems(1) this, of b] obtain p1 where p1: "write_virt dst b p = Some p1" "placed p1 A"
    "next_free_page p1 = next_free_page p" "\<forall>w\<in>A. user_view p1 (unat w) = (if w = dst then b else user_view p (unat w))"
    "\<forall>x < 0x9C000. phys p1 x = phys p x" "opens (phys p1) = opens (phys p)" "page_walk (phys p1) = page_walk (phys p)" "user_page (phys p1) = user_page (phys p)" by blast
  have "\<forall>i < length bs. dst + 1 + of_nat i \<in> A"
  proof (intro allI impI)
    fix i assume "i < length bs"
    then show "dst + 1 + of_nat i \<in> A" using Cons.prems(2) [rule_format, of "Suc i"] by (simp add: add.assoc)
  qed
  moreover have "length bs < 2 ^ 32" using Cons.prems(3) by simp
  ultimately obtain p' where p': "copy_binary (dst + 1) bs p1 = Some p'" "placed p' A" "next_free_page p' = next_free_page p1"
    "\<forall>w\<in>A. user_view p' (unat w) = (if unat (w - (dst + 1)) < length bs then bs ! unat (w - (dst + 1)) else user_view p1 (unat w))"
    "\<forall>x < 0x9C000. phys p' x = phys p1 x" "opens (phys p') = opens (phys p1)" "page_walk (phys p') = page_walk (phys p1)" "user_page (phys p') = user_page (phys p1)"
    using Cons.IH [OF p1(2)] by blast
  have "user_view p' (unat w) = (if unat (w - dst) < length (b # bs) then (b # bs) ! unat (w - dst) else user_view p (unat w))"
    if w: "w \<in> A" for w
  proof (cases "w = dst")
    case True
    have "unat (w - (dst + 1)) = 2 ^ 32 - 1" unfolding True by (rule unat_offset_self)
    then have "\<not> unat (w - (dst + 1)) < length bs" using Cons.prems(3) by simp
    then show ?thesis using p'(4) p1(4) w True by simp
  next
    case False
    then show ?thesis using p'(4) p1(4) w unat_offset_Suc [OF False] by simp
  qed
  then show ?case using p1(1,3,5-8) p' by (intro exI [of _ p']) simp
qed

lemma placed_zero:
  assumes "placed p A" and "\<forall>i < n. dst + of_nat i \<in> A" and "n < 2 ^ 32"
  shows "\<exists>p'. zero_region dst n p = Some p' \<and> placed p' A \<and> next_free_page p' = next_free_page p
    \<and> (\<forall>w\<in>A. user_view p' (unat w) = (if unat (w - dst) < n then 0 else user_view p (unat w)))
    \<and> (\<forall>x < 0x9C000. phys p' x = phys p x) \<and> opens (phys p') = opens (phys p) \<and> page_walk (phys p') = page_walk (phys p) \<and> user_page (phys p') = user_page (phys p)"
  using placed_copy [of p A "replicate n 0" dst] assms unfolding zero_region_copy length_replicate by (simp cong: if_cong)

lemma placed_run:
  assumes "placed p A" and "unat (next_free_page p) + 8192 * n \<le> 0x800000" and "a mod 4096 = 0"
    and "0x800000 \<le> a" and "a + 4096 * n \<le> 2 ^ 32" and "A \<inter> region a (4096 * n) = {}"
    and "\<forall>v \<in> region a (4096 * n). open_entry (phys p) (dir_index v)"
  shows "\<exists>p'. map_fresh_run a n p = Some p' \<and> placed p' (A \<union> region a (4096 * n))
    \<and> unat (next_free_page p') \<le> unat (next_free_page p) + 8192 * n \<and> undisturbed p p' A
    \<and> (\<forall>w. page_walk (phys p) w \<noteq> None \<and> w \<notin> region a (4096 * n) \<longrightarrow> same_walk (phys p') (phys p) w)"
  using assms
proof (induction n arbitrary: a p A)
  case 0
  have "region a 0 = {}" by (auto simp: region_def)
  then show ?case using 0 by (simp add: undisturbed_def)
next
  case (Suc n)
  have a: "a < 2 ^ 32" using Suc.prems(5) by simp
  note u = unat_of_nat32 [OF a] and page = region_page [OF Suc.prems(3) a]
  have new: "\<forall>w\<in>A. unat w div 4096 \<noteq> unat (of_nat a :: u32) div 4096"
  proof (intro ballI notI)
    fix w assume w: "w \<in> A" "unat w div 4096 = unat (of_nat a :: u32) div 4096"
    then have "w \<in> region a 4096" unfolding page by simp
    then show False using w(1) Suc.prems(6) by (auto simp: region_def)
  qed
  have "of_nat a \<in> region a (4096 * Suc n)" using u by (simp add: region_def)
  then have user: "open_entry (phys p) (dir_index (of_nat a))" using Suc.prems(7) by blast
  have r: "unat (next_free_page p) + 8192 \<le> 0x800000" "0x800000 \<le> unat (of_nat a :: u32)" using Suc.prems(2,4) u by simp_all
  obtain p1 where p1: "map_fresh_page (of_nat a) p = Some p1" "placed p1 (A \<union> region a 4096)"
    "unat (next_free_page p1) \<le> unat (next_free_page p) + 8192" "undisturbed p p1 A"
    "\<forall>w. page_walk (phys p) w \<noteq> None \<and> w \<notin> region a 4096 \<longrightarrow> same_walk (phys p1) (phys p) w"
    using placed_map [OF Suc.prems(1) r new user] unfolding page by auto
  have "(A \<union> region a 4096) \<inter> region (a + 4096) (4096 * n) = {}" using Suc.prems(6) by (auto simp: region_def)
  moreover have later: "\<forall>v \<in> region (a + 4096) (4096 * n). open_entry (phys p1) (dir_index v)"
  proof
    fix v assume "v \<in> region (a + 4096) (4096 * n)"
    then have "v \<in> region a (4096 * Suc n)" by (simp add: region_def)
    then have "dir_index v \<in> opens (phys p1)" using Suc.prems(7) p1(4) by (simp add: undisturbed_def)
    then show "open_entry (phys p1) (dir_index v)" by simp
  qed
  ultimately obtain p' where p': "map_fresh_run (a + 4096) n p1 = Some p'"
    "placed p' (A \<union> region a 4096 \<union> region (a + 4096) (4096 * n))"
    "unat (next_free_page p') \<le> unat (next_free_page p1) + 8192 * n" "undisturbed p1 p' (A \<union> region a 4096)"
    "\<forall>w. page_walk (phys p1) w \<noteq> None \<and> w \<notin> region (a + 4096) (4096 * n) \<longrightarrow> same_walk (phys p') (phys p1) w"
    using Suc.IH [OF p1(2), of "a + 4096"] p1(3) Suc.prems(2-5) later by auto
  have "region a (4096 * Suc n) = region a 4096 \<union> region (a + 4096) (4096 * n)" by (auto simp: region_def)
  moreover have "same_walk (phys p') (phys p) w" if "page_walk (phys p) w \<noteq> None" "w \<notin> region a (4096 * Suc n)" for w
  proof -
    have "w \<notin> region a 4096" "w \<notin> region (a + 4096) (4096 * n)" using that(2) by (auto simp: region_def)
    then have "same_walk (phys p1) (phys p) w" "same_walk (phys p') (phys p1) w" using p1(5) p'(5) that(1) by (auto simp: same_walk_def)
    then show ?thesis by (metis same_walk_trans)
  qed
  ultimately show ?case using p1(1,3) p'(1-3) undisturbed_trans [OF p1(4) p'(4)]
    by (intro exI [of _ p']) (auto simp add: Un_assoc)
qed

end
