(* ===== verification/HeapOwn.thy ===== *)
theory HeapOwn
  imports HeapLive
begin

text \<open>
  Buffers that a piece of kernel code has requested from \<open>malloc\<close>: the relation \<open>owns\<close> of theory
  \<open>Allocator\<close> for the model of the heap, with word stores and \<open>realloc\<close>.  \<open>owned area h0 own h\<close>: since
  the heap \<open>h0\<close> the code has requested the buffers \<open>own\<close>, and everything live in \<open>h0\<close> is untouched.
\<close>

definition owned :: "u32 \<Rightarrow> heap \<Rightarrow> (nat \<Rightarrow> nat option) \<Rightarrow> heap \<Rightarrow> bool" where
  "owned area h0 own h \<longleftrightarrow> heap_ok area h \<and> owns (heap_live h0) (hmem h0) own (heap_live h) (hmem h)"

lemma owned_start: "heap_ok area h \<Longrightarrow> owned area h Map.empty h"
  by (simp add: owned_def owns_none)

lemma owned_none: "owned area h0 Map.empty h \<Longrightarrow> heap_live h = heap_live h0"
  unfolding owned_def using owns_all_released by blast

lemma owned_live: "owned area h0 own h \<Longrightarrow> own p = Some s \<Longrightarrow> heap_live h p = Some s"
  unfolding owned_def using owns_live by blast

lemma owned_ok: "owned area h0 own h \<Longrightarrow> heap_ok area h" by (simp add: owned_def)

lemma owned_keeps:
  "owned area h0 own h \<Longrightarrow> heap_live h0 q = Some t \<Longrightarrow> k < t \<Longrightarrow> heap_live h q = Some t \<and> hmem h (q + k) = hmem h0 (q + k)"
  unfolding owned_def owns_def by (auto simp: map_add_def split: option.split)

lemma owned_range:
  fixes p :: u32
  assumes "owned area h0 own h" and "own (unat p) = Some s"
  shows "unat area + 16 \<le> unat p" and "unat p + s \<le> unat area + 1048576" and "unat area + 1048576 < 2 ^ 32"
  using live_header(4,5) [OF owned_ok [OF assms(1)] owned_live [OF assms]] owned_ok [OF assms(1)]
  by (simp_all add: heap_ok_def heap_rep_def)

lemma owned_addr:
  fixes p :: u32
  assumes "owned area h0 own h" and "own (unat p) = Some s" and "k \<le> s"
  shows "unat (p + of_nat k) = unat p + k"
proof -
  have "unat p + k < 2 ^ 32" using owned_range [OF assms(1,2)] assms(3) by linarith
  then show ?thesis by (simp add: unat_word_ariths unat_of_nat)
qed

lemma owned_malloc:
  assumes "owned area h0 own h"
  obtains "malloc n h = Some (0, h)"
  | p h' t where "malloc n h = Some (p, h')" "p \<noteq> 0" "own (unat p) = None" "unat n \<le> t" "owned area h0 (own(unat p \<mapsto> t)) h'"
    "\<forall>q u k. own q = Some u \<longrightarrow> k < u \<longrightarrow> hmem h' (q + k) = hmem h (q + k)"
proof -
  have ok: "heap_ok area h" and ow: "owns (heap_live h0) (hmem h0) own (heap_live h) (hmem h)" using assms by (simp_all add: owned_def)
  obtain p h' where m: "malloc n h = Some (p, h')" using kheap.alloc_returns [OF ok] by blast
  show thesis
  proof (cases "p = 0")
    case True
    then show thesis using that(1) m kheap.alloc_null [OF ok] by blast
  next
    case False
    then show thesis using kheap.owns_alloc [OF ow ok m] that(2) [OF m] by (auto simp: owned_def)
  qed
qed

lemma owned_poke:
  "owned area h0 own h \<Longrightarrow> own a = Some s \<Longrightarrow> k < s \<Longrightarrow> owned area h0 own (heap_poke (a + k) v h)"
  unfolding owned_def using kheap.owns_poke by blast

lemma owned_free:
  assumes "owned area h0 own h" and "own (unat p) = Some s"
  shows "owned area h0 (own(unat p := None)) (mem_free p h)"
    and "\<forall>q u k. own q = Some u \<longrightarrow> q \<noteq> unat p \<longrightarrow> k < u \<longrightarrow> hmem (mem_free p h) (q + k) = hmem h (q + k)"
  using kheap.owns_release [of "heap_live h0" "hmem h0" own h area p s] assms by (auto simp: owned_def)

text \<open>Two owned buffers do not meet.\<close>

lemma owned_apart:
  assumes "owned area h0 own h" and "own p = Some s" and "own q = Some t" and "p \<noteq> q"
  shows "p + s < q \<or> q + t < p"
  using kheap.separate [OF owned_ok [OF assms(1)] owned_live [OF assms(1,2)] owned_live [OF assms(1,3)]]
    kheap.separate [OF owned_ok [OF assms(1)] owned_live [OF assms(1,3)] owned_live [OF assms(1,2)]] assms(4)
  by (cases "p < q") auto

text \<open>A memory that differs from the heap's inside owned buffers only.\<close>

lemma owned_writes:
  assumes "owned area h0 own h" and "\<And>x. (\<And>a s. own a = Some s \<Longrightarrow> x < a \<or> a + s \<le> x) \<Longrightarrow> m x = hmem h x"
  shows "owned area h0 own (h\<lparr>hmem := m\<rparr>)" and "heap_blocks (h\<lparr>hmem := m\<rparr>) = heap_blocks h"
proof -
  have ok: "heap_ok area h" and ow: "owns (heap_live h0) (hmem h0) own (heap_live h) (hmem h)" using assms by (simp_all add: owned_def)
  have hb: "m x = hmem h x" if "header_byte (unat area) (heap_blocks h) x" for x
    using that live_not_header owned_live [OF assms(1)] heap_ok_live [OF ok] by (intro assms(2)) (metis not_le)
  have "m (q + k) = hmem h0 (q + k)" if q: "heap_live h0 q = Some t" "k < t" for q t k
  proof -
    have "q + t < a \<or> a + s < q" if a: "own a = Some s" for a s
      using kheap.separate [OF ok _ owned_live [OF assms(1) a]] kheap.separate [OF ok owned_live [OF assms(1) a]]
        owns_apart [OF ow a q(1)] by (metis linorder_neqE_nat)
    then have "m (q + k) = hmem h (q + k)" using q(2) by (intro assms(2)) fastforce
    then show ?thesis using q ow by (auto simp: owns_def)
  qed
  then show "owned area h0 own (h\<lparr>hmem := m\<rparr>)" "heap_blocks (h\<lparr>hmem := m\<rparr>) = heap_blocks h"
    using heap_payload_write [OF ok, of m] hb ow by (auto simp: owned_def owns_def)
qed

lemma owned_write:
  assumes "owned area h0 own h" and "own a = Some s" and "\<forall>x. x < a \<or> a + s \<le> x \<longrightarrow> m x = hmem h x"
  shows "owned area h0 own (h\<lparr>hmem := m\<rparr>)" and "heap_blocks (h\<lparr>hmem := m\<rparr>) = heap_blocks h"
  using owned_writes [OF assms(1), of m] assms(2,3) by blast+

lemma owned_st32:
  "owned area h0 own h \<Longrightarrow> own a = Some s \<Longrightarrow> k + 4 \<le> s \<Longrightarrow> owned area h0 own (h\<lparr>hmem := st32 (hmem h) (a + k) v\<rparr>)"
  by (rule owned_write(1)) (auto simp: st32_other)

lemma owned_realloc:
  assumes "owned area h0 own h" and "own (unat p) = Some s" and "0 < s" and "n \<noteq> 0"
  obtains "realloc area p n h = Some (0, h)"
  | q h' t where "realloc area p n h = Some (q, h')" "q \<noteq> 0" "unat n \<le> t" "q = p \<or> own (unat q) = None"
    "owned area h0 ((own(unat p := None))(unat q \<mapsto> t)) h'"
    "\<forall>k. k < s \<longrightarrow> k < t \<longrightarrow> hmem h' (unat q + k) = hmem h (unat p + k)"
    "\<forall>r u k. own r = Some u \<longrightarrow> r \<noteq> unat p \<longrightarrow> k < u \<longrightarrow> hmem h' (r + k) = hmem h (r + k)"
proof -
  have ok: "heap_ok area h" and ow: "owns (heap_live h0) (hmem h0) own (heap_live h) (hmem h)" using assms by (simp_all add: owned_def)
  have lp: "heap_live h (unat p) = Some s" using owned_live [OF assms(1,2)] .
  show thesis
  proof (cases rule: realloc_cases [OF ok lp assms(3,4)])
    case 1
    have "(own(unat p := None))(unat p \<mapsto> s) = own" using assms(2) by auto
    then show thesis using 1 live_in_area(1) [OF ok lp assms(3)] assms(1) by (intro that(2) [of p h s]) auto
  next
    case 2
    then show thesis using that(1) by blast
  next
    case (3 q h' t)
    have "own (unat q) = None" "heap_live h0 (unat q) = None" "heap_live h0 (unat p) = None"
      using 3(5) assms(2) ow by (auto simp: owns_def)
    moreover have "hmem h' (r + k) = hmem h0 (r + k)" if "heap_live h0 r = Some u" "k < u" for r u k
      using 3(9) [of r u k] owns_apart [OF ow assms(2) that(1)] that ow by (auto simp: owns_def)
    moreover have qp: "unat q \<noteq> unat p" using 3(5) lp by auto
    ultimately have "owned area h0 ((own(unat p := None))(unat q \<mapsto> t)) h'"
      using 3(4,7) ow by (auto simp: owned_def owns_def fun_eq_iff map_add_def split: option.split)
    then show thesis using 3 \<open>own (unat q) = None\<close> owned_live [OF assms(1)] by (intro that(2) [of q h' t]) auto
  qed
qed

lemma realloc_outside:
  assumes "owned area h0 own h" and "own (unat p) = Some s" and "0 < s" and "n \<noteq> 0"
    and "realloc area p n h = Some (q, h')" and "outside area x"
  shows "hmem h' x = hmem h x"
proof (cases rule: realloc_cases [OF owned_ok [OF assms(1)] owned_live [OF assms(1,2)] assms(3,4)])
  case (3 q' h'' t)
  then show ?thesis using assms(5,6) by simp
qed (use assms(5) in auto)

text \<open>Some free block has room for \<open>k\<close> bytes.\<close>

definition room :: "nat \<Rightarrow> heap \<Rightarrow> bool" where
  "room k h \<longleftrightarrow> (\<exists>b \<in> set (heap_blocks h). candidate k b)"

lemma room_malloc:
  assumes ok: "heap_ok area h" and room: "room (unat n + 16 + k) h"
  shows "\<exists>p h'. malloc n h = Some (p, h') \<and> p \<noteq> 0 \<and> room k h'"
proof (rule malloc_ok [OF ok, of n])
  assume "best_fit (unat n) (heap_blocks h) = None"
  then have "\<not> candidate (unat n) b" if "b \<in> set (heap_blocks h)" for b
    using best_fit_None [of "unat n" "heap_blocks h" b] that ok by (simp add: heap_ok_def heap_rep_def)
  moreover obtain b where "b \<in> set (heap_blocks h)" "candidate (unat n) b" using room by (auto simp: room_def candidate_def)
  ultimately show ?thesis by blast
next
  fix p h' s
  assume m: "malloc n h = Some (p, h')" "p \<noteq> 0"
    and abs: "abs_malloc (unat n) (heap_blocks h) = (heap_blocks h', Some (unat p - unat area))"
  let ?bs = "heap_blocks h"
  obtain i off where i: "best_fit (unat n) ?bs = Some i"
    "carve (unat n) (take i ?bs) (?bs ! i) (drop (Suc i) ?bs) = (heap_blocks h', off)"
    using abs by (auto simp: abs_malloc_def split: option.splits prod.splits)
  obtain b where b: "b \<in> set ?bs" "\<not> bused b" "unat n + 16 + k \<le> bsize b" using room by (auto simp: room_def candidate_def)
  have split: "?bs = take i ?bs @ ?bs ! i # drop (Suc i) ?bs" using best_fit_Some(1) [OF i(1)] by (simp add: id_take_nth_drop)
  have "room k h'"
  proof (cases "b = ?bs ! i")
    case True
    then have "heap_blocks h' = take i ?bs @ Blk (bsize b - (unat n + 16)) False # Blk (unat n) True # drop (Suc i) ?bs"
      using i(2) b by (simp add: carve_def)
    then have "Blk (bsize b - (unat n + 16)) False \<in> set (heap_blocks h')" by simp
    then show ?thesis using b(3) by (force simp: room_def candidate_def)
  next
    case False
    then have "b \<in> set (take i ?bs) \<union> set (drop (Suc i) ?bs)" using b(1) split by (metis UnE UnI1 UnI2 set_ConsD set_append)
    moreover have "set xs \<union> set ys \<subseteq> set (fst (carve m xs c ys))" for m xs c ys by (auto simp: carve_def)
    from this [of "take i ?bs" "drop (Suc i) ?bs" "unat n" "?bs ! i"]
    have "set (take i ?bs) \<union> set (drop (Suc i) ?bs) \<subseteq> set (heap_blocks h')" unfolding i(2) fst_conv .
    ultimately have "b \<in> set (heap_blocks h')" by blast
    then show ?thesis using b(2,3) by (auto simp: room_def candidate_def)
  qed
  then show ?thesis using m by blast
qed

lemma candidate_free:
  "c \<in> set (xs @ b # ys) \<Longrightarrow> candidate k c \<Longrightarrow> bused b \<Longrightarrow> \<exists>d \<in> set (abs_free xs b ys). candidate k d"
  by (cases xs rule: rev_cases; cases ys)
    (auto simp: abs_free_def join_prev_def join_next_def candidate_def intro: le_SucI trans_le_add1 trans_le_add2)

lemma room_free:
  assumes ok: "heap_ok area h" and p: "heap_live h (unat p) = Some s" and "room k h"
  shows "room k (mem_free p h)"
proof -
  have rep: "heap_rep area h (heap_blocks h)" using ok by (simp add: heap_ok_def)
  note l = heap_live_rep [OF rep]
  obtain xs b ys where b: "heap_blocks h = xs @ b # ys" "bused b" "unat p = unat area + span xs + 16"
    using live_split [OF p [unfolded l]] by metis
  have peq: "p = of_nat (unat area + span xs + 16)" by (simp flip: b(3))
  have "heap_blocks (mem_free p h) = abs_free xs b ys"
    using heap_blocks_rep [OF mem_free_rep(1) [OF rep [unfolded b(1)] b(2) peq]] .
  moreover obtain c where "c \<in> set (xs @ b # ys)" "candidate k c" using assms(3) b(1) by (auto simp: room_def)
  ultimately show ?thesis using candidate_free [of c xs b ys k] b(2) by (simp add: room_def)
qed

lemma room_less: "room k h \<Longrightarrow> j \<le> k \<Longrightarrow> room j h"
  by (auto simp: room_def candidate_def)

lemma room_fits: "heap_ok area h \<Longrightarrow> room (n + 16 + k) h \<Longrightarrow> best_fit n (heap_blocks h) \<noteq> None"
  using best_fit_None [of n "heap_blocks h"] by (fastforce simp: room_def heap_ok_def heap_rep_def candidate_def)

lemma room_realloc:
  assumes "owned area h0 own h" and "own (unat p) = Some s" and "0 < s" and "n \<noteq> 0" and room: "room (unat n + 16 + k) h"
  obtains q h' t where "realloc area p n h = Some (q, h')" "q \<noteq> 0" "unat n \<le> t" "q = p \<or> own (unat q) = None"
    "owned area h0 ((own(unat p := None))(unat q \<mapsto> t)) h'" "room k h'"
    "\<forall>k. k < s \<longrightarrow> k < t \<longrightarrow> hmem h' (unat q + k) = hmem h (unat p + k)"
    "\<forall>r u k. own r = Some u \<longrightarrow> r \<noteq> unat p \<longrightarrow> k < u \<longrightarrow> hmem h' (r + k) = hmem h (r + k)"
proof -
  have ok: "heap_ok area h" using assms(1) by (rule owned_ok)
  have lp: "heap_live h (unat p) = Some s" using owned_live [OF assms(1,2)] .
  obtain p1 h1 where m: "malloc n h = Some (p1, h1)" "p1 \<noteq> 0" "room k h1" using room_malloc [OF ok room] by blast
  have roomy: "room k h'" if r: "realloc area p n h = Some (q, h')" for q h'
  proof (cases rule: realloc_cases [OF ok lp assms(3,4)])
    case 1
    then show ?thesis using r room room_less by simp
  next
    case 2
    then show ?thesis using room_fits [OF ok room] by simp
  next
    case (3 q' h'' t)
    then show ?thesis using r m room_free by (fastforce simp: room_def)
  qed
  have some: "realloc area p n h \<noteq> Some (0, h)"
  proof (cases rule: realloc_cases [OF ok lp assms(3,4)])
    case 2
    then show ?thesis using room_fits [OF ok room] by simp
  qed (use live_in_area(1) [OF ok lp assms(3)] in auto)
  show thesis
  proof (cases rule: owned_realloc [OF assms(1-4)])
    case 1
    then show thesis using some by contradiction
  next
    case (2 q h' t)
    then show thesis using that [OF 2(1-5) roomy [OF 2(1)] 2(6,7)] by blast
  qed
qed

end
