(* ===== verification/Shell.thy ===== *)
theory Shell
  imports HeapOwn SyscallSafe
begin

text \<open>
  The kernel's shell, \<open>kernel/Shell.c\<close>.  The line and the array of tokens are buffers of the kernel's
  heap, written byte by byte; \<open>strtok\<close> keeps its place in \<open>sh_tok\<close>.  The argument \<open>ks\<close> of a function
  that reads the keyboard is the sequence of keys that \<open>kbd_getchar\<close> goes on to return; where it runs
  out the shell waits, and there is no result.  \<open>sh_stack\<close> is the memory of the local arrays before
  they are written, \<open>sh_words\<close> the words sent to ports.  \<open>position\<close> and \<open>bufsize\<close> count up from 0 and are bounded by the heap, so they are
  natural numbers here.  \<open>area\<close> is the address of the heap's array.
\<close>

section \<open>State\<close>

record shell =
  sh_kernel :: kernel
  sh_words :: "(u16 \<times> u16) list"
  sh_tok :: "nat option"
  sh_stack :: mem

abbreviation sh_heap :: "shell \<Rightarrow> heap" where "sh_heap s \<equiv> heap_st (sh_kernel s)"
abbreviation sh_mem :: "shell \<Rightarrow> mem" where "sh_mem s \<equiv> hmem (heap_st (sh_kernel s))"

definition with_heap :: "heap \<Rightarrow> shell \<Rightarrow> shell" where
  "with_heap h s = s\<lparr>sh_kernel := (sh_kernel s)\<lparr>heap_st := h\<rparr>\<rparr>"

definition with_mem :: "mem \<Rightarrow> shell \<Rightarrow> shell" where
  "with_mem m s = with_heap ((sh_heap s)\<lparr>hmem := m\<rparr>) s"

definition on_console :: "(console \<Rightarrow> console) \<Rightarrow> shell \<Rightarrow> shell" where
  "on_console f s = s\<lparr>sh_kernel := with_console (f (k_console (sh_kernel s))) (sh_kernel s)\<rparr>"

definition sh_say :: "string \<Rightarrow> karg list \<Rightarrow> shell \<Rightarrow> shell option" where
  "sh_say f args s = do { k \<leftarrow> k_say f args (sh_kernel s); Some (s\<lparr>sh_kernel := k\<rparr>) }"

definition LSH_RL_BUFSIZE :: nat where "LSH_RL_BUFSIZE = 1024"
definition LSH_TOK_BUFSIZE :: nat where "LSH_TOK_BUFSIZE = 64"
definition LSH_TOK_DELIM :: "u8 list" where "LSH_TOK_DELIM = [0x20, 0x09, 0x0D, 0x0A, 0x07]"

text \<open>A command returns a status, or the processor goes on in user mode, or the function ends without
  a value (after the request to switch the machine off), or the shell halts.\<close>

datatype result = Status int | In_user_mode outcome | No_value | Halted

definition initShell :: "shell \<Rightarrow> shell" where
  "initShell s = s\<lparr>sh_kernel := (sh_kernel s)\<lparr>ed_st := (ed_st (sh_kernel s))\<lparr>screenrows := 24, screencols := 80\<rparr>\<rparr>\<rparr>"

section \<open>Line reader\<close>

text \<open>Echo: \<open>vidptr[current_loc++] = (char)c; vidptr[current_loc++] = 0x07;\<close> is \<open>put_cell\<close>, and the
  erasing of a cell is that of the system call.\<close>

fun read_line_loop :: "u32 \<Rightarrow> u32 list \<Rightarrow> nat \<Rightarrow> nat \<Rightarrow> u32 \<Rightarrow> shell \<Rightarrow> (u32 \<times> u32 list \<times> shell) option" where
  "read_line_loop area [] bufsize position buffer s = None"
| "read_line_loop area (c # ks) bufsize position buffer s =
     (if c = 8 then
        if 0 < position then read_line_loop area ks bufsize (position - 1) buffer (on_console sys_backspace s)
        else read_line_loop area ks bufsize position buffer s
      else if c = - 1 \<or> c = 10 then
        Some (buffer, ks, with_heap (heap_poke (unat (buffer + of_nat position)) 0 (sh_heap s)) s)
      else let s1 = on_console (put_cell (ucast c)) s;
               s2 = with_heap (heap_poke (unat (buffer + of_nat position)) (ucast c) (sh_heap s1)) s1
           in if bufsize \<le> position + 1 then do {
                (newbuf, h) \<leftarrow> realloc area buffer (of_nat (bufsize + LSH_RL_BUFSIZE)) (sh_heap s2);
                let s3 = with_heap h s2;
                (if newbuf = 0 then do {
                   s4 \<leftarrow> sh_say (''allocation error: realloc failed'' @ [CHR 0x0A]) [] s3;
                   Some (0, ks, with_heap (mem_free buffer (sh_heap s4)) s4)
                 } else read_line_loop area ks (bufsize + LSH_RL_BUFSIZE) (position + 1) newbuf s3)
              } else read_line_loop area ks bufsize (position + 1) buffer s2)"

definition lsh_read_line :: "u32 \<Rightarrow> u32 list \<Rightarrow> shell \<Rightarrow> (u32 \<times> u32 list \<times> shell) option" where
  "lsh_read_line area ks s = do {
     (buffer, h) \<leftarrow> malloc (of_nat LSH_RL_BUFSIZE) (sh_heap s);
     let s1 = with_heap h s;
     (if buffer = 0 then do {
        s2 \<leftarrow> sh_say (''allocation error: no buffer'' @ [CHR 0x0A]) [] s1;
        Some (0, ks, s2)
      } else read_line_loop area ks LSH_RL_BUFSIZE 0 buffer s1)
   }"

section \<open>Tokeniser\<close>

definition sh_strtok :: "nat option \<Rightarrow> shell \<Rightarrow> (nat option \<times> shell) option" where
  "sh_strtok p s = do {
     (r, m, tok) \<leftarrow> strtok (sh_mem s) (sh_tok s) p (lit_ptr LSH_TOK_DELIM);
     Some (r, (with_mem m s)\<lparr>sh_tok := tok\<rparr>)
   }"

definition store_token :: "u32 \<Rightarrow> nat \<Rightarrow> nat \<Rightarrow> shell \<Rightarrow> shell" where
  "store_token toks position t s = with_mem (st32 (sh_mem s) (unat (toks + of_nat (4 * position))) (of_nat t)) s"

partial_function (option) split_loop :: "u32 \<Rightarrow> nat option \<Rightarrow> nat \<Rightarrow> nat \<Rightarrow> u32 \<Rightarrow> shell \<Rightarrow> (u32 \<times> shell) option" where
  "split_loop area token bufsize position toks s =
     (case token of
        None \<Rightarrow> Some (toks, store_token toks position 0 s)
      | Some t \<Rightarrow>
          if bufsize \<le> position + 1 then do {
            (newtoks, h) \<leftarrow> realloc area toks (of_nat (4 * (bufsize + LSH_TOK_BUFSIZE))) (sh_heap (store_token toks position t s));
            if newtoks = 0 then do {
              s3 \<leftarrow> sh_say (''allocation error'' @ [CHR 0x0A]) [] (with_heap h (store_token toks position t s));
              Some (0, with_heap (mem_free toks (sh_heap s3)) s3)
            } else do {
              (token', s4) \<leftarrow> sh_strtok None (with_heap h (store_token toks position t s));
              split_loop area token' (bufsize + LSH_TOK_BUFSIZE) (position + 1) newtoks s4
            }
          } else do {
            (token', s4) \<leftarrow> sh_strtok None (store_token toks position t s);
            split_loop area token' bufsize (position + 1) toks s4
          })"

definition lsh_split_line :: "u32 \<Rightarrow> u32 \<Rightarrow> shell \<Rightarrow> (u32 \<times> shell) option" where
  "lsh_split_line area line s = do {
     (toks, h) \<leftarrow> malloc (of_nat (LSH_TOK_BUFSIZE * 4)) (sh_heap s);
     let s1 = with_heap h s;
     (if toks = 0 then do {
        s2 \<leftarrow> sh_say (''allocation error'' @ [CHR 0x0A]) [] s1;
        Some (0, s2)
      } else do {
        (token, s2) \<leftarrow> sh_strtok (Some (unat line)) s1;
        split_loop area token LSH_TOK_BUFSIZE 0 toks s2
      })
   }"

section \<open>Built-in commands\<close>

type_synonym command = "u32 \<Rightarrow> u32 list \<Rightarrow> shell \<Rightarrow> (result \<times> u32 list \<times> shell) option"

definition arg :: "u32 \<Rightarrow> nat \<Rightarrow> shell \<Rightarrow> u32" where
  "arg args i s = ld32 (sh_mem s) (unat (args + of_nat (4 * i)))"

abbreviation arg_str :: "u32 \<Rightarrow> shell \<Rightarrow> cptr" where "arg_str a s \<equiv> ptr_at (sh_mem s) (unat a)"

definition says :: "string \<Rightarrow> karg list \<Rightarrow> u32 list \<Rightarrow> shell \<Rightarrow> (result \<times> u32 list \<times> shell) option" where
  "says f args ks s = do { s1 \<leftarrow> sh_say (f @ [CHR 0x0A]) args s; Some (Status 1, ks, s1) }"

definition builtin_str :: "u8 list list" where
  "builtin_str = List.map lit [''help'', ''ls'', ''touch'', ''del'', ''edit'', ''clear'', ''cat'', ''ring3'',
     ''ring3_shell'', ''shutdown'']"

definition lsh_num_builtins :: nat where "lsh_num_builtins = length builtin_str"

fun help_loop :: "nat \<Rightarrow> nat \<Rightarrow> shell \<Rightarrow> shell option" where
  "help_loop 0 i s = Some s"
| "help_loop (Suc n) i s = do {
     s1 \<leftarrow> sh_say (''  %s'' @ [CHR 0x0A]) [AStr (lit_ptr (builtin_str ! i))] s;
     help_loop n (Suc i) s1
   }"

definition lsh_help :: command where
  "lsh_help args ks s = do {
     s1 \<leftarrow> sh_say (''Custom Kernel Shell'' @ [CHR 0x0A]) [] s;
     s2 \<leftarrow> sh_say (''Available commands:'' @ [CHR 0x0A]) [] s1;
     s3 \<leftarrow> help_loop lsh_num_builtins 0 s2;
     Some (Status 1, ks, s3)
   }"

definition with_disk :: "fs \<Rightarrow> shell \<Rightarrow> shell" where
  "with_disk st s = s\<lparr>sh_kernel := with_fs st (sh_kernel s)\<rparr>"

definition lsh_ls :: command where
  "lsh_ls args ks s = do { st \<leftarrow> fs_list_files (k_fs (sh_kernel s)); Some (Status 1, ks, with_disk st s) }"

definition lsh_touch :: command where
  "lsh_touch args ks s =
     (if arg args 1 s = 0 then says ''touch: no filename given'' [] ks s
      else do {
        (r, st) \<leftarrow> fs_create_file (arg_str (arg args 1 s) s) (k_fs (sh_kernel s));
        Some (Status 1, ks, with_disk st s)
      })"

definition lsh_del :: command where
  "lsh_del args ks s =
     (if arg args 1 s = 0 then says ''del: no filename given'' [] ks s
      else do {
        (r, st) \<leftarrow> fs_delete_file (arg_str (arg args 1 s) s) (k_fs (sh_kernel s));
        Some (Status 1, ks, with_disk st s)
      })"

text \<open>The loop of \<open>editorRun\<close>; the keys \<open>d\<close> and \<open>y\<close> of normal mode read a second key.\<close>

function editor_loop :: "mem \<Rightarrow> u32 list \<Rightarrow> editor \<Rightarrow> (u32 list \<times> editor) option" where
  "editor_loop junk [] E = None"
| "editor_loop junk (c # ks) E =
     (let two = mode E \<noteq> MODE_INSERT \<and> mode E \<noteq> MODE_COMMAND \<and> (c = key CHR ''d'' \<or> c = key CHR ''y'')
      in if two \<and> ks = [] then None
         else do {
           (quit, E1) \<leftarrow> editor_iteration junk c (hd ks) E;
           let ks1 = (if two then tl ks else ks);
           (if quit then Some (ks1, E1) else editor_loop junk ks1 E1)
         })"
  by pat_completeness auto
termination by (relation "measure (\<lambda>(junk, ks, E). length ks)") auto

definition editorRun :: "mem \<Rightarrow> u8 list \<Rightarrow> u32 list \<Rightarrow> editor \<Rightarrow> (u32 list \<times> editor) option" where
  "editorRun junk name ks E = do { E1 \<leftarrow> editor_start junk name E; editor_loop junk ks E1 }"

definition string_at :: "cptr \<Rightarrow> u8 list option" where
  "string_at p = do { n \<leftarrow> strlen p; Some (List.map p [0..<n]) }"

definition lsh_edit :: command where
  "lsh_edit args ks s =
     (if arg args 1 s = 0 then says ''edit: no filename given'' [] ks s
      else do {
        name \<leftarrow> string_at (arg_str (arg args 1 s) s);
        (ks1, E) \<leftarrow> editorRun (sh_stack s) name ks (ed_st (sh_kernel s));
        Some (Status 1, ks1, s\<lparr>sh_kernel := (sh_kernel s)\<lparr>ed_st := E\<rparr>\<rparr>)
      })"

text \<open>The local array \<open>buf\<close> is at address 4096 of \<open>sh_stack\<close>.\<close>

definition lsh_cat :: command where
  "lsh_cat args ks s =
     (if arg args 1 s = 0 then says ''cat: no filename given'' [] ks s
      else let st = k_fs (sh_kernel s); name = arg_str (arg args 1 s) s in do {
        entry \<leftarrow> fs_find_file name (fs_disk st);
        case entry of
          None \<Rightarrow> says (''cat: file '' @ [CHR 0x27] @ ''%s'' @ [CHR 0x27] @ '' not found'') [AStr name] ks s
        | Some e \<Rightarrow> do {
            buf \<leftarrow> fs_read_block st (ld32 (fs_disk st) (entry_first_block e)) 4096 (sh_stack s);
            says ''%s'' [AStr (ptr_at buf 4096)] ks s
          }
      })"

definition lsh_clear :: command where
  "lsh_clear args ks s = Some (Status 1, ks, on_console clear_screen s)"

definition lsh_ring3 :: command where
  "lsh_ring3 args ks s = Some (In_user_mode jump_to_userspace, ks, s)"

definition lsh_ring3_shell :: command where
  "lsh_ring3_shell args ks s = Some (In_user_mode jump_to_shell, ks, s)"

definition lsh_shutdown :: command where
  "lsh_shutdown args ks s = do {
     s1 \<leftarrow> sh_say (''Shutting down the system'' @ [CHR 0x0A]) [] s;
     Some (No_value, ks, s1\<lparr>sh_words := outw 0x604 0x2000 (sh_words s1)\<rparr>)
   }"

definition lsh_launch :: command where
  "lsh_launch args ks s = says ''Unknown command: %s'' [AStr (arg_str (arg args 0 s) s)] ks s"

definition builtin_func :: "command list" where
  "builtin_func = [lsh_help, lsh_ls, lsh_touch, lsh_del, lsh_edit, lsh_clear, lsh_cat, lsh_ring3, lsh_ring3_shell,
     lsh_shutdown]"

section \<open>Dispatch and main loop\<close>

fun execute_scan :: "nat \<Rightarrow> nat \<Rightarrow> command" where
  "execute_scan 0 i args ks s = lsh_launch args ks s"
| "execute_scan (Suc n) i args ks s = do {
     r \<leftarrow> strcmp (arg_str (arg args 0 s) s) (lit_ptr (builtin_str ! i));
     if r = 0 then (builtin_func ! i) args ks s else execute_scan n (Suc i) args ks s
   }"

definition lsh_execute :: command where
  "lsh_execute args ks s =
     (if arg args 0 s = 0 then Some (Status 1, ks, s) else execute_scan lsh_num_builtins 0 args ks s)"

definition release_buf :: "u32 \<Rightarrow> shell \<Rightarrow> shell" where
  "release_buf p s = with_heap (mem_free p (sh_heap s)) s"

text \<open>One iteration of \<open>lsh_loop\<close>; \<open>status\<close> keeps its value where the loop continues early.\<close>

definition lsh_iteration :: "u32 \<Rightarrow> u32 list \<Rightarrow> shell \<Rightarrow> (result \<times> u32 list \<times> shell) option" where
  "lsh_iteration area ks s = do {
     s1 \<leftarrow> sh_say ''> '' [] s;
     (line, ks1, s2) \<leftarrow> lsh_read_line area ks s1;
     if line = 0 then do {
       s3 \<leftarrow> sh_say (''readline failed, halting'' @ [CHR 0x0A]) [] s2;
       Some (Halted, ks1, s3)
     } else do {
       s3 \<leftarrow> sh_say [CHR 0x0A] [] s2;
       (args, s4) \<leftarrow> lsh_split_line area line s3;
       if args = 0 then Some (Status 1, ks1, release_buf line s4)
       else do {
         (r, ks2, s5) \<leftarrow> lsh_execute args ks1 s4;
         case r of Status st \<Rightarrow> Some (Status st, ks2, release_buf line (release_buf args s5)) | _ \<Rightarrow> Some (r, ks2, s5)
       }
     }
   }"

definition goes_on :: "result \<Rightarrow> bool" where
  "goes_on r = (case r of Status st \<Rightarrow> st \<noteq> 0 | _ \<Rightarrow> False)"

partial_function (option) lsh_loop :: "u32 \<Rightarrow> u32 list \<Rightarrow> shell \<Rightarrow> (result \<times> u32 list \<times> shell) option" where
  "lsh_loop area ks s = do {
     (r, ks1, s1) \<leftarrow> lsh_iteration area ks s;
     if goes_on r then lsh_loop area ks1 s1 else Some (r, ks1, s1)
   }"

end
