(* ===== verification/ShellBuffers.thy ===== *)
theory ShellBuffers
  imports Shell
begin

text \<open>
  The two buffers of the shell: what the line reader leaves in the buffer it returns and what the
  tokeniser leaves in the array of pointers, for any sequence of keys and any line, also when the
  buffers have to grow or the heap refuses.
\<close>

section \<open>What input and output leave alone\<close>

text \<open>The state without the heap, the screen and the place of \<open>strtok\<close>.\<close>

definition rest_of :: "shell \<Rightarrow> shell" where
  "rest_of s = s\<lparr>sh_kernel := (with_console console0 (sh_kernel s))\<lparr>heap_st := heap0\<rparr>, sh_tok := None\<rparr>"

lemma kernel_updates [simp]:
  "with_console c (k\<lparr>heap_st := h\<rparr>) = (with_console c k)\<lparr>heap_st := h\<rparr>"
  "with_console c (with_console d k) = with_console c k"
  by (simp_all add: with_console_def with_fs_def)

lemma shell_simps [simp]:
  "sh_heap (with_heap h s) = h" "sh_heap (on_console f s) = sh_heap s" "sh_mem (with_mem m s) = m"
  "sh_heap (s\<lparr>sh_tok := t\<rparr>) = sh_heap s" "sh_tok (with_heap h s) = sh_tok s" "sh_tok (with_mem m s) = sh_tok s"
  "sh_tok (on_console f s) = sh_tok s" "sh_heap (with_mem m s) = (sh_heap s)\<lparr>hmem := m\<rparr>"
  "rest_of (with_heap h s) = rest_of s" "rest_of (on_console f s) = rest_of s" "rest_of (with_mem m s) = rest_of s"
  "rest_of (s\<lparr>sh_tok := t\<rparr>) = rest_of s"
  by (simp_all add: with_heap_def with_mem_def on_console_def rest_of_def)

lemma rest_of_disk: "rest_of s = rest_of s' \<Longrightarrow> fs_disk (k_fs (sh_kernel s)) = fs_disk (k_fs (sh_kernel s'))"
proof -
  have "fs_disk (k_fs (sh_kernel s)) = fs_disk (k_fs (sh_kernel (rest_of s)))" for s by (simp add: rest_of_def)
  then show "rest_of s = rest_of s' \<Longrightarrow> ?thesis" by metis
qed

lemma say_shows:
  "well_typed (lit f) args \<Longrightarrow> string_args args \<Longrightarrow> \<exists>c. sh_say f args s = Some (on_console (\<lambda>_. c) s)"
  using say_returns [of f args "sh_kernel s"] by (auto simp: sh_say_def on_console_def)

lemma shell_messages:
  "well_typed (lit (''allocation error: realloc failed'' @ [CHR 0x0A])) []"
  "well_typed (lit (''allocation error: no buffer'' @ [CHR 0x0A])) []"
  "well_typed (lit (''allocation error'' @ [CHR 0x0A])) []" "well_typed (lit ''> '') []"
  "well_typed (lit (''readline failed, halting'' @ [CHR 0x0A])) []" "well_typed (lit [CHR 0x0A]) []"
  "well_typed (lit (''Unknown command: %s'' @ [CHR 0x0A])) [AStr p]"
  by (simp_all add: fmt_chars chr_def)

lemma say_message: "well_typed (lit f) [] \<Longrightarrow> \<exists>c. sh_say f [] s = Some (on_console (\<lambda>_. c) s)"
  by (rule say_shows) simp_all

section \<open>Reading a line\<close>

text \<open>The line that a sequence of keys edits: backspace removes the last character.\<close>

definition type_key :: "u8 list \<Rightarrow> u32 \<Rightarrow> u8 list" where
  "type_key l c = (if c = 8 then butlast l else l @ [ucast c])"

definition typed :: "u32 list \<Rightarrow> u8 list" where
  "typed ks = foldl type_key [] ks"

text \<open>A buffer that starts with some bytes.\<close>

definition holds :: "mem \<Rightarrow> u32 \<Rightarrow> u8 list \<Rightarrow> bool" where
  "holds m p l \<longleftrightarrow> (\<forall>i < length l. m (unat p + i) = l ! i)"

lemma holds_butlast: "holds m p l \<Longrightarrow> holds m p (butlast l)"
  by (auto simp: holds_def nth_butlast)

lemma holds_snoc: "holds m p l \<Longrightarrow> holds (m(unat p + length l := b)) p (l @ [b])"
  by (auto simp: holds_def nth_append less_Suc_eq)

lemma holds_cstr: "holds m p (l @ [0]) \<Longrightarrow> 0 \<notin> set l \<Longrightarrow> cstr (ptr_at m (unat p)) l"
  by (auto simp: holds_def cstr_def nth_append less_Suc_eq)

text \<open>The result of the reader: a buffer that holds the line and its terminator, or, when the heap
  is exhausted, the null pointer with nothing kept.\<close>

definition line_read :: "u32 \<Rightarrow> heap \<Rightarrow> (nat \<Rightarrow> nat option) \<Rightarrow> u8 list \<Rightarrow> u32 \<Rightarrow> shell \<Rightarrow> bool" where
  "line_read area h0 own l p s' \<longleftrightarrow>
     (if p = 0 then owned area h0 own (sh_heap s')
      else own (unat p) = None \<and> (\<exists>sz > length l. owned area h0 (own(unat p \<mapsto> sz)) (sh_heap s') \<and> holds (sh_mem s') p (l @ [0])))"

lemma read_line_loop_spec:
  assumes "owned area h0 (own(unat buffer \<mapsto> sz)) (sh_heap s)" and "own (unat buffer) = None" and "buffer \<noteq> 0"
    and "bufsize \<le> sz" and "length l < bufsize" and "holds (sh_mem s) buffer l" and "10 \<notin> set ks" and "-1 \<notin> set ks"
  shows "\<exists>p ks' s'. read_line_loop area (ks @ 10 # rest) bufsize (length l) buffer s = Some (p, ks', s')
    \<and> rest_of s' = rest_of s \<and> sh_tok s' = sh_tok s \<and> (p \<noteq> 0 \<longrightarrow> ks' = rest)
    \<and> line_read area h0 own (foldl type_key l ks) p s'"
  using assms
proof (induction ks arbitrary: buffer sz bufsize l s)
  case Nil
  let ?own = "own(unat buffer \<mapsto> sz)"
  have addr: "unat (buffer + of_nat (length l)) = unat buffer + length l"
    by (rule owned_addr [where s = sz, OF Nil.prems(1)]) (use Nil.prems(4,5) in auto)
  have "owned area h0 ?own (heap_poke (unat buffer + length l) 0 (sh_heap s))"
    by (rule owned_poke [where s = sz, OF Nil.prems(1)]) (use Nil.prems(4,5) in auto)
  moreover have "holds ((sh_mem s)(unat buffer + length l := 0)) buffer (l @ [0])" using holds_snoc [OF Nil.prems(6)] .
  ultimately have "line_read area h0 own l buffer (with_heap (heap_poke (unat buffer + length l) 0 (sh_heap s)) s)"
    using Nil.prems(2-5) by (auto simp: line_read_def heap_poke_def intro!: exI [of _ sz])
  then show ?case by (simp add: addr)
next
  case (Cons c ks)
  note pr = Cons.prems
  have ks: "10 \<notin> set ks" "-1 \<notin> set ks" and c: "c \<noteq> 10" "c \<noteq> -1" using pr(7,8) by auto
  show ?case
  proof (cases "c = 8")
    case True
    have "length (butlast l) < bufsize" using pr(5) by simp
    from Cons.IH [OF _ pr(2,3,4) this _ ks, of "on_console sys_backspace s"] pr(1) holds_butlast [OF pr(6)]
    have del: "\<exists>p ks' s'. read_line_loop area (ks @ 10 # rest) bufsize (length (butlast l)) buffer (on_console sys_backspace s) = Some (p, ks', s')
      \<and> rest_of s' = rest_of s \<and> sh_tok s' = sh_tok s \<and> (p \<noteq> 0 \<longrightarrow> ks' = rest)
      \<and> line_read area h0 own (foldl type_key (butlast l) ks) p s'" by simp
    have key: "type_key l c = butlast l" using True by (simp add: type_key_def)
    show ?thesis
    proof (cases "l = []")
      case True
      then show ?thesis using Cons.IH [OF pr(1-6) ks] \<open>c = 8\<close> key by simp
    next
      case False
      then show ?thesis using del \<open>c = 8\<close> key by simp
    qed
  next
    case False
    let ?own = "own(unat buffer \<mapsto> sz)" and ?b = "ucast c :: u8"
    let ?s2 = "with_heap (heap_poke (unat buffer + length l) ?b (sh_heap s)) (on_console (put_cell ?b) s)"
    have addr: "unat (buffer + of_nat (length l)) = unat buffer + length l"
      by (rule owned_addr [where s = sz, OF pr(1)]) (use pr(4,5) in auto)
    have ow: "owned area h0 ?own (sh_heap ?s2)" unfolding shell_simps by (rule owned_poke [where s = sz, OF pr(1)]) (use pr(4,5) in auto)
    have h: "holds (sh_mem ?s2) buffer (l @ [?b])" using holds_snoc [OF pr(6)] by (simp add: heap_poke_def)
    have key: "type_key l c = l @ [?b]" using False by (simp add: type_key_def)
    show ?thesis
    proof (cases "bufsize \<le> length l + 1")
      case room: False
      have "length (l @ [?b]) < bufsize" using room by simp
      from Cons.IH [OF ow pr(2,3,4) this h ks] show ?thesis using False c room by (simp add: key Let_def addr)
    next
      case full: True
      then have bs: "bufsize = length (l @ [?b])" using pr(5) by simp
      have sz: "0 < sz" "bufsize + 1024 < 2 ^ 32" using pr(4,5) owned_range [OF ow, of buffer sz] by auto
      then have new: "unat (of_nat (bufsize + LSH_RL_BUFSIZE) :: u32) = bufsize + 1024" "of_nat (bufsize + LSH_RL_BUFSIZE) \<noteq> (0 :: u32)"
        using of_nat32_eq_0 [OF sz(2)] by (simp_all add: LSH_RL_BUFSIZE_def unat_of_nat32 del: of_nat_add)
      show ?thesis
      proof (rule owned_realloc [OF ow _ sz(1) new(2)])
        show "?own (unat buffer) = Some sz" by simp
      next
        assume r: "realloc area buffer (of_nat (bufsize + LSH_RL_BUFSIZE)) (sh_heap ?s2) = Some (0, sh_heap ?s2)"
        obtain cs where m: "sh_say (''allocation error: realloc failed'' @ [CHR 0x0A]) [] (with_heap (sh_heap ?s2) ?s2)
          = Some (on_console (\<lambda>_. cs) (with_heap (sh_heap ?s2) ?s2))" using say_message [OF shell_messages(1)] by blast
        have "owned area h0 (?own(unat buffer := None)) (mem_free buffer (sh_heap ?s2))"
          by (rule owned_free(1) [OF ow]) simp
        then show ?thesis using False c full r m pr(2) by (simp add: Let_def addr line_read_def fun_upd_idem)
      next
        fix q h' t
        assume r: "realloc area buffer (of_nat (bufsize + LSH_RL_BUFSIZE)) (sh_heap ?s2) = Some (q, h')" "q \<noteq> 0"
          and t: "unat (of_nat (bufsize + LSH_RL_BUFSIZE) :: u32) \<le> t" and q: "q = buffer \<or> ?own (unat q) = None"
          and ow': "owned area h0 ((?own(unat buffer := None))(unat q \<mapsto> t)) h'"
          and bytes: "\<forall>k. k < sz \<longrightarrow> k < t \<longrightarrow> hmem h' (unat q + k) = sh_mem ?s2 (unat buffer + k)"
        have own': "(?own(unat buffer := None))(unat q \<mapsto> t) = own(unat q \<mapsto> t)" "own (unat q) = None"
          using pr(2) q by (auto simp: fun_upd_idem split: if_splits)
        have "holds h'' q (l @ [?b])" if "h'' = hmem h'" for h''
          using h bytes t bs pr(4) that unfolding new holds_def by simp
        then have h': "holds (sh_mem (with_heap h' ?s2)) q (l @ [?b])" by simp
        have len: "length (l @ [?b]) < bufsize + LSH_RL_BUFSIZE" using bs by (simp add: LSH_RL_BUFSIZE_def)
        have ow2: "owned area h0 (own(unat q \<mapsto> t)) (sh_heap (with_heap h' ?s2))" using ow' unfolding own'(1) by simp
        have room: "bufsize + LSH_RL_BUFSIZE \<le> t" using t unfolding new by (simp add: LSH_RL_BUFSIZE_def)
        have "\<exists>p ks' s'. read_line_loop area (ks @ 10 # rest) (bufsize + LSH_RL_BUFSIZE) (length (l @ [?b])) q (with_heap h' ?s2) = Some (p, ks', s')
          \<and> rest_of s' = rest_of s \<and> sh_tok s' = sh_tok s \<and> (p \<noteq> 0 \<longrightarrow> ks' = rest)
          \<and> line_read area h0 own (foldl type_key (l @ [?b]) ks) p s'"
          using Cons.IH [OF ow2 own'(2) r(2) room len h' ks] by simp
        then show ?thesis using False c full r by (simp add: Let_def addr key)
      qed
    qed
  qed
qed

text \<open>A line that never outgrows the buffer.\<close>

fun short :: "nat \<Rightarrow> u8 list \<Rightarrow> u32 list \<Rightarrow> bool" where
  "short n l [] \<longleftrightarrow> length l < n"
| "short n l (c # ks) \<longleftrightarrow> length l < n \<and> short n (type_key l c) ks"

lemma short_now: "short n l ks \<Longrightarrow> length l < n" by (cases ks) auto

lemma read_line_short:
  assumes "owned area h0 (own(unat buffer \<mapsto> sz)) (sh_heap s)" and "bufsize \<le> sz"
    and "short bufsize l ks" and "10 \<notin> set ks" and "-1 \<notin> set ks"
  shows "\<exists>s'. read_line_loop area (ks @ 10 # rest) bufsize (length l) buffer s = Some (buffer, rest, s')
    \<and> heap_blocks (sh_heap s') = heap_blocks (sh_heap s)"
proof -
  have poke: "unat (buffer + of_nat (length l)) = unat buffer + length l"
    "owned area h0 (own(unat buffer \<mapsto> sz)) (heap_poke (unat buffer + length l) b (sh_heap s))"
    "heap_blocks (heap_poke (unat buffer + length l) b (sh_heap s)) = heap_blocks (sh_heap s)"
    if "length l < bufsize" and ow: "owned area h0 (own(unat buffer \<mapsto> sz)) (sh_heap s)" for l :: "u8 list" and b s
  proof -
    have lt: "length l < sz" using that(1) assms(2) by simp
    show "unat (buffer + of_nat (length l)) = unat buffer + length l"
      by (rule owned_addr [where s = sz, OF ow]) (use lt in auto)
    show "owned area h0 (own(unat buffer \<mapsto> sz)) (heap_poke (unat buffer + length l) b (sh_heap s))"
      by (rule owned_poke [where s = sz, OF ow]) (use lt in auto)
    show "heap_blocks (heap_poke (unat buffer + length l) b (sh_heap s)) = heap_blocks (sh_heap s)"
      unfolding heap_poke_def by (rule owned_write(2) [where a = "unat buffer" and s = sz, OF ow]) (use lt in auto)
  qed
  show ?thesis using assms(1,3-5)
  proof (induction ks arbitrary: l s)
    case Nil
    then show ?case using poke(1) [of l s] poke(3) [of l s 0] by (simp del: fun_upd_apply)
  next
    case (Cons c ks)
    have now: "length l < bufsize" and later: "short bufsize (type_key l c) ks" using Cons.prems(2) by auto
    have ks: "10 \<notin> set ks" "-1 \<notin> set ks" "c \<noteq> 10" "c \<noteq> -1" using Cons.prems(3,4) by auto
    show ?case
    proof (cases "c = 8")
      case True
      show ?thesis using Cons.IH [OF _ later ks(1,2), of s] Cons.IH [OF _ later ks(1,2), of "on_console sys_backspace s"]
          Cons.prems(1) True by (auto simp: type_key_def)
    next
      case False
      have "\<not> bufsize \<le> length l + 1" using short_now [OF later] False by (simp add: type_key_def)
      then show ?thesis
        using Cons.IH [OF _ later ks(1,2), of "with_heap (heap_poke (unat buffer + length l) (ucast c) (sh_heap s)) (on_console (put_cell (ucast c)) s)"]
          poke(1) [OF now Cons.prems(1)] poke(2,3) [OF now Cons.prems(1), of "ucast c"] False ks(3,4) by (simp add: type_key_def Let_def del: fun_upd_apply)
    qed
  qed
qed

lemma lsh_read_line_spec:
  assumes ow: "owned area h0 own (sh_heap s)" and ks: "10 \<notin> set ks" "-1 \<notin> set ks"
  shows "\<exists>p ks' s'. lsh_read_line area (ks @ 10 # rest) s = Some (p, ks', s')
    \<and> rest_of s' = rest_of s \<and> sh_tok s' = sh_tok s \<and> (p \<noteq> 0 \<longrightarrow> ks' = rest) \<and> line_read area h0 own (typed ks) p s'"
proof (rule owned_malloc [OF ow, of "of_nat LSH_RL_BUFSIZE"])
  assume m: "malloc (of_nat LSH_RL_BUFSIZE) (sh_heap s) = Some (0, sh_heap s)"
  obtain c where "sh_say (''allocation error: no buffer'' @ [CHR 0x0A]) [] (with_heap (sh_heap s) s)
      = Some (on_console (\<lambda>_. c) (with_heap (sh_heap s) s))" using say_message [OF shell_messages(2)] by blast
  then show ?thesis using m ow by (simp add: lsh_read_line_def line_read_def)
next
  fix p h' t
  assume m: "malloc (of_nat LSH_RL_BUFSIZE) (sh_heap s) = Some (p, h')" "p \<noteq> 0" "own (unat p) = None"
    and t: "unat (of_nat LSH_RL_BUFSIZE :: u32) \<le> t" and ow': "owned area h0 (own(unat p \<mapsto> t)) h'"
  have start: "owned area h0 (own(unat p \<mapsto> t)) (sh_heap (with_heap h' s))" "LSH_RL_BUFSIZE \<le> t"
    "length ([] :: u8 list) < LSH_RL_BUFSIZE" "holds (sh_mem (with_heap h' s)) p []"
    using ow' t by (simp_all add: LSH_RL_BUFSIZE_def holds_def)
  show ?thesis using read_line_loop_spec [OF start(1) m(3,2) start(2-4) ks, of rest] m(1,2)
    by (simp add: lsh_read_line_def typed_def)
qed

section \<open>Splitting a line\<close>

abbreviation words :: "u8 list \<Rightarrow> u8 list list" where
  "words l \<equiv> tokens (set LSH_TOK_DELIM) l"

text \<open>\<open>cut\<close>: the strings \<open>ts\<close> are at the addresses \<open>ps\<close>, inside the range; \<open>pending\<close>: what \<open>strtok\<close> has
  still to deliver; \<open>parsed\<close>: the first lie below the rest.\<close>

definition cut :: "mem \<Rightarrow> nat \<Rightarrow> nat \<Rightarrow> nat list \<Rightarrow> u8 list list \<Rightarrow> bool" where
  "cut m lo hi ps ts \<longleftrightarrow> list_all2 (\<lambda>p t. lo \<le> p \<and> p + length t < hi \<and> cstr (ptr_at m p) t) ps ts"

definition pending :: "mem \<Rightarrow> nat option \<Rightarrow> nat \<Rightarrow> nat \<Rightarrow> u8 list list \<Rightarrow> bool" where
  "pending m tok lo hi us \<longleftrightarrow> (case tok of None \<Rightarrow> us = []
     | Some r \<Rightarrow> \<exists>l. lo \<le> r \<and> r + length l < hi \<and> cstr (ptr_at m r) l \<and> us = words l)"

definition parsed :: "mem \<Rightarrow> nat option \<Rightarrow> nat \<Rightarrow> nat \<Rightarrow> nat list \<Rightarrow> u8 list list \<Rightarrow> u8 list list \<Rightarrow> bool" where
  "parsed m tok lo hi ps ts us \<longleftrightarrow> (\<exists>mid. lo \<le> mid \<and> mid \<le> hi \<and> cut m lo mid ps ts \<and> pending m tok mid hi us)"

lemma cut_agree: "cut m lo hi ps ts \<Longrightarrow> (\<And>x. lo \<le> x \<Longrightarrow> x < hi \<Longrightarrow> m' x = m x) \<Longrightarrow> cut m' lo hi ps ts"
  unfolding cut_def by (erule list_all2_mono) (auto intro: cstr_agree [THEN iffD1, rotated])

lemma cut_wider: "cut m lo hi ps ts \<Longrightarrow> hi \<le> hi' \<Longrightarrow> cut m lo hi' ps ts"
  unfolding cut_def by (erule list_all2_mono) auto

lemma cut_snoc:
  "cut m lo mid ps ts \<Longrightarrow> mid \<le> q \<Longrightarrow> lo \<le> mid \<Longrightarrow> cstr (ptr_at m q) t \<Longrightarrow> cut m lo (Suc (q + length t)) (ps @ [q]) (ts @ [t])"
  unfolding cut_def by (rule list_all2_appendI) (auto elim: list_all2_mono)

lemma parsed_agree:
  assumes "parsed m tok lo hi ps ts us" and eq: "\<And>x. lo \<le> x \<Longrightarrow> x < hi \<Longrightarrow> m' x = m x"
  shows "parsed m' tok lo hi ps ts us"
proof -
  obtain mid where mid: "lo \<le> mid" "mid \<le> hi" "cut m lo mid ps ts" "pending m tok mid hi us"
    using assms(1) by (auto simp: parsed_def)
  have "cstr (ptr_at m' r) l = cstr (ptr_at m r) l" if "mid \<le> r" "r + length l < hi" for r l
    by (rule cstr_agree) (use that mid(1) eq in auto)
  then have "pending m' tok mid hi us" using mid(4) by (auto simp: pending_def split: option.splits)
  moreover have "cut m' lo mid ps ts" by (rule cut_agree [OF mid(3)]) (use eq mid(2) in auto)
  ultimately show ?thesis using mid(1,2) by (auto simp: parsed_def)
qed

lemma delim_cstr: "cstr (lit_ptr LSH_TOK_DELIM) LSH_TOK_DELIM"
  by (rule cstr_lit) (simp add: LSH_TOK_DELIM_def)

lemma strtok_next:
  assumes "parsed m (if a \<noteq> None then a else tok) lo hi ps ts us"
  shows "if us = [] then strtok m tok a (lit_ptr LSH_TOK_DELIM) = Some (None, m, None)
    else \<exists>q m' tok'. strtok m tok a (lit_ptr LSH_TOK_DELIM) = Some (Some q, m', tok')
      \<and> parsed m' tok' lo hi (ps @ [q]) (ts @ [hd us]) (tl us) \<and> (\<forall>x. x < lo \<or> hi \<le> x \<longrightarrow> m' x = m x)"
proof -
  obtain mid where mid: "lo \<le> mid" "mid \<le> hi" "cut m lo mid ps ts" "pending m (if a \<noteq> None then a else tok) mid hi us"
    using assms by (auto simp: parsed_def)
  show ?thesis
  proof (cases "if a \<noteq> None then a else tok")
    case None
    then show ?thesis using mid(4) by (auto simp: pending_def strtok_def split: if_splits)
  next
    case (Some r)
    then obtain l where l: "mid \<le> r" "r + length l < hi" "cstr (ptr_at m r) l" "us = words l"
      using mid(4) by (auto simp: pending_def)
    show ?thesis
    proof (cases rule: strtok_step [OF delim_cstr l(3) Some])
      case 1
      then show ?thesis using l(4) by simp
    next
      case (2 q t)
      have "cut m lo (Suc (q + length t)) (ps @ [q]) (ts @ [t])" using 2(3,4) l(1) mid(1,3) by (intro cut_snoc) auto
      moreover have "lo \<le> Suc (q + length t)" "Suc (q + length t) \<le> hi" using 2(4,5) l(1,2) mid(1) by auto
      ultimately have "parsed m None lo hi (ps @ [q]) (ts @ [t]) []" by (auto simp: parsed_def pending_def)
      then show ?thesis using 2(1,2) l(4) by auto
    next
      case (3 q t l')
      let ?m = "m(q + length t := 0)" and ?mid = "Suc (q + length t)"
      have "cut ?m lo mid ps ts" by (rule cut_agree [OF mid(3)]) (use 3(5) l(1) in auto)
      then have "cut ?m lo ?mid (ps @ [q]) (ts @ [t])" using 3(3,5) l(1) mid(1) by (intro cut_snoc) auto
      moreover have "lo \<le> ?mid" "?mid \<le> hi" "?mid + length l' < hi" using 3(5,6) l(1,2) mid(1) by auto
      ultimately have "parsed ?m (Some ?mid) lo hi (ps @ [q]) (ts @ [t]) (words l')"
        using 3(4) by (auto simp: parsed_def pending_def)
      moreover have "\<forall>x. x < lo \<or> hi \<le> x \<longrightarrow> ?m x = m x" using 3(5,6) l(1,2) mid(1) by auto
      ultimately show ?thesis using 3(1,2) l(4) by auto
    qed
  qed
qed

definition words_at :: "mem \<Rightarrow> u32 \<Rightarrow> nat list \<Rightarrow> bool" where
  "words_at m p ws \<longleftrightarrow> (\<forall>i < length ws. ld32 m (unat p + 4 * i) = of_nat (ws ! i))"

lemma words_at_snoc: "words_at m p ws \<Longrightarrow> words_at (st32 m (unat p + 4 * length ws) (of_nat w)) p (ws @ [w])"
  by (auto simp: words_at_def nth_append less_Suc_eq ld32_st32_other)

lemma words_at_agree:
  "words_at m p ws \<Longrightarrow> (\<And>k. k < 4 * length ws \<Longrightarrow> m' (unat q + k) = m (unat p + k)) \<Longrightarrow> words_at m' q ws"
proof -
  assume w: "words_at m p ws" and eq: "\<And>k. k < 4 * length ws \<Longrightarrow> m' (unat q + k) = m (unat p + k)"
  have "ld32 m' (unat q + 4 * i) = ld32 m (unat p + 4 * i)" if "i < length ws" for i
    by (rule ld32_cong) (use that eq [of "4 * i + _"] in \<open>simp add: add.assoc\<close>)
  then show ?thesis using w by (simp add: words_at_def)
qed

text \<open>The result of the tokeniser: an array of pointers to the words, ended by a null pointer, or the
  null pointer when the heap is exhausted.\<close>

definition argv :: "mem \<Rightarrow> nat \<Rightarrow> nat \<Rightarrow> u32 \<Rightarrow> u8 list list \<Rightarrow> bool" where
  "argv m lo hi args ts \<longleftrightarrow> (\<exists>ps. words_at m args (ps @ [0]) \<and> cut m lo hi ps ts)"

definition split_done :: "u32 \<Rightarrow> heap \<Rightarrow> (nat \<Rightarrow> nat option) \<Rightarrow> nat \<Rightarrow> nat \<Rightarrow> u8 list list \<Rightarrow> u32 \<Rightarrow> shell \<Rightarrow> bool" where
  "split_done area h0 own lo hi ts args s' \<longleftrightarrow>
     (if args = 0 then owned area h0 own (sh_heap s')
      else own (unat args) = None \<and> (\<exists>t \<ge> 4 * Suc (length ts). owned area h0 (own(unat args \<mapsto> t)) (sh_heap s')
             \<and> argv (sh_mem s') lo hi args ts))"

text \<open>The state between two tokens.\<close>

definition splitting :: "u32 \<Rightarrow> heap \<Rightarrow> (nat \<Rightarrow> nat option) \<Rightarrow> nat \<Rightarrow> nat \<Rightarrow> nat \<Rightarrow> u32 \<Rightarrow> nat list \<Rightarrow> shell \<Rightarrow> bool" where
  "splitting area h0 own lo sz bufsize toks ps s \<longleftrightarrow> own (unat toks) = None \<and> toks \<noteq> 0 \<and> own lo = Some sz
     \<and> length ps < bufsize \<and> words_at (sh_mem s) toks ps
     \<and> (\<exists>t \<ge> 4 * bufsize. owned area h0 (own(unat toks \<mapsto> t)) (sh_heap s))"

lemma splitting_store:
  fixes w :: nat
  assumes sp: "splitting area h0 own lo sz bufsize toks ps s"
  defines "s' \<equiv> store_token toks (length ps) w s"
  shows "\<exists>t \<ge> 4 * bufsize. owned area h0 (own(unat toks \<mapsto> t)) (sh_heap s')"
    and "words_at (sh_mem s') toks (ps @ [w])" and "\<And>x. lo \<le> x \<Longrightarrow> x < lo + sz \<Longrightarrow> sh_mem s' x = sh_mem s x"
    and "rest_of s' = rest_of s" and "sh_tok s' = sh_tok s"
proof -
  obtain t where t: "4 * bufsize \<le> t" "owned area h0 (own(unat toks \<mapsto> t)) (sh_heap s)" "own (unat toks) = None" "own lo = Some sz"
    "length ps < bufsize" "words_at (sh_mem s) toks ps" using sp by (auto simp: splitting_def)
  have lo: "(own(unat toks \<mapsto> t)) lo = Some sz" "lo \<noteq> unat toks" using t(3,4) by auto
  have addr: "unat (toks + of_nat (4 * length ps)) = unat toks + 4 * length ps"
    by (rule owned_addr [where s = t, OF t(2)]) (use t(1,5) in auto)
  have m: "s' = with_mem (st32 (sh_mem s) (unat toks + 4 * length ps) (of_nat w)) s" by (simp only: s'_def store_token_def addr)
  show "words_at (sh_mem s') toks (ps @ [w])" unfolding m using words_at_snoc [OF t(6)] by simp
  have "owned area h0 (own(unat toks \<mapsto> t)) ((sh_heap s)\<lparr>hmem := st32 (sh_mem s) (unat toks + 4 * length ps) (of_nat w)\<rparr>)"
    by (rule owned_st32 [where s = t, OF t(2)]) (use t(1,5) in auto)
  then show "\<exists>t \<ge> 4 * bufsize. owned area h0 (own(unat toks \<mapsto> t)) (sh_heap s')" using t(1) unfolding m by auto
  have "lo + sz < unat toks \<or> unat toks + t < lo" using owned_apart [OF t(2) lo(1) _ lo(2)] by simp
  then show "sh_mem s' x = sh_mem s x" if "lo \<le> x" "x < lo + sz" for x
    unfolding m using that t(1,5) by (auto simp: st32_other)
  show "rest_of s' = rest_of s" "sh_tok s' = sh_tok s" unfolding m by simp_all
qed

text \<open>\<open>strtok\<close> in the line while the array is owned too.\<close>

lemma splitting_strtok:
  assumes sp: "splitting area h0 own lo sz bufsize toks ps s" and pa: "parsed (sh_mem s) (if a \<noteq> None then a else sh_tok s) lo (lo + sz) ps ts us"
  shows "if us = [] then \<exists>s'. sh_strtok a s = Some (None, s') \<and> rest_of s' = rest_of s
       \<and> splitting area h0 own lo sz bufsize toks ps s' \<and> cut (sh_mem s') lo (lo + sz) ps ts
    else \<exists>q s'. sh_strtok a s = Some (Some q, s') \<and> rest_of s' = rest_of s \<and> splitting area h0 own lo sz bufsize toks ps s'
       \<and> parsed (sh_mem s') (sh_tok s') lo (lo + sz) (ps @ [q]) (ts @ [hd us]) (tl us)"
proof (cases "us = []")
  case True
  have "strtok (sh_mem s) (sh_tok s) a (lit_ptr LSH_TOK_DELIM) = Some (None, sh_mem s, None)"
    using strtok_next [OF pa] True by simp
  moreover have "cut (sh_mem s) lo (lo + sz) ps ts" using pa cut_wider by (auto simp: parsed_def)
  ultimately show ?thesis using True sp by (simp add: sh_strtok_def splitting_def with_mem_def)
next
  case False
  then obtain q m' tok' where n: "strtok (sh_mem s) (sh_tok s) a (lit_ptr LSH_TOK_DELIM) = Some (Some q, m', tok')"
    "parsed m' tok' lo (lo + sz) (ps @ [q]) (ts @ [hd us]) (tl us)" "\<forall>x. x < lo \<or> lo + sz \<le> x \<longrightarrow> m' x = sh_mem s x"
    using strtok_next [OF pa] by auto
  obtain t where t: "4 * bufsize \<le> t" "owned area h0 (own(unat toks \<mapsto> t)) (sh_heap s)" "own (unat toks) = None" "own lo = Some sz"
    "length ps < bufsize" "words_at (sh_mem s) toks ps" using sp by (auto simp: splitting_def)
  have lo: "(own(unat toks \<mapsto> t)) lo = Some sz" "lo \<noteq> unat toks" using t(3,4) by auto
  have "lo + sz < unat toks \<or> unat toks + t < lo" using owned_apart [OF t(2) lo(1) _ lo(2)] by simp
  then have "words_at m' toks ps" by (intro words_at_agree [OF t(6)]) (use n(3) t(1,5) in auto)
  moreover have "owned area h0 (own(unat toks \<mapsto> t)) ((sh_heap s)\<lparr>hmem := m'\<rparr>)" by (rule owned_write(1) [OF t(2) lo(1) n(3)])
  ultimately have "splitting area h0 own lo sz bufsize toks ps ((with_mem m' s)\<lparr>sh_tok := tok'\<rparr>)"
    using sp t(1) by (auto simp: splitting_def)
  then show ?thesis using False n(1,2) by (simp add: sh_strtok_def)
qed

text \<open>Making room for more tokens.\<close>

lemma splitting_grow:
  assumes sp: "splitting area h0 own lo sz bufsize toks ps s" and bufsize: "0 < bufsize"
    and store: "words_at (sh_mem s1) toks (ps @ [q])" "\<exists>t \<ge> 4 * bufsize. owned area h0 (own(unat toks \<mapsto> t)) (sh_heap s1)"
    and full: "bufsize = length ps + 1"
  obtains "realloc area toks (of_nat (4 * (bufsize + LSH_TOK_BUFSIZE))) (sh_heap s1) = Some (0, sh_heap s1)"
    "owned area h0 own (mem_free toks (sh_heap s1))"
  | toks' h' where "realloc area toks (of_nat (4 * (bufsize + LSH_TOK_BUFSIZE))) (sh_heap s1) = Some (toks', h')" "toks' \<noteq> 0"
    "splitting area h0 own lo sz (bufsize + LSH_TOK_BUFSIZE) toks' (ps @ [q]) (with_heap h' s1)"
    "\<And>x. lo \<le> x \<Longrightarrow> x < lo + sz \<Longrightarrow> hmem h' x = sh_mem s1 x"
proof -
  have p: "own (unat toks) = None" "toks \<noteq> 0" "own lo = Some sz" using sp by (auto simp: splitting_def)
  obtain t where t: "4 * bufsize \<le> t" "owned area h0 (own(unat toks \<mapsto> t)) (sh_heap s1)" using store(2) by blast
  have "4 * (bufsize + 64) < 2 ^ 32" using t(1) owned_range [OF t(2), of toks t] by simp
  from unat_of_nat32 [OF this] of_nat32_eq_0 [OF this]
  have new: "unat (of_nat (4 * (bufsize + LSH_TOK_BUFSIZE)) :: u32) = 4 * (bufsize + LSH_TOK_BUFSIZE)"
    "of_nat (4 * (bufsize + LSH_TOK_BUFSIZE)) \<noteq> (0 :: u32)" by (simp_all only: LSH_TOK_BUFSIZE_def) simp_all
  have lo: "(own(unat toks \<mapsto> t)) lo = Some sz" "lo \<noteq> unat toks" using p by auto
  show thesis
  proof (rule owned_realloc [OF t(2) _ _ new(2), of toks t])
    show "(own(unat toks \<mapsto> t)) (unat toks) = Some t" "0 < t" using t(1) bufsize by simp_all
  next
    assume r: "realloc area toks (of_nat (4 * (bufsize + LSH_TOK_BUFSIZE))) (sh_heap s1) = Some (0, sh_heap s1)"
    have "owned area h0 ((own(unat toks \<mapsto> t))(unat toks := None)) (mem_free toks (sh_heap s1))"
      by (rule owned_free(1) [OF t(2)]) simp
    then show thesis using r p(1) by (intro that(1)) (simp_all add: fun_upd_idem)
  next
    fix toks' h' t'
    assume r: "realloc area toks (of_nat (4 * (bufsize + LSH_TOK_BUFSIZE))) (sh_heap s1) = Some (toks', h')" "toks' \<noteq> 0"
      and t': "unat (of_nat (4 * (bufsize + LSH_TOK_BUFSIZE)) :: u32) \<le> t'"
      and q: "toks' = toks \<or> (own(unat toks \<mapsto> t)) (unat toks') = None"
      and ow: "owned area h0 (((own(unat toks \<mapsto> t))(unat toks := None))(unat toks' \<mapsto> t')) h'"
      and bytes: "\<forall>k. k < t \<longrightarrow> k < t' \<longrightarrow> hmem h' (unat toks' + k) = sh_mem s1 (unat toks + k)"
      and others: "\<forall>r u k. (own(unat toks \<mapsto> t)) r = Some u \<longrightarrow> r \<noteq> unat toks \<longrightarrow> k < u \<longrightarrow> hmem h' (r + k) = sh_mem s1 (r + k)"
    have own': "((own(unat toks \<mapsto> t))(unat toks := None))(unat toks' \<mapsto> t') = own(unat toks' \<mapsto> t')" "own (unat toks') = None"
      using p(1) q by (auto simp: fun_upd_idem split: if_splits)
    have t2: "4 * (bufsize + LSH_TOK_BUFSIZE) \<le> t'" using t' unfolding new(1) .
    have "words_at (hmem h') toks' (ps @ [q])"
      by (rule words_at_agree [OF store(1)]) (use bytes t(1) t2 full in simp)
    then have "splitting area h0 own lo sz (bufsize + LSH_TOK_BUFSIZE) toks' (ps @ [q]) (with_heap h' s1)"
      using ow own' p(3) r(2) t2 full unfolding splitting_def by (auto simp: LSH_TOK_BUFSIZE_def intro!: exI [of _ t'])
    moreover have "hmem h' x = sh_mem s1 x" if "lo \<le> x" "x < lo + sz" for x
      using others lo that by (metis add_less_cancel_left le_Suc_ex)
    ultimately show thesis by (rule that(2) [OF r])
  qed
qed

lemma split_loop_spec:
  assumes "splitting area h0 own lo sz bufsize toks ps s"
    and "case token of None \<Rightarrow> us = [] \<and> cut (sh_mem s) lo (lo + sz) ps ts
      | Some q \<Rightarrow> us \<noteq> [] \<and> parsed (sh_mem s) (sh_tok s) lo (lo + sz) (ps @ [q]) (ts @ [hd us]) (tl us)"
  shows "\<exists>args s'. split_loop area token bufsize (length ps) toks s = Some (args, s') \<and> rest_of s' = rest_of s
    \<and> split_done area h0 own lo (lo + sz) (ts @ us) args s' \<and> (length ps + length us < bufsize \<longrightarrow> args \<noteq> 0)"
  using assms
proof (induction us arbitrary: token bufsize toks ps ts s)
  case Nil
  then have token: "token = None" and cut: "cut (sh_mem s) lo (lo + sz) ps ts" by (auto split: option.splits)
  let ?s = "store_token toks (length ps) 0 s"
  note st = splitting_store [OF Nil.prems(1), where w = 0]
  have len: "length ps = length ts" "length ps < bufsize" using cut Nil.prems(1) by (auto simp: cut_def splitting_def list_all2_lengthD)
  have "argv (sh_mem ?s) lo (lo + sz) toks ts" using st(2) cut_agree [OF cut st(3)] by (auto simp: argv_def)
  moreover obtain t where "4 * bufsize \<le> t" "owned area h0 (own(unat toks \<mapsto> t)) (sh_heap ?s)" using st(1) by blast
  ultimately have "split_done area h0 own lo (lo + sz) ts toks ?s"
    using Nil.prems(1) len by (auto simp: split_done_def splitting_def intro!: exI [of _ t])
  then show ?case using token st(4) Nil.prems(1) by (subst split_loop.simps) (simp add: splitting_def)
next
  case (Cons u us)
  then obtain q where token: "token = Some q" and pa: "parsed (sh_mem s) (sh_tok s) lo (lo + sz) (ps @ [q]) (ts @ [u]) us"
    by (auto split: option.splits)
  let ?s = "store_token toks (length ps) q s"
  note st = splitting_store [OF Cons.prems(1), where w = q]
  have pos: "length ps < bufsize" "own (unat toks) = None" "toks \<noteq> 0" "own lo = Some sz" using Cons.prems(1) by (auto simp: splitting_def)
  have go: "\<exists>args s'. (do { (token', s4) \<leftarrow> sh_strtok None s2; split_loop area token' b (length ps + 1) toks2 s4 }) = Some (args, s')
      \<and> rest_of s' = rest_of s \<and> split_done area h0 own lo (lo + sz) (ts @ u # us) args s' \<and> (length ps + Suc (length us) < b \<longrightarrow> args \<noteq> 0)"
    if sp: "splitting area h0 own lo sz b toks2 (ps @ [q]) s2" and tok: "sh_tok s2 = sh_tok s" "rest_of s2 = rest_of s"
      and mem: "\<And>x. lo \<le> x \<Longrightarrow> x < lo + sz \<Longrightarrow> sh_mem s2 x = sh_mem s x" for b toks2 s2
  proof -
    have "parsed (sh_mem s2) (if None \<noteq> (None :: nat option) then None else sh_tok s2) lo (lo + sz) (ps @ [q]) (ts @ [u]) us"
      using parsed_agree [OF pa mem] tok(1) by simp
    from splitting_strtok [OF sp this] obtain token' s4 where t': "sh_strtok None s2 = Some (token', s4)" "rest_of s4 = rest_of s2"
      "splitting area h0 own lo sz b toks2 (ps @ [q]) s4"
      "case token' of None \<Rightarrow> us = [] \<and> cut (sh_mem s4) lo (lo + sz) (ps @ [q]) (ts @ [u])
        | Some q' \<Rightarrow> us \<noteq> [] \<and> parsed (sh_mem s4) (sh_tok s4) lo (lo + sz) ((ps @ [q]) @ [q']) ((ts @ [u]) @ [hd us]) (tl us)"
      by (cases "us = []") (auto split: option.splits)
    show ?thesis using Cons.IH [OF t'(3,4)] t'(1,2) tok(2) by simp
  qed
  show ?case
  proof (cases "bufsize \<le> length ps + 1")
    case False
    then have "splitting area h0 own lo sz bufsize toks (ps @ [q]) ?s" using st(1,2) pos by (auto simp: splitting_def)
    from go [OF this st(5,4,3)] False token show ?thesis by (subst split_loop.simps) simp
  next
    case True
    then have full: "bufsize = length ps + 1" using pos(1) by simp
    show ?thesis
    proof (rule splitting_grow [OF Cons.prems(1) _ st(2,1) full])
      show "0 < bufsize" using full by simp
    next
      assume r: "realloc area toks (of_nat (4 * (bufsize + LSH_TOK_BUFSIZE))) (sh_heap ?s) = Some (0, sh_heap ?s)"
        "owned area h0 own (mem_free toks (sh_heap ?s))"
      obtain c where "sh_say (''allocation error'' @ [CHR 0x0A]) [] (with_heap (sh_heap ?s) ?s)
          = Some (on_console (\<lambda>_. c) (with_heap (sh_heap ?s) ?s))" using say_message [OF shell_messages(3)] by blast
      then show ?thesis using True token r st(4) by (subst split_loop.simps) (simp add: split_done_def)
    next
      fix toks' h'
      assume r: "realloc area toks (of_nat (4 * (bufsize + LSH_TOK_BUFSIZE))) (sh_heap ?s) = Some (toks', h')" "toks' \<noteq> 0"
        and sp: "splitting area h0 own lo sz (bufsize + LSH_TOK_BUFSIZE) toks' (ps @ [q]) (with_heap h' ?s)"
        and line: "\<And>x. lo \<le> x \<Longrightarrow> x < lo + sz \<Longrightarrow> hmem h' x = sh_mem ?s x"
      have "sh_mem (with_heap h' ?s) x = sh_mem s x" if "lo \<le> x" "x < lo + sz" for x using line st(3) that by simp
      from go [OF sp _ _ this] show ?thesis using True token r st(4,5) by (subst split_loop.simps) auto
    qed
  qed
qed

lemma lsh_read_line_roomy:
  assumes ow: "owned area h0 own (sh_heap s)" and ks: "10 \<notin> set ks" "-1 \<notin> set ks"
    and room: "room (1024 + 16 + k) (sh_heap s)" and short: "short 1024 [] ks"
  shows "\<exists>p s'. lsh_read_line area (ks @ 10 # rest) s = Some (p, rest, s') \<and> p \<noteq> 0 \<and> room k (sh_heap s')"
proof -
  have n: "unat (of_nat LSH_RL_BUFSIZE :: u32) = 1024" by (simp add: LSH_RL_BUFSIZE_def)
  obtain p h' where p: "malloc (of_nat LSH_RL_BUFSIZE) (sh_heap s) = Some (p, h')" "p \<noteq> 0" "room k h'"
    using room_malloc [OF owned_ok [OF ow], of "of_nat LSH_RL_BUFSIZE" k] room unfolding n by blast
  show ?thesis
  proof (rule owned_malloc [OF ow, of "of_nat LSH_RL_BUFSIZE"])
    fix q h1 t
    assume m: "malloc (of_nat LSH_RL_BUFSIZE) (sh_heap s) = Some (q, h1)" and t: "unat (of_nat LSH_RL_BUFSIZE :: u32) \<le> t"
      and ow': "owned area h0 (own(unat q \<mapsto> t)) h1"
    have "owned area h0 (own(unat q \<mapsto> t)) (sh_heap (with_heap h1 s))" "LSH_RL_BUFSIZE \<le> t" "short LSH_RL_BUFSIZE [] ks"
      using ow' t n short by (simp_all add: LSH_RL_BUFSIZE_def)
    from read_line_short [OF this ks, of rest] show ?thesis using m p by (auto simp: lsh_read_line_def room_def)
  qed (use p in simp)
qed

lemma lsh_split_line_spec:
  assumes ow: "owned area h0 own (sh_heap s)" and line: "own (unat line) = Some sz" "cstr (arg_str line s) l" "length l < sz"
  shows "\<exists>args s'. lsh_split_line area line s = Some (args, s') \<and> rest_of s' = rest_of s
    \<and> split_done area h0 own (unat line) (unat line + sz) (words l) args s'
    \<and> (room 272 (sh_heap s) \<and> length (words l) < 64 \<longrightarrow> args \<noteq> 0)"
proof -
  have n: "unat (of_nat (LSH_TOK_BUFSIZE * 4) :: u32) = 256" by (simp add: LSH_TOK_BUFSIZE_def)
  have roomy: "\<exists>p h'. malloc (of_nat (LSH_TOK_BUFSIZE * 4)) (sh_heap s) = Some (p, h') \<and> p \<noteq> 0" if "room 272 (sh_heap s)"
    using room_malloc [OF owned_ok [OF ow], of "of_nat (LSH_TOK_BUFSIZE * 4)" 0] that unfolding n by auto
  show ?thesis
  proof (rule owned_malloc [OF ow, of "of_nat (LSH_TOK_BUFSIZE * 4)"])
    assume m: "malloc (of_nat (LSH_TOK_BUFSIZE * 4)) (sh_heap s) = Some (0, sh_heap s)"
    obtain c where "sh_say (''allocation error'' @ [CHR 0x0A]) [] (with_heap (sh_heap s) s)
        = Some (on_console (\<lambda>_. c) (with_heap (sh_heap s) s))" using say_message [OF shell_messages(3)] by blast
    then show ?thesis using m ow roomy by (auto simp: lsh_split_line_def split_done_def)
  next
    fix toks h' t
    assume m: "malloc (of_nat (LSH_TOK_BUFSIZE * 4)) (sh_heap s) = Some (toks, h')" "toks \<noteq> 0" "own (unat toks) = None"
      and t: "unat (of_nat (LSH_TOK_BUFSIZE * 4) :: u32) \<le> t" and ow': "owned area h0 (own(unat toks \<mapsto> t)) h'"
      and keep: "\<forall>q u k. own q = Some u \<longrightarrow> k < u \<longrightarrow> hmem h' (q + k) = sh_mem s (q + k)"
    let ?s = "with_heap h' s"
    have sp: "splitting area h0 own (unat line) sz LSH_TOK_BUFSIZE toks [] ?s"
      using ow' m(2,3) line(1) t n by (auto simp: splitting_def words_at_def LSH_TOK_BUFSIZE_def)
    have "cstr (arg_str line ?s) l = cstr (arg_str line s) l"
      by (rule cstr_agree) (use keep line(1,3) in simp)
    then have "parsed (sh_mem ?s) (if Some (unat line) \<noteq> None then Some (unat line) else sh_tok ?s) (unat line) (unat line + sz) [] [] (words l)"
      using line(2,3) by (auto simp: parsed_def cut_def pending_def intro!: exI [of _ "unat line"])
    from splitting_strtok [OF sp this] obtain token s2 where t2: "sh_strtok (Some (unat line)) ?s = Some (token, s2)" "rest_of s2 = rest_of ?s"
      "splitting area h0 own (unat line) sz LSH_TOK_BUFSIZE toks [] s2"
      "case token of None \<Rightarrow> words l = [] \<and> cut (sh_mem s2) (unat line) (unat line + sz) [] []
        | Some q \<Rightarrow> words l \<noteq> [] \<and> parsed (sh_mem s2) (sh_tok s2) (unat line) (unat line + sz) ([] @ [q]) ([] @ [hd (words l)]) (tl (words l))"
      by (cases "words l = []") (auto split: option.splits)
    from split_loop_spec [OF t2(3,4)] show ?thesis
      using m(1,2) t2(1,2) by (auto simp: lsh_split_line_def LSH_TOK_BUFSIZE_def)
  qed
qed

end
