(* ===== verification/ShellCorrect.thy ===== *)
theory ShellCorrect
  imports ShellBuffers
begin

text \<open>
  What the shell does with a line that is typed: its words name a command, which runs on them, and at
  the end the memory is given back; the commands on files.
\<close>

section \<open>Running the command\<close>

lemma argv_args:
  assumes ow: "owned area h0 own (sh_heap s)" and args: "own (unat args) = Some t" "4 * Suc (length ts) \<le> t"
    and argv: "argv (sh_mem s) lo hi args ts" and "0 < lo" and "hi \<le> 2 ^ 32"
  shows "i < length ts \<Longrightarrow> arg args i s \<noteq> 0 \<and> cstr (arg_str (arg args i s) s) (ts ! i)" and "arg args (length ts) s = 0"
proof -
  obtain ps where w: "words_at (sh_mem s) args (ps @ [0])" and c: "cut (sh_mem s) lo hi ps ts" using argv by (auto simp: argv_def)
  have len: "length ps = length ts" using c by (auto simp: cut_def list_all2_lengthD)
  have at: "arg args i s = of_nat ((ps @ [0]) ! i)" if "i \<le> length ts" for i
  proof -
    have "unat (args + of_nat (4 * i)) = unat args + 4 * i"
      by (rule owned_addr [where s = t, OF ow args(1)]) (use that args(2) in simp)
    then show ?thesis using w that len by (simp add: arg_def words_at_def)
  qed
  show "arg args (length ts) s = 0" using at [of "length ts"] len by (simp add: nth_append)
  show "arg args i s \<noteq> 0 \<and> cstr (arg_str (arg args i s) s) (ts ! i)" if "i < length ts"
  proof -
    have p: "lo \<le> ps ! i" "ps ! i < hi" "cstr (ptr_at (sh_mem s) (ps ! i)) (ts ! i)"
      using c that len by (auto simp: cut_def list_all2_conv_all_nth dest!: spec [of _ i])
    moreover have "arg args i s = of_nat (ps ! i)" using at [of i] that len by (simp add: nth_append)
    moreover have "ps ! i < 2 ^ 32" using p(2) assms(6) by simp
    ultimately show ?thesis using assms(5) by (simp add: unat_of_nat32 of_nat32_eq_0)
  qed
qed

text \<open>The built-in commands by name.\<close>

definition builtin :: "u8 list \<Rightarrow> command" where
  "builtin w = (case map_of (zip builtin_str builtin_func) w of Some f \<Rightarrow> f | None \<Rightarrow> lsh_launch)"

lemma builtin_names: "s \<in> set builtin_str \<Longrightarrow> cstr (lit_ptr s) s"
  by (rule cstr_lit) (auto simp: builtin_str_def chr_def)

lemma builtins_length: "length builtin_str = 10" "length builtin_func = 10"
  by (simp_all add: builtin_str_def builtin_func_def)

lemma execute_scan_spec:
  assumes "cstr (arg_str (arg args 0 s) s) w" and "i + n = 10"
  shows "execute_scan n i args ks s = (case map_of (zip (drop i builtin_str) (drop i builtin_func)) w of
    Some f \<Rightarrow> f args ks s | None \<Rightarrow> lsh_launch args ks s)"
  using assms(2)
proof (induction n arbitrary: i)
  case 0
  then show ?case by (simp add: builtins_length)
next
  case (Suc n)
  then have i: "i < length builtin_str" "i < length builtin_func" by (simp_all add: builtins_length)
  obtain r where r: "strcmp (arg_str (arg args 0 s) s) (lit_ptr (builtin_str ! i)) = Some r" "r = 0 \<longleftrightarrow> w = builtin_str ! i"
    using strcmp_cstr [OF assms(1) builtin_names [OF nth_mem [OF i(1)]]] by auto
  have d: "drop i builtin_str = builtin_str ! i # drop (Suc i) builtin_str" "drop i builtin_func = builtin_func ! i # drop (Suc i) builtin_func"
    using i by (simp_all add: Cons_nth_drop_Suc)
  show ?case using Suc r by (auto simp: d)
qed

lemma execute_builtin:
  assumes "arg args 0 s \<noteq> 0" and "cstr (arg_str (arg args 0 s) s) w"
  shows "lsh_execute args ks s = builtin w args ks s"
  using execute_scan_spec [OF assms(2), of 0 10] assms(1)
  by (cases "map_of (zip builtin_str builtin_func) w") (simp_all add: lsh_execute_def lsh_num_builtins_def builtins_length builtin_def del: map_of_eq_None_iff map_of_zip_is_None)

text \<open>No command touches the heap.\<close>

lemma says_heap: "sh_say f args s = Some s' \<Longrightarrow> sh_heap s' = sh_heap s"
  by (auto simp: sh_say_def k_say_def split: bind_splits)

lemma help_loop_heap: "help_loop n i s = Some s' \<Longrightarrow> sh_heap s' = sh_heap s"
  by (induction n i s rule: help_loop.induct) (auto split: bind_splits dest: says_heap)

lemma command_heap:
  assumes "f \<in> set builtin_func \<or> f = lsh_launch" and "f args ks s = Some (r, ks', s')"
  shows "sh_heap s' = sh_heap s"
  using assms
  by (auto simp: builtin_func_def lsh_help_def lsh_ls_def lsh_touch_def lsh_del_def lsh_edit_def lsh_clear_def lsh_cat_def
      lsh_ring3_def lsh_ring3_shell_def lsh_shutdown_def lsh_launch_def says_def with_disk_def Let_def
      dest!: says_heap help_loop_heap split: bind_splits if_splits option.splits)

lemma builtin_known: "builtin w \<in> set builtin_func \<or> builtin w = lsh_launch"
proof (cases "map_of (zip builtin_str builtin_func) w")
  case (Some f)
  then have "f \<in> set builtin_func" by (meson map_of_SomeD set_zip_rightD)
  then show ?thesis by (simp add: builtin_def Some)
qed (simp add: builtin_def del: map_of_eq_None_iff map_of_zip_is_None)

lemma execute_heap:
  assumes "lsh_execute args ks s = Some (r, ks', s')" and "arg args 0 s \<noteq> 0 \<longrightarrow> (\<exists>w. cstr (arg_str (arg args 0 s) s) w)"
  shows "sh_heap s' = sh_heap s"
proof (cases "arg args 0 s = 0")
  case True
  then show ?thesis using assms(1) by (simp add: lsh_execute_def)
next
  case False
  then obtain w where "cstr (arg_str (arg args 0 s) s) w" using assms(2) by blast
  then have "builtin w args ks s = Some (r, ks', s')" using execute_builtin [OF False] assms(1) by simp
  then show ?thesis by (rule command_heap [OF builtin_known])
qed

text \<open>The state in which the command of a typed line runs.\<close>

definition prepared :: "u32 \<Rightarrow> heap \<Rightarrow> u8 list list \<Rightarrow> u32 \<Rightarrow> u32 \<Rightarrow> shell \<Rightarrow> bool" where
  "prepared area h ts line args s \<longleftrightarrow> line \<noteq> 0 \<and> args \<noteq> 0 \<and> unat line \<noteq> unat args
     \<and> (\<exists>sz t. owned area h [unat line \<mapsto> sz, unat args \<mapsto> t] (sh_heap s))
     \<and> (\<forall>i < length ts. arg args i s \<noteq> 0 \<and> cstr (arg_str (arg args i s) s) (ts ! i)) \<and> arg args (length ts) s = 0"

text \<open>Reading and splitting: a shell that cannot get its buffers returns early with nothing kept.\<close>

lemma iteration_cases:
  assumes ok: "heap_ok area (sh_heap s)" and ks: "10 \<notin> set ks" "-1 \<notin> set ks" and l: "0 \<notin> set (typed ks)"
  obtains r ks' s' where "lsh_iteration area (ks @ 10 # rest) s = Some (r, ks', s')" "r = Halted \<or> r = Status 1"
    "owned area (sh_heap s) Map.empty (sh_heap s')" "rest_of s' = rest_of s"
    "\<not> (room 1312 (sh_heap s) \<and> short 1024 [] ks \<and> length (words (typed ks)) < 64)"
  | line args s4 where "prepared area (sh_heap s) (words (typed ks)) line args s4" "rest_of s4 = rest_of s"
    "lsh_iteration area (ks @ 10 # rest) s = (do { (r, ks2, s5) \<leftarrow> lsh_execute args rest s4;
         case r of Status st \<Rightarrow> Some (Status st, ks2, release_buf line (release_buf args s5)) | _ \<Rightarrow> Some (r, ks2, s5) })"
proof -
  let ?h = "sh_heap s" and ?own = "Map.empty :: nat \<Rightarrow> nat option"
  obtain c1 where c1: "sh_say ''> '' [] s = Some (on_console (\<lambda>_. c1) s)" using say_message [OF shell_messages(4)] by blast
  let ?s1 = "on_console (\<lambda>_. c1) s"
  have ow1: "owned area ?h ?own (sh_heap ?s1)" using owned_start [OF ok] by simp
  obtain p ks1 s2 where rd: "lsh_read_line area (ks @ 10 # rest) ?s1 = Some (p, ks1, s2)" "rest_of s2 = rest_of s"
    "p \<noteq> 0 \<longrightarrow> ks1 = rest" "line_read area ?h ?own (typed ks) p s2" using lsh_read_line_spec [OF ow1 ks, of rest] by auto
  have roomy: "p \<noteq> 0 \<and> room 272 (sh_heap s2)" if "room 1312 ?h" "short 1024 [] ks"
    using lsh_read_line_roomy [OF ow1 ks, of 272 rest] that rd(1) by auto
  show thesis
  proof (cases "p = 0")
    case True
    obtain c where "sh_say (''readline failed, halting'' @ [CHR 0x0A]) [] s2 = Some (on_console (\<lambda>_. c) s2)"
      using say_message [OF shell_messages(5)] by blast
    then show thesis using True c1 rd roomy
      by (intro that(1) [of Halted ks1 "on_console (\<lambda>_. c) s2"]) (auto simp: lsh_iteration_def line_read_def)
  next
    case False
    obtain sz where sz: "length (typed ks) < sz" "owned area ?h [unat p \<mapsto> sz] (sh_heap s2)" "holds (sh_mem s2) p (typed ks @ [0])"
      using rd(4) False by (auto simp: line_read_def)
    obtain c3 where c3: "sh_say [CHR 0x0A] [] s2 = Some (on_console (\<lambda>_. c3) s2)" using say_message [OF shell_messages(6)] by blast
    let ?s3 = "on_console (\<lambda>_. c3) s2"
    have ow3: "owned area ?h [unat p \<mapsto> sz] (sh_heap ?s3)" using sz(2) by simp
    have str: "cstr (arg_str p ?s3) (typed ks)" using holds_cstr [OF sz(3) l] by simp
    obtain args s4 where sl: "lsh_split_line area p ?s3 = Some (args, s4)" "rest_of s4 = rest_of s"
      "split_done area ?h [unat p \<mapsto> sz] (unat p) (unat p + sz) (words (typed ks)) args s4"
      "room 272 (sh_heap s2) \<and> length (words (typed ks)) < 64 \<longrightarrow> args \<noteq> 0"
      using lsh_split_line_spec [OF ow3 _ str sz(1)] rd(2) by auto
    show thesis
    proof (cases "args = 0")
      case True
      have "owned area ?h ([unat p \<mapsto> sz](unat p := None)) (mem_free p (sh_heap s4))"
        by (rule owned_free(1)) (use sl(3) True in \<open>simp_all add: split_done_def\<close>)
      then show thesis using True False c1 c3 rd(1,3) sl roomy
        by (intro that(1) [of "Status 1" ks1 "release_buf p s4"]) (auto simp: lsh_iteration_def release_buf_def)
    next
      case ar: False
      obtain t where t: "4 * Suc (length (words (typed ks))) \<le> t" "owned area ?h [unat p \<mapsto> sz, unat args \<mapsto> t] (sh_heap s4)"
        "argv (sh_mem s4) (unat p) (unat p + sz) args (words (typed ks))" "unat args \<noteq> unat p"
        using sl(3) ar by (auto simp: split_done_def split: if_splits)
      have rng: "0 < unat p" "unat p + sz \<le> 2 ^ 32" using owned_range [OF ow3, of p sz] by simp_all
      have "prepared area ?h (words (typed ks)) p args s4"
        using argv_args [OF t(2) _ t(1,3) rng] t(2,4) False ar by (auto simp: prepared_def)
      then show thesis using False ar c1 c3 rd(1,3) sl(1,2)
        by (intro that(2)) (simp_all add: lsh_iteration_def)
    qed
  qed
qed

lemma prepared_release:
  assumes "prepared area h ts line args s" and "sh_heap s' = sh_heap s"
  shows "owned area h Map.empty (sh_heap (release_buf line (release_buf args s')))"
proof -
  obtain sz t where ow: "owned area h [unat line \<mapsto> sz, unat args \<mapsto> t] (sh_heap s')" and ne: "unat line \<noteq> unat args"
    using assms by (auto simp: prepared_def)
  have "owned area h ([unat line \<mapsto> sz, unat args \<mapsto> t](unat args := None)) (mem_free args (sh_heap s'))"
    by (rule owned_free(1) [OF ow]) simp
  moreover have "[unat line \<mapsto> sz, unat args \<mapsto> t](unat args := None) = [unat line \<mapsto> sz]" using ne by auto
  ultimately have "owned area h [unat line \<mapsto> sz] (mem_free args (sh_heap s'))" by simp
  then have "owned area h ([unat line \<mapsto> sz](unat line := None)) (mem_free line (mem_free args (sh_heap s')))"
    by (rule owned_free(1)) simp
  then show ?thesis by (simp add: release_buf_def)
qed

lemma prepared_first:
  assumes "prepared area h (w # ws) line args s"
  shows "lsh_execute args ks s = builtin w args ks s" and "arg args 0 s \<noteq> 0" and "cstr (arg_str (arg args 0 s) s) w"
proof -
  show "arg args 0 s \<noteq> 0" "cstr (arg_str (arg args 0 s) s) w" using assms by (auto simp: prepared_def dest: spec [of _ 0])
  then show "lsh_execute args ks s = builtin w args ks s" by (rule execute_builtin)
qed

section \<open>Properties\<close>

definition demo_shell :: "fs \<Rightarrow> shell" where
  "demo_shell st = \<lparr>sh_kernel = demo_kernel st, sh_words = [], sh_tok = None, sh_stack = (\<lambda>x. 0)\<rparr>"

definition keys :: "string \<Rightarrow> u32 list" where "keys t = List.map of_char t"

lemma demo_shell_heap: "heap_ok 0x200000 (sh_heap (demo_shell st))" "room 1312 (sh_heap (demo_shell st))"
  using heap0_ok heap_blocks_rep [OF heap0_rep] by (simp_all add: demo_shell_def room_def candidate_def)

lemma touch_line:
  "10 \<notin> set (keys ''touch a'')" "-1 \<notin> set (keys ''touch a'')" "short 1024 [] (keys ''touch a'')"
  "words (typed (keys ''touch a'')) = [lit ''touch'', lit ''a'']" "0 \<notin> set (typed (keys ''touch a''))"
  by code_simp+

text \<open>
  C15. A line that is typed and fits the shell's buffers runs the command that its first word names:
  the built-in of that name, or the message for an unknown one, is called with an array of pointers
  to exactly the line's words ended by a null pointer, in the state the shell was in but for the
  heap and the screen, and then both buffers are released.
\<close>
theorem typed_line_runs_command:
  assumes "heap_ok area (sh_heap s)" and "room 1312 (sh_heap s)" and "short 1024 [] ks"
    and "10 \<notin> set ks" and "-1 \<notin> set ks" and "0 \<notin> set (typed ks)"
    and "words (typed ks) = w # ws" and "length ws < 63"
  shows "\<exists>line args s4. prepared area (sh_heap s) (w # ws) line args s4 \<and> rest_of s4 = rest_of s
    \<and> lsh_iteration area (ks @ 10 # rest) s = (do { (r, ks2, s5) \<leftarrow> builtin w args rest s4;
         case r of Status st \<Rightarrow> Some (Status st, ks2, release_buf line (release_buf args s5)) | _ \<Rightarrow> Some (r, ks2, s5) })"
proof (rule iteration_cases [OF assms(1,4,5,6), of rest])
  fix line args s4
  assume p: "prepared area (sh_heap s) (words (typed ks)) line args s4" and run: "rest_of s4 = rest_of s"
    "lsh_iteration area (ks @ 10 # rest) s = (do { (r, ks2, s5) \<leftarrow> lsh_execute args rest s4;
         case r of Status st \<Rightarrow> Some (Status st, ks2, release_buf line (release_buf args s5)) | _ \<Rightarrow> Some (r, ks2, s5) })"
  then show ?thesis using prepared_first(1) [OF p [unfolded assms(7)], of rest] assms(7)
    by (intro exI [of _ line] exI [of _ args] exI [of _ s4]) simp
qed (use assms in simp)

theorem typed_line_runs_command_witness:
  "\<exists>line args s4. prepared 0x200000 heap0 [lit ''touch'', lit ''a''] line args s4
    \<and> lsh_iteration 0x200000 (keys ''touch a'' @ [10]) (demo_shell undefined)
      = (do { (r, ks2, s5) \<leftarrow> builtin (lit ''touch'') args [] s4;
           case r of Status st \<Rightarrow> Some (Status st, ks2, release_buf line (release_buf args s5)) | _ \<Rightarrow> Some (r, ks2, s5) })"
  using typed_line_runs_command [OF demo_shell_heap touch_line(3,1,2,5,4), of undefined "[]"]
  by (auto simp: demo_shell_def)

lemma rest_of_paging:
  assumes "rest_of s = rest_of s'"
  shows "paging_st (sh_kernel s) = paging_st (sh_kernel s')" "exit_requested (sh_kernel s) = exit_requested (sh_kernel s')"
    "kbd_st (sh_kernel s) = kbd_st (sh_kernel s')"
proof -
  have "paging_st (sh_kernel s) = paging_st (sh_kernel (rest_of s))" "exit_requested (sh_kernel s) = exit_requested (sh_kernel (rest_of s))"
    "kbd_st (sh_kernel s) = kbd_st (sh_kernel (rest_of s))" for s
    by (simp_all add: rest_of_def)
  then show "paging_st (sh_kernel s) = paging_st (sh_kernel s')" "exit_requested (sh_kernel s) = exit_requested (sh_kernel s')"
    "kbd_st (sh_kernel s) = kbd_st (sh_kernel s')"
    using assms by metis+
qed

lemma touch_del_run:
  assumes "heap_ok area (sh_heap s)" and "room 1312 (sh_heap s)" and "short 1024 [] ks"
    and "10 \<notin> set ks" and "-1 \<notin> set ks" and "0 \<notin> set (typed ks)"
    and "words (typed ks) = [w, name]" and "fs_rep (fs_disk (k_fs (sh_kernel s))) dir"
    and "w = lit ''touch'' \<and> dir' = snd (dir_create name dir) \<or> w = lit ''del'' \<and> dir' = snd (dir_delete name dir)"
  shows "\<exists>s'. lsh_iteration area (ks @ 10 # rest) s = Some (Status 1, rest, s') \<and> fs_rep (fs_disk (k_fs (sh_kernel s'))) dir'
    \<and> (\<forall>x \<ge> 12288. fs_disk (k_fs (sh_kernel s')) x = fs_disk (k_fs (sh_kernel s)) x)
    \<and> paging_st (sh_kernel s') = paging_st (sh_kernel s) \<and> exit_requested (sh_kernel s') = exit_requested (sh_kernel s)
    \<and> kbd_st (sh_kernel s') = kbd_st (sh_kernel s)"
proof (rule iteration_cases [OF assms(1,4,5,6), of rest])
  fix line args s4
  assume p: "prepared area (sh_heap s) (words (typed ks)) line args s4" and rest: "rest_of s4 = rest_of s"
    and run: "lsh_iteration area (ks @ 10 # rest) s = (do { (r, ks2, s5) \<leftarrow> lsh_execute args rest s4;
         case r of Status st \<Rightarrow> Some (Status st, ks2, release_buf line (release_buf args s5)) | _ \<Rightarrow> Some (r, ks2, s5) })"
  let ?d = "fs_disk (k_fs (sh_kernel s))"
  have disk: "fs_disk (k_fs (sh_kernel s4)) = ?d" using rest_of_disk [OF rest] .
  have rep: "fs_rep (fs_disk (k_fs (sh_kernel s4))) dir" unfolding disk by (rule assms(8))
  note pg = rest_of_paging [OF rest]
  have name: "arg args 1 s4 \<noteq> 0" "cstr (arg_str (arg args 1 s4) s4) name" using p assms(7) by (auto simp: prepared_def dest: spec [of _ 1])
  have "\<exists>s5. builtin w args rest s4 = Some (Status 1, rest, s5) \<and> fs_rep (fs_disk (k_fs (sh_kernel s5))) dir'
      \<and> (\<forall>x \<ge> 12288. fs_disk (k_fs (sh_kernel s5)) x = ?d x) \<and> paging_st (sh_kernel s5) = paging_st (sh_kernel s)
      \<and> exit_requested (sh_kernel s5) = exit_requested (sh_kernel s) \<and> kbd_st (sh_kernel s5) = kbd_st (sh_kernel s)"
    using assms(9)
  proof
    assume w: "w = lit ''touch'' \<and> dir' = snd (dir_create name dir)"
    have "builtin (lit ''touch'') = lsh_touch" by (simp add: builtin_def builtin_str_def builtin_func_def chr_def)
    then show ?thesis using create_file_spec [OF rep name(2)] w name(1) by (auto simp: lsh_touch_def with_disk_def disk pg)
  next
    assume w: "w = lit ''del'' \<and> dir' = snd (dir_delete name dir)"
    have "builtin (lit ''del'') = lsh_del" by (simp add: builtin_def builtin_str_def builtin_func_def chr_def)
    then show ?thesis using delete_file_spec [OF rep name(2)] w name(1) by (auto simp: lsh_del_def with_disk_def disk pg)
  qed
  then show ?thesis using run prepared_first(1) [OF p [unfolded assms(7)], of rest]
    by (auto simp: release_buf_def with_heap_def)
qed (use assms in simp)

lemma iteration_keeps_heap:
  assumes "heap_ok area (sh_heap s)" and "10 \<notin> set ks" and "-1 \<notin> set ks" and "0 \<notin> set (typed ks)"
    and "lsh_iteration area (ks @ 10 # rest) s = Some (Status st, ks', s')"
  shows "heap_ok area (sh_heap s') \<and> heap_live (sh_heap s') = heap_live (sh_heap s)
    \<and> (\<forall>q t k. heap_live (sh_heap s) q = Some t \<and> k < t \<longrightarrow> sh_mem s' (q + k) = sh_mem s (q + k))"
proof -
  have "owned area (sh_heap s) Map.empty (sh_heap s')"
  proof (rule iteration_cases [OF assms(1-4), of rest])
    fix line args s4
    assume p: "prepared area (sh_heap s) (words (typed ks)) line args s4"
      and run: "lsh_iteration area (ks @ 10 # rest) s = (do { (r, ks2, s5) \<leftarrow> lsh_execute args rest s4;
         case r of Status st \<Rightarrow> Some (Status st, ks2, release_buf line (release_buf args s5)) | _ \<Rightarrow> Some (r, ks2, s5) })"
    obtain r s5 where ex: "lsh_execute args rest s4 = Some (r, ks', s5)" "s' = release_buf line (release_buf args s5)"
      using run assms(5) by (auto split: bind_splits result.splits)
    have "arg args 0 s4 \<noteq> 0 \<longrightarrow> (\<exists>w. cstr (arg_str (arg args 0 s4) s4) w)"
      using p by (cases "words (typed ks)") (auto simp: prepared_def dest: spec [of _ 0])
    from prepared_release [OF p execute_heap [OF ex(1) this]] show ?thesis by (simp add: ex(2))
  qed (use assms(5) in simp)
  then show ?thesis using owned_ok owned_none owned_keeps by metis
qed



text \<open>
  Typing \<open>touch\<close> or \<open>del\<close> and a file's name does to the directory what creating or deleting it
  does, leaves the disk's data blocks alone, and the shell is ready for the next line.
\<close>
theorem touch_and_del:
  assumes "heap_ok area (sh_heap s)" and "room 1312 (sh_heap s)" and "short 1024 [] ks"
    and "10 \<notin> set ks" and "-1 \<notin> set ks" and "0 \<notin> set (typed ks)"
    and "words (typed ks) = [w, name]" and "fs_rep (fs_disk (k_fs (sh_kernel s))) dir"
    and "w = lit ''touch'' \<and> dir' = snd (dir_create name dir) \<or> w = lit ''del'' \<and> dir' = snd (dir_delete name dir)"
  shows "\<exists>s'. lsh_iteration area (ks @ 10 # rest) s = Some (Status 1, rest, s') \<and> fs_rep (fs_disk (k_fs (sh_kernel s'))) dir'
    \<and> (\<forall>x \<ge> 12288. fs_disk (k_fs (sh_kernel s')) x = fs_disk (k_fs (sh_kernel s)) x)"
  using touch_del_run [OF assms] by blast

theorem touch_and_del_witness:
  "\<exists>st s'. fs_rep (fs_disk st) two_files \<and> lsh_iteration 0x200000 (keys ''touch a'' @ [10]) (demo_shell st) = Some (Status 1, [], s')
    \<and> fs_rep (fs_disk (k_fs (sh_kernel s'))) (snd (dir_create (lit ''a'') two_files))"
proof -
  obtain st :: fs where st: "fs_rep (fs_disk st) two_files" using two_files_exist by metis
  have rep: "fs_rep (fs_disk (k_fs (sh_kernel (demo_shell st)))) two_files" using st by (simp add: demo_shell_def demo_editor_def)
  show ?thesis using touch_and_del [OF demo_shell_heap touch_line(3,1,2,5,4) rep, of _ "[]"] st by blast
qed

lemma kprintf_line:
  assumes "cstr p t"
  shows "kprintf (lit (''%s'' @ [CHR 0x0A])) [AStr p] c = Some (kprint_newline (show_bytes t c))"
proof -
  have f: "lit (''%s'' @ [CHR 0x0A]) = [chr CHR ''%'', chr CHR ''s'', chr CHR 0x0A]" by simp
  have conv: "kprintf_conv (chr CHR ''s'') [AStr p] c = Some ([], show_bytes t c)"
    using put_str_cstr [of p 0 t c] assms by (simp add: kprintf_conv_def fmt_chars)
  have pp: "parse_precision [chr CHR ''s'', chr CHR 0x0A] [AStr p] = Some (-1, [chr CHR ''s'', chr CHR 0x0A], [AStr p])"
    by (rule plain_no_precision) (simp add: fmt_chars)
  show ?thesis unfolding f by (simp add: percent_newline pp conv)
qed

text \<open>
  \<open>cat\<close> ignores the size of the file: it shows the bytes of the file's first block up to the first
  zero, also for a file of size 0, whose block still holds what an earlier file left there.
\<close>
theorem cat_shows_block:
  assumes "arg args 1 s \<noteq> 0" and "cstr (arg_str (arg args 1 s) s) name"
    and "fs_rep (fs_disk (k_fs (sh_kernel s))) dir" and "dir_find name dir = Some e" and "dir ! e = Some f"
    and "cstr (ptr_at (fs_disk (k_fs (sh_kernel s))) (4096 * eblock f)) t" and "length t < 4096"
  shows "lsh_cat args ks s = Some (Status 1, ks, on_console (\<lambda>c. kprint_newline (show_bytes t c)) s)"
proof -
  let ?st = "k_fs (sh_kernel s)" and ?p = "arg_str (arg args 1 s) s"
  have e: "e < 64" using dir_found [OF assms(3,4)] by blast
  note entry = fs_rep_entry [OF assms(3) e assms(5)]
  have find: "fs_find_file ?p (fs_disk ?st) = Some (Some e)" using fs_find_spec [OF assms(3,2)] assms(4) by simp
  have read: "fs_read_block ?st (ld32 (fs_disk ?st) (entry_first_block e)) 4096 (sh_stack s)
      = Some (copy_up (fs_disk ?st) (4096 * eblock f) (sh_stack s) 4096 4096)"
    using read_block_spec [of "eblock f" ?st 4096 "sh_stack s"] entry(4) by (simp add: entry(1))
  have "cstr (ptr_at (copy_up (fs_disk ?st) (4096 * eblock f) (sh_stack s) 4096 4096) 4096) t = cstr (ptr_at (fs_disk ?st) (4096 * eblock f)) t"
    by (rule cstr_agree) (use assms(7) in \<open>simp add: copy_up_apply\<close>)
  then have "cstr (ptr_at (copy_up (fs_disk ?st) (4096 * eblock f) (sh_stack s) 4096 4096) 4096) t" using assms(6) by simp
  note shown = kprintf_line [OF this, of "k_console (sh_kernel s)"]
  show ?thesis using assms(1) find read shown
    by (simp add: lsh_cat_def Let_def says_def sh_say_def k_say_def on_console_def)
qed

text \<open>The disk with two files whose first one, of size 0, lies in a block that still holds \<open>x\<close>; the
  name \<open>a\<close> and the argument array are in the first bytes of the heap's memory.\<close>

definition stale_shell :: "fs \<Rightarrow> shell" where
  "stale_shell st = (demo_shell (st\<lparr>fs_disk := (fs_disk st)(12288 := chr CHR ''x'', 12289 := 0)\<rparr>))
     \<lparr>sh_kernel := (demo_kernel (st\<lparr>fs_disk := (fs_disk st)(12288 := chr CHR ''x'', 12289 := 0)\<rparr>))
        \<lparr>heap_st := heap0\<lparr>hmem := st32 ((\<lambda>x. 0)(100 := chr CHR ''a'')) 4 100\<rparr>\<rparr>\<rparr>"

theorem cat_shows_block_witness:
  "\<exists>st. fs_rep (fs_disk (k_fs (sh_kernel (stale_shell st)))) two_files
    \<and> lsh_cat 0 [] (stale_shell st) = Some (Status 1, [], on_console (\<lambda>c. kprint_newline (show_bytes (lit ''x'') c)) (stale_shell st))"
proof -
  obtain st :: fs where st: "fs_rep (fs_disk st) two_files" using two_files_exist by metis
  let ?s = "stale_shell st" and ?m = "st32 ((\<lambda>x. 0)(100 := chr CHR ''a'')) 4 100"
  have disk: "fs_disk (k_fs (sh_kernel ?s)) = (fs_disk st)(12288 := chr CHR ''x'', 12289 := 0)"
    by (simp add: stale_shell_def demo_kernel_def demo_editor_def)
  have rep: "fs_rep (fs_disk (k_fs (sh_kernel ?s))) two_files" unfolding disk by (rule fs_rep_agree [OF st]) simp
  have mem: "sh_mem ?s = ?m" by (simp add: stale_shell_def)
  have arg: "arg 0 1 ?s = 100" by (simp add: arg_def mem)
  have "?m 100 = chr CHR ''a''" "?m 101 = 0" by (simp_all add: st32_other)
  then have name: "cstr (arg_str (arg 0 1 ?s) ?s) (lit ''a'')" unfolding arg mem by (simp add: cstr_def chr_def)
  have "cstr (ptr_at (fs_disk (k_fs (sh_kernel ?s))) (4096 * 3)) (lit ''x'')" unfolding disk by (simp add: cstr_def chr_def)
  then show ?thesis
    using cat_shows_block [OF _ name rep two_files_find(1,3), of "lit ''x''" "[]"] arg rep by auto
qed


section \<open>Leaving for user mode\<close>

lemma enter_run:
  assumes "heap_ok area (sh_heap s)" and "room 1312 (sh_heap s)" and "short 1024 [] ks"
    and "10 \<notin> set ks" and "-1 \<notin> set ks" and "0 \<notin> set (typed ks)" and "words (typed ks) = [w]"
    and enter: "builtin w = (\<lambda>args ks s. Some (In_user_mode e, ks, s))"
  shows "\<exists>s' (line :: u32) (args :: u32) sz t. lsh_iteration area (ks @ 10 # rest) s = Some (In_user_mode e, rest, s')
    \<and> rest_of s' = rest_of s \<and> line \<noteq> args \<and> owned area (sh_heap s) [unat line \<mapsto> sz, unat args \<mapsto> t] (sh_heap s')"
proof (rule iteration_cases [OF assms(1,4,5,6), of rest])
  fix line args s4
  assume p: "prepared area (sh_heap s) (words (typed ks)) line args s4" and rest: "rest_of s4 = rest_of s"
    and run: "lsh_iteration area (ks @ 10 # rest) s = (do { (r, ks2, s5) \<leftarrow> lsh_execute args rest s4;
         case r of Status st \<Rightarrow> Some (Status st, ks2, release_buf line (release_buf args s5)) | _ \<Rightarrow> Some (r, ks2, s5) })"
  have "lsh_iteration area (ks @ 10 # rest) s = Some (In_user_mode e, rest, s4)"
    using run prepared_first(1) [OF p [unfolded assms(7)], of rest] by (simp add: enter)
  moreover obtain sz t where "owned area (sh_heap s) [unat line \<mapsto> sz, unat args \<mapsto> t] (sh_heap s4)" "line \<noteq> args"
    using p by (auto simp: prepared_def)
  ultimately show ?thesis using rest by blast
qed (use assms in simp)

lemma enter_builtins:
  "builtin (lit ''ring3'') = (\<lambda>args ks s. Some (In_user_mode jump_to_userspace, ks, s))"
  "builtin (lit ''ring3_shell'') = (\<lambda>args ks s. Some (In_user_mode jump_to_shell, ks, s))"
  by (simp_all add: builtin_def builtin_str_def builtin_func_def chr_def lsh_ring3_def lsh_ring3_shell_def fun_eq_iff)

lemma ring3_line:
  "10 \<notin> set (keys ''ring3'')" "-1 \<notin> set (keys ''ring3'')" "short 1024 [] (keys ''ring3'')"
  "words (typed (keys ''ring3'')) = [lit ''ring3'']" "0 \<notin> set (typed (keys ''ring3''))"
  by code_simp+

text \<open>Lines that create or delete a file, and what a line of words does to the directory.\<close>

definition file_effect :: "u8 list list \<Rightarrow> dir \<Rightarrow> dir" where
  "file_effect ws dir = (case ws of
     c # n # _ \<Rightarrow> if c = lit ''touch'' then snd (dir_create n dir) else if c = lit ''del'' then snd (dir_delete n dir) else dir
   | _ \<Rightarrow> dir)"

definition short_line :: "u32 list \<Rightarrow> bool" where
  "short_line ks \<longleftrightarrow> short 1024 [] ks \<and> 10 \<notin> set ks \<and> -1 \<notin> set ks \<and> 0 \<notin> set (typed ks)"

definition file_line :: "u32 list \<Rightarrow> bool" where
  "file_line ks \<longleftrightarrow> short_line ks \<and> (case words (typed ks) of [w, name] \<Rightarrow> w = lit ''touch'' \<or> w = lit ''del'' | _ \<Rightarrow> False)"

lemma file_line_run:
  assumes "heap_ok area (sh_heap s)" and "room 1312 (sh_heap s)" and "file_line ks" and "fs_rep (fs_disk (k_fs (sh_kernel s))) dir"
  shows "\<exists>s'. lsh_iteration area (ks @ 10 # rest) s = Some (Status 1, rest, s')
    \<and> fs_rep (fs_disk (k_fs (sh_kernel s'))) (file_effect (words (typed ks)) dir)
    \<and> paging_st (sh_kernel s') = paging_st (sh_kernel s) \<and> exit_requested (sh_kernel s') = exit_requested (sh_kernel s)
    \<and> kbd_st (sh_kernel s') = kbd_st (sh_kernel s)"
proof -
  obtain w name where w: "words (typed ks) = [w, name]" "w = lit ''touch'' \<or> w = lit ''del''"
    using assms(3) by (auto simp: file_line_def split: list.splits)
  have ks: "short 1024 [] ks" "10 \<notin> set ks" "-1 \<notin> set ks" "0 \<notin> set (typed ks)" using assms(3) by (simp_all add: file_line_def short_line_def)
  have "lit ''del'' \<noteq> lit ''touch''" by (simp add: chr_def)
  then have "w = lit ''touch'' \<and> file_effect [w, name] dir = snd (dir_create name dir) \<or> w = lit ''del'' \<and> file_effect [w, name] dir = snd (dir_delete name dir)"
    using w(2) by (auto simp: file_effect_def)
  from touch_del_run [OF assms(1,2) ks w(1) assms(4) this, of rest] show ?thesis unfolding w(1) by blast
qed

text \<open>
  Starting a user program from the shell loses memory: the buffers of the line and of its words are
  still live when the processor goes on in user mode, and the shell that runs again after the program
  exits starts with new ones.
\<close>
theorem user_mode_leaks_buffers:
  assumes "heap_ok area (sh_heap s)" and "room 1312 (sh_heap s)" and "short 1024 [] ks"
    and "10 \<notin> set ks" and "-1 \<notin> set ks" and "0 \<notin> set (typed ks)" and "words (typed ks) = [lit ''ring3'']"
  shows "\<exists>s' line args sz t. lsh_iteration area (ks @ 10 # rest) s = Some (In_user_mode jump_to_userspace, rest, s')
    \<and> line \<noteq> args \<and> heap_live (sh_heap s) line = None \<and> heap_live (sh_heap s) args = None
    \<and> heap_live (sh_heap s') = (heap_live (sh_heap s))(line \<mapsto> sz, args \<mapsto> t)"
proof -
  obtain s' and line args :: u32 and sz t where s': "lsh_iteration area (ks @ 10 # rest) s = Some (In_user_mode jump_to_userspace, rest, s')"
    "line \<noteq> args" "owned area (sh_heap s) [unat line \<mapsto> sz, unat args \<mapsto> t] (sh_heap s')"
    using enter_run [OF assms enter_builtins(1), of rest] by blast
  have ne: "unat line \<noteq> unat args" using s'(2) by (simp add: word_unat_eq_iff)
  have "heap_live (sh_heap s') = heap_live (sh_heap s) ++ [unat line \<mapsto> sz, unat args \<mapsto> t]"
    "dom [unat line \<mapsto> sz, unat args \<mapsto> t] \<inter> dom (heap_live (sh_heap s)) = {}"
    using s'(3) by (simp_all add: owned_def owns_def)
  then show ?thesis using s'(1) ne
    by (intro exI [of _ s'] exI [of _ "unat line"] exI [of _ "unat args"] exI [of _ sz] exI [of _ t]) auto
qed

theorem user_mode_leaks_buffers_witness:
  "\<exists>s' line args sz t. lsh_iteration 0x200000 (keys ''ring3'' @ [10]) (demo_shell undefined) = Some (In_user_mode jump_to_userspace, [], s')
    \<and> line \<noteq> args \<and> heap_live (sh_heap s') line = Some sz \<and> heap_live (sh_heap s') args = Some t"
proof -
  obtain s' line args sz t where s': "lsh_iteration 0x200000 (keys ''ring3'' @ 10 # []) (demo_shell undefined) = Some (In_user_mode jump_to_userspace, [], s')"
    "line \<noteq> args" "heap_live (sh_heap s') = (heap_live (sh_heap (demo_shell undefined)))(line \<mapsto> sz, args \<mapsto> t)"
    using user_mode_leaks_buffers [OF demo_shell_heap ring3_line(3,1,2,5,4), of "[]"] by blast
  then show ?thesis by (intro exI [of _ s'] exI [of _ line] exI [of _ args] exI [of _ sz] exI [of _ t]) simp
qed

end
