(* ===== verification/KernelMain.thy ===== *)
theory KernelMain
  imports BootPages ShellCorrect
begin

text \<open>
  \<open>kernel_main\<close> of \<open>kernel/kernel.c\<close>: the whole boot, in the phases that its comments name, down to
  the shell's loop.  What the linker and the boot loader decide is \<open>image\<close> (addresses, the bytes of
  the three programs) and \<open>multiboot_info\<close>.  The memory that the segment descriptors are written to
  is the memory that paging translates; the frame buffer, mapped at its own address, is in it too.
  No interrupt arrives while the boot runs.
\<close>

section \<open>The machine\<close>

record machine =
  m_shell :: shell
  m_io :: io
  m_tables :: tables
  m_vga :: vga

record image =
  kernel_end :: u32
  default_tss :: u32
  kbd_entry :: u32
  timer_entry :: u32
  syscall_address :: u32
  idt_address :: u32
  dynamic_mem_area :: u32
  user_flat :: "u8 list"
  editor_flat :: "u8 list"
  shell_flat :: "u8 list"

record multiboot_info =
  mb_flags :: u32
  framebuffer_addr :: "64 word"
  framebuffer_pitch :: u32
  framebuffer_width :: u32
  framebuffer_height :: u32
  framebuffer_bpp :: u8

record fb_info =
  fb_phys_addr :: u32
  screen_pitch :: u32
  screen_width :: u32
  screen_height :: u32
  fb_bpp :: u8

abbreviation m_kernel :: "machine \<Rightarrow> kernel" where "m_kernel m \<equiv> sh_kernel (m_shell m)"
abbreviation m_paging :: "machine \<Rightarrow> paging" where "m_paging m \<equiv> paging_st (sh_kernel (m_shell m))"

definition with_kernel :: "kernel \<Rightarrow> machine \<Rightarrow> machine" where
  "with_kernel k m = m\<lparr>m_shell := (m_shell m)\<lparr>sh_kernel := k\<rparr>\<rparr>"

definition with_paging :: "paging \<Rightarrow> machine \<Rightarrow> machine" where
  "with_paging p m = with_kernel ((m_kernel m)\<lparr>paging_st := p\<rparr>) m"

section \<open>Messages\<close>

definition sprint :: "string \<Rightarrow> machine \<Rightarrow> machine option" where
  "sprint t m = do { s \<leftarrow> serial_print (lit_ptr (lit t)) (m_io m); Some (m\<lparr>m_io := s\<rparr>) }"

definition shex :: "u32 \<Rightarrow> machine \<Rightarrow> machine option" where
  "shex x m = do { s \<leftarrow> serial_hex x (m_io m); Some (m\<lparr>m_io := s\<rparr>) }"

abbreviation sprintln :: "string \<Rightarrow> machine \<Rightarrow> machine option" where
  "sprintln t \<equiv> sprint (t @ [CHR 0x0A])"

section \<open>Display\<close>

definition parse_fb :: "multiboot_info option \<Rightarrow> machine \<Rightarrow> (fb_info \<times> machine) option" where
  "parse_fb mb m = do {
     m1 \<leftarrow> sprintln ''[1] kernel_main entered'' m;
     m2 \<leftarrow> sprintln ''[2] mb ptr set'' m1;
     let none = \<lparr>fb_phys_addr = 0, screen_pitch = 0, screen_width = 0, screen_height = 0, fb_bpp = 0\<rparr>;
     case mb of
       Some b \<Rightarrow>
         if mb_flags b AND push_bit 12 1 \<noteq> 0 then do {
           m3 \<leftarrow> sprintln ''[3] fb fields parsed'' m2;
           Some (\<lparr>fb_phys_addr = ucast (framebuffer_addr b), screen_pitch = framebuffer_pitch b,
             screen_width = framebuffer_width b, screen_height = framebuffer_height b, fb_bpp = framebuffer_bpp b\<rparr>, m3)
         } else do { m3 \<leftarrow> sprintln ''[3] no fb in multiboot (bit 12 not set)'' m2; Some (none, m3) }
     | None \<Rightarrow> do { m3 \<leftarrow> sprintln ''[3] no fb in multiboot (bit 12 not set)'' m2; Some (none, m3) }
   }"

definition boot_display :: "multiboot_info option \<Rightarrow> fb_info \<Rightarrow> machine \<Rightarrow> machine option" where
  "boot_display mb fi m = do {
     m \<leftarrow> sprint ''[3] flags='' m; m \<leftarrow> shex (case mb of Some b \<Rightarrow> mb_flags b | None \<Rightarrow> 0) m;
     m \<leftarrow> sprint '' fb_addr='' m; m \<leftarrow> shex (fb_phys_addr fi) m;
     m \<leftarrow> sprint '' w='' m; m \<leftarrow> shex (screen_width fi) m;
     m \<leftarrow> sprint '' h='' m; m \<leftarrow> shex (screen_height fi) m;
     m \<leftarrow> sprint '' pitch='' m; m \<leftarrow> shex (screen_pitch fi) m;
     m \<leftarrow> sprint '' bpp='' m; m \<leftarrow> shex (ucast (fb_bpp fi)) m;
     m \<leftarrow> sprint [CHR 0x0A] m;
     sprintln ''[4] clear_screen done'' (m\<lparr>m_shell := on_console clear_screen (m_shell m)\<rparr>)
   }"

section \<open>Segments and paging\<close>

definition boot_tables :: "image \<Rightarrow> machine \<Rightarrow> machine option" where
  "boot_tables img m = do {
     let t = gdt_init (default_tss img) ((m_tables m)\<lparr>low_mem := phys (m_paging m)\<rparr>);
     let m = with_paging ((m_paging m)\<lparr>phys := low_mem t\<rparr>) (m\<lparr>m_tables := t\<rparr>);
     m \<leftarrow> sprintln ''[5] gdt_init done'' m;
     let m = with_paging (paging_alloc_init (kernel_end img) (m_paging m)) m;
     m \<leftarrow> sprintln ''[6] paging_alloc_init done'' m;
     let m = with_paging (init_paging (m_paging m)) m;
     sprintln ''[7] init_paging done'' m
   }"

section \<open>Frame buffer\<close>

fun zero_table :: "nat \<Rightarrow> nat \<Rightarrow> nat \<Rightarrow> mem \<Rightarrow> mem option" where
  "zero_table a i 0 m = Some m"
| "zero_table a i (Suc n) m = do { m' \<leftarrow> store_table (a + 4 * i) 0 m; zero_table a (Suc i) n m' }"

definition map_fb_page :: "u32 \<Rightarrow> paging \<Rightarrow> paging option" where
  "map_fb_page addr p = do {
     let i = dir_index addr;
     p1 \<leftarrow> (if dir_entry (phys p) i AND 1 = 0 then
               let (new_tbl, p') = alloc_page_frame p
               in do {
                 m \<leftarrow> zero_table (unat new_tbl) 0 1024 (phys p');
                 Some (p'\<lparr>phys := st32 m (page_directory + 4 * i) (new_tbl OR 3)\<rparr>)
               }
             else Some p);
     m \<leftarrow> store_table (unat (dir_entry (phys p1) i AND NOT 0xFFF) + 4 * table_index addr) (addr OR 3) (phys p1);
     Some (p1\<lparr>phys := m\<rparr>)
   }"

partial_function (option) map_fb_loop :: "u32 \<Rightarrow> u32 \<Rightarrow> u32 \<Rightarrow> paging \<Rightarrow> paging option" where
  "map_fb_loop base off fb_size p =
     (if off < fb_size then do { p1 \<leftarrow> map_fb_page (base + off) p; map_fb_loop base (off + 0x1000) fb_size p1 }
      else Some p)"

definition boot_fb :: "fb_info \<Rightarrow> machine \<Rightarrow> machine option" where
  "boot_fb fi m =
     (if fb_phys_addr fi \<noteq> 0 then do {
        m \<leftarrow> sprintln ''[8] mapping framebuffer...'' m;
        let fb_size = screen_pitch fi * screen_height fi;
        m \<leftarrow> sprint ''    fb_size='' m; m \<leftarrow> shex fb_size m; m \<leftarrow> sprint [CHR 0x0A] m;
        p \<leftarrow> map_fb_loop (fb_phys_addr fi) 0 fb_size (m_paging m);
        m \<leftarrow> sprintln ''[9] fb mapped, calling vga13_init'' (with_paging p m);
        let v = vga13_init (fb_phys_addr fi) (screen_pitch fi) (screen_width fi) (screen_height fi) (m_vga m);
        sprintln ''[10] vga13_init done'' (m\<lparr>m_vga := v\<rparr>)
      } else sprintln ''[8] fb_phys_addr=0, skipping fb map'' m)"

section \<open>Programs\<close>

text \<open>The test program with its stack, the shared page, and the editor and the shell, each with twelve pages and a stack.\<close>

definition load_user :: "u8 list \<Rightarrow> paging \<Rightarrow> paging option" where
  "load_user bs p = do {
     p \<leftarrow> map_fresh_page 0xA0000000 p;
     p \<leftarrow> map_fresh_page 0xB0000000 p;
     copy_binary 0xA0000000 bs p
   }"

definition load_shared :: "paging \<Rightarrow> paging option" where
  "load_shared p = do { p \<leftarrow> map_fresh_page 0xF0000000 p; zero_region 0xF0000000 4096 p }"

definition load_program :: "u32 \<Rightarrow> u32 \<Rightarrow> u8 list \<Rightarrow> paging \<Rightarrow> paging option" where
  "load_program base stack bs p = do {
     p \<leftarrow> map_fresh_run (unat base) 12 p;
     p \<leftarrow> map_fresh_page stack p;
     p \<leftarrow> zero_region base (12 * 4096) p;
     copy_binary base bs p
   }"

definition stage :: "string \<Rightarrow> (paging \<Rightarrow> paging option) \<Rightarrow> machine \<Rightarrow> machine option" where
  "stage t f m = do { p \<leftarrow> f (m_paging m); sprintln t (with_paging p m) }"

definition boot_programs :: "image \<Rightarrow> machine \<Rightarrow> machine option" where
  "boot_programs img m = do {
     m \<leftarrow> sprintln ''[11] mapping user pages'' m;
     m \<leftarrow> stage ''[12] user binary mapped'' (load_user (user_flat img)) m;
     m \<leftarrow> stage ''[13] IPC page mapped'' load_shared m;
     m \<leftarrow> stage ''[14] editor mapped'' (load_program 0x70000000 0x71000000 (editor_flat img)) m;
     stage ''[15] shell mapped'' (load_program 0xC0000000 0xD0000000 (shell_flat img)) m
   }"

section \<open>Hardware\<close>

definition boot_hardware :: "image \<Rightarrow> machine \<Rightarrow> machine option" where
  "boot_hardware img m = do {
     let (t, s) = idt_init (kbd_entry img) (timer_entry img) (syscall_address img) (idt_address img) (m_tables m) (m_io m);
     m \<leftarrow> sprintln ''[16] idt_init done'' (m\<lparr>m_tables := t, m_io := s\<rparr>);
     m \<leftarrow> sprintln ''[17] pit_init done'' (m\<lparr>m_io := pit_init (m_io m)\<rparr>);
     let (b, s) = read_port 0x21 (m_io m);
     m \<leftarrow> sprintln ''[18] interrupts enabled'' (m\<lparr>m_io := write_port 0x21 (b AND NOT 1) s\<rparr>);
     let (_, kb, s) = kbd_init (kbd_st (m_kernel m)) (m_io m);
     let m = with_kernel ((m_kernel m)\<lparr>kbd_st := kbd_enable kb\<rparr>) (m\<lparr>m_io := s\<rparr>);
     sprintln ''[19] kbd init done'' m
   }"

section \<open>Software\<close>

definition boot_software :: "image \<Rightarrow> machine \<Rightarrow> machine option" where
  "boot_software img m = do {
     let m = with_kernel ((m_kernel m)\<lparr>heap_st := init_dynamic_mem (dynamic_mem_area img) (heap_st (m_kernel m))\<rparr>) m;
     m \<leftarrow> sprintln ''[20] heap init done'' m;
     st \<leftarrow> fs_init (k_fs (m_kernel m));
     m \<leftarrow> sprintln ''[21] fs init done'' (with_kernel (with_fs st (m_kernel m)) m);
     let p = (m_paging m)\<lparr>phys := vga13_clear 0x00FF0000 (m_vga m) (phys (m_paging m))\<rparr>;
     m \<leftarrow> sprintln ''[22] vga13_clear done'' (with_paging p m);
     let p = (m_paging m)\<lparr>phys := vga13_put_pixel 10 10 0x00FFFFFF (m_vga m) (phys (m_paging m))\<rparr>;
     m \<leftarrow> sprintln ''[23] vga13_put_pixel done'' (with_paging p m);
     Some (m\<lparr>m_shell := initShell (m_shell m)\<rparr>)
   }"

definition boot :: "image \<Rightarrow> multiboot_info option \<Rightarrow> machine \<Rightarrow> machine option" where
  "boot img mb m = do {
     (fi, m) \<leftarrow> parse_fb mb m;
     m \<leftarrow> boot_display mb fi m;
     m \<leftarrow> boot_tables img m;
     m \<leftarrow> boot_fb fi m;
     m \<leftarrow> boot_programs img m;
     m \<leftarrow> boot_hardware img m;
     boot_software img m
   }"

text \<open>The shell's loop ends where the processor goes on elsewhere; after it, \<open>while (1)\<close> never does.\<close>

definition kernel_main :: "image \<Rightarrow> multiboot_info option \<Rightarrow> u32 list \<Rightarrow> machine \<Rightarrow> (result \<times> machine) option" where
  "kernel_main img mb ks m = do {
     m \<leftarrow> boot img mb m;
     (r, ks, s) \<leftarrow> lsh_loop (dynamic_mem_area img) ks (m_shell m);
     case r of Status _ \<Rightarrow> None | _ \<Rightarrow> Some (r, m\<lparr>m_shell := s\<rparr>)
   }"

end
