(* ===== verification/UserLib.thy ===== *)
theory UserLib
  imports KernelMain
begin

text \<open>
  The programs' side of the system calls: \<open>syscall_handler\<close> of \<open>kernel/boot.asm\<close> with the registers it
  saves and restores, the wrappers of \<open>user/shed.h\<close>, the C library's system interface
  \<open>user/syscalls.c\<close>, and the programs \<open>user.c\<close> and \<open>editor.c\<close>.  A program's memory
  is what the page tables give it.  Where the processor goes when it leaves the program is a value
  (\<open>departure\<close>).  The third-party C library is a parameter: \<open>out\<close> is what printing a text does.
\<close>

section \<open>The system call gate\<close>

record regs =
  eax :: u32
  ebx :: u32
  ecx :: u32
  edx :: u32
  esi :: u32
  edi :: u32
  ebp :: u32

datatype departure = To_shell | To_program u32 u32

text \<open>The words that \<open>pusha\<close> leaves on the stack, from the top, and what \<open>popa\<close> makes of them.\<close>

definition pusha :: "u32 \<Rightarrow> regs \<Rightarrow> u32 list" where
  "pusha esp r = [edi r, esi r, ebp r, esp, ebx r, edx r, ecx r, eax r]"

definition popa :: "u32 list \<Rightarrow> regs" where
  "popa w = \<lparr>eax = w ! 7, ebx = w ! 4, ecx = w ! 6, edx = w ! 5, esi = w ! 1, edi = w ! 0, ebp = w ! 2\<rparr>"

definition syscall_handler :: "u32 \<Rightarrow> regs \<Rightarrow> kernel \<Rightarrow> ((departure + regs) \<times> kernel) option" where
  "syscall_handler esp r k = do {
     let w = pusha esp r;
     let num = w ! (28 div 4);
     let arg1 = w ! (16 div 4);
     let arg2 = w ! (24 div 4);
     let arg3 = w ! (20 div 4);
     (res, k1) \<leftarrow> syscall_dispatch num arg1 arg2 arg3 k;
     case res of
       Enters entry stack \<Rightarrow> Some (Inl (To_program entry stack), k1)
     | Returns v \<Rightarrow>
         let w1 = w[28 div 4 := v]
         in if exit_requested k1 \<noteq> 0 then Some (Inl To_shell, k1\<lparr>exit_requested := 0\<rparr>)
            else Some (Inr (popa w1), k1)
   }"

section \<open>Programs\<close>

type_synonym 'a urun = "kernel \<Rightarrow> ((departure + 'a) \<times> kernel) option"

definition ureturn :: "'a \<Rightarrow> 'a urun" where "ureturn x k = Some (Inr x, k)"

definition uthen :: "'a urun \<Rightarrow> ('a \<Rightarrow> 'b urun) \<Rightarrow> 'b urun" where
  "uthen f g k = do {
     (r, k1) \<leftarrow> f k;
     case r of Inl d \<Rightarrow> Some (Inl d, k1) | Inr x \<Rightarrow> g x k1
   }"

text \<open>The registers that a program does not set may hold anything; they do not matter
  (\<open>syscall_abi\<close> of theory \<open>UserCorrect\<close>), so zero stands for them.\<close>

definition other_regs :: regs where
  "other_regs = \<lparr>eax = 0, ebx = 0, ecx = 0, edx = 0, esi = 0, edi = 0, ebp = 0\<rparr>"

definition syscall3 :: "u32 \<Rightarrow> u32 \<Rightarrow> u32 \<Rightarrow> u32 \<Rightarrow> u32 urun" where
  "syscall3 num a1 a2 a3 k = do {
     (r, k1) \<leftarrow> syscall_handler 0 (other_regs\<lparr>eax := num, ebx := a1, ecx := a2, edx := a3\<rparr>) k;
     case r of Inl d \<Rightarrow> Some (Inl d, k1) | Inr r1 \<Rightarrow> Some (Inr (eax r1), k1)
   }"

definition uread :: "u32 \<Rightarrow> kernel \<Rightarrow> u8" where "uread a k = user_view (paging_st k) (unat a)"

definition ustore :: "u32 \<Rightarrow> u8 \<Rightarrow> kernel \<Rightarrow> kernel" where
  "ustore a b k = k\<lparr>paging_st := store_byte a b (paging_st k)\<rparr>"

section \<open>System interface of the C library\<close>

definition SYS_EXIT :: u32 where "SYS_EXIT = 0"
definition SYS_PRINT :: u32 where "SYS_PRINT = 1"
definition SYS_GETCHAR :: u32 where "SYS_GETCHAR = 2"
definition SYS_TOUCH :: u32 where "SYS_TOUCH = 6"
definition SYS_SBRK :: u32 where "SYS_SBRK = 12"
definition ENOMEM :: int where "ENOMEM = 12"
definition EINVAL :: int where "EINVAL = 22"
definition S_IFCHR :: u32 where "S_IFCHR = 0x2000"

text \<open>The second result is what \<open>errno\<close> is set to, if it is.\<close>

definition u_sbrk :: "u32 \<Rightarrow> (u32 \<times> int option) urun" where
  "u_sbrk incr = uthen (syscall3 SYS_SBRK incr 0 0)
     (\<lambda>ret. ureturn (if ret = 0xFFFFFFFF then (- 1, Some ENOMEM) else (ret, None)))"

text \<open>\<open>tmp\<close> is the address of the local array of two characters.\<close>

fun write_loop :: "u32 \<Rightarrow> u32 \<Rightarrow> nat \<Rightarrow> unit urun" where
  "write_loop tmp buf 0 k = ureturn () k"
| "write_loop tmp buf (Suc n) k =
     uthen (syscall3 SYS_PRINT tmp 0 0) (\<lambda>_. write_loop tmp (buf + 1) n)
       (ustore (tmp + 1) 0 (ustore tmp (uread buf k) k))"

definition u_write :: "u32 \<Rightarrow> u32 \<Rightarrow> u32 \<Rightarrow> u32 \<Rightarrow> u32 urun" where
  "u_write tmp fd buf len = uthen (write_loop tmp buf (nat (sint len))) (\<lambda>_. ureturn len)"

fun read_loop :: "u32 \<Rightarrow> u32 \<Rightarrow> nat \<Rightarrow> u32 urun" where
  "read_loop buf i 0 k = ureturn i k"
| "read_loop buf i (Suc n) k =
     uthen (syscall3 SYS_GETCHAR 0 0 0) (\<lambda>v k1.
       let k2 = ustore (buf + i) (ucast v) k1
       in if uread (buf + i) k2 = chr CHR 0x0A then ureturn (i + 1) k2 else read_loop buf (i + 1) n k2) k"

text \<open>The loop ends with \<open>i = len\<close>, so the result is the count either way.\<close>

definition u_read :: "u32 \<Rightarrow> u32 \<Rightarrow> u32 \<Rightarrow> u32 urun" where
  "u_read fd buf len = (if sint len \<le> 0 then ureturn len else read_loop buf 0 (nat (sint len)))"

definition u_open :: "u32 \<Rightarrow> u32 \<Rightarrow> u32 \<Rightarrow> int urun" where
  "u_open name flags md = uthen (syscall3 SYS_TOUCH name 0 0) (\<lambda>_. ureturn 3)"

definition u_close :: "u32 \<Rightarrow> int urun" where "u_close fd = ureturn 0"

text \<open>After the call the loop \<open>while (1)\<close> has no result.\<close>

definition u_exit :: "u32 \<Rightarrow> unit urun" where
  "u_exit status = uthen (syscall3 SYS_EXIT 0 0 0) (\<lambda>_ k. None)"

text \<open>The stubs: a file's mode, and constant answers with what \<open>errno\<close> is set to.\<close>

definition u_fstat :: "u32 \<Rightarrow> int \<times> u32" where "u_fstat fd = (0, S_IFCHR)"
definition u_isatty :: "u32 \<Rightarrow> int" where "u_isatty fd = 1"
definition u_lseek :: "u32 \<Rightarrow> u32 \<Rightarrow> u32 \<Rightarrow> int" where "u_lseek fd offset whence = 0"
definition u_kill :: "u32 \<Rightarrow> u32 \<Rightarrow> int \<times> int option" where "u_kill pid sig = (- 1, Some EINVAL)"
definition u_getpid :: int where "u_getpid = 1"

section \<open>Wrappers\<close>

definition sys_print :: "u32 \<Rightarrow> unit urun" where "sys_print s = uthen (syscall3 1 s 0 0) (\<lambda>_. ureturn ())"

definition sys_getchar :: "u8 urun" where "sys_getchar = uthen (syscall3 2 0 0 0) (\<lambda>c. ureturn (ucast c))"

definition sys_ls :: "unit urun" where "sys_ls = uthen (syscall3 5 0 0 0) (\<lambda>_. ureturn ())"
definition sys_touch :: "u32 \<Rightarrow> unit urun" where "sys_touch name = uthen (syscall3 6 name 0 0) (\<lambda>_. ureturn ())"
definition sys_del :: "u32 \<Rightarrow> unit urun" where "sys_del name = uthen (syscall3 7 name 0 0) (\<lambda>_. ureturn ())"
definition u_read_file :: "u32 \<Rightarrow> u32 \<Rightarrow> u32 \<Rightarrow> u32 urun" where "u_read_file name buf sz = syscall3 8 name buf sz"
definition u_write_file :: "u32 \<Rightarrow> u32 \<Rightarrow> u32 \<Rightarrow> u32 urun" where "u_write_file name buf sz = syscall3 9 name buf sz"
definition sys_exit :: "unit urun" where "sys_exit = uthen (syscall3 0 0 0 0) (\<lambda>_. ureturn ())"
definition u_backspace :: "unit urun" where "u_backspace = uthen (syscall3 10 0 0 0) (\<lambda>_. ureturn ())"
definition sys_clear :: "unit urun" where "sys_clear = uthen (syscall3 11 0 0 0) (\<lambda>_. ureturn ())"

definition SHED_SHARED_MEM :: u32 where "SHED_SHARED_MEM = 0xF0000000"

partial_function (option) share_loop :: "u32 \<Rightarrow> u32 \<Rightarrow> kernel \<Rightarrow> (u32 \<times> kernel) option" where
  "share_loop s i k =
     (if uread s k \<noteq> 0 then share_loop (s + 1) (i + 1) (ustore (SHED_SHARED_MEM + i) (uread s k) k) else Some (i, k))"

definition sys_exec_editor :: "u32 \<Rightarrow> unit urun" where
  "sys_exec_editor name k = do {
     (i, k1) \<leftarrow> share_loop name 0 k;
     uthen (syscall3 13 0 0 0) (\<lambda>_. ureturn ()) (ustore (SHED_SHARED_MEM + i) 0 k1)
   }"

definition sys_vga_write_char :: "u32 \<Rightarrow> u32 \<Rightarrow> u8 \<Rightarrow> u8 \<Rightarrow> unit urun" where
  "sys_vga_write_char row col c attr = uthen (syscall3 14 row col (push_bit 8 (ucast attr) OR ucast c)) (\<lambda>_. ureturn ())"

definition sys_vga_set_cursor :: "u32 \<Rightarrow> u32 \<Rightarrow> unit urun" where
  "sys_vga_set_cursor row col = uthen (syscall3 15 row col 0) (\<lambda>_. ureturn ())"

definition sys_vga_clear_to_eol :: "u32 \<Rightarrow> u32 \<Rightarrow> unit urun" where
  "sys_vga_clear_to_eol row col = uthen (syscall3 16 row col 0) (\<lambda>_. ureturn ())"

partial_function (option) sys_vga_write_str :: "u32 \<Rightarrow> u32 \<Rightarrow> u32 \<Rightarrow> u8 \<Rightarrow> kernel \<Rightarrow> ((departure + unit) \<times> kernel) option" where
  "sys_vga_write_str row col s attr k =
     (if uread s k \<noteq> 0 then do {
        (r, k1) \<leftarrow> sys_vga_write_char row col (uread s k) attr k;
        case r of Inl d \<Rightarrow> Some (Inl d, k1) | Inr _ \<Rightarrow> sys_vga_write_str row (col + 1) (s + 1) attr k1
      } else Some (Inr (), k))"

text \<open>The program's own allocator: the address of its array and the position in it.\<close>

definition USER_HEAP_SIZE :: nat where "USER_HEAP_SIZE = 4096"
definition u_heap_reset :: "u32 \<Rightarrow> u32" where "u_heap_reset heap_pos = 0"
definition u_malloc :: "u32 \<Rightarrow> u32 \<Rightarrow> u32 \<Rightarrow> u32 \<times> u32" where
  "u_malloc user_heap sz heap_pos = (user_heap + heap_pos, heap_pos + sz)"
definition u_free :: "u32 \<Rightarrow> u32 \<Rightarrow> u32" where "u_free ptr heap_pos = heap_pos"

section \<open>The programs\<close>

text \<open>\<open>user.c\<close>; the text is a constant of the program, at \<open>hello\<close>.\<close>

definition user_start :: "u32 \<Rightarrow> unit urun" where
  "user_start hello = uthen (sys_print hello) (\<lambda>_. sys_exit)"

definition hello_text :: "u8 list" where "hello_text = lit (''hello from userspace!'' @ [CHR 0x0A])"

text \<open>\<open>editor.c\<close>.\<close>

definition editor_program :: "(u8 list \<Rightarrow> unit urun) \<Rightarrow> unit urun" where
  "editor_program out = uthen (out (lit (''shed editor'' @ [CHR 0x0A]))) (\<lambda>_. sys_exit)"

end
