(* ===== verification/UserShell.thy ===== *)
theory UserShell
  imports UserLib
begin

text \<open>
  The program \<open>user/user_shell.c\<close>.  Its C library is third-party code and a parameter, the record
  \<open>libc\<close>: what \<open>setvbuf\<close>, \<open>printf\<close> and \<open>putchar\<close>, \<open>malloc\<close> and \<open>free\<close> do.  \<open>strtok\<close> is that of the C
  standard; it keeps its place in \<open>saved\<close>, with 0 for the null pointer.  The line and the array of its
  words are read and written in the program's memory.  \<open>pos\<close> counts up from 0 and is a natural number.
\<close>

datatype stream = Stdout | Stdin

record libc =
  c_setvbuf :: "stream \<Rightarrow> unit urun"
  c_print :: "u8 list \<Rightarrow> unit urun"
  c_malloc :: "u32 \<Rightarrow> u32 urun"
  c_free :: "u32 \<Rightarrow> unit urun"

definition BUFSIZE :: nat where "BUFSIZE = 1024"
definition TOKSIZE :: nat where "TOKSIZE = 64"
definition DELIM :: "u8 list" where "DELIM = [0x20, 0x09, 0x0D, 0x0A, 0x07]"

section \<open>Words in the memory of the program\<close>

definition uload32 :: "u32 \<Rightarrow> kernel \<Rightarrow> u32" where
  "uload32 a k = ld32 (user_ptr (paging_st k) a) 0"

definition ustore32 :: "u32 \<Rightarrow> u32 \<Rightarrow> kernel \<Rightarrow> kernel" where
  "ustore32 a v k = ustore (a + 3) (ucast (drop_bit 24 v)) (ustore (a + 2) (ucast (drop_bit 16 v))
     (ustore (a + 1) (ucast (drop_bit 8 v)) (ustore a (ucast v) k)))"

definition user_text :: "u32 \<Rightarrow> kernel \<Rightarrow> u8 list option" where
  "user_text a k = string_at (user_ptr (paging_st k) a)"

section \<open>Reading a line\<close>

partial_function (option) ush_read_loop :: "libc \<Rightarrow> u32 \<Rightarrow> nat \<Rightarrow> kernel \<Rightarrow> ((departure + u32) \<times> kernel) option" where
  "ush_read_loop lib buf pos k = do {
     (r, k1) \<leftarrow> sys_getchar k;
     case r of
       Inl d \<Rightarrow> Some (Inl d, k1)
     | Inr c \<Rightarrow>
         if c = chr CHR 0x0A then Some (Inr buf, ustore (buf + of_nat pos) 0 k1)
         else if c = 8 then
           if 0 < pos then do {
             (r2, k2) \<leftarrow> u_backspace k1;
             case r2 of Inl d \<Rightarrow> Some (Inl d, k2) | Inr _ \<Rightarrow> ush_read_loop lib buf (pos - 1) k2
           } else ush_read_loop lib buf pos k1
         else do {
           (r2, k2) \<leftarrow> c_print lib [c] k1;
           case r2 of
             Inl d \<Rightarrow> Some (Inl d, k2)
           | Inr _ \<Rightarrow>
               let k3 = ustore (buf + of_nat pos) c k2
               in if BUFSIZE - 1 \<le> pos + 1 then Some (Inr buf, ustore (buf + of_nat (pos + 1)) 0 k3)
                  else ush_read_loop lib buf (pos + 1) k3
         }
   }"

definition ush_read_line :: "libc \<Rightarrow> u32 urun" where
  "ush_read_line lib = uthen (c_malloc lib (of_nat BUFSIZE)) (\<lambda>buf. ush_read_loop lib buf 0)"

section \<open>Splitting it\<close>

partial_function (option) u_skip_delims :: "u8 list \<Rightarrow> kernel \<Rightarrow> u32 \<Rightarrow> u32 option" where
  "u_skip_delims ds k s = (if uread s k \<noteq> 0 \<and> uread s k \<in> set ds then u_skip_delims ds k (s + 1) else Some s)"

partial_function (option) u_skip_token :: "u8 list \<Rightarrow> kernel \<Rightarrow> u32 \<Rightarrow> u32 option" where
  "u_skip_token ds k s = (if uread s k \<noteq> 0 \<and> uread s k \<notin> set ds then u_skip_token ds k (s + 1) else Some s)"

definition u_strtok :: "u8 list \<Rightarrow> u32 \<Rightarrow> u32 \<Rightarrow> kernel \<Rightarrow> (u32 \<times> u32 \<times> kernel) option" where
  "u_strtok ds s saved k =
     (let s0 = (if s \<noteq> 0 then s else saved)
      in if s0 = 0 then Some (0, 0, k)
         else do {
           b \<leftarrow> u_skip_delims ds k s0;
           if uread b k = 0 then Some (0, 0, k)
           else do {
             e \<leftarrow> u_skip_token ds k b;
             Some (if uread e k \<noteq> 0 then (b, e + 1, ustore e 0 k) else (b, 0, k))
           }
         })"

partial_function (option) ush_split_loop :: "u32 \<Rightarrow> u32 \<Rightarrow> nat \<Rightarrow> u32 \<Rightarrow> kernel \<Rightarrow> (u32 \<times> kernel) option" where
  "ush_split_loop toks tok pos saved k =
     (if tok \<noteq> 0 then do {
        (tok', saved', k2) \<leftarrow> u_strtok DELIM 0 saved (ustore32 (toks + of_nat (4 * pos)) tok k);
        ush_split_loop toks tok' (pos + 1) saved' k2
      } else Some (saved, ustore32 (toks + of_nat (4 * pos)) 0 k))"

text \<open>The result: the array of words, and the place that \<open>strtok\<close> keeps.\<close>

definition ush_split_line :: "libc \<Rightarrow> u32 \<Rightarrow> u32 \<Rightarrow> (u32 \<times> u32) urun" where
  "ush_split_line lib line saved = uthen (c_malloc lib (of_nat (TOKSIZE * 4))) (\<lambda>toks k. do {
     (tok, saved1, k1) \<leftarrow> u_strtok DELIM line saved k;
     (saved2, k2) \<leftarrow> ush_split_loop toks tok 0 saved1 k1;
     Some (Inr (toks, saved2), k2)
   })"

section \<open>Commands\<close>

definition ush_message :: "libc \<Rightarrow> string \<Rightarrow> unit urun" where
  "ush_message lib t = c_print lib (lit (t @ [CHR 0x0A]))"

definition print_from :: "libc \<Rightarrow> u8 list \<Rightarrow> u32 \<Rightarrow> unit urun" where
  "print_from lib before a k = (case user_text a k of
     Some t \<Rightarrow> c_print lib (before @ t @ [chr CHR 0x0A]) k | None \<Rightarrow> None)"

definition ush_cat :: "libc \<Rightarrow> u32 \<Rightarrow> unit urun" where
  "ush_cat lib name = uthen (c_malloc lib 512) (\<lambda>buf. uthen (u_read_file name buf 512)
     (\<lambda>_. uthen (print_from lib [] buf) (\<lambda>_. c_free lib buf)))"

definition ush_execute :: "libc \<Rightarrow> u32 \<Rightarrow> unit urun" where
  "ush_execute lib args k =
     (let arg0 = uload32 args k; arg1 = uload32 (args + 4) k;
          with_arg = (\<lambda>f msg. if arg1 \<noteq> 0 then f arg1 k else ush_message lib msg k)
      in if arg0 = 0 then Some (Inr (), k)
         else do {
           cmd \<leftarrow> user_text arg0 k;
           if cmd = lit ''ls'' then sys_ls k
           else if cmd = lit ''touch'' then with_arg sys_touch ''touch: no filename''
           else if cmd = lit ''del'' then with_arg sys_del ''del: no filename''
           else if cmd = lit ''cat'' then with_arg (ush_cat lib) ''cat: no filename''
           else if cmd = lit ''edit'' then with_arg sys_exec_editor ''edit: no filename''
           else if cmd = lit ''help'' then ush_message lib ''commands: ls, touch, del, cat, edit, clear, exit'' k
           else if cmd = lit ''clear'' then sys_clear k
           else if cmd = lit ''exit'' then sys_exit k
           else print_from lib (lit ''unknown command: '') arg0 k
         })"

section \<open>The loop\<close>

definition ush_round :: "libc \<Rightarrow> u32 \<Rightarrow> u32 urun" where
  "ush_round lib saved =
     uthen (c_print lib (lit ''> '')) (\<lambda>_.
     uthen (ush_read_line lib) (\<lambda>line.
     uthen (c_print lib (lit [CHR 0x0A])) (\<lambda>_.
     uthen (ush_split_line lib line saved) (\<lambda>(args, saved').
     uthen (ush_execute lib args) (\<lambda>_.
     uthen (c_free lib args) (\<lambda>_.
     uthen (c_free lib line) (\<lambda>_. ureturn saved')))))))"

partial_function (option) ush_loop :: "libc \<Rightarrow> u32 \<Rightarrow> kernel \<Rightarrow> ((departure + unit) \<times> kernel) option" where
  "ush_loop lib saved k = do {
     (r, k1) \<leftarrow> ush_round lib saved k;
     case r of Inl d \<Rightarrow> Some (Inl d, k1) | Inr saved' \<Rightarrow> ush_loop lib saved' k1
   }"

definition ush_start :: "libc \<Rightarrow> unit urun" where
  "ush_start lib =
     uthen (c_setvbuf lib Stdout) (\<lambda>_.
     uthen (c_setvbuf lib Stdin) (\<lambda>_.
     uthen (c_print lib (lit (CHR 0x0A # ''Shed userspace shell'' @ [CHR 0x0A]))) (\<lambda>_. ush_loop lib 0)))"

end
