(* ===== verification/FrameBuffer.thy ===== *)
theory FrameBuffer
  imports KernelMain
begin

text \<open>
  The pages of the frame buffer, as \<open>kernel_main\<close> maps them: each to itself, for the kernel only, with
  every other translation as before.  \<open>map_fb_run a n\<close> maps the \<open>n\<close> pages from \<open>a\<close>, which is what the
  loop of the boot does.
\<close>

section \<open>One page\<close>

lemma zero_table_spec:
  "a + 4 * (i + n) \<le> 0x800000 \<Longrightarrow> \<exists>m'. zero_table a i n m = Some m'
    \<and> (\<forall>j. i \<le> j \<and> j < i + n \<longrightarrow> ld32 m' (a + 4 * j) = 0)
    \<and> (\<forall>x. x < a + 4 * i \<or> a + 4 * (i + n) \<le> x \<longrightarrow> m' x = m x)"
proof (induction n arbitrary: i m)
  case (Suc n)
  let ?m = "st32 m (a + 4 * i) 0"
  have st: "store_table (a + 4 * i) 0 m = Some ?m" using Suc.prems by (simp add: store_table_def)
  obtain m' where m': "zero_table a (Suc i) n ?m = Some m'"
    "\<forall>j. Suc i \<le> j \<and> j < Suc i + n \<longrightarrow> ld32 m' (a + 4 * j) = 0"
    "\<forall>x. x < a + 4 * Suc i \<or> a + 4 * (Suc i + n) \<le> x \<longrightarrow> m' x = ?m x"
    using Suc.IH [of "Suc i" ?m] Suc.prems by auto
  have "ld32 m' (a + 4 * i) = ld32 ?m (a + 4 * i)" by (rule ld32_cong) (use m'(3) in simp)
  then have "ld32 m' (a + 4 * j) = 0" if "i \<le> j" "j < i + Suc n" for j
    using m'(2) that by (cases "j = i") auto
  moreover have "m' x = m x" if "x < a + 4 * i \<or> a + 4 * (i + Suc n) \<le> x" for x
    using m'(3) that by (auto simp: st32_other)
  ultimately show ?case using st m'(1) by simp
qed auto

definition fb_table :: "u32 \<Rightarrow> paging \<Rightarrow> paging option" where
  "fb_table v p = (if dir_entry (phys p) (dir_index v) AND 1 = 0 then
      let (new_tbl, p') = alloc_page_frame p
      in do {
        m \<leftarrow> zero_table (unat new_tbl) 0 1024 (phys p');
        Some (p'\<lparr>phys := st32 m (page_directory + 4 * dir_index v) (new_tbl OR 3)\<rparr>)
      }
    else Some p)"

lemma map_fb_page_table:
  "map_fb_page v p = do {
     p1 \<leftarrow> fb_table v p;
     m \<leftarrow> store_table (unat (table_of (phys p1) (dir_index v)) + 4 * table_index v) (v OR 3) (phys p1);
     Some (p1\<lparr>phys := m\<rparr>)
   }"
  by (simp add: map_fb_page_def fb_table_def table_of_def Let_def)

lemma three: "(3 :: u32) = mask 2" "(1 :: u32) = PAGE_PRESENT"
  by (simp_all add: mask_eq_exp_minus_1 PAGE_PRESENT_def)

lemma unmapped_same: "page_walk m w = None \<Longrightarrow> page_walk m' w = None \<Longrightarrow> same_walk m m' w"
  by (simp add: same_walk_def user_page_def Let_def)

text \<open>A table for the page: the old one, or a new one that maps nothing yet.\<close>

lemma fb_table_spec:
  assumes ok: "paging_ok p" and room: "unat (next_free_page p) + 4096 \<le> 0x800000"
  shows "\<exists>p1. fb_table v p = Some p1 \<and> paging_ok p1 \<and> present (phys p1) (dir_index v)
    \<and> (\<forall>w. same_walk (phys p1) (phys p) w)
    \<and> unat (next_free_page p1) = unat (next_free_page p) + (if present (phys p) (dir_index v) then 0 else 4096)
    \<and> (\<forall>i < 1024. present (phys p) i \<longrightarrow> present (phys p1) i)
    \<and> (\<forall>i < 1024. i \<noteq> dir_index v \<longrightarrow> open_entry (phys p1) i = open_entry (phys p) i)
    \<and> (\<forall>x < 0x9C000. phys p1 x = phys p x)"
proof (cases "present (phys p) (dir_index v)")
  case True
  then have "fb_table v p = Some p" unfolding fb_table_def three(2) by (simp add: present_def)
  then show ?thesis using ok True by auto
next
  case False
  let ?n = "next_free_page p" and ?i = "dir_index v"
  have i: "?i < 1024" by (rule index_bounds)
  have al: "aligned ?n" and lo: "0xA0000 \<le> unat ?n" and r: "unat ?n < 0x8000000" using ok room by (simp_all add: paging_ok_def)
  obtain m where m: "zero_table (unat ?n) 0 1024 (phys p) = Some m" "\<forall>j < 1024. ld32 m (unat ?n + 4 * j) = 0"
    "\<forall>x. x < unat ?n \<or> unat ?n + 4096 \<le> x \<longrightarrow> m x = phys p x"
    using zero_table_spec [of "unat ?n" 0 1024 "phys p"] room by auto
  let ?q = "p\<lparr>phys := m\<rparr>"
  have dir: "dir_entry m j = dir_entry (phys p) j" if "j < 1024" for j
    unfolding dir_entry_def using that lo by (intro ld32_cong) (use m(3) in \<open>simp add: page_directory_def\<close>)
  have same: "present m j = present (phys p) j" "table_of m j = table_of (phys p) j" "open_entry m j = open_entry (phys p) j" if "j < 1024" for j
    using dir [OF that] open_cong [OF dir [OF that]] by (simp_all add: present_def table_of_def)
  have ok_q: "paging_ok ?q" using ok same by (simp add: paging_ok_def)
  have walk_q: "same_walk m (phys p) w" if "present (phys p) (dir_index w)" for w
  proof (rule same_walkI)
    have iw: "dir_index w < 1024" "table_index w < 1024" by (rule index_bounds)+
    show "dir_entry m (dir_index w) = dir_entry (phys p) (dir_index w)" by (rule dir [OF iw(1)])
    have "unat (table_of (phys p) (dir_index w)) + 4096 \<le> unat ?n" using ok that iw(1) by (simp add: paging_ok_def)
    then show "ld32 m (unat (table_of (phys p) (dir_index w)) + 4 * table_index w)
        = ld32 (phys p) (unat (table_of (phys p) (dir_index w)) + 4 * table_index w)"
      using iw(2) by (intro ld32_cong) (use m(3) in simp)
  qed
  have absent: "\<not> present (phys ?q) ?i" and r': "unat (next_free_page ?q) < 0x8000000" using False r same(1) [OF i] by simp_all
  have two: "(0 :: nat) < 2" "(2 :: nat) \<le> 12" by simp_all
  note nt = new_table [OF ok_q absent i r' two]
  let ?p1 = "?q\<lparr>next_free_page := next_free_page ?q + PAGE_SIZE, phys := st32 (phys ?q) (page_directory + 4 * ?i) (next_free_page ?q OR mask 2)\<rparr>"
  have table: "fb_table v p = Some ?p1"
    using False m(1) alloc_frame_spec(1) [OF r al] unfolding fb_table_def three by (simp add: present_def)
  have walk: "same_walk (phys ?p1) (phys p) w" for w
  proof (cases "present (phys p) (dir_index w)")
    case True
    then have "present (phys ?q) (dir_index w)" using same(1) [OF index_bounds(1)] by simp
    from nt(4) [OF this] have "same_walk (phys ?p1) m w" by simp
    then show ?thesis using walk_q [OF True] by (rule same_walk_trans)
  next
    case absent_w: False
    have iw: "dir_index w < 1024" "table_index w < 1024" by (rule index_bounds)+
    have "page_walk (phys ?p1) w = None"
    proof (cases "dir_index w = ?i")
      case True
      have "ld32 (phys ?p1) (unat ?n + 4 * table_index w) = ld32 m (unat ?n + 4 * table_index w)"
        by (rule ld32_cong) (use lo nt(5) in simp)
      then show ?thesis using m(2) iw(2) nt(3) True by (simp add: walk_of)
    next
      case False
      then have "dir_entry (phys ?p1) (dir_index w) = dir_entry m (dir_index w)"
        using iw(1) i by (cases "dir_index w" ?i rule: linorder_cases) (simp_all add: dir_entry_def ld32_st32_other)
      then show ?thesis using absent_w dir [OF iw(1)] by (simp add: walk_of present_def)
    qed
    then show ?thesis using absent_w by (intro unmapped_same) (simp_all add: walk_of)
  qed
  have pres: "present (phys ?p1) j" if "j < 1024" "present (phys p) j" for j
    using nt(4) dir_index_onto [OF that(1)] same(1) [OF that(1)] that(2) by fastforce
  have low: "phys ?p1 x = phys p x" if "x < 0x9C000" for x
    using that lo m(3) by (simp add: st32_other page_directory_def)
  show ?thesis
    using table nt(1,2) walk pres low nt(6) same(3) False alloc_frame_spec(2) [OF r al] by (intro exI [of _ ?p1]) auto
qed

lemma page_self:
  assumes "aligned v" and "unat w div 4096 = unat v div 4096"
  shows "v OR w AND 0xFFF = w"
proof -
  have "unat (v OR w AND 0xFFF) = unat v + unat w mod 4096" by (rule offset_sum [OF assms(1)])
  also have "unat v = 4096 * (unat w div 4096)" using assms by (simp add: aligned_iff minus_mod_eq_mult_div [symmetric])
  finally have "unat (v OR w AND 0xFFF) = unat w" by simp
  then show ?thesis by (simp add: word_unat_eq_iff)
qed

lemma map_fb_page_spec:
  assumes ok: "paging_ok p" and room: "unat (next_free_page p) + 4096 \<le> 0x800000" and v: "aligned v"
  shows "\<exists>p'. map_fb_page v p = Some p' \<and> paging_ok p' \<and> present (phys p') (dir_index v)
    \<and> (\<forall>w. unat w div 4096 = unat v div 4096 \<longrightarrow> page_walk (phys p') w = Some w \<and> \<not> user_page (phys p') w)
    \<and> (\<forall>w. unat w div 4096 \<noteq> unat v div 4096 \<longrightarrow> same_walk (phys p') (phys p) w)
    \<and> unat (next_free_page p') = unat (next_free_page p) + (if present (phys p) (dir_index v) then 0 else 4096)
    \<and> (\<forall>i < 1024. present (phys p) i \<longrightarrow> present (phys p') i)
    \<and> (\<forall>i < 1024. i \<noteq> dir_index v \<longrightarrow> open_entry (phys p') i = open_entry (phys p) i)
    \<and> (\<forall>x < 0x9C000. phys p' x = phys p x)"
proof -
  obtain q where q: "fb_table v p = Some q" "paging_ok q" "present (phys q) (dir_index v)"
    "\<forall>w. same_walk (phys q) (phys p) w"
    "unat (next_free_page q) = unat (next_free_page p) + (if present (phys p) (dir_index v) then 0 else 4096)"
    "\<forall>i < 1024. present (phys p) i \<longrightarrow> present (phys q) i"
    "\<forall>i < 1024. i \<noteq> dir_index v \<longrightarrow> open_entry (phys q) i = open_entry (phys p) i"
    "\<forall>x < 0x9C000. phys q x = phys p x"
    using fb_table_spec [OF ok room, of v] by blast
  have iv: "dir_index v < 1024" "table_index v < 1024" by (rule index_bounds)+
  let ?a = "unat (table_of (phys q) (dir_index v)) + 4 * table_index v"
  let ?m = "st32 (phys q) ?a (v OR mask 2)"
  have t: "0x9D000 \<le> unat (table_of (phys q) (dir_index v))"
    "unat (table_of (phys q) (dir_index v)) + 4096 \<le> unat (next_free_page q)"
    using q(2,3) iv(1) by (auto simp: paging_ok_def)
  have "?a + 4 \<le> 0x800000" using t(2) q(5) room iv(2) by (simp split: if_splits)
  then have map: "map_fb_page v p = Some (q\<lparr>phys := ?m\<rparr>)"
    by (simp add: map_fb_page_table q(1) store_table_def three(1))
  have two: "(0 :: nat) < 2" "(2 :: nat) \<le> 12" by simp_all
  have at: "page_walk ?m w = Some w \<and> \<not> user_page ?m w" if w: "unat w div 4096 = unat v div 4096" for w
  proof -
    have ix: "dir_index w = dir_index v" "table_index w = table_index v" using same_page [of w v] w by blast+
    have "present (phys q) (dir_index w)" using q(3) ix by simp
    from store_entry(2,3) [OF q(2) this _ v two, where a = ?a] show ?thesis using page_self [OF v w] by (simp add: ix)
  qed
  note st = store_entry [OF q(2,3) refl v two]
  have rest: "same_walk ?m (phys p) w" if w: "unat w div 4096 \<noteq> unat v div 4096" for w
  proof (cases "present (phys q) (dir_index w)")
    case True
    then show ?thesis using st(4) [OF True w] q(4) same_walk_trans by blast
  next
    case False
    have "dir_entry ?m (dir_index w) = dir_entry (phys q) (dir_index w)" by (rule st(6)) (rule index_bounds)
    then have "page_walk ?m w = None" "page_walk (phys q) w = None" using False by (simp_all add: walk_of present_def)
    then show ?thesis using unmapped_same q(4) same_walk_trans by blast
  qed
  have dir: "present ?m i = present (phys q) i" "open_entry ?m i = open_entry (phys q) i" if "i < 1024" for i
    using st(6) [OF that] open_cong [OF st(6) [OF that]] by (simp_all add: present_def)
  have low: "?m x = phys q x" if "x < 0x9C000" for x using that t(1) by (simp add: st32_other)
  show ?thesis using map st(1) q(3,5,6,7,8) at rest dir iv(1) low by (intro exI [of _ "q\<lparr>phys := ?m\<rparr>"]) auto
qed

section \<open>All pages\<close>

fun map_fb_run :: "nat \<Rightarrow> nat \<Rightarrow> paging \<Rightarrow> paging option" where
  "map_fb_run a 0 p = Some p"
| "map_fb_run a (Suc n) p = do { p1 \<leftarrow> map_fb_page (of_nat a) p; map_fb_run (a + 4096) n p1 }"

lemma map_fb_loop_run:
  "0 < unat base \<Longrightarrow> unat base + unat off + 4096 * n \<le> 2 ^ 32 \<Longrightarrow> unat sz \<le> unat off + 4096 * n \<Longrightarrow>
    n \<noteq> 0 \<longrightarrow> unat off + 4096 * (n - 1) < unat sz \<Longrightarrow>
    map_fb_loop base off sz p = map_fb_run (unat base + unat off) n p"
proof (induction n arbitrary: off p)
  case 0
  then have "\<not> off < sz" by (simp add: word_less_nat_alt)
  then show ?case by (subst map_fb_loop.simps) simp
next
  case (Suc n)
  have lt: "off < sz" using Suc.prems(4) by (simp add: word_less_nat_alt)
  have "unat off + 4096 < 2 ^ 32" using Suc.prems(1,2) by simp
  then have up: "unat (off + 0x1000) = unat off + 4096" by (simp add: unat_word_ariths)
  have "unat base + unat (off + 0x1000) + 4096 * n \<le> 2 ^ 32" "unat sz \<le> unat (off + 0x1000) + 4096 * n"
    "n \<noteq> 0 \<longrightarrow> unat (off + 0x1000) + 4096 * (n - 1) < unat sz"
    using Suc.prems(2-4) unfolding up by (cases n; simp)+
  note step = Suc.IH [OF Suc.prems(1) this]
  show ?case using lt step by (subst map_fb_loop.simps) (simp add: up add.assoc cong: Option.bind_cong)
qed

text \<open>How many tables the run needs: one for each 4 MB it touches, but for the first if that has one.\<close>

definition fb_tables :: "mem \<Rightarrow> nat \<Rightarrow> nat \<Rightarrow> nat" where
  "fb_tables m a n = (if n = 0 then 0 else
     (a + 4096 * (n - 1)) div 2 ^ 22 - a div 2 ^ 22 + (if present m (a div 2 ^ 22) then 0 else 1))"

lemma dirs_arith:
  fixes A X D :: nat
  assumes "A \<le> X" "X \<le> D" "X \<le> A + 1" and "X = A \<longrightarrow> R"
  shows "(if P then 0 else 1 :: nat) + (D - X + (if R then 0 else 1)) \<le> D - A + (if P then 0 else 1)"
  using assms by (cases "X = A") auto

lemma fb_tables_Suc:
  assumes "present m' (a div 2 ^ 22)"
  shows "(if present m (a div 2 ^ 22) then 0 else 1) + fb_tables m' (a + 4096) n \<le> fb_tables m a (Suc n)"
proof (cases "n = 0")
  case False
  let ?d = "\<lambda>x :: nat. x div 2 ^ 22" and ?x = "a + 4096" and ?l = "a + 4096 * n"
  have l: "a + 4096 + 4096 * (n - 1) = ?l" "Suc n - 1 = n" using False by (cases n; simp)+
  have mono: "?d a \<le> ?d ?x" "?d ?x \<le> ?d ?l" using False by (intro div_le_mono; simp)+
  have "?d ?x \<le> ?d (a + 2 ^ 22)" by (rule div_le_mono) simp
  then have near: "?d ?x \<le> ?d a + 1" by simp
  have eq: "fb_tables m a (Suc n) = ?d ?l - ?d a + (if present m (?d a) then 0 else 1)"
    "fb_tables m' ?x n = ?d ?l - ?d ?x + (if present m' (?d ?x) then 0 else 1)"
    using False unfolding fb_tables_def l by simp_all
  show ?thesis unfolding eq by (rule dirs_arith [OF mono near]) (use assms in auto)
qed (simp add: fb_tables_def)

lemma map_fb_run_spec:
  assumes "paging_ok p" and "a mod 4096 = 0" and "a + 4096 * n \<le> 2 ^ 32"
    and "unat (next_free_page p) + 4096 * Suc (fb_tables (phys p) a n) \<le> 0x800000"
  shows "\<exists>p'. map_fb_run a n p = Some p' \<and> paging_ok p'
    \<and> (\<forall>w. a \<le> unat w \<and> unat w < a + 4096 * n \<longrightarrow> page_walk (phys p') w = Some w \<and> \<not> user_page (phys p') w)
    \<and> (\<forall>w. \<not> (a \<le> unat w \<and> unat w < a + 4096 * n) \<longrightarrow> same_walk (phys p') (phys p) w)
    \<and> unat (next_free_page p') \<le> unat (next_free_page p) + 4096 * fb_tables (phys p) a n
    \<and> (\<forall>i < 1024. (\<forall>w. a \<le> unat w \<and> unat w < a + 4096 * n \<longrightarrow> dir_index w \<noteq> i) \<longrightarrow> open_entry (phys p') i = open_entry (phys p) i)
    \<and> (\<forall>x < 0x9C000. phys p' x = phys p x)"
  using assms
proof (induction n arbitrary: a p)
  case 0
  then show ?case by (auto simp: fb_tables_def)
next
  case (Suc n)
  let ?v = "of_nat a :: u32"
  have a: "a < 2 ^ 32" using Suc.prems(3) by simp
  note ua = unat_of_nat32 [OF a]
  have dv: "dir_index ?v = a div 2 ^ 22" by (simp only: dir_index_nat ua)
  have al: "aligned ?v" using Suc.prems(2) ua by (simp add: aligned_iff)
  obtain q where q: "a = 4096 * q" using Suc.prems(2) by auto
  have page_nat: "x div 4096 = (4096 * q) div 4096 \<longleftrightarrow> 4096 * q \<le> x \<and> x < 4096 * q + 4096" for x :: nat
    by simp linarith
  have page: "unat w div 4096 = unat ?v div 4096 \<longleftrightarrow> a \<le> unat w \<and> unat w < a + 4096" for w :: u32
    unfolding ua unfolding q by (rule page_nat)
  note need = fb_tables_Suc [where a = a and n = n and m = "phys p"]
  have room: "unat (next_free_page p) + 4096 \<le> 0x800000" using Suc.prems(4) by simp
  obtain p1 where p1: "map_fb_page ?v p = Some p1" "paging_ok p1" "present (phys p1) (dir_index ?v)"
    "\<forall>w. unat w div 4096 = unat ?v div 4096 \<longrightarrow> page_walk (phys p1) w = Some w \<and> \<not> user_page (phys p1) w"
    "\<forall>w. unat w div 4096 \<noteq> unat ?v div 4096 \<longrightarrow> same_walk (phys p1) (phys p) w"
    "unat (next_free_page p1) = unat (next_free_page p) + (if present (phys p) (dir_index ?v) then 0 else 4096)"
    "\<forall>i < 1024. i \<noteq> dir_index ?v \<longrightarrow> open_entry (phys p1) i = open_entry (phys p) i"
    "\<forall>x < 0x9C000. phys p1 x = phys p x"
    using map_fb_page_spec [OF Suc.prems(1) room al] by blast
  have tables: "unat (next_free_page p1) + 4096 * fb_tables (phys p1) (a + 4096) n \<le> unat (next_free_page p) + 4096 * fb_tables (phys p) a (Suc n)"
    using need [of "phys p1"] p1(3,6) unfolding dv by (cases "present (phys p) (a div 2 ^ 22)") simp_all
  have r: "(a + 4096) mod 4096 = 0" "a + 4096 + 4096 * n \<le> 2 ^ 32" "unat (next_free_page p1) + 4096 * Suc (fb_tables (phys p1) (a + 4096) n) \<le> 0x800000"
    using Suc.prems(2-4) tables by simp_all
  obtain p' where p': "map_fb_run (a + 4096) n p1 = Some p'" "paging_ok p'"
    "\<forall>w. a + 4096 \<le> unat w \<and> unat w < a + 4096 + 4096 * n \<longrightarrow> page_walk (phys p') w = Some w \<and> \<not> user_page (phys p') w"
    "\<forall>w. \<not> (a + 4096 \<le> unat w \<and> unat w < a + 4096 + 4096 * n) \<longrightarrow> same_walk (phys p') (phys p1) w"
    "unat (next_free_page p') \<le> unat (next_free_page p1) + 4096 * fb_tables (phys p1) (a + 4096) n"
    "\<forall>i < 1024. (\<forall>w. a + 4096 \<le> unat w \<and> unat w < a + 4096 + 4096 * n \<longrightarrow> dir_index w \<noteq> i) \<longrightarrow> open_entry (phys p') i = open_entry (phys p1) i"
    "\<forall>x < 0x9C000. phys p' x = phys p1 x"
    using Suc.IH [OF p1(2) r] by blast
  have mine: "page_walk (phys p') w = Some w \<and> \<not> user_page (phys p') w" if "a \<le> unat w" "unat w < a + 4096 * Suc n" for w
  proof (cases "unat w < a + 4096")
    case True
    then have "same_walk (phys p') (phys p1) w" "page_walk (phys p1) w = Some w \<and> \<not> user_page (phys p1) w"
      using p'(4) p1(4) page [of w] that(1) by auto
    then show ?thesis by (simp add: same_walk_def)
  next
    case False
    then show ?thesis using p'(3) that by simp
  qed
  have rest: "same_walk (phys p') (phys p) w" if "\<not> (a \<le> unat w \<and> unat w < a + 4096 * Suc n)" for w
  proof -
    have "same_walk (phys p') (phys p1) w" "same_walk (phys p1) (phys p) w" using p'(4) p1(5) page [of w] that by auto
    then show ?thesis by (rule same_walk_trans)
  qed
  have op: "open_entry (phys p') i = open_entry (phys p) i"
    if i: "i < 1024" and out: "\<forall>w. a \<le> unat w \<and> unat w < a + 4096 * Suc n \<longrightarrow> dir_index w \<noteq> i" for i
  proof -
    have "dir_index ?v \<noteq> i" using out ua by auto
    moreover have "\<forall>w. a + 4096 \<le> unat w \<and> unat w < a + 4096 + 4096 * n \<longrightarrow> dir_index w \<noteq> i" using out by auto
    ultimately show ?thesis using p'(6) p1(7) i by auto
  qed
  have "unat (next_free_page p') \<le> unat (next_free_page p) + 4096 * fb_tables (phys p) a (Suc n)" using p'(5) tables by linarith
  then show ?case using p1(1,8) p'(1,2,7) mine rest op by (intro exI [of _ p']) auto
qed

end
