(* ===== verification/BootPhases.thy ===== *)
theory BootPhases
  imports FrameBuffer
begin

text \<open>
  The phases of \<open>kernel_main\<close>, each of which returns.  \<open>returns f Q\<close> is the way they are chained;
  \<open>laid F L m0 n A p\<close> is the invariant of the phase that maps and fills the programs' pages, with the
  frame buffer at the addresses \<open>F\<close>.
\<close>

section \<open>Messages change nothing else\<close>

text \<open>\<open>returns f Q\<close>: the computation ends, in a state with \<open>Q\<close>.\<close>

definition returns :: "'a option \<Rightarrow> ('a \<Rightarrow> bool) \<Rightarrow> bool" where
  "returns f Q \<longleftrightarrow> (\<exists>x. f = Some x \<and> Q x)"

lemma returns_simps [simp]:
  "returns (Some x) Q = Q x" "returns (Option.bind f g) Q = returns f (\<lambda>x. returns (g x) Q)"
  by (auto simp: returns_def bind_eq_Some_conv)

lemma returns_weaken: "returns f P \<Longrightarrow> (\<And>x. P x \<Longrightarrow> Q x) \<Longrightarrow> returns f Q"
  by (auto simp: returns_def)

definition quiet :: "machine \<Rightarrow> machine \<Rightarrow> bool" where
  "quiet m m' \<longleftrightarrow> m_shell m' = m_shell m \<and> m_tables m' = m_tables m \<and> m_vga m' = m_vga m
     \<and> serial_ready (m_io m') \<and> master_pic (m_io m') = master_pic (m_io m)"

lemma serial_pic: "pic_state 0x20 0x21 (ws @ List.map (Pair COM1) ds) = pic_state 0x20 0x21 ws"
  unfolding pic_state_append by (rule pic_ignores) (auto simp: COM1_def)

lemma char_0: "(of_char c :: u8) = 0 \<Longrightarrow> c = CHR 0x00"
proof -
  assume "(of_char c :: u8) = 0"
  moreover have "(of_char c :: nat) < 256" by simp
  then have "unat (of_nat (of_char c) :: u8) = of_char c" by (simp add: unat_of_nat)
  moreover have "of_nat (of_char c :: nat) = (of_char c :: u8)" by (rule of_nat_of_char)
  ultimately have "(of_char c :: nat) = of_char (CHR 0x00)" by simp
  then show ?thesis by (simp only: of_char_eq_iff)
qed

lemma cstr_text: "CHR 0x00 \<notin> set t \<Longrightarrow> cstr (lit_ptr (lit t)) (lit t)"
  by (rule cstr_lit) (auto simp: chr_def dest!: char_0 [OF sym])

lemma returns_sprint:
  assumes "serial_ready (m_io m)" and "CHR 0x00 \<notin> set t" and "\<And>m'. quiet m m' \<Longrightarrow> Q m'"
  shows "returns (sprint t m) Q"
proof -
  obtain s where s: "serial_print (lit_ptr (lit t)) (m_io m) = Some s" "port_out s = port_out (m_io m) @ List.map (Pair COM1) (wire (lit t))"
    "serial_ready s"
    using serial_print_loop_spec [OF assms(1), of "lit_ptr (lit t)" 0 "lit t"] cstr_text [OF assms(2)]
    by (auto simp: serial_print_def)
  then have "quiet m (m\<lparr>m_io := s\<rparr>)" using serial_pic by (simp add: quiet_def)
  then show ?thesis using assms(3) s(1) by (simp add: returns_def sprint_def)
qed

lemma returns_shex:
  assumes "serial_ready (m_io m)" and "\<And>m'. quiet m m' \<Longrightarrow> Q m'"
  shows "returns (shex x m) Q"
proof -
  have "CHR 0x00 \<notin> set ''0x''" by simp
  from serial_print_loop_spec [OF assms(1), of "lit_ptr (lit ''0x'')" 0 "lit ''0x''"] cstr_text [OF this]
  obtain s1 where s1: "serial_print (lit_ptr (lit ''0x'')) (m_io m) = Some s1"
    "port_out s1 = port_out (m_io m) @ List.map (Pair COM1) (wire (lit ''0x''))" "serial_ready s1"
    by (auto simp: serial_print_def)
  obtain s ds where s: "serial_hex_loop 8 x s1 = Some s" "port_out s = port_out s1 @ List.map (Pair COM1) ds" "serial_ready s"
    using serial_hex_loop_spec [OF s1(3), of 8 x] by blast
  have "quiet m (m\<lparr>m_io := s\<rparr>)" using s(2,3) s1(2) serial_pic [of "port_out (m_io m)" "wire (lit ''0x'') @ ds"] by (simp add: quiet_def)
  then show ?thesis using assms(2) s(1) s1(1) by (simp add: returns_def shex_def serial_hex_def)
qed

section \<open>Display and tables\<close>

definition no_fb :: fb_info where
  "no_fb = \<lparr>fb_phys_addr = 0, screen_pitch = 0, screen_width = 0, screen_height = 0, fb_bpp = 0\<rparr>"

text \<open>What the multiboot record says of the frame buffer.\<close>

definition fb_given :: "multiboot_info option \<Rightarrow> fb_info" where
  "fb_given mb = (case mb of
     Some b \<Rightarrow> if mb_flags b AND push_bit 12 1 \<noteq> 0
       then \<lparr>fb_phys_addr = ucast (framebuffer_addr b), screen_pitch = framebuffer_pitch b, screen_width = framebuffer_width b,
         screen_height = framebuffer_height b, fb_bpp = framebuffer_bpp b\<rparr>
       else no_fb
   | None \<Rightarrow> no_fb)"

lemma parse_fb_returns:
  assumes "serial_ready (m_io m)"
  shows "returns (parse_fb mb m) (\<lambda>r. fst r = fb_given mb \<and> quiet m (snd r))"
proof -
  have step: "returns (sprintln t m2 \<bind> (\<lambda>m3. Some (fi, m3))) (\<lambda>r. fst r = fi \<and> quiet m (snd r))"
    if "quiet m m2" "CHR 0x00 \<notin> set t" for m2 t fi
  proof -
    have "returns (sprintln t m2) (\<lambda>m3. quiet m m3)" by (rule returns_sprint) (use that in \<open>auto simp: quiet_def\<close>)
    then show ?thesis by simp
  qed
  show ?thesis unfolding parse_fb_def Let_def returns_simps
  proof (intro returns_sprint, goal_cases)
    case (5 m1 m2)
    then have q: "quiet m m2" by (simp add: quiet_def)
    show ?case
    proof (cases mb)
      case None
      then show ?thesis using step [OF q, of "''[3] no fb in multiboot (bit 12 not set)''" no_fb] by (simp add: fb_given_def no_fb_def)
    next
      case (Some b)
      then show ?thesis using step [OF q, of "''[3] no fb in multiboot (bit 12 not set)''" no_fb]
          step [OF q, of "''[3] fb fields parsed''" "fb_given mb"] by (auto simp: fb_given_def no_fb_def)
    qed
  qed (use assms in \<open>auto simp: quiet_def\<close>)
qed

lemma display_returns:
  assumes "serial_ready (m_io m)"
  shows "returns (boot_display mb fi m) (\<lambda>m'. quiet (m\<lparr>m_shell := on_console clear_screen (m_shell m)\<rparr>) m')"
  unfolding boot_display_def returns_simps
  by (intro returns_sprint returns_shex) (use assms in \<open>auto simp: quiet_def\<close>)


text \<open>The pages of the programs, and that user mode can be let through to them.\<close>

definition program_pages :: "u32 set" where
  "program_pages = region 0xA0000000 4096 \<union> region 0xB0000000 4096 \<union> region 0xF0000000 4096
     \<union> region 0x70000000 49152 \<union> region 0x71000000 4096 \<union> region 0xC0000000 49152 \<union> region 0xD0000000 4096"

definition user_ready :: "mem \<Rightarrow> bool" where
  "user_ready m \<longleftrightarrow> (\<forall>v \<in> program_pages. open_entry m (dir_index v))"

lemma user_ready_cong: "opens m' = opens m \<Longrightarrow> user_ready m' = user_ready m"
  unfolding user_ready_def by (simp flip: opens_dir)

text \<open>The addresses \<open>F\<close> translate to themselves, for the kernel only.\<close>

definition kernel_mapped :: "u32 set \<Rightarrow> mem \<Rightarrow> bool" where
  "kernel_mapped F m \<longleftrightarrow> (\<forall>w \<in> F. page_walk m w = Some w \<and> \<not> user_page m w)"

lemma kernel_mapped_cong: "(\<And>w. w \<in> F \<Longrightarrow> same_walk m' m w) \<Longrightarrow> kernel_mapped F m' = kernel_mapped F m"
  by (auto simp: kernel_mapped_def same_walk_def)

lemma program_high: "v \<in> program_pages \<Longrightarrow> 2 \<le> dir_index v"
proof -
  assume "v \<in> program_pages"
  then have "0x800000 \<le> unat v" by (auto simp: program_pages_def region_def)
  then show ?thesis using div_le_mono [of "0x800000" "unat v" "2 ^ 22"] by (simp add: dir_index_nat)
qed

text \<open>What the boot assumes of the linker: the kernel ends where the 29 pages of the programs and their tables still fit below
  8 MB, and the programs fit the pages that are mapped for them.\<close>

definition image_ok :: "image \<Rightarrow> bool" where
  "image_ok img \<longleftrightarrow> 0xA0000 \<le> unat (kernel_end img) \<and> unat (kernel_end img) + 0x3B000 \<le> 0x800000
     \<and> length (user_flat img) \<le> 4096 \<and> length (editor_flat img) \<le> 49152 \<and> length (shell_flat img) \<le> 49152"

lemma round_up:
  assumes "unat e + 4095 < 2 ^ 32"
  shows "aligned ((e + 0xFFF) AND NOT 0xFFF)" "unat e \<le> unat ((e + 0xFFF) AND NOT 0xFFF :: u32)"
    "unat ((e + 0xFFF) AND NOT 0xFFF :: u32) \<le> unat e + 4095"
proof -
  let ?x = "e + 0xFFF :: u32"
  have u: "unat ?x = unat e + 4095" using assms by (simp add: unat_word_ariths)
  show "aligned (?x AND NOT 0xFFF)" unfolding aligned_def offset_mask by (rule bit_word_eqI) (auto simp: bit_simps)
  have "unat (?x AND NOT 0xFFF) = unat ?x - unat ?x mod 4096"
  proof -
    have "?x AND NOT (mask 12) = push_bit 12 (drop_bit 12 ?x)" by (rule bit_word_eqI) (auto simp: bit_simps)
    moreover have "unat (push_bit 12 (drop_bit 12 ?x)) = unat ?x div 4096 * 4096"
      using unat32_less [of ?x] by (simp add: unsigned_push_bit_eq unat_drop_bit_eq push_bit_nat_def drop_bit_nat_def take_bit_nat_def)
    ultimately show ?thesis unfolding offset_mask by (simp add: minus_mod_eq_div_mult)
  qed
  moreover have "unat ?x mod 4096 < 4096" by simp
  ultimately show "unat e \<le> unat (?x AND NOT 0xFFF)" "unat (?x AND NOT 0xFFF) \<le> unat e + 4095"
    using u by linarith+
qed

lemma tables_returns:
  assumes "serial_ready (m_io m)" and "image_ok img"
  shows "returns (boot_tables img m) (\<lambda>m'. \<exists>t p. quiet ((with_paging p m)\<lparr>m_tables := t\<rparr>) m' \<and> placed p {}
    \<and> t = gdt_init (default_tss img) ((m_tables m)\<lparr>low_mem := phys (m_paging m)\<rparr>)
    \<and> (\<forall>x < 0x9C000. phys p x = low_mem t x) \<and> unat (next_free_page p) + 0x3A000 \<le> 0x800000
    \<and> unat (next_free_page p) \<le> unat (kernel_end img) + 4095 \<and> user_ready (phys p))"
proof -
  let ?t = "gdt_init (default_tss img) ((m_tables m)\<lparr>low_mem := phys (m_paging m)\<rparr>)"
  let ?p1 = "paging_alloc_init (kernel_end img) ((m_paging m)\<lparr>phys := low_mem ?t\<rparr>)"
  let ?p = "init_paging ?p1"
  have "unat (kernel_end img) + 4095 < 2 ^ 32" "0xA0000 \<le> unat (kernel_end img)" "unat (kernel_end img) + 0x3B000 \<le> 0x800000"
    using assms(2) by (simp_all add: image_ok_def)
  note up = round_up [OF this(1)] this(2,3)
  have nf: "aligned (next_free_page ?p1)" "0xA0000 \<le> unat (next_free_page ?p1)" "unat (next_free_page ?p1) + 0x3A000 \<le> 0x800000"
    "unat (next_free_page ?p1) \<le> unat (kernel_end img) + 4095"
    using up by (simp_all add: paging_alloc_init_def)
  note ok = init_paging_ok [OF nf(1,2)]
  have window: "kernel_window ?p"
    using init_paging_walk [of ?p1] tables_high [OF ok(1)] by (simp add: kernel_window_def word_less_nat_alt)
  have user: "user_ready (phys ?p)" unfolding user_ready_def open_entry_def using ok(2) [OF program_high index_bounds(1)] by blast
  have pl: "placed ?p {}" using ok(1) window by (simp add: placed_def)
  have low: "phys ?p x = low_mem ?t x" if "x < 0x9C000" for x
    using init_paging_low [OF that, of ?p1] by (simp add: paging_alloc_init_def)
  show ?thesis unfolding boot_tables_def Let_def returns_simps
    by (intro returns_sprint)
      (use assms(1) pl low nf(3,4) ok(3) user in \<open>auto simp: quiet_def with_paging_def with_kernel_def intro!: exI [of _ ?p]\<close>)
qed


section \<open>Loading the programs\<close>

text \<open>The pages \<open>A\<close> are mapped, the lists \<open>L\<close> stand at their addresses, the start of the memory is \<open>m0\<close>,
  \<open>n\<close> more pages can be mapped, and the frame buffer is at \<open>F\<close>.\<close>

definition laid :: "u32 set \<Rightarrow> (nat \<times> u8 list) list \<Rightarrow> mem \<Rightarrow> nat \<Rightarrow> u32 set \<Rightarrow> paging \<Rightarrow> bool" where
  "laid F L m0 n A p \<longleftrightarrow> placed p A \<and> (\<forall>x < 0x9C000. phys p x = m0 x) \<and> unat (next_free_page p) + 8192 * n \<le> 0x800000
     \<and> user_ready (phys p) \<and> kernel_mapped F (phys p) \<and> F \<inter> program_pages = {}
     \<and> (\<forall>(a, bs) \<in> set L. a + length bs \<le> 2 ^ 32 \<and> region a (length bs) \<subseteq> A \<and> (\<forall>i < length bs. user_view p (a + i) = bs ! i))"

lemma region_at: "a + length bs \<le> 2 ^ 32 \<Longrightarrow> region a (length bs) \<subseteq> A \<Longrightarrow> i < length bs \<Longrightarrow> of_nat (a + i) \<in> A \<and> unat (of_nat (a + i) :: u32) = a + i"
proof -
  assume a: "a + length bs \<le> 2 ^ 32" "region a (length bs) \<subseteq> A" "i < length bs"
  then have "unat (of_nat (a + i) :: u32) = a + i" by (intro unat_of_nat32) simp
  moreover from this have "of_nat (a + i) \<in> region a (length bs)" using a(3) by (simp add: region_def)
  ultimately show ?thesis using a(2) by blast
qed

definition list_at :: "paging \<Rightarrow> u32 set \<Rightarrow> nat \<times> u8 list \<Rightarrow> bool" where
  "list_at p A e \<longleftrightarrow> (case e of (a, bs) \<Rightarrow> a + length bs \<le> 2 ^ 32 \<and> region a (length bs) \<subseteq> A \<and> (\<forall>i < length bs. user_view p (a + i) = bs ! i))"

lemma laid_iff:
  "laid F L m0 n A p \<longleftrightarrow> placed p A \<and> (\<forall>x < 0x9C000. phys p x = m0 x) \<and> unat (next_free_page p) + 8192 * n \<le> 0x800000
     \<and> user_ready (phys p) \<and> kernel_mapped F (phys p) \<and> F \<inter> program_pages = {} \<and> (\<forall>e \<in> set L. list_at p A e)"
  unfolding laid_def list_at_def by simp

lemma list_at_keep:
  assumes "list_at p A e" and "A \<subseteq> B"
    and "\<And>i. fst e + length (snd e) \<le> 2 ^ 32 \<Longrightarrow> region (fst e) (length (snd e)) \<subseteq> A \<Longrightarrow> i < length (snd e) \<Longrightarrow>
       user_view p' (fst e + i) = user_view p (fst e + i)"
  shows "list_at p' B e"
  using assms by (cases e) (auto simp: list_at_def)

lemma region_apart: "a + n \<le> b \<or> b + k \<le> a \<Longrightarrow> region a n \<inter> region b k = {}"
  by (auto simp: region_def)

lemma laid_map:
  assumes h: "laid F L m0 (k + n) A p" and a: "a mod 4096 = 0" "0x800000 \<le> a" "a + 4096 * k \<le> 2 ^ 32"
    and new: "A \<inter> region a (4096 * k) = {}" and sub: "region a (4096 * k) \<subseteq> program_pages" and Q: "\<And>p'. laid F L m0 n (A \<union> region a (4096 * k)) p' \<Longrightarrow> Q p'"
  shows "returns (map_fresh_run a k p) Q"
proof -
  have pl: "placed p A" and nf: "unat (next_free_page p) + 8192 * (k + n) \<le> 0x800000" using h by (simp_all add: laid_def)
  have "unat (next_free_page p) + 8192 * k \<le> 0x800000" using nf by simp
  moreover have "\<forall>v \<in> region a (4096 * k). open_entry (phys p) (dir_index v)" using h sub by (auto simp: laid_def user_ready_def)
  ultimately obtain p' where p': "map_fresh_run a k p = Some p'" "placed p' (A \<union> region a (4096 * k))"
    "unat (next_free_page p') \<le> unat (next_free_page p) + 8192 * k" "undisturbed p p' A"
    "\<forall>w. page_walk (phys p) w \<noteq> None \<and> w \<notin> region a (4096 * k) \<longrightarrow> same_walk (phys p') (phys p) w"
    using placed_run [OF pl _ a new] by blast
  have "kernel_mapped F (phys p') = kernel_mapped F (phys p)"
  proof (rule kernel_mapped_cong)
    fix w assume "w \<in> F"
    then have "page_walk (phys p) w = Some w" "w \<notin> region a (4096 * k)" using h sub by (auto simp: laid_def kernel_mapped_def)
    then show "same_walk (phys p') (phys p) w" using p'(5) by simp
  qed
  then have frame: "kernel_mapped F (phys p')" "user_ready (phys p')" "F \<inter> program_pages = {}"
    using h user_ready_cong [of "phys p'" "phys p"] p'(4) by (simp_all add: laid_def undisturbed_def)
  have keep: "user_view p' (b + i) = user_view p (b + i)" if "b + length bs \<le> 2 ^ 32" "region b (length bs) \<subseteq> A" "i < length bs" for b bs i
    using p'(4) region_at [OF that] by (auto simp: undisturbed_def dest: bspec [of _ _ "of_nat (b + i)"])
  have "laid F L m0 n (A \<union> region a (4096 * k)) p'"
    unfolding laid_iff
  proof (intro conjI ballI)
    show "placed p' (A \<union> region a (4096 * k))" by (rule p'(2))
    show "\<forall>x < 0x9C000. phys p' x = m0 x" using h p'(4) by (simp add: laid_def undisturbed_def)
    show "unat (next_free_page p') + 8192 * n \<le> 0x800000" using p'(3) nf by simp
    show "kernel_mapped F (phys p')" "user_ready (phys p')" "F \<inter> program_pages = {}" by (rule frame)+
    show "list_at p' (A \<union> region a (4096 * k)) e" if "e \<in> set L" for e
      by (rule list_at_keep [of p A]) (use h that keep in \<open>auto simp: laid_iff\<close>)
  qed
  then show ?thesis using Q p'(1) by (simp add: returns_def)
qed

lemma laid_map_page:
  assumes "laid F L m0 (Suc n) A p" and "unat v mod 4096 = 0" "0x800000 \<le> unat v"
    and "A \<inter> region (unat v) 4096 = {}" and "region (unat v) 4096 \<subseteq> program_pages" and "\<And>p'. laid F L m0 n (A \<union> region (unat v) 4096) p' \<Longrightarrow> Q p'"
  shows "returns (map_fresh_page v p) Q"
proof -
  have "unat v + 4096 * 1 \<le> 2 ^ 32"
  proof -
    obtain k where "unat v = 4096 * k" using assms(2) by auto
    then show ?thesis using unat32_less [of v] by simp
  qed
  from laid_map [where k = 1 and n = n and a = "unat v" and Q = Q, OF _ assms(2,3) this] assms(1,4-6)
  have "returns (map_fresh_run (unat v) 1 p) Q" by simp
  then show ?thesis by (simp add: returns_def bind_eq_Some_conv)
qed

text \<open>The lists elsewhere stay when bytes are stored to a region.\<close>

definition apart :: "nat \<Rightarrow> nat \<Rightarrow> (nat \<times> u8 list) list \<Rightarrow> bool" where
  "apart a n L \<longleftrightarrow> (\<forall>(b, bs) \<in> set L. b + length bs \<le> a \<or> a + n \<le> b)"

lemma laid_copy:
  assumes h: "laid F L m0 n A p" and a: "unat dst + length bs \<le> 2 ^ 32" "region (unat dst) (length bs) \<subseteq> A" "length bs < 2 ^ 32"
    and L: "apart (unat dst) (length bs) L" and Q: "\<And>p'. laid F ((unat dst, bs) # L) m0 n A p' \<Longrightarrow> Q p'"
  shows "returns (copy_binary dst bs p) Q"
proof -
  have at: "of_nat (unat dst + i) = dst + of_nat i" for i by simp
  have "\<forall>i < length bs. dst + of_nat i \<in> A" using region_at [OF a(1,2)] unfolding at by blast
  from placed_copy [OF _ this a(3), of p] h obtain p' where p': "copy_binary dst bs p = Some p'" "placed p' A"
    "next_free_page p' = next_free_page p" "\<forall>x < 0x9C000. phys p' x = phys p x"
    "\<forall>w\<in>A. user_view p' (unat w) = (if unat (w - dst) < length bs then bs ! unat (w - dst) else user_view p (unat w))"
    "opens (phys p') = opens (phys p)" "page_walk (phys p') = page_walk (phys p)" "user_page (phys p') = user_page (phys p)"
    by (auto simp: laid_def)
  have frame: "kernel_mapped F (phys p')" "user_ready (phys p')" "F \<inter> program_pages = {}"
    using h user_ready_cong [OF p'(6)] p'(7,8) by (simp_all add: laid_def kernel_mapped_def)
  have new: "user_view p' (unat dst + i) = bs ! i" if i: "i < length bs" for i
  proof -
    have "unat (of_nat i :: u32) = i" using i a(3) by (intro unat_of_nat32) simp
    then show ?thesis using p'(5) region_at [OF a(1,2) i] i by (auto simp: at dest!: bspec [of _ _ "dst + of_nat i"])
  qed
  have sum: "unat dst + unat x < 2 ^ 32 \<Longrightarrow> unat (dst + x) = unat dst + unat x" for x by (simp add: unat_word_ariths)
  have old: "user_view p' (b + i) = user_view p (b + i)"
    if b: "b + length cs \<le> 2 ^ 32" "region b (length cs) \<subseteq> A" "b + length cs \<le> unat dst \<or> unat dst + length bs \<le> b" and i: "i < length cs" for b cs i
  proof -
    let ?w = "of_nat (b + i) :: u32"
    note w = region_at [OF b(1,2) i]
    have "\<not> unat (?w - dst) < length bs"
    proof
      assume lt: "unat (?w - dst) < length bs"
      then have "unat dst + unat (?w - dst) < 2 ^ 32" using a(1) by simp
      then have "unat (dst + (?w - dst)) = unat dst + unat (?w - dst)" by (rule sum [of "?w - dst"])
      then have "b + i = unat dst + unat (?w - dst)" using w by simp
      then show False using b(3) i lt by linarith
    qed
    then show ?thesis using p'(5) w by (auto dest!: bspec [of _ _ ?w])
  qed
  have "laid F ((unat dst, bs) # L) m0 n A p'"
    unfolding laid_iff
  proof (intro conjI ballI)
    show "placed p' A" by (rule p'(2))
    show "\<forall>x < 0x9C000. phys p' x = m0 x" "unat (next_free_page p') + 8192 * n \<le> 0x800000"
      using h p'(3,4) by (simp_all add: laid_def)
    show "kernel_mapped F (phys p')" "user_ready (phys p')" "F \<inter> program_pages = {}" by (rule frame)+
    fix e assume e: "e \<in> set ((unat dst, bs) # L)"
    show "list_at p' A e"
    proof (cases "e = (unat dst, bs)")
      case True
      then show ?thesis using a(1,2) new by (simp add: list_at_def)
    next
      case False
      then have e: "e \<in> set L" using e by simp
      obtain b cs where bc: "e = (b, cs)" by (cases e)
      have la: "list_at p A (b, cs)" and ap: "b + length cs \<le> unat dst \<or> unat dst + length bs \<le> b"
        using h L e unfolding laid_iff apart_def bc by blast+
      show ?thesis unfolding bc by (rule list_at_keep [OF la subset_refl]) (use old [of b cs] ap in simp)
    qed
  qed
  then show ?thesis using Q p'(1) by (simp add: returns_def)
qed


text \<open>Bytes stored over the start of a list that is there already.\<close>

lemma laid_over:
  assumes h: "laid F ((unat dst, zs) # L) m0 n A p" and len: "length bs \<le> length zs" "length zs < 2 ^ 32"
    and L: "apart (unat dst) (length zs) L" and Q: "\<And>p'. laid F ((unat dst, bs @ drop (length bs) zs) # L) m0 n A p' \<Longrightarrow> Q p'"
  shows "returns (copy_binary dst bs p) Q"
proof -
  have z: "list_at p A (unat dst, zs)" using h by (simp add: laid_iff)
  let ?b = "unat dst + length bs" and ?tail = "drop (length bs) zs"
  have a: "unat dst + length bs \<le> 2 ^ 32" "region (unat dst) (length bs) \<subseteq> A" "length bs < 2 ^ 32"
    using z len by (auto simp: list_at_def region_def)
  have tail: "list_at p A (?b, ?tail)"
    using z len by (auto simp: list_at_def region_def add.assoc)
  have "laid F ((?b, ?tail) # L) m0 n A p" using h tail by (simp add: laid_iff)
  moreover have "apart (unat dst) (length bs) ((?b, ?tail) # L)" using L len by (auto simp: apart_def)
  ultimately show ?thesis
  proof (rule laid_copy [where dst = dst and bs = bs, OF _ a])
    fix p' assume h': "laid F ((unat dst, bs) # (?b, ?tail) # L) m0 n A p'"
    have "list_at p' A (unat dst, bs @ ?tail)"
    proof -
      have "user_view p' (unat dst + i) = (bs @ ?tail) ! i" if i: "i < length (bs @ ?tail)" for i
      proof (cases "i < length bs")
        case True
        then show ?thesis using h' by (simp add: laid_iff list_at_def nth_append)
      next
        case False
        then obtain j where j: "i = length bs + j" by (auto simp: not_less dest: le_Suc_ex)
        have "list_at p' A (?b, ?tail)" using h' by (simp add: laid_iff)
        then have "user_view p' (?b + j) = ?tail ! j" using i j by (simp add: list_at_def)
        then show ?thesis by (simp add: j nth_append add.assoc)
      qed
      then show ?thesis using z len unfolding list_at_def by simp
    qed
    then show "Q p'" using h' by (intro Q) (simp add: laid_iff)
  qed
qed

lemma laid_zero:
  assumes "laid F L m0 n A p" and "unat dst + k \<le> 2 ^ 32" "region (unat dst) k \<subseteq> A" "k < 2 ^ 32"
    and "apart (unat dst) k L" and "\<And>p'. laid F ((unat dst, replicate k 0) # L) m0 n A p' \<Longrightarrow> Q p'"
  shows "returns (zero_region dst k p) Q"
  unfolding zero_region_copy by (rule laid_copy [OF assms(1)]) (use assms in simp_all)


text \<open>The three groups of pages.\<close>

lemma load_user_returns:
  assumes h: "laid F [] m0 (Suc (Suc n)) {} p" and len: "length bs \<le> 4096"
  shows "returns (load_user bs p) (laid F [(0xA0000000, bs)] m0 n (region 0xA0000000 4096 \<union> region 0xB0000000 4096))"
  unfolding load_user_def returns_simps
proof (rule laid_map_page [OF h])
  fix p1 assume "laid F [] m0 (Suc n) ({} \<union> region (unat (0xA0000000 :: u32)) 4096) p1"
  then show "returns (map_fresh_page 0xB0000000 p1) (\<lambda>p. returns (copy_binary 0xA0000000 bs p)
      (laid F [(0xA0000000, bs)] m0 n (region 0xA0000000 4096 \<union> region 0xB0000000 4096)))"
  proof (rule laid_map_page)
    fix p2 assume "laid F [] m0 n ({} \<union> region (unat (0xA0000000 :: u32)) 4096 \<union> region (unat (0xB0000000 :: u32)) 4096) p2"
    then show "returns (copy_binary 0xA0000000 bs p2) (laid F [(0xA0000000, bs)] m0 n (region 0xA0000000 4096 \<union> region 0xB0000000 4096))"
      by (rule laid_copy) (use len in \<open>auto simp: region_def apart_def\<close>)
  qed (auto simp: region_def program_pages_def)
qed (auto simp: program_pages_def)

lemma load_shared_returns:
  assumes h: "laid F L m0 (Suc n) A p" and A: "A \<inter> region 0xF0000000 4096 = {}" and L: "apart 0xF0000000 4096 L"
  shows "returns (load_shared p) (laid F ((0xF0000000, replicate 4096 0) # L) m0 n (A \<union> region 0xF0000000 4096))"
  unfolding load_shared_def returns_simps
proof (rule laid_map_page [OF h])
  fix p1 assume "laid F L m0 n (A \<union> region (unat (0xF0000000 :: u32)) 4096) p1"
  then show "returns (zero_region 0xF0000000 4096 p1) (laid F ((0xF0000000, replicate 4096 0) # L) m0 n (A \<union> region 0xF0000000 4096))"
    by (rule laid_zero) (use L in simp_all)
qed (use A in \<open>auto simp: program_pages_def\<close>)

lemma load_program_returns:
  assumes h: "laid F L m0 (12 + Suc n) A p" and len: "length bs \<le> 49152"
    and base: "unat base mod 4096 = 0" "0x800000 \<le> unat base" "unat base + 49152 \<le> 2 ^ 32"
    and stack: "unat stack mod 4096 = 0" "0x800000 \<le> unat stack"
    and A: "A \<inter> region (unat base) 49152 = {}" "(A \<union> region (unat base) 49152) \<inter> region (unat stack) 4096 = {}"
    and sub: "region (unat base) 49152 \<subseteq> program_pages" "region (unat stack) 4096 \<subseteq> program_pages"
    and L: "apart (unat base) 49152 L"
  shows "returns (load_program base stack bs p) (laid F ((unat base, bs @ replicate (49152 - length bs) 0) # L) m0 n
      (A \<union> region (unat base) 49152 \<union> region (unat stack) 4096))" (is "returns _ ?Q")
  unfolding load_program_def returns_simps
proof (rule laid_map [OF h])
  fix p1 assume "laid F L m0 (Suc n) (A \<union> region (unat base) (4096 * 12)) p1"
  then show "returns (map_fresh_page stack p1) (\<lambda>p. returns (zero_region base (12 * 4096) p) (\<lambda>p. returns (copy_binary base bs p) ?Q))"
  proof (rule laid_map_page)
    fix p2 assume "laid F L m0 n (A \<union> region (unat base) (4096 * 12) \<union> region (unat stack) 4096) p2"
    then show "returns (zero_region base (12 * 4096) p2) (\<lambda>p. returns (copy_binary base bs p) ?Q)"
    proof (rule laid_zero)
      fix p3 assume h3: "laid F ((unat base, replicate (12 * 4096) 0) # L) m0 n
        (A \<union> region (unat base) (4096 * 12) \<union> region (unat stack) 4096) p3"
      then show "returns (copy_binary base bs p3) ?Q"
        by (rule laid_over) (use len L in simp_all)
    qed (use base L in auto)
  qed (use stack A sub in simp_all)
qed (use base A sub in simp_all)

text \<open>Only the console output, the ports and the page tables with their memory change.\<close>

definition repaged :: "machine \<Rightarrow> machine \<Rightarrow> bool" where
  "repaged m m' \<longleftrightarrow> (\<exists>p. quiet (with_paging p m) m')"

lemma repaged_trans: "repaged m m' \<Longrightarrow> repaged m' m'' \<Longrightarrow> repaged m m''"
  by (auto simp: repaged_def quiet_def with_paging_def with_kernel_def)

lemma repaged_ready: "repaged m m' \<Longrightarrow> serial_ready (m_io m')"
  by (auto simp: repaged_def quiet_def)

lemma stage_returns:
  assumes "returns (f (m_paging m)) R" and "serial_ready (m_io m)" and "CHR 0x00 \<notin> set t"
    and "\<And>m'. R (m_paging m') \<Longrightarrow> repaged m m' \<Longrightarrow> Q m'"
  shows "returns (stage t f m) Q"
  unfolding stage_def returns_simps
proof (rule returns_weaken [OF assms(1)])
  fix p assume p: "R p"
  show "returns (sprintln t (with_paging p m)) Q"
  proof (rule returns_sprint)
    fix m' assume q: "quiet (with_paging p m) m'"
    then have "m_paging m' = p" by (simp add: quiet_def with_paging_def with_kernel_def)
    then show "Q m'" using p q by (intro assms(4)) (auto simp: repaged_def)
  qed (use assms(2,3) in \<open>simp_all add: with_paging_def with_kernel_def\<close>)
qed

definition program_lists :: "image \<Rightarrow> (nat \<times> u8 list) list" where
  "program_lists img = [(0xC0000000, shell_flat img @ replicate (49152 - length (shell_flat img)) 0),
     (0x70000000, editor_flat img @ replicate (49152 - length (editor_flat img)) 0),
     (0xF0000000, replicate 4096 0), (0xA0000000, user_flat img)]"

lemma programs_return:
  assumes ready: "serial_ready (m_io m)" and img: "image_ok img" and h: "laid F [] m0 (Suc (Suc 27)) {} (m_paging m)"
  shows "returns (boot_programs img m) (\<lambda>m'. repaged m m' \<and> laid F (program_lists img) m0 0 program_pages (m_paging m'))"
proof -
  let ?A1 = "region 0xA0000000 4096 \<union> region 0xB0000000 4096" and ?L1 = "[(0xA0000000, user_flat img)]"
  let ?A2 = "?A1 \<union> region 0xF0000000 4096" and ?L2 = "(0xF0000000, replicate 4096 0) # ?L1"
  let ?A3 = "?A2 \<union> region 0x70000000 49152 \<union> region 0x71000000 4096"
  let ?L3 = "(0x70000000, editor_flat img @ replicate (49152 - length (editor_flat img)) 0) # ?L2"
  have len: "length (user_flat img) \<le> 4096" "length (editor_flat img) \<le> 49152" "length (shell_flat img) \<le> 49152"
    using img by (simp_all add: image_ok_def)
  have sub: "region 0x70000000 49152 \<subseteq> program_pages" "region 0x71000000 4096 \<subseteq> program_pages"
    "region 0xC0000000 49152 \<subseteq> program_pages" "region 0xD0000000 4096 \<subseteq> program_pages"
    by (auto simp: program_pages_def)
  have one: "returns (load_user (user_flat img) (m_paging m1)) (laid F ?L1 m0 (Suc 26) ?A1)" if "m_paging m1 = m_paging m" for m1
    by (rule load_user_returns) (use h len(1) that in simp_all)
  have two: "returns (load_shared p) (laid F ?L2 m0 (12 + Suc 13) ?A2)" if "laid F ?L1 m0 (Suc 26) ?A1 p" for p
    using load_shared_returns [of F ?L1 m0 26 ?A1 p] that len(1) by (simp add: Int_Un_distrib2 region_apart apart_def)
  have three: "returns (load_program 0x70000000 0x71000000 (editor_flat img) p) (laid F ?L3 m0 (12 + Suc 0) ?A3)"
    if "laid F ?L2 m0 (12 + Suc 13) ?A2 p" for p
    using load_program_returns [OF that len(2), of "0x70000000" "0x71000000"] len(1) sub(1,2)
    by (simp add: Int_Un_distrib2 region_apart apart_def)
  have four: "returns (load_program 0xC0000000 0xD0000000 (shell_flat img) p) (laid F (program_lists img) m0 0 program_pages)"
    if "laid F ?L3 m0 (12 + Suc 0) ?A3 p" for p
    using load_program_returns [OF that len(3), of "0xC0000000" "0xD0000000"] len sub(3,4)
    by (simp add: Int_Un_distrib2 region_apart apart_def program_lists_def) (simp add: program_pages_def Int_Un_distrib2 region_apart)
  have "repaged m m1 \<and> m_paging m1 = m_paging m" if "quiet m m1" for m1
    using that unfolding repaged_def by (intro conjI exI [of _ "m_paging m"]) (simp_all add: quiet_def with_paging_def with_kernel_def)
  then have first: "quiet m m1 \<Longrightarrow> repaged m m1" "quiet m m1 \<Longrightarrow> m_paging m1 = m_paging m" for m1 by blast+
  show ?thesis unfolding boot_programs_def returns_simps
    apply (rule returns_sprint [OF ready], simp)
    apply (rule stage_returns, erule one [OF first(2)], erule repaged_ready [OF first(1)], simp)
    apply (rule stage_returns, erule two, erule repaged_ready, simp)
    apply (rule stage_returns, erule three, erule repaged_ready, simp)
    apply (rule stage_returns, erule four, erule repaged_ready, simp)
    apply (blast intro: first(1) repaged_trans)
    done
qed

section \<open>Hardware and software\<close>

definition kbd_initial :: kbd where "kbd_initial = kbd0\<lparr>kbd_initialized := False, kbd_enabled := False\<rparr>"

lemma serial_ready_cong: "port_in s' = port_in s \<Longrightarrow> serial_ready s' = serial_ready s"
  by (simp add: serial_ready_def)

lemma pic_mask_write: "master_pic s = \<lparr>pic_pending = 0, pic_base = v, pic_mask = x\<rparr> \<Longrightarrow>
    pic_state 0x20 0x21 (port_out s @ [(0x21, b)]) = \<lparr>pic_pending = 0, pic_base = v, pic_mask = b\<rparr>"
  by (simp add: pic_state_append pic_byte_def)

lemma pit_quiet: "port_in (pit_init s) = port_in s" "master_pic (pit_init s) = master_pic s"
  by (simp_all add: pit_init_def Let_def pic_state_append pic_byte_def)

lemma hardware_returns:
  assumes "serial_ready (m_io m)" and "kbd_st (m_kernel m) = kbd_initial"
  shows "returns (boot_hardware img m) (\<lambda>m'. m_shell m' = (m_shell m)\<lparr>sh_kernel := (m_kernel m)\<lparr>kbd_st := kbd0\<rparr>\<rparr>
    \<and> m_tables m' = fst (idt_init (kbd_entry img) (timer_entry img) (syscall_address img) (idt_address img) (m_tables m) (m_io m))
    \<and> m_vga m' = m_vga m \<and> serial_ready (m_io m') \<and> master_pic (m_io m') = \<lparr>pic_pending = 0, pic_base = 0x20, pic_mask = 0xFD\<rparr>)"
proof -
  let ?idt = "idt_init (kbd_entry img) (timer_entry img) (syscall_address img) (idt_address img) (m_tables m) (m_io m)"
  have idt: "snd ?idt = pic_setup (m_io m)" by (simp add: idt_init_def Let_def)
  have ready: "serial_ready (pic_setup (m_io m))" using assms(1) serial_ready_cong [OF pic_setup_out(2)] by blast
  have kb: "kbd_init kbd_initial s = (0, kbd0\<lparr>kbd_enabled := False\<rparr>, write_port 0x21 0xFD s)"
    "kbd_enable (kbd0\<lparr>kbd_enabled := False\<rparr>) = kbd0" for s
    by (simp_all add: kbd_init_def kbd_enable_def kbd0_def kbd_initial_def)
  show ?thesis unfolding boot_hardware_def case_prod_beta Let_def returns_simps
  proof (rule returns_sprint, goal_cases)
    case (3 m1)
    then have m1: "m_shell m1 = m_shell m" "m_tables m1 = fst ?idt" "m_vga m1 = m_vga m" "serial_ready (m_io m1)"
      "master_pic (m_io m1) = \<lparr>pic_pending = 0, pic_base = 0x20, pic_mask = 0xFC\<rparr>"
      unfolding quiet_def by (simp_all add: idt pic_after_setup)
    show ?case
    proof (rule returns_sprint, goal_cases)
      case (3 m2)
      then have m2: "m_shell m2 = m_shell m" "m_tables m2 = fst ?idt" "m_vga m2 = m_vga m" "serial_ready (m_io m2)"
        "master_pic (m_io m2) = \<lparr>pic_pending = 0, pic_base = 0x20, pic_mask = 0xFC\<rparr>"
        using m1 by (simp_all add: quiet_def pit_quiet)
      show ?case
      proof (rule returns_sprint, goal_cases)
        case (3 m3)
        then have m3: "m_shell m3 = m_shell m" "m_tables m3 = fst ?idt" "m_vga m3 = m_vga m" "serial_ready (m_io m3)"
          "master_pic (m_io m3) = \<lparr>pic_pending = 0, pic_base = 0x20, pic_mask = fst (read_port 0x21 (m_io m2)) AND NOT 1\<rparr>"
          using m2 pic_mask_write [OF m2(5)] by (simp_all add: quiet_def)
        show ?case
          by (rule returns_sprint)
            (use m3 assms(2) pic_mask_write [OF m3(5), of "0xFD"] in \<open>auto simp: quiet_def with_kernel_def kb serial_ready_def\<close>)
      qed (use m2 in \<open>simp_all add: serial_ready_def\<close>)
    qed (use m1 in \<open>simp_all add: serial_ready_def pit_quiet\<close>)
  qed (use ready in \<open>simp_all add: idt\<close>)
qed

text \<open>Stores outside the tables and the frames in use change neither the translations nor the programs' bytes.\<close>

lemma outside_tables:
  assumes ok: "paging_ok p" and nf: "unat (next_free_page p) \<le> 0x800000"
    and m: "\<And>x. 0x9C000 \<le> x \<Longrightarrow> x < 0x800000 \<Longrightarrow> m x = phys p x"
  shows "paging_ok (p\<lparr>phys := m\<rparr>)" and "same_walk m (phys p) w" and "table_byte m = table_byte (phys p)"
    and "opens m = opens (phys p)"
proof -
  have dir: "dir_entry m i = dir_entry (phys p) i" if "i < 1024" for i
    unfolding dir_entry_def by (rule ld32_cong) (rule m; use that in \<open>simp add: page_directory_def\<close>)
  have same: "present m i = present (phys p) i" "table_of m i = table_of (phys p) i" if "i < 1024" for i
    using dir [OF that] by (simp_all add: present_def table_of_def)
  show "paging_ok (p\<lparr>phys := m\<rparr>)" using ok same by (simp add: paging_ok_def)
  show "table_byte m = table_byte (phys p)" using same by (auto simp: table_byte_def fun_eq_iff)
  show "opens m = opens (phys p)" by (intro opens_cong open_cong dir)
  have iw: "dir_index w < 1024" "table_index w < 1024" by (rule index_bounds)+
  show "same_walk m (phys p) w"
  proof (cases "present (phys p) (dir_index w)")
    case True
    then have t: "0x9D000 \<le> unat (table_of (phys p) (dir_index w))" "unat (table_of (phys p) (dir_index w)) + 4096 \<le> 0x800000"
      using ok nf iw(1) by (auto simp: paging_ok_def)
    show ?thesis by (rule same_walkI [OF dir [OF iw(1)]], rule ld32_cong, rule m) (use t iw(2) in simp_all)
  next
    case False
    then show ?thesis using same [OF iw(1)] by (intro unmapped_same) (simp_all add: walk_of)
  qed
qed

lemma laid_outside:
  assumes h: "laid F L m0 n A p" and m: "\<And>x. 0x9C000 \<le> x \<Longrightarrow> x < 0x800000 \<Longrightarrow> m x = phys p x"
  shows "laid F L m n A (p\<lparr>phys := m\<rparr>)"
proof -
  have pl: "placed p A" and ok: "paging_ok p" and nf: "unat (next_free_page p) \<le> 0x800000" using h by (simp_all add: laid_def placed_def)
  let ?p = "p\<lparr>phys := m\<rparr>"
  note st = outside_tables [OF ok nf m]
  have walk: "page_walk m = page_walk (phys p)" "user_page m = user_page (phys p)" using st(2) by (auto simp: same_walk_def)
  have pl': "placed ?p A" using pl st(1) unfolding placed_def kernel_window_def by (simp add: walk st(3))
  have view: "user_view ?p (unat w) = user_view p (unat w)" if "w \<in> A" for w
  proof -
    obtain f where f: "page_walk (phys p) w = Some f" "0xA0000 \<le> unat f" "unat f < unat (next_free_page p)"
      using pl \<open>w \<in> A\<close> by (auto simp: placed_def)
    then have "m (unat f) = phys p (unat f)" using nf by (intro m) simp_all
    then show ?thesis using f(1) unfolding user_view_at by (simp add: walk)
  qed
  show ?thesis unfolding laid_iff
  proof (intro conjI ballI)
    show "kernel_mapped F (phys ?p)" "user_ready (phys ?p)" "F \<inter> program_pages = {}" "unat (next_free_page ?p) + 8192 * n \<le> 0x800000"
      using h user_ready_cong [OF st(4)] by (simp_all add: laid_def kernel_mapped_def walk)
    fix e assume "e \<in> set L"
    then have la: "list_at p A e" using h by (simp add: laid_iff)
    show "list_at ?p A e"
      by (rule list_at_keep [OF la subset_refl]) (use view region_at in \<open>metis\<close>)
  qed (use pl' in simp_all)
qed

text \<open>What the boot draws: a red screen with a white pixel.  Without a frame buffer the pixel is the word at 40.\<close>

definition no_vga :: vga where "no_vga = \<lparr>fb = 0, fb_pitch = 0, fb_width = 0, fb_height = 0\<rparr>"

definition pixels :: "vga \<Rightarrow> nat" where "pixels v = unat (fb_pitch v div 4 * fb_height v)"

definition screen :: "vga \<Rightarrow> bool" where
  "screen v \<longleftrightarrow> 0x800000 \<le> unat (fb v) \<and> fits v (pixels v) \<and> 10 * (unat (fb_pitch v) div 4) + 10 < pixels v"

definition painted :: "vga \<Rightarrow> mem \<Rightarrow> mem" where
  "painted v m = vga13_put_pixel 10 10 0x00FFFFFF v (vga13_clear 0x00FF0000 v m)"

lemma put_pixel_10:
  assumes "screen v"
  shows "vga13_put_pixel 10 10 c v m = store_pixel v (of_nat (10 * (unat (fb_pitch v) div 4) + 10)) c m"
proof -
  have "fb_pitch v div 4 = of_nat (unat (fb_pitch v) div 4)" by (simp add: word_arith_nat_div)
  then show ?thesis by (simp add: vga13_put_pixel_def Let_def)
qed

lemma painted_outside:
  assumes "v = no_vga \<or> screen v" and "44 \<le> x" "x < 0x800000"
  shows "vga13_clear c v m x = m x" and "vga13_put_pixel 10 10 c v m x = m x"
proof -
  consider "v = no_vga" | "screen v" using assms(1) by blast
  then have "vga13_clear c v m x = m x \<and> vga13_put_pixel 10 10 c v m x = m x"
  proof cases
    case 1
    then show ?thesis using assms(2) by (simp add: no_vga_def vga13_clear_def vga13_put_pixel_def store_pixel_def st32_other)
  next
    case 2
    then have v: "fits v (pixels v)" "0x800000 \<le> unat (fb v)" "10 * (unat (fb_pitch v) div 4) + 10 < pixels v" by (simp_all add: screen_def)
    have "vga13_clear c v m x = m x"
      using clear_loop_spec(2) [OF v(1), of 0 "pixels v"] v(2) assms(3) by (simp add: vga13_clear_def Let_def pixels_def)
    then show ?thesis unfolding put_pixel_10 [OF 2] store_pixel_at [OF v(1,3)] using v(2) assms(3) by (simp add: st32_other)
  qed
  then show "vga13_clear c v m x = m x" "vga13_put_pixel 10 10 c v m x = m x" by blast+
qed

lemma painted_pixels:
  assumes "screen v" and "i < pixels v"
  shows "pixel v (painted v m) i = (if i = 10 * (unat (fb_pitch v) div 4) + 10 then 0x00FFFFFF else 0x00FF0000)"
proof -
  have v: "fits v (pixels v)" "10 * (unat (fb_pitch v) div 4) + 10 < pixels v" using assms(1) by (simp_all add: screen_def)
  have "pixel v (vga13_clear 0x00FF0000 v m) i = 0x00FF0000"
    using clear_loop_spec(1) [OF v(1), of 0 "pixels v" i] assms(2) by (simp add: vga13_clear_def Let_def pixels_def)
  then show ?thesis unfolding painted_def put_pixel_10 [OF assms(1)] pixel_store [OF v assms(2)] by simp
qed

section \<open>Frame buffer\<close>

definition fb_size :: "fb_info \<Rightarrow> nat" where "fb_size fi = unat (screen_pitch fi) * unat (screen_height fi)"

definition fb_pages :: "fb_info \<Rightarrow> nat" where "fb_pages fi = (fb_size fi + 4095) div 4096"

definition fb_region :: "fb_info \<Rightarrow> u32 set" where
  "fb_region fi = (if fb_phys_addr fi = 0 then {} else region (unat (fb_phys_addr fi)) (4096 * fb_pages fi))"

definition fb_vga :: "fb_info \<Rightarrow> vga" where
  "fb_vga fi = (if fb_phys_addr fi = 0 then no_vga
     else \<lparr>fb = fb_phys_addr fi, fb_pitch = screen_pitch fi, fb_width = screen_width fi, fb_height = screen_height fi\<rparr>)"

text \<open>What the boot assumes of a frame buffer, where there is one: it starts at a page above 8 MB, has at most 16 MB, which the
  address space holds, at least 11 rows of 11 pixels, and no 4 MB in common with the programs; and the kernel ends early enough
  for its tables.\<close>

definition display_ok :: "image \<Rightarrow> fb_info \<Rightarrow> bool" where
  "display_ok img fi \<longleftrightarrow> fb_phys_addr fi = 0 \<or>
     aligned (fb_phys_addr fi) \<and> 0x800000 \<le> unat (fb_phys_addr fi) \<and> fb_size fi \<le> 0x1000000
     \<and> unat (fb_phys_addr fi) + fb_size fi \<le> 2 ^ 32 \<and> 44 \<le> unat (screen_pitch fi) \<and> 11 \<le> unat (screen_height fi)
     \<and> (\<forall>v \<in> program_pages. \<forall>w \<in> fb_region fi. dir_index v \<noteq> dir_index w)
     \<and> unat (kernel_end img) + 0x41000 \<le> 0x800000"

lemma fb_vga_ok: "display_ok img fi \<Longrightarrow> fb_vga fi = no_vga \<or> screen (fb_vga fi)"
proof (cases "fb_phys_addr fi = 0")
  case False
  assume "display_ok img fi"
  then have d: "0x800000 \<le> unat (fb_phys_addr fi)" "fb_size fi \<le> 0x1000000" "unat (fb_phys_addr fi) + fb_size fi \<le> 2 ^ 32"
    "44 \<le> unat (screen_pitch fi)" "11 \<le> unat (screen_height fi)" using False by (simp_all add: display_ok_def)
  let ?v = "fb_vga fi" and ?w = "unat (screen_pitch fi) div 4" and ?h = "unat (screen_height fi)"
  have v: "fb ?v = fb_phys_addr fi" "fb_pitch ?v = screen_pitch fi" "fb_height ?v = screen_height fi" using False by (simp_all add: fb_vga_def)
  have row: "4 * (?w * ?h) \<le> fb_size fi"
  proof -
    have "4 * ?w \<le> unat (screen_pitch fi)" by simp
    then have "4 * ?w * ?h \<le> unat (screen_pitch fi) * ?h" by (rule mult_le_mono1)
    then show ?thesis by (simp add: fb_size_def mult.assoc)
  qed
  have "unat (screen_pitch fi div 4) = ?w" by (simp add: unat_div_distrib)
  then have px: "pixels ?v = ?w * ?h" using row d(2) by (simp add: pixels_def v unat_word_ariths)
  have "11 \<le> ?w" using d(4) by simp
  moreover have "?w * 11 \<le> ?w * ?h" using d(5) by (rule mult_le_mono2)
  ultimately have "10 * ?w + 10 < pixels ?v" unfolding px by linarith
  then show ?thesis using d(1,3) row by (simp add: screen_def fits_def px v)
qed (simp add: fb_vga_def)

lemma fb_mapped:
  assumes d: "display_ok img fi" "fb_phys_addr fi \<noteq> 0"
    and pl: "placed p {}" and nf: "unat (next_free_page p) \<le> unat (kernel_end img) + 4095" and user: "user_ready (phys p)"
  shows "\<exists>p'. map_fb_loop (fb_phys_addr fi) 0 (screen_pitch fi * screen_height fi) p = Some p' \<and> placed p' {}
    \<and> (\<forall>x < 0x9C000. phys p' x = phys p x) \<and> unat (next_free_page p') + 0x3A000 \<le> 0x800000 \<and> user_ready (phys p')
    \<and> kernel_mapped (fb_region fi) (phys p')"
proof -
  let ?a = "unat (fb_phys_addr fi)" and ?n = "fb_pages fi" and ?sz = "screen_pitch fi * screen_height fi"
  have c: "?a mod 4096 = 0" "0x800000 \<le> ?a" "fb_size fi \<le> 0x1000000" "?a + fb_size fi \<le> 2 ^ 32"
    "unat (kernel_end img) + 0x41000 \<le> 0x800000" "\<forall>v \<in> program_pages. \<forall>w \<in> fb_region fi. dir_index v \<noteq> dir_index w"
    using d by (simp_all add: display_ok_def aligned_iff)
  have sz: "unat ?sz = fb_size fi" using c(3) by (simp add: fb_size_def unat_word_ariths)
  have n: "fb_size fi \<le> 4096 * ?n" "?n \<noteq> 0 \<longrightarrow> 4096 * (?n - 1) < fb_size fi" unfolding fb_pages_def by (cases "fb_size fi"; simp; linarith)+
  have top: "?a + 4096 * ?n \<le> 2 ^ 32"
  proof (cases "?n = 0")
    case False
    obtain k where k: "?a = 4096 * k" using c(1) by auto
    have "4096 * (k + (?n - 1)) < 4096 * 1048576" using n(2) False c(4) k by simp
    then have "k + (?n - 1) < 1048576" by simp
    then have "k + ?n \<le> 1048576" using False by (cases ?n) simp_all
    then show ?thesis using k by simp
  qed (use unat32_less [of "fb_phys_addr fi"] in simp)
  have run: "map_fb_loop (fb_phys_addr fi) 0 ?sz p = map_fb_run ?a ?n p"
    using map_fb_loop_run [of "fb_phys_addr fi" 0 ?n ?sz p] c(2) top n by (simp add: sz)
  have tables: "fb_tables (phys p) ?a ?n \<le> 5"
  proof (cases "?n = 0")
    case False
    have "?a + 4096 * (?n - 1) \<le> ?a + 4 * 2 ^ 22" using n(2) c(3) False by simp
    then have "(?a + 4096 * (?n - 1)) div 2 ^ 22 \<le> (?a + 4 * 2 ^ 22) div 2 ^ 22" by (rule div_le_mono)
    then have "(?a + 4096 * (?n - 1)) div 2 ^ 22 \<le> ?a div 2 ^ 22 + 4" by simp
    then have "(?a + 4096 * (?n - 1)) div 2 ^ 22 - ?a div 2 ^ 22 \<le> 4" by linarith
    then show ?thesis using False unfolding fb_tables_def by (auto intro: order_trans)
  qed (simp add: fb_tables_def)
  have ok: "paging_ok p" and win: "kernel_window p" using pl by (simp_all add: placed_def)
  have room: "unat (next_free_page p) + 4096 * Suc (fb_tables (phys p) ?a ?n) \<le> 0x800000" using tables nf c(5) by simp
  obtain p' where p': "map_fb_run ?a ?n p = Some p'" "paging_ok p'"
    "\<forall>w. ?a \<le> unat w \<and> unat w < ?a + 4096 * ?n \<longrightarrow> page_walk (phys p') w = Some w \<and> \<not> user_page (phys p') w"
    "\<forall>w. \<not> (?a \<le> unat w \<and> unat w < ?a + 4096 * ?n) \<longrightarrow> same_walk (phys p') (phys p) w"
    "unat (next_free_page p') \<le> unat (next_free_page p) + 4096 * fb_tables (phys p) ?a ?n"
    "\<forall>i < 1024. (\<forall>w. ?a \<le> unat w \<and> unat w < ?a + 4096 * ?n \<longrightarrow> dir_index w \<noteq> i) \<longrightarrow> open_entry (phys p') i = open_entry (phys p) i"
    "\<forall>x < 0x9C000. phys p' x = phys p x"
    using map_fb_run_spec [OF ok c(1) top room] by blast
  have region: "fb_region fi = {w. ?a \<le> unat w \<and> unat w < ?a + 4096 * ?n}" using d(2) by (simp add: fb_region_def region_def)
  have "kernel_window p'" unfolding kernel_window_def
  proof (intro conjI allI impI)
    fix v :: u32 assume v: "unat v < 0x800000"
    then have "same_walk (phys p') (phys p) v" using p'(4) c(2) by simp
    then show "page_walk (phys p') v = Some v" "\<not> user_page (phys p') v" using win v by (simp_all add: same_walk_def kernel_window_def)
  qed (rule tables_high [OF p'(2)])
  then have "placed p' {}" using p'(2) by (simp add: placed_def)
  moreover have "user_ready (phys p')" unfolding user_ready_def
  proof
    fix v assume v: "v \<in> program_pages"
    then have "open_entry (phys p') (dir_index v) = open_entry (phys p) (dir_index v)" using p'(6) c(6) index_bounds(1) [of v] by (force simp: region)
    then show "open_entry (phys p') (dir_index v)" using user v by (simp add: user_ready_def)
  qed
  moreover have "kernel_mapped (fb_region fi) (phys p')" using p'(3) by (simp add: kernel_mapped_def region)
  moreover have "unat (next_free_page p') + 0x3A000 \<le> 0x800000" using p'(5) tables nf c(5) by simp
  ultimately show ?thesis using p'(1,7) by (simp add: run)
qed

lemma boot_fb_returns:
  assumes ready: "serial_ready (m_io m)" and vga: "m_vga m = no_vga" and d: "display_ok img fi"
    and pl: "placed (m_paging m) {}" and low: "\<forall>x < 0x9C000. phys (m_paging m) x = m0 x"
    and nf: "unat (next_free_page (m_paging m)) + 0x3A000 \<le> 0x800000" "unat (next_free_page (m_paging m)) \<le> unat (kernel_end img) + 4095"
    and user: "user_ready (phys (m_paging m))"
  shows "returns (boot_fb fi m) (\<lambda>m'. \<exists>p. quiet ((with_paging p m)\<lparr>m_vga := fb_vga fi\<rparr>) m'
    \<and> laid (fb_region fi) [] m0 (Suc (Suc 27)) {} p)"
proof (cases "fb_phys_addr fi = 0")
  case True
  have "laid (fb_region fi) [] m0 (Suc (Suc 27)) {} (m_paging m)"
    using pl low nf user True by (simp add: laid_def fb_region_def kernel_mapped_def)
  moreover have "(with_paging (m_paging m) m)\<lparr>m_vga := fb_vga fi\<rparr> = m"
    using True vga by (simp add: with_paging_def with_kernel_def fb_vga_def)
  ultimately have "\<exists>p. quiet ((with_paging p m)\<lparr>m_vga := fb_vga fi\<rparr>) m' \<and> laid (fb_region fi) [] m0 (Suc (Suc 27)) {} p"
    if "quiet m m'" for m' using that by (intro exI [of _ "m_paging m"]) simp
  moreover have "boot_fb fi m = sprintln ''[8] fb_phys_addr=0, skipping fb map'' m" using True by (simp add: boot_fb_def)
  ultimately show ?thesis using ready by (auto intro!: returns_sprint)
next
  case False
  obtain p where p: "map_fb_loop (fb_phys_addr fi) 0 (screen_pitch fi * screen_height fi) (m_paging m) = Some p" "placed p {}"
    "\<forall>x < 0x9C000. phys p x = phys (m_paging m) x" "unat (next_free_page p) + 0x3A000 \<le> 0x800000" "user_ready (phys p)"
    "kernel_mapped (fb_region fi) (phys p)"
    using fb_mapped [OF d False pl nf(2) user] by blast
  have apart: "fb_region fi \<inter> program_pages = {}" using d False by (auto simp: display_ok_def)
  have laid: "laid (fb_region fi) [] m0 (Suc (Suc 27)) {} p"
    using p(2-6) low apart by (simp add: laid_def)
  have fb: "boot_fb fi m = do {
      m \<leftarrow> sprintln ''[8] mapping framebuffer...'' m;
      m \<leftarrow> sprint ''    fb_size='' m; m \<leftarrow> shex (screen_pitch fi * screen_height fi) m; m \<leftarrow> sprint [CHR 0x0A] m;
      p \<leftarrow> map_fb_loop (fb_phys_addr fi) 0 (screen_pitch fi * screen_height fi) (m_paging m);
      m \<leftarrow> sprintln ''[9] fb mapped, calling vga13_init'' (with_paging p m);
      sprintln ''[10] vga13_init done'' (m\<lparr>m_vga := vga13_init (fb_phys_addr fi) (screen_pitch fi) (screen_width fi) (screen_height fi) (m_vga m)\<rparr>)
    }" using False by (simp add: boot_fb_def Let_def)
  show ?thesis unfolding fb returns_simps
  proof (intro returns_sprint returns_shex, goal_cases)
    case (8 m1 m2 m3 m4)
    then have m4: "quiet m m4" by (simp add: quiet_def)
    then have same: "m_paging m4 = m_paging m" "m_vga m4 = m_vga m" by (simp_all add: quiet_def)
    show ?case unfolding same p(1) returns_simps
    proof (intro returns_sprint, goal_cases)
      case (5 m5 m6)
      then have "quiet ((with_paging p m)\<lparr>m_vga := fb_vga fi\<rparr>) m6"
        using m4 False by (simp add: quiet_def with_paging_def with_kernel_def vga13_init_def fb_vga_def vga)
      then show ?case using laid by blast
    qed (use m4 in \<open>auto simp: quiet_def with_paging_def with_kernel_def\<close>)
  qed (use ready in \<open>auto simp: quiet_def\<close>)
qed

lemma software_returns:
  assumes "serial_ready (m_io m)" and "unat (dynamic_mem_area img) \<noteq> 0" and "unat (dynamic_mem_area img) + 1048576 < 2 ^ 32"
    and vga: "m_vga m = no_vga \<or> screen (m_vga m)" and laid: "laid F L m0 n A (m_paging m)"
  shows "returns (boot_software img m) (\<lambda>m'. heap_rep (dynamic_mem_area img) (heap_st (m_kernel m')) [Blk 1048560 False]
    \<and> fs_rep (fs_disk (k_fs (m_kernel m'))) (replicate 64 None) \<and> kbd_st (m_kernel m') = kbd_st (m_kernel m)
    \<and> laid F L (phys (m_paging m')) n A (m_paging m') \<and> phys (m_paging m') = painted (m_vga m) (phys (m_paging m)) \<and> m_vga m' = m_vga m
    \<and> m_tables m' = m_tables m \<and> serial_ready (m_io m')
    \<and> master_pic (m_io m') = master_pic (m_io m) \<and> user_heap_ptr (m_kernel m') = user_heap_ptr (m_kernel m) \<and> exit_requested (m_kernel m') = exit_requested (m_kernel m))"
proof -
  have heap: "heap_rep (dynamic_mem_area img) (init_dynamic_mem (dynamic_mem_area img) h) [Blk 1048560 False]" for h
    using assms(2,3) by (intro init_rep) auto
  let ?m2 = "painted (m_vga m) (phys (m_paging m))"
  have stored: "laid F L ?m2 n A ((m_paging m)\<lparr>phys := ?m2\<rparr>)"
    by (rule laid_outside [OF laid]) (simp add: painted_def painted_outside [OF vga])
  show ?thesis unfolding boot_software_def Let_def returns_simps
  proof (rule returns_sprint, goal_cases)
    case (3 m1)
    then have m1: "m_shell m1 = (m_shell m)\<lparr>sh_kernel := (m_kernel m)\<lparr>heap_st := init_dynamic_mem (dynamic_mem_area img) (heap_st (m_kernel m))\<rparr>\<rparr>"
      "m_tables m1 = m_tables m" "m_vga m1 = m_vga m" "serial_ready (m_io m1)" "master_pic (m_io m1) = master_pic (m_io m)"
      by (simp_all add: quiet_def with_kernel_def)
    obtain st where st: "fs_init (k_fs (m_kernel m1)) = Some st" "fs_rep (fs_disk st) (replicate 64 None)" using fs_init_rep by blast
    show ?case unfolding st(1) returns_simps
      by (intro returns_sprint)
        (use m1 st(2) heap stored in \<open>simp_all add: quiet_def with_kernel_def with_paging_def with_fs_def initShell_def painted_def\<close>)
  qed (use assms(1) in \<open>simp_all add: with_kernel_def\<close>)
qed

end
