(* ===== verification/KernelBoot.thy ===== *)
theory KernelBoot
  imports BootPhases
begin

text \<open>
  The whole boot: \<open>kernel_main\<close> reaches the shell's loop, and what it leaves is what the shell, the
  system calls and the programs start from; then a session from power-on into a user program.
\<close>

section \<open>The whole boot\<close>

text \<open>What the loader leaves: the kernel's variables with their initial values, everything else arbitrary.\<close>

definition loaded :: "machine \<Rightarrow> bool" where
  "loaded m \<longleftrightarrow> kbd_st (m_kernel m) = kbd_initial \<and> m_vga m = no_vga
     \<and> IDT (m_tables m) = replicate 256 no_gate \<and> user_heap_ptr (m_kernel m) = 0xE0000000
     \<and> exit_requested (m_kernel m) = 0 \<and> serial_ready (m_io m)"

definition area_ok :: "image \<Rightarrow> bool" where
  "area_ok img \<longleftrightarrow> unat (dynamic_mem_area img) \<noteq> 0 \<and> unat (dynamic_mem_area img) + 1048576 < 2 ^ 32"

text \<open>The state at the start of the shell's loop: \<open>t\<close> are the tables that \<open>gdt_init\<close> left, \<open>m0\<close> is the start of the
  memory, which stays but for the word at 40, where the pixel goes without a frame buffer.\<close>

definition booted :: "image \<Rightarrow> fb_info \<Rightarrow> tables \<Rightarrow> mem \<Rightarrow> machine \<Rightarrow> bool" where
  "booted img fi t m0 m \<longleftrightarrow> heap_rep (dynamic_mem_area img) (heap_st (m_kernel m)) [Blk 1048560 False]
     \<and> fs_rep (fs_disk (k_fs (m_kernel m))) (replicate 64 None) \<and> kbd_st (m_kernel m) = kbd0
     \<and> user_heap_ptr (m_kernel m) = 0xE0000000 \<and> exit_requested (m_kernel m) = 0
     \<and> laid (fb_region fi) (program_lists img) (phys (m_paging m)) 0 program_pages (m_paging m)
     \<and> (\<forall>x. 44 \<le> x \<and> x < 0x9C000 \<longrightarrow> phys (m_paging m) x = m0 x)
     \<and> m_vga m = fb_vga fi \<and> (\<exists>mem. phys (m_paging m) = painted (fb_vga fi) mem)
     \<and> (\<exists>s. m_tables m = fst (idt_init (kbd_entry img) (timer_entry img) (syscall_address img) (idt_address img) t s))
     \<and> serial_ready (m_io m) \<and> master_pic (m_io m) = \<lparr>pic_pending = 0, pic_base = 0x20, pic_mask = 0xFD\<rparr>"

lemma boot_rest:
  assumes img: "image_ok img" "area_ok img" and d: "display_ok img fi" and m: "serial_ready (m_io m)" "kbd_st (m_kernel m) = kbd_initial"
    "m_vga m = fb_vga fi" "user_heap_ptr (m_kernel m) = 0xE0000000" "exit_requested (m_kernel m) = 0"
    and h: "laid (fb_region fi) [] m0 (Suc (Suc 27)) {} (m_paging m)" and Q: "\<And>m'. booted img fi (m_tables m) m0 m' \<Longrightarrow> Q m'"
  shows "returns (boot_programs img m) (\<lambda>m1. returns (boot_hardware img m1) (\<lambda>m1. returns (boot_software img m1) Q))"
proof (rule returns_weaken [OF programs_return [OF m(1) img(1) h]], elim conjE)
  fix m5 assume "repaged m m5" and l5: "laid (fb_region fi) (program_lists img) m0 0 program_pages (m_paging m5)"
  then obtain p where m5: "m_shell m5 = (m_shell m)\<lparr>sh_kernel := (m_kernel m)\<lparr>paging_st := p\<rparr>\<rparr>" "m_tables m5 = m_tables m"
    "m_vga m5 = m_vga m" "serial_ready (m_io m5)"
    using m by (auto simp: repaged_def quiet_def with_paging_def with_kernel_def)
  show "returns (boot_hardware img m5) (\<lambda>m1. returns (boot_software img m1) Q)"
  proof (rule returns_weaken [OF hardware_returns], goal_cases)
    case (3 m6)
    then have l6: "laid (fb_region fi) (program_lists img) m0 0 program_pages (m_paging m6)" using l5 by simp
    have v6: "m_vga m6 = fb_vga fi" using 3 m5(3) m(3) by simp
    have a: "unat (dynamic_mem_area img) \<noteq> 0" "unat (dynamic_mem_area img) + 1048576 < 2 ^ 32" using img(2) by (simp_all add: area_ok_def)
    have r6: "serial_ready (m_io m6)" using 3 by simp
    have vga: "m_vga m6 = no_vga \<or> screen (m_vga m6)" using fb_vga_ok [OF d] v6 by simp
    have low: "painted (m_vga m6) (phys (m_paging m6)) x = m0 x" if "44 \<le> x" "x < 0x9C000" for x
      using painted_outside [OF vga, of x] that l6 by (simp add: painted_def laid_def)
    show ?case
    proof (rule returns_weaken [OF software_returns [OF r6 a vga l6]], goal_cases)
      case (1 m7)
      then have "booted img fi (m_tables m) m0 m7" unfolding booted_def using low v6 3 m5 m by auto
      then show ?case by (rule Q)
    qed
  qed (use m5 m in simp_all)
qed

lemma boot_returns:
  assumes "loaded m" and "image_ok img" and "area_ok img" and d: "display_ok img (fb_given mb)"
  shows "returns (boot img mb m) (\<lambda>m'. \<exists>t mem. t = gdt_init (default_tss img) ((m_tables m)\<lparr>low_mem := mem\<rparr>)
    \<and> booted img (fb_given mb) t (low_mem t) m')"
  unfolding boot_def returns_simps case_prod_beta
proof (rule returns_weaken [OF parse_fb_returns], goal_cases)
  case (2 r)
  then obtain m1 where r: "r = (fb_given mb, m1)" and m1: "quiet m m1" by (cases r) auto
  show ?case unfolding r fst_conv snd_conv
  proof (rule returns_weaken [OF display_returns], goal_cases)
    case (2 m2)
    then have m2: "m_kernel m2 = with_console (clear_screen (k_console (m_kernel m))) (m_kernel m)" "m_tables m2 = m_tables m" "m_vga m2 = m_vga m" "serial_ready (m_io m2)"
      using m1 by (simp_all add: quiet_def on_console_def)
    show ?case
    proof (rule returns_weaken [OF tables_returns [OF m2(4) assms(2)]], goal_cases)
      case (1 m3)
      then obtain t p where tp: "quiet ((with_paging p m2)\<lparr>m_tables := t\<rparr>) m3" "placed p {}"
        "t = gdt_init (default_tss img) ((m_tables m2)\<lparr>low_mem := phys (m_paging m2)\<rparr>)"
        "\<forall>x < 0x9C000. phys p x = low_mem t x" "unat (next_free_page p) + 0x3A000 \<le> 0x800000"
        "unat (next_free_page p) \<le> unat (kernel_end img) + 4095" "user_ready (phys p)" by blast
      then have m3: "m_paging m3 = p" "m_kernel m3 = (m_kernel m2)\<lparr>paging_st := p\<rparr>" "m_tables m3 = t" "m_vga m3 = m_vga m" "serial_ready (m_io m3)"
        using m2 by (simp_all add: quiet_def with_paging_def with_kernel_def)
      have base: "kbd_st (m_kernel m3) = kbd_initial" "m_vga m3 = no_vga" "user_heap_ptr (m_kernel m3) = 0xE0000000" "exit_requested (m_kernel m3) = 0"
        using m3 m2(1) assms(1) by (simp_all add: loaded_def)
      have t: "m_tables m3 = gdt_init (default_tss img) ((m_tables m)\<lparr>low_mem := phys (m_paging m2)\<rparr>)" using m3(3) tp(3) m2(2) by simp
      show ?case
      proof (rule returns_weaken [OF boot_fb_returns [OF m3(5) base(2) d, of "low_mem t"]], goal_cases)
        case (6 m4)
        then obtain q where q: "quiet ((with_paging q m3)\<lparr>m_vga := fb_vga (fb_given mb)\<rparr>) m4" "laid (fb_region (fb_given mb)) [] (low_mem t) (Suc (Suc 27)) {} q"
          by blast
        then have m4: "m_paging m4 = q" "m_kernel m4 = (m_kernel m3)\<lparr>paging_st := q\<rparr>" "m_tables m4 = t" "m_vga m4 = fb_vga (fb_given mb)" "serial_ready (m_io m4)"
          using m3 by (simp_all add: quiet_def with_paging_def with_kernel_def)
        have h: "laid (fb_region (fb_given mb)) [] (low_mem t) (Suc (Suc 27)) {} (m_paging m4)" using q(2) m4(1) by simp
        have k: "kbd_st (m_kernel m4) = kbd_initial" "user_heap_ptr (m_kernel m4) = 0xE0000000" "exit_requested (m_kernel m4) = 0"
          using base m4(2) by simp_all
        show ?case
          by (rule boot_rest [OF assms(2,3) d m4(5) k(1) m4(4) k(2,3) h]) (use t m3(3) m4(3) in auto)
      qed (use tp m3 in simp_all)
    qed
  qed (use m1 in \<open>simp add: quiet_def\<close>)
qed (use assms in \<open>simp_all add: loaded_def\<close>)


section \<open>Properties\<close>

lemma tables_after_boot:
  assumes "booted img fi t m0 m"
  shows "gdtr (m_tables m) = gdtr t"
  using assms by (auto simp: booted_def idt_init_def Let_def)

lemma booted_paging:
  assumes "booted img fi t m0 m"
  shows "placed (m_paging m) program_pages" "kernel_mapped (fb_region fi) (phys (m_paging m))"
    "\<forall>e \<in> set (program_lists img). list_at (m_paging m) program_pages e"
  using assms by (simp_all add: booted_def laid_iff)

lemma booted_ok: "booted img fi t m0 m \<Longrightarrow> kernel_ok (dynamic_mem_area img) (m_kernel m)"
  using booted_paging(1) [of img fi t m0 m] kbd0_ring by (auto simp: booted_def kernel_ok_def placed_def heap_rep_ok)

lemma booted_heap:
  assumes "booted img fi t m0 m"
  shows "heap_live (heap_st (m_kernel m)) = Map.empty" "room 1312 (heap_st (m_kernel m))"
proof -
  have r: "heap_rep (dynamic_mem_area img) (heap_st (m_kernel m)) [Blk 1048560 False]" using assms by (simp add: booted_def)
  show "heap_live (heap_st (m_kernel m)) = Map.empty" using heap_live_rep [OF r] by (auto simp: fun_eq_iff)
  show "room 1312 (heap_st (m_kernel m))" using heap_blocks_rep [OF r] by (simp add: room_def candidate_def)
qed

text \<open>
  C11. The boot returns, with or without a frame buffer, and the shell's loop starts in a state with the kernel's whole invariant: an
  initialised heap with nothing live in it, an empty directory on a consistent disk, an empty key
  ring, page tables in order, and the first 8 MB mapped to themselves for the kernel only.
\<close>
theorem kernel_boots:
  assumes "loaded m" and "image_ok img" and "area_ok img" and "display_ok img (fb_given mb)"
  shows "\<exists>m'. boot img mb m = Some m' \<and> kernel_ok (dynamic_mem_area img) (m_kernel m') \<and> kernel_window (m_paging m')
    \<and> heap_live (heap_st (m_kernel m')) = Map.empty \<and> fs_rep (fs_disk (k_fs (m_kernel m'))) (replicate 64 None)
    \<and> ring_contents (kbd_st (m_kernel m')) = [] \<and> user_heap_ptr (m_kernel m') = 0xE0000000"
proof -
  obtain m' t mem where m': "boot img mb m = Some m'" "booted img (fb_given mb) t mem m'"
    using boot_returns [OF assms] by (auto simp: returns_def)
  then show ?thesis using booted_ok [OF m'(2)] booted_heap(1) [OF m'(2)] booted_paging(1) [OF m'(2)] kbd0_ring
    by (intro exI [of _ m']) (simp add: booted_def placed_def)
qed

text \<open>
  C14. After the boot the three programs stand where the jumps to user mode go, followed by zeros up to the
  end of their pages; user mode may use these pages, their stacks and the shared page, and no two of
  their addresses share a byte of memory.
\<close>
theorem programs_loaded:
  assumes "loaded m" and "image_ok img" and "area_ok img" and "display_ok img (fb_given mb)"
  shows "\<exists>m'. boot img mb m = Some m' \<and> (\<forall>v \<in> program_pages. user_page (phys (m_paging m')) v)
    \<and> inj_on (page_walk (phys (m_paging m'))) program_pages
    \<and> (\<forall>(a, bs) \<in> set (program_lists img). \<forall>i < length bs. user_view (m_paging m') (a + i) = bs ! i)"
proof -
  obtain m' t mem where m': "boot img mb m = Some m'" "booted img (fb_given mb) t mem m'"
    using boot_returns [OF assms] by (auto simp: returns_def)
  then show ?thesis using booted_paging(1,3) [OF m'(2)] by (intro exI [of _ m']) (auto simp: placed_def list_at_def)
qed

text \<open>
  C37. After the boot the timer has a gate and is programmed, but its interrupt line is masked: the
  keyboard driver, initialised after the timer was unmasked, sets the mask to \<open>0xFD\<close>.  No tick is counted.
\<close>
theorem timer_masked:
  assumes "loaded m" and "image_ok img" and "area_ok img" and "display_ok img (fb_given mb)"
  shows "\<exists>m'. boot img mb m = Some m' \<and> bit (pic_mask (master_pic (m_io m'))) 0 \<and> \<not> bit (pic_mask (master_pic (m_io m'))) 1
    \<and> pic_base (master_pic (m_io m')) = 0x20"
proof -
  obtain m' t mem where m': "boot img mb m = Some m'" "booted img (fb_given mb) t mem m'"
    using boot_returns [OF assms] by (auto simp: returns_def)
  have "bit (0xFD :: u8) 0" "\<not> bit (0xFD :: u8) 1" by (simp_all add: bit_iff_odd_drop_bit)
  then show ?thesis using m' by (intro exI [of _ m']) (simp add: booted_def)
qed


text \<open>
  C39. With a frame buffer, which the multiboot header asks for: after the boot every address of it
  translates to itself, for the kernel only, and its pixels are red but for the white one in row 10,
  column 10.
\<close>
theorem frame_buffer_shown:
  assumes "loaded m" and "image_ok img" and "area_ok img" and "display_ok img (fb_given mb)" and "fb_phys_addr (fb_given mb) \<noteq> 0"
  shows "\<exists>m'. boot img mb m = Some m' \<and> m_vga m' = fb_vga (fb_given mb)
    \<and> (\<forall>w \<in> fb_region (fb_given mb). page_walk (phys (m_paging m')) w = Some w \<and> \<not> user_page (phys (m_paging m')) w)
    \<and> (\<forall>i < pixels (m_vga m'). pixel (m_vga m') (phys (m_paging m')) i
         = (if i = 10 * (unat (fb_pitch (m_vga m')) div 4) + 10 then 0x00FFFFFF else 0x00FF0000))"
proof -
  obtain m' t mem where m': "boot img mb m = Some m'" "booted img (fb_given mb) t mem m'"
    using boot_returns [OF assms(1-4)] by (auto simp: returns_def)
  have v: "m_vga m' = fb_vga (fb_given mb)" "fb (fb_vga (fb_given mb)) = fb_phys_addr (fb_given mb)"
    using m'(2) assms(5) by (simp_all add: booted_def fb_vga_def)
  have "screen (fb_vga (fb_given mb))" using fb_vga_ok [OF assms(4)] v(2) assms(5) by (auto simp: no_vga_def)
  moreover obtain before where "phys (m_paging m') = painted (fb_vga (fb_given mb)) before" using m'(2) by (auto simp: booted_def)
  ultimately show ?thesis using m'(1) v booted_paging(2) [OF m'(2)] painted_pixels
    by (intro exI [of _ m']) (simp add: kernel_mapped_def)
qed

section \<open>A session\<close>

lemma live_used: "b \<in> set bs \<Longrightarrow> bused b \<Longrightarrow> \<exists>p. live_from a bs p \<noteq> None"
proof (induction bs arbitrary: a)
  case (Cons c bs)
  show ?case
  proof (cases "bused c")
    case True
    then show ?thesis by (intro exI [of _ "a + 16"]) simp
  next
    case False
    then have "b \<in> set bs" using Cons.prems by auto
    then obtain p s where p: "live_from (a + (16 + bsize c)) bs p = Some s" using Cons.IH Cons.prems(2) by blast
    then have "p \<noteq> a + 16" using live_range [OF p] by auto
    then show ?thesis using p by (intro exI [of _ p]) simp
  qed
qed simp

lemma empty_heap_room:
  assumes "heap_ok area h" and "heap_live h = Map.empty"
  shows "room 1312 h"
proof -
  have r: "heap_rep area h (heap_blocks h)" using assms(1) by (simp add: heap_ok_def)
  have free: "\<not> bused b" if "b \<in> set (heap_blocks h)" for b
    using live_used [OF that, of "unat area"] unfolding heap_live_rep [OF r, symmetric] assms(2) by blast
  obtain b bs where bs: "heap_blocks h = b # bs" using heap_repD(4) [OF r] by (cases "heap_blocks h") auto
  have "bs = []" using heap_repD(6) [OF r] free by (cases bs) (auto simp: bs)
  then show ?thesis using heap_repD(5) [OF r] free [of b] by (simp add: room_def candidate_def bs)
qed

lemma lsh_loop_lines:
  "heap_ok area (sh_heap s) \<Longrightarrow> heap_live (sh_heap s) = Map.empty \<Longrightarrow> fs_rep (fs_disk (k_fs (sh_kernel s))) dir
    \<Longrightarrow> \<forall>ks \<in> set lines. file_line ks
    \<Longrightarrow> \<exists>s'. lsh_loop area (concat (List.map (\<lambda>ks. ks @ [10]) lines) @ rest) s = lsh_loop area rest s'
      \<and> heap_ok area (sh_heap s') \<and> heap_live (sh_heap s') = Map.empty
      \<and> fs_rep (fs_disk (k_fs (sh_kernel s'))) (fold (\<lambda>ks. file_effect (words (typed ks))) lines dir)
      \<and> paging_st (sh_kernel s') = paging_st (sh_kernel s) \<and> exit_requested (sh_kernel s') = exit_requested (sh_kernel s)
      \<and> kbd_st (sh_kernel s') = kbd_st (sh_kernel s)"
proof (induction lines arbitrary: s dir)
  case Nil
  then show ?case by auto
next
  case (Cons ks lines)
  let ?rest = "concat (List.map (\<lambda>ks. ks @ [10]) lines) @ rest"
  have ks: "file_line ks" "\<forall>ks \<in> set lines. file_line ks" using Cons.prems(4) by auto
  obtain s1 where s1: "lsh_iteration area (ks @ 10 # ?rest) s = Some (Status 1, ?rest, s1)"
    "fs_rep (fs_disk (k_fs (sh_kernel s1))) (file_effect (words (typed ks)) dir)" "paging_st (sh_kernel s1) = paging_st (sh_kernel s)"
    "exit_requested (sh_kernel s1) = exit_requested (sh_kernel s)" "kbd_st (sh_kernel s1) = kbd_st (sh_kernel s)"
    using file_line_run [OF Cons.prems(1) empty_heap_room [OF Cons.prems(1,2)] ks(1) Cons.prems(3), of ?rest] by blast
  have h1: "heap_ok area (sh_heap s1)" "heap_live (sh_heap s1) = Map.empty"
    using iteration_keeps_heap [OF Cons.prems(1) _ _ _ s1(1)] ks(1) Cons.prems(2) by (simp_all add: file_line_def short_line_def)
  have "lsh_loop area (ks @ 10 # ?rest) s = lsh_loop area ?rest s1"
    using s1(1) by (subst lsh_loop.simps) (simp add: goes_on_def)
  then show ?case using Cons.IH [OF h1 s1(2) ks(2)] s1(3-5) by auto
qed

lemma session_run:
  assumes "loaded m" and "image_ok img" and "area_ok img" and "display_ok img (fb_given mb)"
    and lines: "\<forall>ks \<in> set lines. file_line ks"
    and bye: "short_line bye" "words (typed bye) = [w]" "builtin w = (\<lambda>args ks s. Some (In_user_mode e, ks, s))"
  shows "\<exists>m'. kernel_main img mb (concat (List.map (\<lambda>ks. ks @ [10]) lines) @ bye @ [10]) m = Some (In_user_mode e, m')
    \<and> fs_rep (fs_disk (k_fs (m_kernel m'))) (fold (\<lambda>ks. file_effect (words (typed ks))) lines (replicate 64 None))
    \<and> placed (m_paging m') program_pages \<and> exit_requested (m_kernel m') = 0 \<and> kbd_st (m_kernel m') = kbd0
    \<and> (\<forall>i < length (user_flat img). user_view (m_paging m') (0xA0000000 + i) = user_flat img ! i)"
proof -
  let ?area = "dynamic_mem_area img" and ?keys = "concat (List.map (\<lambda>ks. ks @ [10]) lines) @ bye @ [10]"
  obtain m1 t mem where m1: "boot img mb m = Some m1" "booted img (fb_given mb) t mem m1"
    using boot_returns [OF assms(1-4)] by (auto simp: returns_def)
  have h1: "heap_ok ?area (sh_heap (m_shell m1))" using booted_ok [OF m1(2)] by (simp add: kernel_ok_def)
  have b: "fs_rep (fs_disk (k_fs (m_kernel m1))) (replicate 64 None)" "kbd_st (m_kernel m1) = kbd0" "exit_requested (m_kernel m1) = 0"
    using m1(2) by (simp_all add: booted_def)
  obtain s2 where s2: "lsh_loop ?area ?keys (m_shell m1) = lsh_loop ?area (bye @ [10]) s2" "heap_ok ?area (sh_heap s2)" "heap_live (sh_heap s2) = Map.empty"
    "fs_rep (fs_disk (k_fs (sh_kernel s2))) (fold (\<lambda>ks. file_effect (words (typed ks))) lines (replicate 64 None))"
    "paging_st (sh_kernel s2) = m_paging m1" "exit_requested (sh_kernel s2) = 0" "kbd_st (sh_kernel s2) = kbd0"
    using lsh_loop_lines [OF h1 booted_heap(1) [OF m1(2)] b(1) lines, of "bye @ [10]"] b(2,3) by auto
  have bks: "short 1024 [] bye" "10 \<notin> set bye" "-1 \<notin> set bye" "0 \<notin> set (typed bye)" using bye(1) by (simp_all add: short_line_def)
  obtain s3 where s3: "lsh_iteration ?area (bye @ 10 # []) s2 = Some (In_user_mode e, [], s3)" "rest_of s3 = rest_of s2"
    using enter_run [OF s2(2) empty_heap_room [OF s2(2,3)] bks bye(2,3), of "[]"] by blast
  have "lsh_loop ?area (bye @ [10]) s2 = Some (In_user_mode e, [], s3)"
    using s3(1) by (subst lsh_loop.simps) (simp add: goes_on_def)
  then have main: "kernel_main img mb ?keys m = Some (In_user_mode e, m1\<lparr>m_shell := s3\<rparr>)"
    unfolding kernel_main_def using m1(1) s2(1) by simp
  have same: "fs_disk (k_fs (sh_kernel s3)) = fs_disk (k_fs (sh_kernel s2))" "paging_st (sh_kernel s3) = m_paging m1"
    "exit_requested (sh_kernel s3) = 0" "kbd_st (sh_kernel s3) = kbd0"
    using rest_of_disk [OF s3(2)] rest_of_paging [OF s3(2)] s2(5-7) by simp_all
  have "list_at (m_paging m1) program_pages (0xA0000000, user_flat img)"
    using booted_paging(3) [OF m1(2)] by (simp add: program_lists_def)
  then show ?thesis using main s2(4) booted_paging(1) [OF m1(2)]
    by (intro exI [of _ "m1\<lparr>m_shell := s3\<rparr>"]) (simp add: same list_at_def)
qed

lemma ring3_session:
  assumes "loaded m" and "image_ok img" and "area_ok img" and "display_ok img (fb_given mb)"
    and ks: "short 1024 [] ks" "10 \<notin> set ks" "-1 \<notin> set ks" "0 \<notin> set (typed ks)" "words (typed ks) = [lit ''touch'', name]"
  shows "\<exists>m'. kernel_main img mb (ks @ 10 # keys ''ring3'' @ [10]) m = Some (In_user_mode jump_to_userspace, m')
    \<and> fs_rep (fs_disk (k_fs (m_kernel m'))) (snd (dir_create name (replicate 64 None)))
    \<and> placed (m_paging m') program_pages \<and> exit_requested (m_kernel m') = 0
    \<and> (\<forall>i < length (user_flat img). user_view (m_paging m') (0xA0000000 + i) = user_flat img ! i)"
proof -
  have line: "\<forall>ks \<in> set [ks]. file_line ks" using ks by (simp add: file_line_def short_line_def)
  have bye: "short_line (keys ''ring3'')" using ring3_line by (simp add: short_line_def)
  have eff: "fold (\<lambda>ks. file_effect (words (typed ks))) [ks] d = snd (dir_create name d)" for d
    using ks(5) by (simp add: file_effect_def)
  from session_run [OF assms(1-4) line bye ring3_line(4) enter_builtins(1)] show ?thesis unfolding eff by auto
qed

text \<open>
  From power-on to a user program: after the boot a typed \<open>touch\<close> creates the file, \<open>ring3\<close> hands the
  processor to the test program, and at that moment the program's bytes stand at the entry page, its
  stack page is there, both usable in user mode, and the file is in the directory.
\<close>
theorem boot_session:
  assumes "loaded m" and "image_ok img" and "area_ok img" and "display_ok img (fb_given mb)"
    and ks: "short 1024 [] ks" "10 \<notin> set ks" "-1 \<notin> set ks" "0 \<notin> set (typed ks)" "words (typed ks) = [lit ''touch'', name]"
  shows "\<exists>m'. kernel_main img mb (ks @ 10 # keys ''ring3'' @ [10]) m = Some (In_user_mode jump_to_userspace, m')
    \<and> fs_rep (fs_disk (k_fs (m_kernel m'))) (snd (dir_create name (replicate 64 None)))
    \<and> (\<forall>v \<in> program_pages. user_page (phys (m_paging m')) v)
    \<and> (\<forall>i < length (user_flat img). user_view (m_paging m') (0xA0000000 + i) = user_flat img ! i)"
  using ring3_session [OF assms] by (auto simp: placed_def)

section \<open>A machine to boot\<close>

definition demo_image :: image where
  "demo_image = \<lparr>kernel_end = 0x1FF234, default_tss = 0x105000, kbd_entry = 0x100100, timer_entry = 0x100200,
     syscall_address = 0x100300, idt_address = 0x106000, dynamic_mem_area = 0x107000,
     user_flat = [0x90, 0xEB], editor_flat = [1, 2, 3], shell_flat = [4]\<rparr>"

definition demo_machine :: machine where
  "demo_machine = \<lparr>m_shell = (demo_shell undefined)\<lparr>sh_kernel := (demo_kernel undefined)\<lparr>kbd_st := kbd_initial\<rparr>\<rparr>,
     m_io = ready_io, m_tables = (undefined :: tables)\<lparr>IDT := replicate 256 no_gate\<rparr>,
     m_vga = \<lparr>fb = 0, fb_pitch = 0, fb_width = 0, fb_height = 0\<rparr>\<rparr>"

lemma demo_boot: "loaded demo_machine" "image_ok demo_image" "area_ok demo_image" "display_ok img (fb_given None)"
  by (simp_all add: loaded_def demo_machine_def demo_kernel_def ready_io image_ok_def demo_image_def area_ok_def display_ok_def fb_given_def no_fb_def no_vga_def)

theorem kernel_boots_witness:
  "\<exists>m'. boot demo_image None demo_machine = Some m' \<and> kernel_ok 0x107000 (m_kernel m')"
  using kernel_boots [OF demo_boot] by (auto simp: demo_image_def)

definition demo_multiboot :: multiboot_info where
  "demo_multiboot = \<lparr>mb_flags = 0x1000, framebuffer_addr = 0xFD000000, framebuffer_pitch = 2560, framebuffer_width = 640,
     framebuffer_height = 480, framebuffer_bpp = 32\<rparr>"

lemma demo_display:
  "fb_given (Some demo_multiboot) = \<lparr>fb_phys_addr = 0xFD000000, screen_pitch = 2560, screen_width = 640, screen_height = 480, fb_bpp = 32\<rparr>"
  "display_ok demo_image (fb_given (Some demo_multiboot))"
proof -
  show given: "fb_given (Some demo_multiboot)
    = \<lparr>fb_phys_addr = 0xFD000000, screen_pitch = 2560, screen_width = 640, screen_height = 480, fb_bpp = 32\<rparr>"
    by (simp add: fb_given_def demo_multiboot_def)
  have "dir_index v \<noteq> dir_index w" if v: "v \<in> program_pages" and w: "w \<in> region 0xFD000000 0x12C000" for v w
  proof -
    have "unat v \<le> 0xF0001000" using v by (auto simp: program_pages_def region_def)
    then have "dir_index v \<le> 960" using div_le_mono [of "unat v" "0xF0001000" "2 ^ 22"] by (simp add: dir_index_nat)
    moreover have "1012 \<le> dir_index w" using w div_le_mono [of "0xFD000000" "unat w" "2 ^ 22"] by (simp add: region_def dir_index_nat)
    ultimately show ?thesis by simp
  qed
  then show "display_ok demo_image (fb_given (Some demo_multiboot))"
    by (simp add: given display_ok_def fb_region_def fb_pages_def fb_size_def aligned_iff demo_image_def)
qed

theorem frame_buffer_shown_witness:
  "\<exists>m'. boot demo_image (Some demo_multiboot) demo_machine = Some m'
    \<and> pixel (m_vga m') (phys (m_paging m')) 0 = 0x00FF0000 \<and> page_walk (phys (m_paging m')) 0xFD000000 = Some 0xFD000000"
proof -
  have at: "fb_phys_addr (fb_given (Some demo_multiboot)) \<noteq> 0" by (simp add: demo_display(1))
  have "fb_vga (fb_given (Some demo_multiboot)) = \<lparr>fb = 0xFD000000, fb_pitch = 2560, fb_width = 640, fb_height = 480\<rparr>"
    by (simp add: fb_vga_def demo_display(1))
  moreover have "0xFD000000 \<in> fb_region (fb_given (Some demo_multiboot))"
    by (simp add: fb_region_def fb_pages_def fb_size_def demo_display(1) region_def)
  ultimately show ?thesis using frame_buffer_shown [OF demo_boot(1-3) demo_display(2) at] by (auto simp: pixels_def)
qed

theorem programs_loaded_witness:
  "\<exists>m'. boot demo_image None demo_machine = Some m' \<and> user_view (m_paging m') 0xA0000001 = 0xEB"
proof -
  have "(0xA0000000, [0x90, 0xEB]) \<in> set (program_lists demo_image)" by (simp add: program_lists_def demo_image_def)
  then show ?thesis using programs_loaded [OF demo_boot] by (fastforce dest: bspec spec [of _ 1])
qed

theorem timer_masked_witness:
  "\<exists>m'. boot demo_image None demo_machine = Some m' \<and> bit (pic_mask (master_pic (m_io m'))) 0"
  using timer_masked [OF demo_boot] by blast

theorem boot_session_witness:
  "\<exists>m'. kernel_main demo_image None (keys ''touch a'' @ 10 # keys ''ring3'' @ [10]) demo_machine = Some (In_user_mode jump_to_userspace, m')
    \<and> fs_rep (fs_disk (k_fs (m_kernel m'))) (snd (dir_create (lit ''a'') (replicate 64 None)))
    \<and> user_view (m_paging m') 0xA0000000 = 0x90"
  using boot_session [OF demo_boot touch_line(3,1,2,5,4)] by (auto simp: demo_image_def)

end
