(* ===== verification/UserCorrect.thy ===== *)
theory UserCorrect
  imports UserLib KernelBoot
begin

text \<open>
  The programs' library over the kernel: the system call gate hands over the registers the wrappers
  set and keeps the others, what \<open>write\<close> sends arrives on the screen byte by byte, \<open>read\<close> takes one line
  from the key ring, and a program's name for the editor arrives in the shared page.
\<close>

section \<open>The gate\<close>


lemma syscall3_unfold:
  "syscall3 num a1 a2 a3 k =
     (case syscall_dispatch num a1 a2 a3 k of
        None \<Rightarrow> None
      | Some (Enters entry stack, k1) \<Rightarrow> Some (Inl (To_program entry stack), k1)
      | Some (Returns v, k1) \<Rightarrow>
          if exit_requested k1 = 0 then Some (Inr v, k1) else Some (Inl To_shell, k1\<lparr>exit_requested := 0\<rparr>))"
  by (simp add: syscall3_def syscall_handler_def pusha_def popa_def other_regs_def Let_def split: option.split outcome.split)

section \<open>Output\<close>

lemma kprintf_string:
  assumes "cstr p t"
  shows "kprintf (lit ''%s'') [AStr p] c = Some (show_bytes t c)"
proof -
  have f: "lit ''%s'' = [chr CHR ''%'', chr CHR ''s'']" by simp
  have conv: "kprintf_conv (chr CHR ''s'') [AStr p] c = Some ([], show_bytes t c)"
    using put_str_cstr [of p 0 t c] assms by (simp add: kprintf_conv_def fmt_chars)
  have pp: "parse_precision [chr CHR ''s''] [AStr p] = Some (-1, [chr CHR ''s''], [AStr p])"
    by (rule plain_no_precision) (simp add: fmt_chars)
  show ?thesis unfolding f by (simp add: percent_newline pp conv)
qed

text \<open>Only the console and the bytes of user memory differ.\<close>

definition same_kernel :: "kernel \<Rightarrow> kernel \<Rightarrow> bool" where
  "same_kernel k k' \<longleftrightarrow> heap_st k' = heap_st k \<and> fs_disk (k_fs k') = fs_disk (k_fs k) \<and> kbd_st k' = kbd_st k
     \<and> exit_requested k' = exit_requested k \<and> user_heap_ptr k' = user_heap_ptr k \<and> next_free_page (paging_st k') = next_free_page (paging_st k)"

lemma ustore_spec:
  assumes "placed (paging_st k) A" and "a \<in> A"
  shows "placed (paging_st (ustore a b k)) A" and "same_kernel k (ustore a b k)" and "k_console (ustore a b k) = k_console k"
    and "w \<in> A \<Longrightarrow> uread w (ustore a b k) = (if w = a then b else uread w k)"
proof -
  obtain p' where p': "write_virt a b (paging_st k) = Some p'" "placed p' A" "next_free_page p' = next_free_page (paging_st k)"
    "\<forall>w\<in>A. user_view p' (unat w) = (if w = a then b else user_view (paging_st k) (unat w))"
    using placed_store [OF assms, of b] by blast
  have "store_byte a b (paging_st k) = p'" using p'(1) by (auto simp: write_virt_def store_byte_def split: option.splits)
  then have u: "ustore a b k = k\<lparr>paging_st := p'\<rparr>" by (simp add: ustore_def)
  show "placed (paging_st (ustore a b k)) A" "same_kernel k (ustore a b k)" "k_console (ustore a b k) = k_console k"
    "w \<in> A \<Longrightarrow> uread w (ustore a b k) = (if w = a then b else uread w k)"
    using p'(2-4) by (simp_all add: u same_kernel_def uread_def)
qed

lemma same_kernel_trans: "same_kernel k k' \<Longrightarrow> same_kernel k' k'' \<Longrightarrow> same_kernel k k''"
  by (simp add: same_kernel_def)

lemma uread_console [simp]: "uread a (with_console c k) = uread a k"
  by (simp add: uread_def)

lemma print_call:
  assumes "cstr (user_ptr (paging_st k) s) t" and "exit_requested k = 0"
  shows "syscall3 1 s x y k = Some (Inr 0, with_console (show_bytes t (k_console k)) k)"
  using assms kprintf_string [OF assms(1), of "k_console k"]
  by (simp add: syscall3_unfold syscall_dispatch_def Let_def k_say_def)

lemma write_loop_spec:
  assumes "placed (paging_st k) A" and "exit_requested k = 0" and "tmp \<in> A" "tmp + 1 \<in> A"
    and "\<forall>i < length t. buf + of_nat i \<in> A - {tmp, tmp + 1} \<and> uread (buf + of_nat i) k = t ! i" and "0 \<notin> set t"
  shows "\<exists>k'. write_loop tmp buf (length t) k = Some (Inr (), k') \<and> k_console k' = show_bytes t (k_console k)
    \<and> same_kernel k k' \<and> placed (paging_st k') A \<and> (\<forall>w \<in> A - {tmp, tmp + 1}. uread w k' = uread w k)"
  using assms
proof (induction t arbitrary: buf k)
  case Nil
  then show ?case by (simp add: ureturn_def same_kernel_def)
next
  case (Cons b t)
  have b: "uread buf k = b" "b \<noteq> 0" using Cons.prems(5,6) by (auto dest: spec [of _ 0])
  let ?k1 = "ustore tmp b k" and ?k2 = "ustore (tmp + 1) 0 (ustore tmp b k)"
  note s1 = ustore_spec [where b = b, OF Cons.prems(1,3)]
  note s2 = ustore_spec [where b = 0, OF s1(1) Cons.prems(4)]
  have ne: "tmp + 1 \<noteq> tmp" by simp
  have "cstr (user_ptr (paging_st ?k2) tmp) [b]"
    using s1(4) [of tmp] s2(4) [of tmp] s2(4) [of "tmp + 1"] Cons.prems(3,4) ne b(2)
    by (simp add: cstr_def user_ptr_def uread_def)
  moreover have "exit_requested ?k2 = 0" using s1(2) s2(2) Cons.prems(2) by (simp add: same_kernel_def)
  ultimately have call: "syscall3 1 tmp 0 0 ?k2 = Some (Inr 0, with_console (show_bytes [b] (k_console k)) ?k2)"
    using print_call [of ?k2 tmp "[b]" 0 0] s1(3) s2(3) by simp
  let ?k3 = "with_console (show_bytes [b] (k_console k)) ?k2"
  have k3: "placed (paging_st ?k3) A" "exit_requested ?k3 = 0" "same_kernel k ?k3" "\<forall>w \<in> A - {tmp, tmp + 1}. uread w ?k3 = uread w k"
    using s1 s2 Cons.prems(2) by (auto simp: same_kernel_def)
  have rest: "\<forall>i < length t. buf + 1 + of_nat i \<in> A - {tmp, tmp + 1} \<and> uread (buf + 1 + of_nat i) ?k3 = t ! i"
  proof (intro allI impI)
    fix i assume "i < length t"
    then have "buf + of_nat (Suc i) \<in> A - {tmp, tmp + 1} \<and> uread (buf + of_nat (Suc i)) k = t ! i" using Cons.prems(5) by fastforce
    then show "buf + 1 + of_nat i \<in> A - {tmp, tmp + 1} \<and> uread (buf + 1 + of_nat i) ?k3 = t ! i"
      using k3(4) by (simp add: add.assoc)
  qed
  have "0 \<notin> set t" using Cons.prems(6) by simp
  from Cons.IH [OF k3(1,2) Cons.prems(3,4) rest this] obtain k' where k': "write_loop tmp (buf + 1) (length t) ?k3 = Some (Inr (), k')"
    "k_console k' = show_bytes t (k_console ?k3)" "same_kernel ?k3 k'" "placed (paging_st k') A" "\<forall>w \<in> A - {tmp, tmp + 1}. uread w k' = uread w ?k3"
    by blast
  have "write_loop tmp buf (length (b # t)) k = Some (Inr (), k')"
    using call k'(1) by (simp add: b(1) uthen_def SYS_PRINT_def)
  then show ?case using k'(2-5) k3(3,4) same_kernel_trans by (intro exI [of _ k']) auto
qed



section \<open>Input\<close>

lemma getchar_call:
  assumes "ring_ok (kbd_st k)" and "ring_contents (kbd_st k) = c # cs" and "exit_requested k = 0"
  shows "\<exists>kb. syscall3 2 x y z k = Some (Inr c, k\<lparr>kbd_st := kb\<rparr>) \<and> ring_ok kb \<and> ring_contents kb = cs"
proof -
  obtain kb where "kbd_getchar (kbd_st k) = Some (c, kb)" "ring_ok kb" "ring_contents kb = cs" using pop_ok [OF assms(1,2)] by blast
  then show ?thesis using assms(3) by (intro exI [of _ kb]) (simp add: syscall3_unfold syscall_dispatch_def Let_def)
qed

lemma read_loop_spec:
  assumes "placed (paging_st k) A" and "exit_requested k = 0" and "ring_ok (kbd_st k)" and "ring_contents (kbd_st k) = cs @ 10 # rest"
    and "\<forall>c \<in> set cs. (ucast c :: u8) \<noteq> 10" and "length cs < n" and "\<forall>j \<le> length cs. buf + i + of_nat j \<in> A" and "length cs < 2 ^ 31"
  shows "\<exists>k'. read_loop buf i n k = Some (Inr (i + of_nat (Suc (length cs))), k') \<and> placed (paging_st k') A
    \<and> ring_ok (kbd_st k') \<and> ring_contents (kbd_st k') = rest \<and> k_console k' = k_console k
    \<and> (\<forall>w \<in> A. uread w k' = (if unat (w - (buf + i)) < Suc (length cs) then (List.map ucast cs @ [10]) ! unat (w - (buf + i)) else uread w k))"
  using assms
proof (induction cs arbitrary: i n k)
  case Nil
  obtain m where n: "n = Suc m" using Nil.prems(6) by (cases n) auto
  obtain kb where kb: "syscall3 2 0 0 0 k = Some (Inr 10, k\<lparr>kbd_st := kb\<rparr>)" "ring_ok kb" "ring_contents kb = rest"
    using getchar_call [OF Nil.prems(3)] Nil.prems(2,4) by fastforce
  have pl: "placed (paging_st (k\<lparr>kbd_st := kb\<rparr>)) A" and at: "buf + i \<in> A" using Nil.prems(1,7) by simp_all
  note st = ustore_spec [where b = 10, OF pl at]
  have again: "uread (buf + i) (ustore (buf + i) 10 (k\<lparr>kbd_st := kb\<rparr>)) = 10" using st(4) [OF at] by simp
  have "unat (w - (buf + i)) = 0 \<longleftrightarrow> w = buf + i" for w by (simp add: unat_eq_0)
  then show ?case using kb st again by (simp add: n uthen_def SYS_GETCHAR_def chr_def ureturn_def same_kernel_def uread_def)
next
  case (Cons c cs)
  obtain m where n: "n = Suc m" using Cons.prems(6) by (cases n) auto
  obtain kb where kb: "syscall3 2 0 0 0 k = Some (Inr c, k\<lparr>kbd_st := kb\<rparr>)" "ring_ok kb" "ring_contents kb = cs @ 10 # rest"
    using getchar_call [OF Cons.prems(3), of c "cs @ 10 # rest"] Cons.prems(2,4) by fastforce
  have pl: "placed (paging_st (k\<lparr>kbd_st := kb\<rparr>)) A" and at: "buf + i \<in> A" using Cons.prems(1,7) by (auto dest: spec [of _ 0])
  note st = ustore_spec [where b = "ucast c", OF pl at]
  let ?k1 = "ustore (buf + i) (ucast c) (k\<lparr>kbd_st := kb\<rparr>)"
  have again: "uread (buf + i) ?k1 = ucast c" using st(4) [OF at] by simp
  have in_A: "\<forall>j \<le> length cs. buf + (i + 1) + of_nat j \<in> A"
  proof (intro allI impI)
    fix j assume "j \<le> length cs"
    then show "buf + (i + 1) + of_nat j \<in> A" using Cons.prems(7) [rule_format, of "Suc j"] by (simp add: add.assoc)
  qed
  have k1: "exit_requested ?k1 = 0" "kbd_st ?k1 = kb" "k_console ?k1 = k_console k" using st(2,3) Cons.prems(2) by (simp_all add: same_kernel_def)
  obtain k' where k': "read_loop buf (i + 1) m ?k1 = Some (Inr (i + 1 + of_nat (Suc (length cs))), k')" "placed (paging_st k') A"
    "ring_ok (kbd_st k')" "ring_contents (kbd_st k') = rest" "k_console k' = k_console ?k1"
    "\<forall>w \<in> A. uread w k' = (if unat (w - (buf + (i + 1))) < Suc (length cs) then (List.map ucast cs @ [10]) ! unat (w - (buf + (i + 1))) else uread w ?k1)"
    using Cons.IH [OF st(1) k1(1), of m "i + 1"] kb(2,3) k1(2) Cons.prems(5,6,8) in_A n by auto
  have "uread w k' = (if unat (w - (buf + i)) < Suc (length (c # cs)) then (List.map ucast (c # cs) @ [10]) ! unat (w - (buf + i)) else uread w k)"
    if w: "w \<in> A" for w
  proof (cases "w = buf + i")
    case True
    have "unat (w - (buf + (i + 1))) = 2 ^ 32 - 1" using unat_offset_self [of "buf + i"] by (simp add: True add.assoc)
    then show ?thesis using k'(6) w st(4) [OF w] Cons.prems(8) True by simp
  next
    case False
    then show ?thesis using k'(6) w st(4) [OF w] unat_offset_Suc [OF False] by (simp add: add.assoc uread_def)
  qed
  then show ?case using kb(1) k' k1(3) Cons.prems(5) again
    by (intro exI [of _ k']) (simp add: n uthen_def SYS_GETCHAR_def chr_def add.assoc)
qed



section \<open>Starting the editor\<close>

lemma share_loop_spec:
  assumes "placed (paging_st k) A" and "0 \<notin> set t" and "length t < 2 ^ 31"
    and "\<forall>j \<le> length t. s + of_nat j \<in> A \<and> uread (s + of_nat j) k = (t @ [0]) ! j"
    and "\<forall>j \<le> length t. SHED_SHARED_MEM + i + of_nat j \<in> A"
    and "\<forall>j \<le> length t. \<forall>l \<le> length t. s + of_nat j \<noteq> SHED_SHARED_MEM + i + of_nat l"
  shows "\<exists>k'. share_loop s i k = Some (i + of_nat (length t), k') \<and> placed (paging_st k') A \<and> same_kernel k k' \<and> k_console k' = k_console k
    \<and> (\<forall>w \<in> A. uread w k' = (if unat (w - (SHED_SHARED_MEM + i)) < length t then t ! unat (w - (SHED_SHARED_MEM + i)) else uread w k))"
  using assms
proof (induction t arbitrary: s i k)
  case Nil
  then have "uread s k = 0" by simp
  then show ?case using Nil.prems(1) by (subst share_loop.simps) (simp add: same_kernel_def)
next
  case (Cons b t)
  have b: "uread s k = b" "b \<noteq> 0" using Cons.prems(2,4) by (auto dest: spec [of _ 0])
  let ?d = "SHED_SHARED_MEM + i"
  have at: "?d \<in> A" using Cons.prems(5) by (auto dest: spec [of _ 0])
  note st = ustore_spec [where b = b, OF Cons.prems(1) at]
  let ?k1 = "ustore ?d b k"
  have here: "s + 1 + of_nat j \<in> A \<and> uread (s + 1 + of_nat j) ?k1 = (t @ [0]) ! j \<and> ?d + 1 + of_nat j \<in> A
      \<and> (\<forall>l \<le> length t. s + 1 + of_nat j \<noteq> ?d + 1 + of_nat l)" if j: "j \<le> length t" for j
  proof -
    have j1: "Suc j \<le> length (b # t)" using j by simp
    have A: "s + of_nat (Suc j) \<in> A" "uread (s + of_nat (Suc j)) k = (t @ [0]) ! j" "?d + of_nat (Suc j) \<in> A"
      using Cons.prems(4,5) j1 by auto
    have ne: "s + of_nat (Suc j) \<noteq> ?d + of_nat l" if "l \<le> length (b # t)" for l using Cons.prems(6) j1 that by blast
    have "uread (s + of_nat (Suc j)) ?k1 = (t @ [0]) ! j" using st(4) [OF A(1)] ne [of 0] A(2) by simp
    moreover have "s + of_nat (Suc j) \<noteq> ?d + of_nat (Suc l)" if "l \<le> length t" for l using ne [of "Suc l"] that by simp
    ultimately show ?thesis using A by (simp add: add.assoc)
  qed
  have prem: "0 \<notin> set t" "length t < 2 ^ 31" using Cons.prems(2,3) by simp_all
  obtain k' where k': "share_loop (s + 1) (i + 1) ?k1 = Some (i + 1 + of_nat (length t), k')" "placed (paging_st k') A" "same_kernel ?k1 k'"
    "k_console k' = k_console ?k1"
    "\<forall>w \<in> A. uread w k' = (if unat (w - (SHED_SHARED_MEM + (i + 1))) < length t then t ! unat (w - (SHED_SHARED_MEM + (i + 1))) else uread w ?k1)"
    using Cons.IH [OF st(1) prem, of "s + 1" "i + 1"] here by (auto simp: add.assoc)
  have "uread w k' = (if unat (w - ?d) < length (b # t) then (b # t) ! unat (w - ?d) else uread w k)" if w: "w \<in> A" for w
  proof (cases "w = ?d")
    case True
    have "unat (w - (SHED_SHARED_MEM + (i + 1))) = 2 ^ 32 - 1" using unat_offset_self [of ?d] by (simp add: True add.assoc)
    then show ?thesis using k'(5) w st(4) [OF w] Cons.prems(3) True by simp
  next
    case False
    then show ?thesis using k'(5) w st(4) [OF w] unat_offset_Suc [OF False] by (simp add: add.assoc)
  qed
  moreover have "share_loop s i k = Some (i + of_nat (length (b # t)), k')"
    using k'(1) b by (subst share_loop.simps) (simp add: add.assoc)
  ultimately show ?case using k'(2-4) st(2,3) same_kernel_trans by (intro exI [of _ k']) auto
qed

text \<open>
  C26. Starting the editor from the user shell hands over the file's name: the processor goes on at the
  editor's entry, and the shared page holds exactly the name with its terminator, if it fits the page.
\<close>
theorem exec_editor_shares_name:
  assumes "placed (paging_st k) A" and "0 \<notin> set t" and "length t < 4096" and "exit_requested k = 0"
    and "\<forall>j \<le> length t. s + of_nat j \<in> A \<and> uread (s + of_nat j) k = (t @ [0]) ! j"
    and "\<forall>j \<le> length t. SHED_SHARED_MEM + of_nat j \<in> A"
    and "\<forall>j \<le> length t. \<forall>l \<le> length t. s + of_nat j \<noteq> SHED_SHARED_MEM + of_nat l"
  shows "\<exists>k'. sys_exec_editor s k = Some (Inl (To_program 0x70000000 0x71000FF0), k')
    \<and> cstr (user_ptr (paging_st k') SHED_SHARED_MEM) t"
proof -
  have len: "length t < 2 ^ 31" using assms(3) by simp
  obtain k1 where k1: "share_loop s 0 k = Some (of_nat (length t), k1)" "placed (paging_st k1) A" "same_kernel k k1"
    "\<forall>w \<in> A. uread w k1 = (if unat (w - SHED_SHARED_MEM) < length t then t ! unat (w - SHED_SHARED_MEM) else uread w k)"
    using share_loop_spec [OF assms(1,2) len assms(5), of 0] assms(6,7) by auto
  have at: "SHED_SHARED_MEM + of_nat (length t) \<in> A" using assms(6) by blast
  note st = ustore_spec [where b = 0, OF k1(2) at]
  let ?k2 = "ustore (SHED_SHARED_MEM + of_nat (length t)) 0 k1"
  have small: "unat (of_nat j :: u32) = j" if "j \<le> length t" for j using that len by (intro unat_of_nat32) simp
  have bytes: "uread (SHED_SHARED_MEM + of_nat j) ?k2 = (t @ [0]) ! j" if j: "j \<le> length t" for j
  proof (cases "j = length t")
    case True
    then show ?thesis using st(4) [OF at] by simp
  next
    case False
    then have "(of_nat j :: u32) \<noteq> of_nat (length t)" using small [OF j] small [of "length t"] by (metis order_refl)
    then show ?thesis using st(4) k1(4) assms(6) j False small [OF j] by (simp add: nth_append)
  qed
  have "cstr (user_ptr (paging_st ?k2) SHED_SHARED_MEM) t"
    using bytes assms(2) unfolding cstr_def user_ptr_def uread_def by (auto simp: nth_append)
  moreover have "exit_requested ?k2 = 0" using st(2) k1(3) assms(4) by (simp add: same_kernel_def)
  ultimately show ?thesis using k1(1)
    by (simp add: sys_exec_editor_def uthen_def syscall3_unfold syscall_dispatch_def Let_def jump_to_editor_def)
qed

section \<open>The test program\<close>

lemma user_start_runs:
  assumes "cstr (user_ptr (paging_st k) hello) hello_text" and "exit_requested k = 0"
  shows "user_start hello k = Some (Inl To_shell, with_console (show_bytes hello_text (k_console k)) k)"
proof -
  have "with_console c k\<lparr>exit_requested := 0\<rparr> = with_console c k" for c using assms(2) by (simp add: with_console_def with_fs_def)
  then show ?thesis using print_call [OF assms, of 0 0]
    by (simp add: user_start_def sys_print_def sys_exit_def uthen_def ureturn_def) (simp add: syscall3_unfold syscall_dispatch_def Let_def)
qed

text \<open>
  C13. The whole way: after power-on, \<open>touch\<close> with a name and \<open>ring3\<close>, the test program finds its text
  where the boot loaded it, its greeting is on the screen, and it gives the processor back to the shell.
\<close>
theorem hello_from_boot:
  assumes "loaded m" and "image_ok img" and "area_ok img" and "display_ok img (fb_given mb)"
    and "short 1024 [] ks" "10 \<notin> set ks" "-1 \<notin> set ks" "0 \<notin> set (typed ks)" "words (typed ks) = [lit ''touch'', name]"
    and greet: "off + length hello_text < length (user_flat img)" "\<forall>j \<le> length hello_text. user_flat img ! (off + j) = (hello_text @ [0]) ! j"
  shows "\<exists>m' k'. kernel_main img mb (ks @ 10 # keys ''ring3'' @ [10]) m = Some (In_user_mode jump_to_userspace, m')
    \<and> user_start (0xA0000000 + of_nat off) (m_kernel m') = Some (Inl To_shell, k')
    \<and> k_console k' = show_bytes hello_text (k_console (m_kernel m'))
    \<and> fs_rep (fs_disk (k_fs k')) (snd (dir_create name (replicate 64 None)))"
proof -
  obtain m' where m': "kernel_main img mb (ks @ 10 # keys ''ring3'' @ [10]) m = Some (In_user_mode jump_to_userspace, m')"
    "fs_rep (fs_disk (k_fs (m_kernel m'))) (snd (dir_create name (replicate 64 None)))" "exit_requested (m_kernel m') = 0"
    "\<forall>i < length (user_flat img). user_view (m_paging m') (0xA0000000 + i) = user_flat img ! i"
    using ring3_session [OF assms(1-9)] by blast
  have len: "length (user_flat img) \<le> 4096" using assms(2) by (simp add: image_ok_def)
  have "user_ptr (m_paging m') (0xA0000000 + of_nat off) j = (hello_text @ [0]) ! j" if j: "j \<le> length hello_text" for j
  proof -
    have "off + j < 4096" using greet(1) j len by linarith
    then have "unat (0xA0000000 + of_nat off + of_nat j :: u32) = 0xA0000000 + (off + j)"
      by (simp add: unat_word_ariths unat_of_nat)
    then show ?thesis using m'(4) greet j by (simp add: user_ptr_def)
  qed
  moreover have "0 \<notin> set hello_text" by (simp add: hello_text_def) code_simp
  ultimately have "cstr (user_ptr (m_paging m') (0xA0000000 + of_nat off)) hello_text" by (auto simp: cstr_def nth_append)
  from user_start_runs [OF this m'(3)] m'(1,2) show ?thesis by auto
qed


section \<open>After the demo boot\<close>

lemma demo_user:
  obtains k where "placed (paging_st k) program_pages" "exit_requested k = 0" "kbd_st k = kbd0"
    "uread 0xA0000000 k = 0x90" "uread 0xA0000001 k = 0xEB" "uread 0xF0000000 k = 0"
    "fs_rep (fs_disk (k_fs k)) (replicate 64 None)"
proof -
  obtain m' t mem where m': "booted demo_image (fb_given None) t mem m'" using boot_returns [OF demo_boot] by (auto simp: returns_def)
  have at: "list_at (m_paging m') program_pages (0xA0000000, [0x90, 0xEB])" "list_at (m_paging m') program_pages (0xF0000000, replicate 4096 0)"
    using booted_paging(3) [OF m'] by (simp_all add: program_lists_def demo_image_def)
  have "user_view (m_paging m') (0xF0000000 + 0) = replicate 4096 0 ! 0" using at(2) unfolding list_at_def case_prod_conv by (metis length_replicate zero_less_numeral)
  then show thesis using m' at(1) booted_paging(1) [OF m']
    by (intro that [of "m_kernel m'"]) (auto simp: booted_def list_at_def uread_def less_Suc_eq all_simps dest: spec [of _ 1])
qed



theorem exec_editor_shares_name_witness:
  "\<exists>k k'. sys_exec_editor 0xA0000000 k = Some (Inl (To_program 0x70000000 0x71000FF0), k')
    \<and> cstr (user_ptr (paging_st k') SHED_SHARED_MEM) [0x90]"
proof -
  obtain k :: kernel where k: "placed (paging_st k) program_pages" "exit_requested k = 0" "uread 0xA0000000 k = 0x90" by (rule demo_user) blast
  have pages: "0xF0000000 \<in> program_pages" "0xF0000001 \<in> program_pages" "0xA0000000 \<in> program_pages" "0xA0000001 \<in> program_pages"
    by (simp_all add: program_pages_def region_def)
  note st = ustore_spec [where b = 0, OF k(1) pages(4)]
  have k1: "exit_requested (ustore 0xA0000001 0 k) = 0" using st(2) k(2) by (simp add: same_kernel_def)
  show ?thesis
    using exec_editor_shares_name [OF st(1) _ _ k1, of "[0x90]" "0xA0000000"] st(4) pages k(3)
    by (auto simp: SHED_SHARED_MEM_def le_Suc_eq)
qed

theorem hello_from_boot_witness:
  "\<exists>m' k'. kernel_main (demo_image\<lparr>user_flat := hello_text @ [0]\<rparr>) None (keys ''touch a'' @ 10 # keys ''ring3'' @ [10]) demo_machine
      = Some (In_user_mode jump_to_userspace, m')
    \<and> user_start 0xA0000000 (m_kernel m') = Some (Inl To_shell, k') \<and> k_console k' = show_bytes hello_text (k_console (m_kernel m'))"
proof -
  let ?img = "demo_image\<lparr>user_flat := hello_text @ [0]\<rparr>"
  have "length hello_text = 22" by (simp add: hello_text_def)
  then have img: "image_ok ?img" "area_ok ?img" "0 + length hello_text < length (user_flat ?img)"
    using demo_boot(2,3) by (simp_all add: image_ok_def area_ok_def)
  show ?thesis using hello_from_boot [OF demo_boot(1) img(1,2) demo_boot(4) touch_line(3,1,2,5,4) img(3)] by auto
qed

end
