(* ===== verification/UserShellLine.thy ===== *)
theory UserShellLine
  imports UserShell UserCorrect
begin

text \<open>
  Reading and splitting a line in the user shell: what its C library is relied on for (\<open>c_library\<close>), the
  buffer that the reader leaves for any keys, and the array of words that \<open>strtok\<close> and the loop over it
  leave in the program's memory.  \<open>ready A\<close>: the addresses \<open>A\<close> belong to the program.
\<close>

section \<open>The memory of the program\<close>

abbreviation umem :: "kernel \<Rightarrow> mem" where "umem k \<equiv> user_view (paging_st k)"

text \<open>Between two states of the kernel the files and the keys are kept.\<close>

definition stays :: "kernel \<Rightarrow> kernel \<Rightarrow> bool" where
  "stays k k' \<longleftrightarrow> fs_disk (k_fs k') = fs_disk (k_fs k) \<and> kbd_st k' = kbd_st k"

lemma stays_refl [simp]: "stays k k" by (simp add: stays_def)

lemma stays_trans [trans]: "stays k k' \<Longrightarrow> stays k' k'' \<Longrightarrow> stays k k''" by (simp add: stays_def)

lemma stays_console [simp]: "stays k (with_console c k)" by (simp add: stays_def)

definition ready :: "u32 set \<Rightarrow> kernel \<Rightarrow> bool" where
  "ready A k \<longleftrightarrow> placed (paging_st k) A \<and> exit_requested k = 0 \<and> ring_ok (kbd_st k)"

lemma ready_mono: "ready A k \<Longrightarrow> A' \<subseteq> A \<Longrightarrow> ready A' k"
  unfolding ready_def placed_def by (auto intro: inj_on_subset)

lemma ready_console [simp]: "ready A (with_console c k) = ready A k" by (simp add: ready_def)

text \<open>A block of bytes that does not wrap around.\<close>

definition within :: "u32 \<Rightarrow> nat \<Rightarrow> u32 set \<Rightarrow> bool" where
  "within p n X \<longleftrightarrow> unat p + n \<le> 2 ^ 32 \<and> region (unat p) n \<subseteq> X"

lemma within_addr:
  assumes "within p n X" and "i < n"
  shows "unat (p + of_nat i) = unat p + i" and "p + of_nat i \<in> X"
proof -
  have lt: "unat p + i < 2 ^ 32" using assms by (simp add: within_def)
  then show u: "unat (p + of_nat i) = unat p + i" by (simp add: unat_word_ariths unat_of_nat)
  then have "p + of_nat i \<in> region (unat p) n" using assms(2) by (simp add: region_def)
  then show "p + of_nat i \<in> X" using assms(1) by (auto simp: within_def)
qed

text \<open>Two states agree on the bytes of a set of addresses.\<close>

definition agree :: "u32 set \<Rightarrow> kernel \<Rightarrow> kernel \<Rightarrow> bool" where
  "agree X k k' \<longleftrightarrow> (\<forall>w\<in>X. umem k' (unat w) = umem k (unat w))"

lemma agree_refl [simp]: "agree X k k" by (simp add: agree_def)

lemma agree_trans [trans]: "agree X k k' \<Longrightarrow> agree X k' k'' \<Longrightarrow> agree X k k''" by (simp add: agree_def)

lemma agree_subset: "agree X k k' \<Longrightarrow> Y \<subseteq> X \<Longrightarrow> agree Y k k'" by (auto simp: agree_def)

lemma agree_within: "agree X k k' \<Longrightarrow> within p n X \<Longrightarrow> i < n \<Longrightarrow> umem k' (unat p + i) = umem k (unat p + i)"
  using within_addr [of p n X i] by (auto simp: agree_def dest: bspec [of _ _ "p + of_nat i"])

lemma ustore_ready:
  assumes "ready A k" and "a \<in> A"
  shows "ready A (ustore a b k)" and "stays k (ustore a b k)"
    and "w \<in> A \<Longrightarrow> umem (ustore a b k) (unat w) = ((umem k)(unat a := b)) (unat w)"
proof -
  note st = ustore_spec [where b = b, OF _ assms(2), of k]
  have pl: "placed (paging_st k) A" using assms(1) by (simp add: ready_def)
  show "ready A (ustore a b k)" "stays k (ustore a b k)"
    using st(1,2) [OF pl] assms(1) by (simp_all add: ready_def stays_def same_kernel_def)
  show "umem (ustore a b k) (unat w) = ((umem k)(unat a := b)) (unat w)" if "w \<in> A"
    using st(4) [OF pl that] by (simp add: uread_def word_unat_eq_iff)
qed

lemma ustore_agree:
  assumes "ready A k" and "a \<in> A" and "X \<subseteq> A - {a}"
  shows "agree X k (ustore a b k)"
  unfolding agree_def
proof
  fix w assume "w \<in> X"
  then have "w \<in> A" "unat w \<noteq> unat a" using assms(3) by (auto simp: word_unat_eq_iff [symmetric])
  then show "umem (ustore a b k) (unat w) = umem k (unat w)" using ustore_ready(3) [OF assms(1,2)] by simp
qed

lemma within_sub: "within p n X \<Longrightarrow> i + m \<le> n \<Longrightarrow> 0 < m \<Longrightarrow> within (p + of_nat i) m X"
  using within_addr(1) [of p n X i] by (auto simp: within_def region_def)

lemma ustore32_ready:
  assumes "ready A k" and "within a 4 A"
  shows "ready A (ustore32 a v k)" and "stays k (ustore32 a v k)"
    and "w \<in> A \<Longrightarrow> umem (ustore32 a v k) (unat w) = st32 (umem k) (unat a) v (unat w)"
proof -
  have at: "a \<in> A" "a + 1 \<in> A" "a + 2 \<in> A" "a + 3 \<in> A" "unat (a + 1) = unat a + 1" "unat (a + 2) = unat a + 2" "unat (a + 3) = unat a + 3"
    using within_addr [OF assms(2), of 0] within_addr [OF assms(2), of 1] within_addr [OF assms(2), of 2] within_addr [OF assms(2), of 3]
    by simp_all
  note s0 = ustore_ready [where b = "ucast v", OF assms(1) at(1)]
  note s1 = ustore_ready [where b = "ucast (drop_bit 8 v)", OF s0(1) at(2)]
  note s2 = ustore_ready [where b = "ucast (drop_bit 16 v)", OF s1(1) at(3)]
  note s3 = ustore_ready [where b = "ucast (drop_bit 24 v)", OF s2(1) at(4)]
  show "ready A (ustore32 a v k)" using s3(1) by (simp add: ustore32_def)
  show "stays k (ustore32 a v k)" using s0(2) s1(2) s2(2) s3(2) unfolding ustore32_def stays_def by simp
  show "umem (ustore32 a v k) (unat w) = st32 (umem k) (unat a) v (unat w)" if "w \<in> A"
    using s0(3) [OF that] s1(3) [OF that] s2(3) [OF that] s3(3) [OF that] at(5-7) by (simp add: ustore32_def st32_def)
qed

lemma user_ptr_within: "within p n X \<Longrightarrow> i < n \<Longrightarrow> user_ptr (paging_st k) p i = umem k (unat p + i)"
  by (simp add: user_ptr_def within_addr)

lemma uload32_within: "within p 4 X \<Longrightarrow> uload32 p k = ld32 (umem k) (unat p)"
  unfolding uload32_def by (rule ld32_cong) (simp add: user_ptr_within)

lemma user_text_cstr: "cstr (user_ptr (paging_st k) a) t \<Longrightarrow> user_text a k = Some t"
  by (auto simp: user_text_def string_at_def strlen_def strlen_loop_cstr cstr_def intro!: nth_equalityI)

section \<open>The C library\<close>

text \<open>
  A call of the library comes back to the program with a result that satisfies \<open>Q\<close>; it leaves the files,
  the keys and the bytes \<open>M\<close> of the program alone.  Before the call the addresses \<open>A\<close> belong to the program,
  and after it \<open>A'\<close>, which may be more: the library may have moved the program break.
\<close>

definition library_call :: "u32 set \<Rightarrow> u32 set \<Rightarrow> u32 set \<Rightarrow> ('a \<Rightarrow> bool) \<Rightarrow> 'a urun \<Rightarrow> bool" where
  "library_call A A' M Q f \<longleftrightarrow> (\<forall>k. ready A k \<longrightarrow> (\<exists>x k'. f k = Some (Inr x, k') \<and> Q x \<and> ready A' k' \<and> stays k k' \<and> agree M k k'))"

text \<open>
  What the shell relies on.  \<open>L\<close> are the library's own data.  Text is printed, also while the line is in use.
  The two allocations of a round succeed and give separate blocks, one among the addresses \<open>B\<close> and one
  among \<open>W\<close>, which need not belong to the program before; every round gives them back.
\<close>

definition c_library :: "libc \<Rightarrow> u32 set \<Rightarrow> u32 set \<Rightarrow> u32 set \<Rightarrow> bool" where
  "c_library lib B W L \<longleftrightarrow> B \<inter> W = {}
     \<and> (\<forall>s. library_call L L {} (\<lambda>_. True) (c_setvbuf lib s))
     \<and> (\<forall>t. 0 \<notin> set t \<longrightarrow> library_call L L {} (\<lambda>_. True) (c_print lib t) \<and> library_call (B \<union> L) (B \<union> L) B (\<lambda>_. True) (c_print lib t))
     \<and> library_call L (B \<union> L) {} (\<lambda>p. within p 1024 B) (c_malloc lib 1024)
     \<and> library_call (B \<union> L) (B \<union> W \<union> L) B (\<lambda>p. within p 256 W) (c_malloc lib 256)
     \<and> (\<forall>p. library_call L L {} (\<lambda>_. True) (c_free lib p))"

lemma library_callE:
  assumes "library_call A A' M Q f" and "ready A k"
  obtains x k' where "f k = Some (Inr x, k')" "Q x" "ready A' k'" "stays k k'" "agree M k k'"
  using assms unfolding library_call_def by blast

lemma uthen_Inr: "f k = Some (Inr x, k1) \<Longrightarrow> uthen f g k = g x k1"
  by (simp add: uthen_def)

lemma uthen_Inl: "f k = Some (Inl d, k1) \<Longrightarrow> uthen f g k = Some (Inl d, k1)"
  by (simp add: uthen_def)

section \<open>Reading a line\<close>

text \<open>The line that a sequence of keys edits; the shell looks at the low byte of a key.\<close>

definition enter_key :: "u8 list \<Rightarrow> u8 \<Rightarrow> u8 list" where
  "enter_key l b = (if b = 8 then butlast l else l @ [b])"

definition entered :: "u32 list \<Rightarrow> u8 list" where
  "entered ks = foldl enter_key [] (List.map ucast ks)"

definition plain_keys :: "u32 list \<Rightarrow> bool" where
  "plain_keys ks \<longleftrightarrow> (\<forall>c \<in> set ks. (ucast c :: u8) \<noteq> 10 \<and> (ucast c :: u8) \<noteq> 0)"

lemma plain_keys_simps [simp]: "plain_keys []" "plain_keys (c # ks) \<longleftrightarrow> (ucast c :: u8) \<noteq> 10 \<and> (ucast c :: u8) \<noteq> 0 \<and> plain_keys ks"
  by (simp_all add: plain_keys_def)

lemma enter_length: "length (enter_key l b) \<le> Suc (length l)" by (auto simp: enter_key_def)

lemma entered_nonzero: "plain_keys ks \<Longrightarrow> 0 \<notin> set l \<Longrightarrow> 0 \<notin> set (foldl enter_key l (List.map ucast ks))"
  by (induction ks arbitrary: l) (auto simp: enter_key_def dest: in_set_butlastD)

lemma entered_length: "length (foldl enter_key l ks) \<le> length l + length ks"
proof (induction ks arbitrary: l)
  case (Cons c ks)
  show ?case using Cons.IH [of "enter_key l c"] enter_length [of l c] by simp
qed simp

lemma user_getchar:
  assumes "ready A k" and "ring_contents (kbd_st k) = c # cs"
  obtains kb where "sys_getchar k = Some (Inr (ucast c), k\<lparr>kbd_st := kb\<rparr>)" "ready A (k\<lparr>kbd_st := kb\<rparr>)" "ring_contents kb = cs"
proof -
  obtain kb where "syscall3 2 0 0 0 k = Some (Inr c, k\<lparr>kbd_st := kb\<rparr>)" "ring_ok kb" "ring_contents kb = cs"
    using getchar_call [of k c cs 0 0 0] assms by (auto simp: ready_def)
  then show thesis using assms(1) by (intro that [of kb]) (simp_all add: sys_getchar_def uthen_def ureturn_def ready_def)
qed

lemma user_backspace:
  "ready A k \<Longrightarrow> u_backspace k = Some (Inr (), with_console (sys_backspace (k_console k)) k)"
  by (simp add: u_backspace_def uthen_def ureturn_def syscall3_unfold syscall_dispatch_def Let_def ready_def)

text \<open>The buffer holds the bytes of \<open>l\<close>; a store behind them adds one.\<close>

lemma holds_agree: "holds (umem k) p l \<Longrightarrow> agree X k k' \<Longrightarrow> within p n X \<Longrightarrow> length l \<le> n \<Longrightarrow> holds (umem k') p l"
  by (auto simp: holds_def agree_within)

lemma holds_store:
  assumes "ready A k" and "within p n A" and "length l < n" and "holds (umem k) p l"
  shows "holds (umem (ustore (p + of_nat (length l)) b k)) p (l @ [b])"
proof -
  note at = within_addr [OF assms(2,3)]
  have "umem (ustore (p + of_nat (length l)) b k) (unat p + i) = ((umem k)(unat p + length l := b)) (unat p + i)" if "i \<le> length l" for i
    using ustore_ready(3) [OF assms(1) at(2), of "p + of_nat i" b] within_addr [OF assms(2), of i] assms(3) that at(1) by (simp del: fun_upd_apply)
  then show ?thesis using assms(4) by (auto simp: holds_def nth_append less_Suc_eq)
qed

lemma ush_read_loop_spec:
  assumes lib: "c_library lib B W L" and buf: "within buf 1024 B"
  shows "ready (B \<union> L) k \<Longrightarrow> ring_contents (kbd_st k) = ks @ 10 # rest \<Longrightarrow> plain_keys ks \<Longrightarrow> length l + length ks < 1023
    \<Longrightarrow> holds (umem k) buf l
    \<Longrightarrow> \<exists>k'. ush_read_loop lib buf (length l) k = Some (Inr buf, k') \<and> ready (B \<union> L) k'
      \<and> ring_contents (kbd_st k') = rest \<and> fs_disk (k_fs k') = fs_disk (k_fs k)
      \<and> holds (umem k') buf (foldl enter_key l (List.map ucast ks) @ [0])"
proof (induction ks arbitrary: l k)
  case Nil
  let ?A = "B \<union> L"
  obtain kb where g: "sys_getchar k = Some (Inr 10, k\<lparr>kbd_st := kb\<rparr>)" "ready ?A (k\<lparr>kbd_st := kb\<rparr>)" "ring_contents kb = rest"
    using user_getchar [OF Nil.prems(1), of 10 rest] Nil.prems(2) by auto
  have at: "within buf 1024 ?A" "length l < 1024" using buf Nil.prems(4) by (auto simp: within_def)
  note st = ustore_ready [where b = 0, OF g(2) within_addr(2) [OF at]]
  have "holds (umem (ustore (buf + of_nat (length l)) 0 (k\<lparr>kbd_st := kb\<rparr>))) buf (l @ [0])"
    by (rule holds_store [OF g(2) at]) (use Nil.prems(5) in simp)
  then show ?case using g st(1,2) by (subst ush_read_loop.simps) (simp add: chr_def stays_def)
next
  case (Cons c ks)
  let ?A = "B \<union> L" and ?b = "ucast c :: u8"
  obtain kb where g: "sys_getchar k = Some (Inr ?b, k\<lparr>kbd_st := kb\<rparr>)" "ready ?A (k\<lparr>kbd_st := kb\<rparr>)" "ring_contents kb = ks @ 10 # rest"
    using user_getchar [OF Cons.prems(1), of c "ks @ 10 # rest"] Cons.prems(2) by auto
  let ?k1 = "k\<lparr>kbd_st := kb\<rparr>"
  have b: "?b \<noteq> 10" "?b \<noteq> 0" "plain_keys ks" using Cons.prems(3) by auto
  have at: "within buf 1024 ?A" "length l < 1024" "length (enter_key l ?b) + length ks < 1023"
    using buf Cons.prems(4) enter_length [of l ?b] by (auto simp: within_def)
  show ?case
  proof (cases "?b = 8")
    case True
    let ?k2 = "with_console (sys_backspace (k_console ?k1)) ?k1"
    have h: "holds (umem ?k2) buf (butlast l)" "holds (umem ?k1) buf (butlast l)" using holds_butlast [OF Cons.prems(5)] by simp_all
    show ?thesis
    proof (cases "l = []")
      case empty: True
      have "enter_key l ?b = []" using True empty by (simp add: enter_key_def)
      then show ?thesis using Cons.IH [OF g(2) _ b(3), of "[]"] g h at(3) True empty
        by (subst ush_read_loop.simps) (auto simp: chr_def)
    next
      case False
      have "ready ?A ?k2" "enter_key l ?b = butlast l" using g(2) True by (simp_all add: enter_key_def)
      with Cons.IH [OF _ _ b(3) _ h(1)] g(1,3) at(3) True False user_backspace [OF g(2)]
      show ?thesis by (subst ush_read_loop.simps) (auto simp: chr_def)
    qed
  next
    case False
    have pr: "library_call ?A ?A B (\<lambda>_. True) (c_print lib [?b])" using lib b(2) by (simp add: c_library_def)
    obtain k2 where k2: "c_print lib [?b] ?k1 = Some (Inr (), k2)" "ready ?A k2" "stays ?k1 k2" "agree B ?k1 k2"
      by (rule library_callE [OF pr g(2)]) auto
    have h2: "holds (umem k2) buf l"
      by (rule holds_agree [OF _ k2(4), of _ _ 1024]) (use Cons.prems(5) buf at(2) in \<open>auto simp: within_def\<close>)
    note st = ustore_ready [where b = ?b, OF k2(2) within_addr(2) [OF at(1,2)]]
    let ?k3 = "ustore (buf + of_nat (length l)) ?b k2"
    have h3: "holds (umem ?k3) buf (l @ [?b])" by (rule holds_store [OF k2(2) at(1,2) h2])
    have keys: "ring_contents (kbd_st ?k3) = ks @ 10 # rest" "fs_disk (k_fs ?k3) = fs_disk (k_fs k)"
      using st(2) k2(3) g(3) by (simp_all add: stays_def)
    have len: "length (l @ [?b]) + length ks < 1023" and key: "enter_key l ?b = l @ [?b]"
      using Cons.prems(4) False by (simp_all add: enter_key_def)
    from Cons.IH [OF st(1) keys(1) b(3) len h3] show ?thesis using g(1) k2(1) b False len keys(2)
      by (subst ush_read_loop.simps) (auto simp: key chr_def BUFSIZE_def Let_def)
  qed
qed

lemma ush_read_line_spec:
  assumes lib: "c_library lib B W L" and k: "ready L k" "ring_contents (kbd_st k) = ks @ 10 # rest"
    and ks: "plain_keys ks"
  obtains buf k' where "ush_read_line lib k = Some (Inr buf, k')" "within buf 1024 B" "ready (B \<union> L) k'"
    "ring_contents (kbd_st k') = rest" "fs_disk (k_fs k') = fs_disk (k_fs k)"
    "cstr (ptr_at (umem k') (unat buf)) (entered ks)" "length (entered ks) < 1023"
proof -
  have m: "library_call L (B \<union> L) {} (\<lambda>p. within p 1024 B) (c_malloc lib 1024)" using lib by (simp add: c_library_def)
  obtain buf k1 where k1: "c_malloc lib 1024 k = Some (Inr buf, k1)" "within buf 1024 B" "ready (B \<union> L) k1" "stays k k1"
    by (rule library_callE [OF m k(1)]) blast
  have "length (ring_contents (kbd_st k)) < 256" using k(1) by (auto simp: ready_def ring_contents_def ring_ok_def ring_length_def)
  then have len: "length ([] :: u8 list) + length ks < 1023" using k(2) by simp
  have r1: "ring_contents (kbd_st k1) = ks @ 10 # rest" using k1(4) k(2) by (simp add: stays_def)
  obtain k' where k': "ush_read_loop lib buf 0 k1 = Some (Inr buf, k')" "ready (B \<union> L) k'"
    "ring_contents (kbd_st k') = rest" "fs_disk (k_fs k') = fs_disk (k_fs k1)" "holds (umem k') buf (entered ks @ [0])"
    using ush_read_loop_spec [OF lib k1(2,3) r1 ks len] by (auto simp: holds_def entered_def)
  show thesis
  proof (rule that [OF _ k1(2) k'(2,3)])
    show "ush_read_line lib k = Some (Inr buf, k')" using k1(1) k'(1) by (simp add: ush_read_line_def uthen_def BUFSIZE_def)
    show "cstr (ptr_at (umem k') (unat buf)) (entered ks)"
      by (rule holds_cstr [OF k'(5)]) (use entered_nonzero [OF ks, of "[]"] in \<open>simp add: entered_def\<close>)
    show "length (entered ks) < 1023" using entered_length [of "[]" "List.map ucast ks"] len by (simp add: entered_def)
  qed (use k'(4) k1(4) in \<open>simp add: stays_def\<close>)
qed

section \<open>Splitting it\<close>

lemma user_ptr_Suc: "(\<lambda>i. user_ptr q p (Suc i)) = user_ptr q (p + 1)"
  by (simp add: fun_eq_iff user_ptr_def add.assoc)

lemma user_cstr_Cons:
  "cstr (user_ptr (paging_st k) p) (x # s) \<longleftrightarrow> x \<noteq> 0 \<and> uread p k = x \<and> cstr (user_ptr (paging_st k) (p + 1)) s"
  by (simp only: cstr_Cons user_ptr_Suc) (simp add: uread_def user_ptr_def)

lemma u_skip_delims_cstr:
  "cstr (user_ptr (paging_st k) p) s \<Longrightarrow>
    u_skip_delims ds k p = Some (p + of_nat (length (takeWhile (\<lambda>c. c \<in> set ds) s)))"
proof (induction s arbitrary: p)
  case Nil
  then show ?case by (subst u_skip_delims.simps) (simp add: uread_def user_ptr_def)
next
  case (Cons x s)
  have "x \<noteq> 0" "uread p k = x" "cstr (user_ptr (paging_st k) (p + 1)) s"
    using Cons.prems unfolding user_cstr_Cons by simp_all
  then show ?case using Cons.IH [of "p + 1"] by (subst u_skip_delims.simps) (simp add: add.assoc)
qed

lemma u_skip_token_cstr:
  "cstr (user_ptr (paging_st k) p) s \<Longrightarrow>
    u_skip_token ds k p = Some (p + of_nat (length (takeWhile (\<lambda>c. c \<notin> set ds) s)))"
proof (induction s arbitrary: p)
  case Nil
  then show ?case by (subst u_skip_token.simps) (simp add: uread_def user_ptr_def)
next
  case (Cons x s)
  have "x \<noteq> 0" "uread p k = x" "cstr (user_ptr (paging_st k) (p + 1)) s"
    using Cons.prems unfolding user_cstr_Cons by simp_all
  then show ?case using Cons.IH [of "p + 1"] by (subst u_skip_token.simps) (simp add: add.assoc)
qed

text \<open>A pointer of the program for one of theory \<open>CString\<close>, where the null pointer is \<open>None\<close>.\<close>

definition addr :: "nat option \<Rightarrow> u32" where
  "addr x = (case x of None \<Rightarrow> 0 | Some p \<Rightarrow> of_nat p)"

lemma addr_simps [simp]: "addr None = 0" "addr (Some p) = of_nat p" by (simp_all add: addr_def)

lemma user_ptr_flat: "p + i < 2 ^ 32 \<Longrightarrow> user_ptr (paging_st k) (of_nat p) i = umem k (p + i)"
  using unat_of_nat32 [of "p + i"] by (simp add: user_ptr_def)

lemma cstr_user_flat:
  assumes "p + length s < 2 ^ 32"
  shows "cstr (user_ptr (paging_st k) (of_nat p)) s \<longleftrightarrow> cstr (ptr_at (umem k) p) s"
  using user_ptr_flat [of p _ k] assms by (auto simp: cstr_def)

text \<open>On a string that does not wrap around, the library's \<open>strtok\<close> does to the program's memory what the
  routine of theory \<open>CString\<close> does: it returns the same pointer and stores at most one terminator.\<close>

lemma u_strtok_strtok:
  assumes str: "cstr (ptr_at (umem k) p) s" and range: "0 < p" "p + length s < 2 ^ 32" and ct: "cstr ct ds"
    and start: "(if a \<noteq> None then a else tok) = Some p" "(if b \<noteq> 0 then b else saved) = of_nat p"
    and m: "strtok (umem k) tok a ct = Some (x, m', t)"
  shows "\<exists>k'. u_strtok ds b saved k = Some (addr x, addr t, k')
    \<and> (k' = k \<and> m' = umem k \<or> (\<exists>e \<ge> p. e < p + length s \<and> k' = ustore (of_nat e) 0 k \<and> m' = (umem k)(e := 0)))"
proof -
  let ?D = "\<lambda>c. c \<in> set ds" and ?N = "\<lambda>c. c \<notin> set ds"
  obtain u v where u: "u = takeWhile ?D s" and v: "v = dropWhile ?D s" by simp
  have suv: "s = u @ v" by (simp add: u v)
  let ?q = "p + length u"
  have cv: "cstr (ptr_at (umem k) ?q) v" using cstr_drop str suv by simp
  have len: "length s = length u + length v" using suv by simp
  have at: "of_nat p \<noteq> (0 :: u32)" using range of_nat32_eq_0 [of p] by simp
  have rd: "uread (of_nat y) k = umem k y" if "y \<le> p + length s" for y
    using that range(2) unat_of_nat32 [of y] by (simp add: uread_def)
  have skip: "skip_delims (umem k) ct p = Some ?q" "u_skip_delims ds k (of_nat p) = Some (of_nat ?q)"
    using skip_delims_cstr [OF ct str] u_skip_delims_cstr [of k "of_nat p" s ds] str cstr_user_flat [OF range(2)]
    by (simp_all add: u)
  show ?thesis
  proof (cases "v = []")
    case True
    then have "umem k ?q = 0" using cv by simp
    then show ?thesis using m start skip at rd [of ?q] len by (auto simp: strtok_def u_strtok_def)
  next
    case False
    then have q: "umem k ?q \<noteq> 0" using cv by (cases v) auto
    obtain n where n: "n = length (takeWhile ?N v)" by simp
    have nl: "n \<le> length v" by (simp add: n length_takeWhile_le)
    have tk: "skip_token (umem k) ct ?q = Some (?q + n)" "u_skip_token ds k (of_nat ?q) = Some (of_nat (?q + n))"
      using skip_token_cstr [OF ct cv] u_skip_token_cstr [of k "of_nat ?q" v ds] cv cstr_user_flat [of ?q v k] range(2) len
      by (simp_all add: n add.assoc)
    have e: "umem k (?q + n) \<noteq> 0 \<Longrightarrow> n < length v"
      using nl cv by (cases "n = length v") (auto simp: cstr_def)
    have rq: "uread (of_nat ?q) k \<noteq> 0" "uread (of_nat (?q + n)) k = umem k (?q + n)"
      using q rd [of ?q] rd [of "?q + n"] len nl by simp_all
    show ?thesis
    proof (cases "umem k (?q + n) = 0")
      case True
      then have "x = Some ?q" "m' = umem k" "t = None" using m start(1) skip(1) tk(1) q by (simp_all add: strtok_def)
      then show ?thesis using True start(2) skip(2) tk(2) at rq by (simp add: u_strtok_def)
    next
      case False
      then have r: "x = Some ?q" "m' = (umem k)(?q + n := 0)" "t = Some (Suc (?q + n))"
        using m start(1) skip(1) tk(1) q by (simp_all add: strtok_def)
      have "addr t = of_nat (?q + n) + 1" by (simp add: r(3))
      then have "u_strtok ds b saved k = Some (addr x, addr t, ustore (of_nat (?q + n)) 0 k)"
        using False start(2) skip(2) tk(2) at rq by (simp add: u_strtok_def r(1) del: of_nat_add)
      moreover have "p \<le> ?q + n" "?q + n < p + length s" using e [OF False] len by simp_all
      ultimately show ?thesis using r(2) by blast
    qed
  qed
qed

text \<open>Memory that is equal on the line keeps what is known of its tokens.\<close>

lemma parsed_within:
  assumes "parsed m tok (unat line) (unat line + n) ps ts us" and "within line n X"
    and "\<And>w. w \<in> X \<Longrightarrow> umem k' (unat w) = m (unat w)"
  shows "parsed (umem k') tok (unat line) (unat line + n) ps ts us"
proof (rule parsed_agree [OF assms(1)])
  fix x assume "unat line \<le> x" "x < unat line + n"
  then obtain i where i: "x = unat line + i" "i < n" using nat_le_iff_add [of "unat line" x] by auto
  then show "umem k' x = m x" using assms(3) [of "line + of_nat i"] within_addr [OF assms(2), of i] by simp
qed

lemma terminator_store:
  assumes k: "ready A k" and line: "within line n A" "within line n Y" "X \<inter> Y = {}" "X \<subseteq> A"
    and r: "unat line \<le> r" and e: "r \<le> e" "e < unat line + n"
  shows "ready A (ustore (of_nat e) b k) \<and> stays k (ustore (of_nat e) b k) \<and> agree X k (ustore (of_nat e) b k)
    \<and> (\<forall>w\<in>A. umem (ustore (of_nat e) b k) (unat w) = ((umem k)(e := b)) (unat w))"
proof -
  have "line + of_nat (e - unat line) = of_nat e" using e(1) r by (simp add: of_nat32_sub)
  moreover have "e - unat line < n" using e r by simp
  ultimately have at: "of_nat e \<in> A" "of_nat e \<in> Y" using within_addr(2) [OF line(1)] within_addr(2) [OF line(2)] by metis+
  have "e < 2 ^ 32" using e(2) line(1) by (simp add: within_def)
  then have ue: "unat (of_nat e :: u32) = e" by (rule unat_of_nat32)
  have "agree X k (ustore (of_nat e) b k)" by (rule ustore_agree [OF k at(1)]) (use at(2) line(3,4) in auto)
  then show ?thesis using ustore_ready [where b = b, OF k at(1)] unfolding ue by blast
qed

lemma u_strtok_next:
  assumes k: "ready A k" and line: "within line n A" "line \<noteq> 0" "within line n Y" "X \<inter> Y = {}" "X \<subseteq> A"
    and par: "parsed (umem k) (if a \<noteq> None then a else tok) (unat line) (unat line + n) ps ts us"
    and saved: "a = None \<longrightarrow> saved = addr tok"
  shows "\<exists>x tok' k'. u_strtok DELIM (addr a) saved k = Some (addr x, addr tok', k') \<and> ready A k' \<and> stays k k' \<and> agree X k k'
    \<and> (if us = [] then x = None \<and> parsed (umem k') tok' (unat line) (unat line + n) ps ts us
       else \<exists>q. x = Some q \<and> unat line \<le> q \<and> q < unat line + n
            \<and> parsed (umem k') tok' (unat line) (unat line + n) (ps @ [q]) (ts @ [hd us]) (tl us))"
proof (cases "if a \<noteq> None then a else tok")
  case None
  then have "a = None" "tok = None" "us = []" using par by (auto simp: parsed_def pending_def split: if_splits)
  moreover have "u_strtok DELIM 0 0 k = Some (0, 0, k)" by (simp add: u_strtok_def)
  ultimately show ?thesis using saved k par by (intro exI [of _ None] exI [of _ k]) simp
next
  case (Some r)
  let ?lo = "unat line" and ?hi = "unat line + n" and ?ct = "lit_ptr LSH_TOK_DELIM"
  have hi: "?hi \<le> 2 ^ 32" using line(1) by (simp add: within_def)
  have lo: "0 < ?lo" using line(2) by (simp add: unat_gt_0)
  obtain l where l: "?lo \<le> r" "r + length l < ?hi" "cstr (ptr_at (umem k) r) l"
    using par Some by (auto simp: parsed_def pending_def)
  have start: "(if addr a \<noteq> 0 then addr a else saved) = of_nat r"
    using Some saved l(1,2) lo hi of_nat32_eq_0 [of r] by (auto split: if_splits)
  have ct: "cstr ?ct DELIM" using delim_cstr by (simp add: DELIM_def LSH_TOK_DELIM_def)
  have r: "0 < r" "r + length l < 2 ^ 32" using l(1,2) lo hi by simp_all
  note next_tok = strtok_next [OF par]
  obtain x m' tok' where st: "strtok (umem k) tok a ?ct = Some (x, m', tok')"
    and res: "if us = [] then x = None \<and> m' = umem k \<and> tok' = None
      else \<exists>q. x = Some q \<and> parsed m' tok' ?lo ?hi (ps @ [q]) (ts @ [hd us]) (tl us)"
    using next_tok by (cases "us = []") auto
  obtain k' where k': "u_strtok DELIM (addr a) saved k = Some (addr x, addr tok', k')"
    "k' = k \<and> m' = umem k \<or> (\<exists>e \<ge> r. e < r + length l \<and> k' = ustore (of_nat e) 0 k \<and> m' = (umem k)(e := 0))"
    using u_strtok_strtok [OF l(3) r ct Some start st] by blast
  have ok: "ready A k' \<and> stays k k' \<and> agree X k k' \<and> (\<forall>w\<in>A. umem k' (unat w) = m' (unat w))"
    using k'(2) terminator_store [OF k line(1,3,4,5) l(1)] l(2) k by fastforce
  have keep: "parsed (umem k') tok' ?lo ?hi ps' ts' us'" if "parsed m' tok' ?lo ?hi ps' ts' us'" for ps' ts' us'
    by (rule parsed_within [OF that line(1)]) (use ok in blast)
  show ?thesis
  proof (cases "us = []")
    case True
    then have "parsed m' tok' ?lo ?hi ps ts us" using res par by (auto simp: parsed_def pending_def)
    then have "parsed (umem k') tok' ?lo ?hi ps ts us" by (rule keep)
    then show ?thesis using True res k'(1) ok by (intro exI [of _ x] exI [of _ tok'] exI [of _ k']) auto
  next
    case False
    then obtain q where q: "x = Some q" "parsed m' tok' ?lo ?hi (ps @ [q]) (ts @ [hd us]) (tl us)" using res by auto
    have "?lo \<le> q" "q < ?hi" using q(2) by (auto simp: parsed_def cut_def list_all2_append1 list_all2_Cons1)
    then show ?thesis using False q(1) keep [OF q(2)] k'(1) ok by (intro exI [of _ x] exI [of _ tok'] exI [of _ k']) auto
  qed
qed

lemma word_store:
  assumes k: "ready A k" and toks: "within toks 256 W" "W \<subseteq> A" "X \<subseteq> A" "X \<inter> W = {}" and pos: "pos < 64"
  shows "ready A (ustore32 (toks + of_nat (4 * pos)) v k)" "stays k (ustore32 (toks + of_nat (4 * pos)) v k)"
    "agree X k (ustore32 (toks + of_nat (4 * pos)) v k)"
    "length ws = pos \<Longrightarrow> words_at (umem k) toks ws \<Longrightarrow> v = of_nat w \<Longrightarrow> words_at (umem (ustore32 (toks + of_nat (4 * pos)) v k)) toks (ws @ [w])"
proof -
  let ?a = "toks + of_nat (4 * pos)"
  have at: "within ?a 4 W" using within_sub [OF toks(1), of "4 * pos" 4] pos by simp
  have atA: "within ?a 4 A" using at toks(2) by (auto simp: within_def)
  have ua: "unat ?a = unat toks + 4 * pos" using within_addr(1) [OF toks(1), of "4 * pos"] pos by simp
  note st = ustore32_ready [where v = v, OF k atA]
  show "ready A (ustore32 ?a v k)" "stays k (ustore32 ?a v k)" by (rule st)+
  have "umem (ustore32 ?a v k) (unat w) = umem k (unat w)" if w: "w \<in> X" for w
  proof -
    have "w \<notin> region (unat ?a) 4" using w at toks(4) by (auto simp: within_def)
    then have "unat w < unat ?a \<or> unat ?a + 4 \<le> unat w" by (auto simp: region_def)
    then show ?thesis using st(3) [of w] w toks(3) st32_other [of "unat w" "unat ?a"] by auto
  qed
  then show "agree X k (ustore32 ?a v k)" by (simp add: agree_def)
  show "words_at (umem (ustore32 ?a v k)) toks (ws @ [w])" if ws: "length ws = pos" "words_at (umem k) toks ws" "v = of_nat w"
  proof (rule words_at_agree [OF words_at_snoc [OF ws(2), of w]])
    fix j assume "j < 4 * length (ws @ [w])"
    then have "j < 256" using ws(1) pos by simp
    note addr = within_addr [OF toks(1) this]
    show "umem (ustore32 ?a v k) (unat toks + j) = st32 (umem k) (unat toks + 4 * length ws) (of_nat w) (unat toks + j)"
      using st(3) [of "toks + of_nat j"] addr toks(2) ws(1,3) ua by auto
  qed
qed

lemma ush_split_loop_spec:
  assumes line: "within line n B" "line \<noteq> 0" and toks: "within toks 256 W" and dis: "B \<inter> W = {}"
  shows "ready (B \<union> W \<union> L) k \<Longrightarrow> parsed (umem k) (if a \<noteq> None then a else tok) (unat line) (unat line + n) ps ts us
    \<Longrightarrow> (a = None \<longrightarrow> saved = addr tok) \<Longrightarrow> words_at (umem k) toks ps \<Longrightarrow> length ps + length us < 64
    \<Longrightarrow> \<exists>t sv k1 sv' k'. u_strtok DELIM (addr a) saved k = Some (t, sv, k1) \<and> ush_split_loop toks t (length ps) sv k1 = Some (sv', k')
      \<and> ready (B \<union> W \<union> L) k' \<and> stays k k' \<and> argv (umem k') (unat line) (unat line + n) toks (ts @ us)"
proof (induction us arbitrary: a tok saved ps ts k)
  case (Nil a tok saved ps ts k)
  let ?A = "B \<union> W \<union> L"
  have lA: "within line n ?A" using line(1) by (auto simp: within_def)
  obtain tok' k1 where k1: "u_strtok DELIM (addr a) saved k = Some (0, addr tok', k1)" "ready ?A k1" "stays k k1" "agree W k k1"
    "parsed (umem k1) tok' (unat line) (unat line + n) ps ts []"
    using u_strtok_next [OF Nil.prems(1) lA line(2) line(1) _ _ Nil.prems(2,3), of W] dis by auto
  have w1: "words_at (umem k1) toks ps"
    by (rule words_at_agree [OF Nil.prems(4)]) (use agree_within [OF k1(4) toks] Nil.prems(5) in simp)
  have pos: "length ps < 64" using Nil.prems(5) by simp
  note st = word_store(1-3) [where v = 0 and X = B, OF k1(2) toks _ _ dis pos]
    word_store(4) [where v = 0 and X = B and ws = ps and w = 0, OF k1(2) toks _ _ dis pos]
  let ?k' = "ustore32 (toks + of_nat (4 * length ps)) 0 k1"
  have "parsed (umem ?k') tok' (unat line) (unat line + n) ps ts []"
    by (rule parsed_within [OF k1(5) line(1)]) (use st(3) in \<open>auto simp: agree_def\<close>)
  then have "cut (umem ?k') (unat line) (unat line + n) ps ts" by (auto simp: parsed_def intro: cut_wider)
  then have "argv (umem ?k') (unat line) (unat line + n) toks ts" using st(4) w1 by (auto simp: argv_def)
  moreover have "ush_split_loop toks 0 (length ps) (addr tok') k1 = Some (addr tok', ?k')" by (subst ush_split_loop.simps) simp
  ultimately show ?case using k1(1,3) st(1,2) stays_trans [OF k1(3) st(2)] by auto
next
  case (Cons u us a tok saved ps ts k)
  let ?A = "B \<union> W \<union> L"
  have lA: "within line n ?A" using line(1) by (auto simp: within_def)
  have d: "W \<inter> B = {}" "W \<subseteq> ?A" using dis by auto
  obtain q tok' k1 where k1: "u_strtok DELIM (addr a) saved k = Some (of_nat q, addr tok', k1)" "ready ?A k1" "stays k k1" "agree W k k1"
    "unat line \<le> q" "q < unat line + n" "parsed (umem k1) tok' (unat line) (unat line + n) (ps @ [q]) (ts @ [u]) us"
    using u_strtok_next [OF Cons.prems(1) lA line(2) line(1) d Cons.prems(2,3)] by fastforce
  have w1: "words_at (umem k1) toks ps"
    by (rule words_at_agree [OF Cons.prems(4)]) (use agree_within [OF k1(4) toks] Cons.prems(5) in simp)
  have pos: "length ps < 64" using Cons.prems(5) by simp
  note st = word_store(1-3) [where v = "of_nat q" and X = B, OF k1(2) toks _ _ dis pos]
    word_store(4) [where v = "of_nat q" and X = B and ws = ps and w = q, OF k1(2) toks _ _ dis pos]
  let ?k2 = "ustore32 (toks + of_nat (4 * length ps)) (of_nat q) k1"
  have "0 < unat line" using line(2) by (simp add: unat_gt_0)
  then have q: "of_nat q \<noteq> (0 :: u32)" using k1(5,6) line(1) of_nat32_eq_0 [of q] by (simp add: within_def)
  have par: "parsed (umem ?k2) (if None \<noteq> (None :: nat option) then None else tok') (unat line) (unat line + n) (ps @ [q]) (ts @ [u]) us"
    using parsed_within [OF k1(7) line(1), of ?k2] st(3) by (auto simp: agree_def)
  have ready: "ready ?A ?k2" and wds: "words_at (umem ?k2) toks (ps @ [q])" and sty: "stays k ?k2" and len: "length (ps @ [q]) + length us < 64"
    using st w1 stays_trans [OF k1(3) st(2)] Cons.prems(5) by auto
  obtain t sv k3 sv' k' where k3: "u_strtok DELIM 0 (addr tok') ?k2 = Some (t, sv, k3)" "ush_split_loop toks t (length ps + 1) sv k3 = Some (sv', k')"
    "ready ?A k'" "stays ?k2 k'" "argv (umem k') (unat line) (unat line + n) toks (ts @ u # us)"
    using Cons.IH [OF ready par _ wds len, of "addr tok'"] by auto
  have "ush_split_loop toks (of_nat q) (length ps) (addr tok') k1 = Some (sv', k')"
    using k3(1,2) q by (subst ush_split_loop.simps) simp
  then show ?case using k1(1) k3(3,5) stays_trans [OF sty k3(4)] by blast
qed

lemma placed_nonzero: "placed p A \<Longrightarrow> w \<in> A \<Longrightarrow> w \<noteq> 0"
  by (auto simp: placed_def kernel_window_def)

lemma ush_split_line_spec:
  assumes lib: "c_library lib B W L" and k: "ready (B \<union> L) k" and line: "within line 1024 B"
    and l: "cstr (ptr_at (umem k) (unat line)) l" "length l < 1023" "length (words l) < 64"
  obtains args saved' k' where "ush_split_line lib line saved k = Some (Inr (args, saved'), k')" "ready (B \<union> W \<union> L) k'" "stays k k'"
    "within args 256 W" "argv (umem k') (unat line) (unat line + 1024) args (words l)"
proof -
  let ?A = "B \<union> W \<union> L"
  have m: "library_call (B \<union> L) ?A B (\<lambda>p. within p 256 W) (c_malloc lib 256)" and dis: "B \<inter> W = {}" using lib by (simp_all add: c_library_def)
  obtain args k1 where k1: "c_malloc lib 256 k = Some (Inr args, k1)" "within args 256 W" "ready ?A k1" "stays k k1" "agree B k k1"
    by (rule library_callE [OF m k]) blast
  have nz: "line \<noteq> 0" using k within_addr(2) [OF line, of 0] placed_nonzero [of _ "B \<union> L" line] by (auto simp: ready_def)
  have "parsed (umem k) (Some (unat line)) (unat line) (unat line + 1024) [] [] (words l)"
    using l(1,2) by (auto simp: parsed_def cut_def pending_def intro!: exI [of _ "unat line"] exI [of _ l])
  then have "parsed (umem k1) (Some (unat line)) (unat line) (unat line + 1024) [] [] (words l)"
    by (rule parsed_within [OF _ line]) (use k1(5) in \<open>simp add: agree_def\<close>)
  then have par: "parsed (umem k1) (if Some (unat line) \<noteq> None then Some (unat line) else None) (unat line) (unat line + 1024) [] [] (words l)"
    by simp
  obtain t sv k2 sv' k' where k2: "u_strtok DELIM line saved k1 = Some (t, sv, k2)" "ush_split_loop args t 0 sv k2 = Some (sv', k')"
    "ready ?A k'" "stays k1 k'" "argv (umem k') (unat line) (unat line + 1024) args (words l)"
    using ush_split_loop_spec [OF line nz k1(2) dis k1(3) par, where saved = saved] l(3) by (auto simp: words_at_def)
  show thesis
    by (rule that [of args sv' k']) (use k1 k2 stays_trans [OF k1(4) k2(4)] in \<open>simp_all add: ush_split_line_def uthen_def TOKSIZE_def\<close>)
qed

end
