(* ===== verification/UserShellCorrect.thy ===== *)
theory UserShellCorrect
  imports UserShellLine
begin

text \<open>
  The user shell as a command interpreter: what its commands do to the directory, a round of its loop,
  a session from its start to \<open>exit\<close>, and such a session after one of the kernel's shell, from power-on.
\<close>

section \<open>Commands\<close>

text \<open>The commands covered: all but \<open>ls\<close>, and \<open>cat\<close> and \<open>edit\<close> with a name.\<close>

definition ush_simple :: "u8 list list \<Rightarrow> bool" where
  "ush_simple ws \<longleftrightarrow> (case ws of [] \<Rightarrow> True
     | c # rest \<Rightarrow> c \<noteq> lit ''ls'' \<and> c \<noteq> lit ''exit'' \<and> (rest \<noteq> [] \<longrightarrow> c \<noteq> lit ''cat'' \<and> c \<noteq> lit ''edit''))"

lemma argv_word:
  assumes av: "argv (umem k) (unat line) (unat line + n) args ws" and args: "within args 256 W" and line: "within line n X" "line \<noteq> 0"
    and len: "length ws < 64"
  shows "uload32 (args + of_nat (4 * length ws)) k = 0"
    and "j < length ws \<Longrightarrow> uload32 (args + of_nat (4 * j)) k \<noteq> 0 \<and> cstr (user_ptr (paging_st k) (uload32 (args + of_nat (4 * j)) k)) (ws ! j)"
proof -
  obtain ps where ps: "words_at (umem k) args (ps @ [0])" "cut (umem k) (unat line) (unat line + n) ps ws"
    using av by (auto simp: argv_def)
  have lp: "length ps = length ws" using ps(2) by (simp add: cut_def list_all2_lengthD)
  have ld: "uload32 (args + of_nat (4 * i)) k = of_nat ((ps @ [0]) ! i)" if "i \<le> length ws" for i
  proof -
    have i: "4 * i + 4 \<le> 256" using that len by simp
    have "unat (args + of_nat (4 * i)) = unat args + 4 * i" using within_addr(1) [OF args, of "4 * i"] i by simp
    then have "uload32 (args + of_nat (4 * i)) k = ld32 (umem k) (unat args + 4 * i)"
      using uload32_within [OF within_sub [OF args i]] by simp
    then show ?thesis using ps(1) that lp by (simp add: words_at_def)
  qed
  show "uload32 (args + of_nat (4 * length ws)) k = 0" using ld [of "length ws"] lp by (simp add: nth_append)
  show "uload32 (args + of_nat (4 * j)) k \<noteq> 0 \<and> cstr (user_ptr (paging_st k) (uload32 (args + of_nat (4 * j)) k)) (ws ! j)" if j: "j < length ws"
  proof -
    have p: "unat line \<le> ps ! j" "ps ! j + length (ws ! j) < unat line + n" "cstr (ptr_at (umem k) (ps ! j)) (ws ! j)"
      using ps(2) j by (auto simp: cut_def dest: list_all2_nthD2)
    have "unat line + n \<le> 2 ^ 32" "0 < unat line" using line by (simp_all add: within_def unat_gt_0)
    then show ?thesis using p ld [of j] j lp of_nat32_eq_0 [of "ps ! j"] cstr_user_flat [of "ps ! j" "ws ! j" k]
      by (simp add: nth_append)
  qed
qed

lemma ush_message_returns:
  assumes "c_library lib B W L" and "ready L k" and "0 \<notin> set (lit (t @ [CHR 0x0A]))"
  shows "\<exists>k'. ush_message lib t k = Some (Inr (), k') \<and> ready L k' \<and> stays k k'"
proof -
  have pr: "library_call L L {} (\<lambda>_. True) (c_print lib (lit (t @ [CHR 0x0A])))" using assms(1,3) unfolding c_library_def by blast
  show ?thesis by (rule library_callE [OF pr assms(2)]) (auto simp: ush_message_def)
qed

lemma ush_commands:
  "0 \<notin> set (lit (''touch: no filename'' @ [CHR 0x0A]))" "0 \<notin> set (lit (''del: no filename'' @ [CHR 0x0A]))"
  "0 \<notin> set (lit (''cat: no filename'' @ [CHR 0x0A]))" "0 \<notin> set (lit (''edit: no filename'' @ [CHR 0x0A]))"
  "0 \<notin> set (lit (''commands: ls, touch, del, cat, edit, clear, exit'' @ [CHR 0x0A]))" "0 \<notin> set (lit ''unknown command: '')"
  "0 \<notin> set (lit ''> '')" "0 \<notin> set (lit [CHR 0x0A])" "0 \<notin> set (lit (CHR 0x0A # ''Shed userspace shell'' @ [CHR 0x0A]))"
  "chr CHR 0x0A \<noteq> 0"
  by code_simp+

lemma chr_eq_iff: "chr c = chr d \<longleftrightarrow> c = d"
proof -
  have "of_char c mod 256 = (of_char c :: nat)" for c using of_char_of [of "of_char c :: nat"] by simp
  then have "unat (chr c) = of_char c" for c
    using unat_of_nat [where ?'a = 8, of "of_char c"] by (simp add: chr_def of_nat_of_char)
  then show ?thesis by (metis of_char_eq_iff)
qed

text \<open>Each command, once its name is known.\<close>

lemma ush_execute_named:
  assumes "uload32 args k \<noteq> 0" and "user_text (uload32 args k) k = Some c"
  shows "c = lit ''touch'' \<Longrightarrow> ush_execute lib args k
      = (if uload32 (args + 4) k \<noteq> 0 then sys_touch (uload32 (args + 4) k) k else ush_message lib ''touch: no filename'' k)"
    and "c = lit ''del'' \<Longrightarrow> ush_execute lib args k
      = (if uload32 (args + 4) k \<noteq> 0 then sys_del (uload32 (args + 4) k) k else ush_message lib ''del: no filename'' k)"
    and "c = lit ''cat'' \<Longrightarrow> uload32 (args + 4) k = 0 \<Longrightarrow> ush_execute lib args k = ush_message lib ''cat: no filename'' k"
    and "c = lit ''edit'' \<Longrightarrow> uload32 (args + 4) k = 0 \<Longrightarrow> ush_execute lib args k = ush_message lib ''edit: no filename'' k"
    and "c = lit ''help'' \<Longrightarrow> ush_execute lib args k = ush_message lib ''commands: ls, touch, del, cat, edit, clear, exit'' k"
    and "c = lit ''clear'' \<Longrightarrow> ush_execute lib args k = sys_clear k"
    and "c = lit ''exit'' \<Longrightarrow> ush_execute lib args k = sys_exit k"
    and "c \<notin> {lit ''ls'', lit ''touch'', lit ''del'', lit ''cat'', lit ''edit'', lit ''help'', lit ''clear'', lit ''exit''}
      \<Longrightarrow> ush_execute lib args k = print_from lib (lit ''unknown command: '') (uload32 args k) k"
  using assms by (simp_all add: ush_execute_def Let_def chr_eq_iff)

lemma user_touch:
  assumes "ready A k" and "fs_rep (fs_disk (k_fs k)) dir" and "cstr (user_ptr (paging_st k) a) t"
  shows "\<exists>k'. sys_touch a k = Some (Inr (), k') \<and> ready A k' \<and> kbd_st k' = kbd_st k \<and> fs_rep (fs_disk (k_fs k')) (snd (dir_create t dir))"
  using create_file_spec [OF assms(2,3)] assms(1)
  by (auto simp: sys_touch_def uthen_def ureturn_def syscall3_unfold syscall_dispatch_def Let_def ready_def)

lemma user_del:
  assumes "ready A k" and "fs_rep (fs_disk (k_fs k)) dir" and "cstr (user_ptr (paging_st k) a) t"
  shows "\<exists>k'. sys_del a k = Some (Inr (), k') \<and> ready A k' \<and> kbd_st k' = kbd_st k \<and> fs_rep (fs_disk (k_fs k')) (snd (dir_delete t dir))"
  using delete_file_spec [OF assms(2,3)] assms(1)
  by (auto simp: sys_del_def uthen_def ureturn_def syscall3_unfold syscall_dispatch_def Let_def ready_def)

lemma user_clear: "ready A k \<Longrightarrow> sys_clear k = Some (Inr (), with_console (clear_screen (k_console k)) k)"
  by (simp add: sys_clear_def uthen_def ureturn_def syscall3_unfold syscall_dispatch_def Let_def ready_def)

lemma user_exit: "ready A k \<Longrightarrow> sys_exit k = Some (Inl To_shell, k)"
  by (simp add: sys_exit_def uthen_def ureturn_def syscall3_unfold syscall_dispatch_def Let_def ready_def)

lemma user_unknown:
  assumes "c_library lib B W L" and "ready L k" and "cstr (user_ptr (paging_st k) a) t"
  shows "\<exists>k'. print_from lib (lit ''unknown command: '') a k = Some (Inr (), k') \<and> ready L k' \<and> stays k k'"
proof -
  let ?t = "lit ''unknown command: '' @ t @ [chr CHR 0x0A]"
  have "0 \<notin> set t" using assms(3) by (simp add: cstr_def)
  then have "0 \<notin> set ?t" using ush_commands(6,10) by auto
  then have pr: "library_call L L {} (\<lambda>_. True) (c_print lib ?t)" using assms(1) unfolding c_library_def by blast
  show ?thesis
    by (rule library_callE [OF pr assms(2)]) (auto simp: print_from_def user_text_cstr [OF assms(3)])
qed

text \<open>The command that the words in the array name.\<close>

definition args_hold :: "kernel \<Rightarrow> u32 \<Rightarrow> u8 list list \<Rightarrow> bool" where
  "args_hold k args ws \<longleftrightarrow> uload32 (args + of_nat (4 * length ws)) k = 0
     \<and> (\<forall>j < length ws. uload32 (args + of_nat (4 * j)) k \<noteq> 0 \<and> cstr (user_ptr (paging_st k) (uload32 (args + of_nat (4 * j)) k)) (ws ! j))"

lemma args_first:
  assumes "args_hold k args (c # rest)"
  shows "uload32 args k \<noteq> 0" and "user_text (uload32 args k) k = Some c" and "cstr (user_ptr (paging_st k) (uload32 args k)) c"
  using assms user_text_cstr unfolding args_hold_def by (auto dest: spec [of _ 0])

lemma args_second:
  assumes "args_hold k args (c # rest)"
  shows "rest = [] \<Longrightarrow> uload32 (args + 4) k = 0"
    and "rest = n # ns \<Longrightarrow> uload32 (args + 4) k \<noteq> 0 \<and> cstr (user_ptr (paging_st k) (uload32 (args + 4) k)) n"
  using assms unfolding args_hold_def by (auto dest: spec [of _ 1])

lemma ush_execute_file:
  assumes k: "ready A k" and rep: "fs_rep (fs_disk (k_fs k)) dir"
    and args: "args_hold k args (c # n # ns)" and c: "c = lit ''touch'' \<or> c = lit ''del''"
  shows "\<exists>k'. ush_execute lib args k = Some (Inr (), k') \<and> ready A k' \<and> kbd_st k' = kbd_st k
    \<and> fs_rep (fs_disk (k_fs k')) (file_effect (c # n # ns) dir)"
  using c
proof
  assume touch: "c = lit ''touch''"
  have "file_effect (c # n # ns) dir = snd (dir_create n dir)" by (simp add: file_effect_def touch)
  then show ?thesis using user_touch [OF k rep] args_second(2) [OF args] ush_execute_named(1) [OF args_first(1,2) [OF args] touch] by simp
next
  assume del: "c = lit ''del''"
  have "file_effect (c # n # ns) dir = snd (dir_delete n dir)" by (simp add: file_effect_def del chr_eq_iff)
  then show ?thesis using user_del [OF k rep] args_second(2) [OF args] ush_execute_named(2) [OF args_first(1,2) [OF args] del] by simp
qed

lemma ush_execute_plain:
  assumes lib: "c_library lib B W L" and k: "ready L k" and args: "args_hold k args (c # rest)"
    and simple: "c \<noteq> lit ''ls''" "c \<noteq> lit ''exit''" "c \<in> {lit ''touch'', lit ''del'', lit ''cat'', lit ''edit''} \<Longrightarrow> rest = []"
  shows "\<exists>k'. ush_execute lib args k = Some (Inr (), k') \<and> ready L k' \<and> stays k k'"
proof -
  note run = ush_execute_named [OF args_first(1,2) [OF args]] and msg = ush_message_returns [OF lib k]
  have none: "c \<in> {lit ''touch'', lit ''del'', lit ''cat'', lit ''edit''} \<Longrightarrow> uload32 (args + 4) k = 0"
    using simple(3) args_second(1) [OF args] by blast
  consider (touch) "c = lit ''touch''" | (del) "c = lit ''del''" | (cat) "c = lit ''cat''" | (edit) "c = lit ''edit''"
    | (hlp) "c = lit ''help''" | (clear) "c = lit ''clear''"
    | (other) "c \<notin> {lit ''ls'', lit ''touch'', lit ''del'', lit ''cat'', lit ''edit'', lit ''help'', lit ''clear'', lit ''exit''}"
    using simple(1,2) by blast
  then show ?thesis
  proof cases
    case touch
    then show ?thesis using msg [OF ush_commands(1)] run(1) [OF touch] none by simp
  next
    case del
    then show ?thesis using msg [OF ush_commands(2)] run(2) [OF del] none by simp
  next
    case cat
    then show ?thesis using msg [OF ush_commands(3)] run(3) [OF cat] none by simp
  next
    case edit
    then show ?thesis using msg [OF ush_commands(4)] run(4) [OF edit] none by simp
  next
    case hlp
    then show ?thesis using msg [OF ush_commands(5)] run(5) [OF hlp] by simp
  next
    case clear
    then show ?thesis using user_clear [OF k] run(6) [OF clear] k by simp
  next
    case other
    then show ?thesis using user_unknown [OF lib k args_first(3) [OF args]] run(8) [OF other] by simp
  qed
qed

lemma ush_execute_spec:
  assumes lib: "c_library lib B W L" and k: "ready L k" and rep: "fs_rep (fs_disk (k_fs k)) dir"
    and args: "args_hold k args ws" and simple: "ush_simple ws"
  shows "\<exists>k'. ush_execute lib args k = Some (Inr (), k') \<and> ready L k' \<and> kbd_st k' = kbd_st k
    \<and> fs_rep (fs_disk (k_fs k')) (file_effect ws dir)"
proof (cases ws)
  case Nil
  then show ?thesis using args k rep by (simp add: args_hold_def ush_execute_def file_effect_def)
next
  case (Cons c rest)
  have not: "c \<noteq> lit ''ls''" "c \<noteq> lit ''exit''" "rest \<noteq> [] \<Longrightarrow> c \<noteq> lit ''cat'' \<and> c \<noteq> lit ''edit''"
    using simple by (simp_all add: ush_simple_def Cons)
  show ?thesis
  proof (cases "rest \<noteq> [] \<and> (c = lit ''touch'' \<or> c = lit ''del'')")
    case True
    then obtain n ns where "rest = n # ns" by (cases rest) auto
    then show ?thesis using ush_execute_file [OF k rep, of args c n ns lib] args True Cons by blast
  next
    case False
    have "c \<in> {lit ''touch'', lit ''del'', lit ''cat'', lit ''edit''} \<Longrightarrow> rest = []" using False not(3) by blast
    then obtain k' where "ush_execute lib args k = Some (Inr (), k')" "ready L k'" "stays k k'"
      using ush_execute_plain [OF lib k args [unfolded Cons] not(1,2)] by blast
    moreover have "file_effect ws dir = dir" using False by (auto simp: file_effect_def Cons split: list.split)
    ultimately show ?thesis using rep by (simp add: stays_def)
  qed
qed

lemma ush_execute_exit:
  assumes "ready A k" and "args_hold k args (lit ''exit'' # ws)"
  shows "ush_execute lib args k = Some (Inl To_shell, k)"
  using ush_execute_named(7) [OF args_first(1,2) [OF assms(2)] refl] user_exit [OF assms(1)] by simp

section \<open>A round\<close>

definition line_ok :: "u32 list \<Rightarrow> bool" where
  "line_ok ks \<longleftrightarrow> plain_keys ks \<and> length (words (entered ks)) < 64"

lemma ush_round_start:
  assumes lib: "c_library lib B W L" and k: "ready L k" and ring: "ring_contents (kbd_st k) = ks @ 10 # rest"
    and ks: "line_ok ks"
  obtains line args saved' k' where
    "ush_round lib saved k = uthen (ush_execute lib args) (\<lambda>_. uthen (c_free lib args) (\<lambda>_. uthen (c_free lib line) (\<lambda>_. ureturn saved'))) k'"
    "ready L k'" "ring_contents (kbd_st k') = rest" "fs_disk (k_fs k') = fs_disk (k_fs k)"
    "args_hold k' args (words (entered ks))"
proof -
  have pr: "library_call L L {} (\<lambda>_. True) (c_print lib (lit ''> ''))" "library_call (B \<union> L) (B \<union> L) B (\<lambda>_. True) (c_print lib (lit [CHR 0x0A]))"
    using lib ush_commands(7,8) unfolding c_library_def by blast+
  obtain k1 where k1: "c_print lib (lit ''> '') k = Some (Inr (), k1)" "ready L k1" "stays k k1"
    by (rule library_callE [OF pr(1) k]) auto
  have r1: "ring_contents (kbd_st k1) = ks @ 10 # rest" using ring k1(3) by (simp add: stays_def)
  have plain: "plain_keys ks" and few: "length (words (entered ks)) < 64" using ks by (simp_all add: line_ok_def)
  obtain line k2 where k2: "ush_read_line lib k1 = Some (Inr line, k2)" "within line 1024 B" "ready (B \<union> L) k2"
    "ring_contents (kbd_st k2) = rest" "fs_disk (k_fs k2) = fs_disk (k_fs k1)"
    "cstr (ptr_at (umem k2) (unat line)) (entered ks)" "length (entered ks) < 1023"
    using ush_read_line_spec [OF lib k1(2) r1 plain] by blast
  obtain k3 where k3: "c_print lib (lit [CHR 0x0A]) k2 = Some (Inr (), k3)" "ready (B \<union> L) k3" "stays k2 k3" "agree B k2 k3"
    by (rule library_callE [OF pr(2) k2(3)]) auto
  have c3: "cstr (ptr_at (umem k3) (unat line)) (entered ks)"
    using k2(6) by (rule cstr_agree [THEN iffD1, rotated]) (use agree_within [OF k3(4) k2(2)] k2(7) in auto)
  obtain args saved' k4 where k4: "ush_split_line lib line saved k3 = Some (Inr (args, saved'), k4)" "ready (B \<union> W \<union> L) k4" "stays k3 k4"
    "within args 256 W" "argv (umem k4) (unat line) (unat line + 1024) args (words (entered ks))"
    using ush_split_line_spec [OF lib k3(2) k2(2) c3 k2(7) few] by blast
  have nz: "line \<noteq> 0" using k2(3) within_addr(2) [OF k2(2), of 0] placed_nonzero [of _ "B \<union> L" line] by (auto simp: ready_def)
  have hold: "args_hold k4 args (words (entered ks))"
    using argv_word [OF k4(5,4) k2(2) nz few] unfolding args_hold_def by blast
  show thesis
    by (rule that [OF _ ready_mono [OF k4(2)] _ _ hold, of line saved'])
      (use k1 k2(1,4,5) k3 k4(1,3) in \<open>simp_all add: ush_round_def uthen_def stays_def\<close>)
qed

lemma ush_round_spec:
  assumes lib: "c_library lib B W L" and k: "ready L k" and ring: "ring_contents (kbd_st k) = ks @ 10 # rest"
    and ks: "line_ok ks" "ush_simple (words (entered ks))" and rep: "fs_rep (fs_disk (k_fs k)) dir"
  obtains saved' k' where "ush_round lib saved k = Some (Inr saved', k')" "ready L k'" "ring_contents (kbd_st k') = rest"
    "fs_rep (fs_disk (k_fs k')) (file_effect (words (entered ks)) dir)"
proof -
  obtain line args saved' k1 where k1:
    "ush_round lib saved k = uthen (ush_execute lib args) (\<lambda>_. uthen (c_free lib args) (\<lambda>_. uthen (c_free lib line) (\<lambda>_. ureturn saved'))) k1"
    "ready L k1" "ring_contents (kbd_st k1) = rest" "fs_disk (k_fs k1) = fs_disk (k_fs k)" "args_hold k1 args (words (entered ks))"
    by (rule ush_round_start [OF lib k ring ks(1)])
  have rep1: "fs_rep (fs_disk (k_fs k1)) dir" using rep k1(4) by simp
  obtain k2 where k2: "ush_execute lib args k1 = Some (Inr (), k2)" "ready L k2" "kbd_st k2 = kbd_st k1"
    "fs_rep (fs_disk (k_fs k2)) (file_effect (words (entered ks)) dir)"
    using ush_execute_spec [OF lib k1(2) rep1 k1(5) ks(2)] by blast
  have fr: "library_call L L {} (\<lambda>_. True) (c_free lib p)" for p using lib by (simp add: c_library_def)
  obtain u k3 where k3: "c_free lib args k2 = Some (Inr u, k3)" "ready L k3" "stays k2 k3"
    by (rule library_callE [OF fr [of args] k2(2)]) blast
  obtain u' k4 where k4: "c_free lib line k3 = Some (Inr u', k4)" "ready L k4" "stays k3 k4"
    by (rule library_callE [OF fr [of line] k3(2)]) blast
  show thesis
    by (rule that [of saved' k4])
      (use k1(1,3) k2(1,3,4) k3 k4 in \<open>simp_all add: uthen_def ureturn_def stays_def\<close>)
qed

lemma ush_round_exit:
  assumes lib: "c_library lib B W L" and k: "ready L k" and ring: "ring_contents (kbd_st k) = ks @ 10 # rest"
    and ks: "line_ok ks" "words (entered ks) = lit ''exit'' # ws"
  obtains k' where "ush_round lib saved k = Some (Inl To_shell, k')" "fs_disk (k_fs k') = fs_disk (k_fs k)"
proof -
  obtain line args saved' k1 where k1:
    "ush_round lib saved k = uthen (ush_execute lib args) (\<lambda>_. uthen (c_free lib args) (\<lambda>_. uthen (c_free lib line) (\<lambda>_. ureturn saved'))) k1"
    "ready L k1" "fs_disk (k_fs k1) = fs_disk (k_fs k)" "args_hold k1 args (words (entered ks))"
    by (rule ush_round_start [OF lib k ring ks(1)])
  have "ush_execute lib args k1 = Some (Inl To_shell, k1)" using ush_execute_exit [OF k1(2)] k1(4) ks(2) by simp
  then show thesis using k1(1,3) by (intro that [of k1]) (simp_all add: uthen_Inl)
qed

section \<open>A session\<close>

lemma ush_loop_session:
  assumes lib: "c_library lib B W L" and bye: "line_ok bye" "words (entered bye) = lit ''exit'' # ws"
  shows "ready L k \<Longrightarrow> fs_rep (fs_disk (k_fs k)) dir
    \<Longrightarrow> ring_contents (kbd_st k) = concat (List.map (\<lambda>ks. ks @ [10]) lines) @ bye @ 10 # rest
    \<Longrightarrow> \<forall>ks \<in> set lines. line_ok ks \<and> ush_simple (words (entered ks))
    \<Longrightarrow> \<exists>k'. ush_loop lib saved k = Some (Inl To_shell, k')
      \<and> fs_rep (fs_disk (k_fs k')) (fold (\<lambda>ks. file_effect (words (entered ks))) lines dir)"
proof (induction lines arbitrary: k dir saved)
  case Nil
  have ring: "ring_contents (kbd_st k) = bye @ 10 # rest" using Nil.prems(3) by simp
  obtain k' where "ush_round lib saved k = Some (Inl To_shell, k')" "fs_disk (k_fs k') = fs_disk (k_fs k)"
    by (rule ush_round_exit [OF lib Nil.prems(1) ring bye])
  then show ?case using Nil.prems(2) by (subst ush_loop.simps) simp
next
  case (Cons ks lines)
  let ?rest = "concat (List.map (\<lambda>ks. ks @ [10]) lines) @ bye @ 10 # rest"
  have ring: "ring_contents (kbd_st k) = ks @ 10 # ?rest" and ks: "line_ok ks" "ush_simple (words (entered ks))"
    using Cons.prems(3,4) by auto
  obtain saved' k1 where k1: "ush_round lib saved k = Some (Inr saved', k1)" "ready L k1" "ring_contents (kbd_st k1) = ?rest"
    "fs_rep (fs_disk (k_fs k1)) (file_effect (words (entered ks)) dir)"
    by (rule ush_round_spec [OF lib Cons.prems(1) ring ks Cons.prems(2)])
  have "\<forall>ks \<in> set lines. line_ok ks \<and> ush_simple (words (entered ks))" using Cons.prems(4) by simp
  from Cons.IH [OF k1(2,4,3) this, of saved'] show ?case using k1(1) by (subst ush_loop.simps) simp
qed

lemma ush_session:
  assumes "c_library lib B W L" and "ready L k" and "fs_rep (fs_disk (k_fs k)) dir"
    and "ring_contents (kbd_st k) = concat (List.map (\<lambda>ks. ks @ [10]) lines) @ bye @ 10 # rest"
    and "\<forall>ks \<in> set lines. line_ok ks \<and> ush_simple (words (entered ks))"
    and "line_ok bye" and "words (entered bye) = lit ''exit'' # ws"
  shows "\<exists>k'. ush_start lib k = Some (Inl To_shell, k')
    \<and> fs_rep (fs_disk (k_fs k')) (fold (\<lambda>ks. file_effect (words (entered ks))) lines dir)"
proof -
  let ?t = "lit (CHR 0x0A # ''Shed userspace shell'' @ [CHR 0x0A])"
  have sv: "library_call L L {} (\<lambda>_. True) (c_setvbuf lib s)" for s using assms(1) by (simp add: c_library_def)
  have pr: "library_call L L {} (\<lambda>_. True) (c_print lib ?t)" using assms(1) ush_commands(9) unfolding c_library_def by blast
  obtain k1 where k1: "c_setvbuf lib Stdout k = Some (Inr (), k1)" "ready L k1" "stays k k1"
    by (rule library_callE [OF sv assms(2)]) auto
  obtain k2 where k2: "c_setvbuf lib Stdin k1 = Some (Inr (), k2)" "ready L k2" "stays k1 k2"
    by (rule library_callE [OF sv k1(2)]) auto
  obtain k3 where k3: "c_print lib ?t k2 = Some (Inr (), k3)" "ready L k3" "stays k2 k3"
    by (rule library_callE [OF pr k2(2)]) auto
  have "fs_disk (k_fs k3) = fs_disk (k_fs k)" "kbd_st k3 = kbd_st k" using k1(3) k2(3) k3(3) by (simp_all add: stays_def)
  then show ?thesis using ush_loop_session [OF assms(1,6,7) k3(2), of dir lines rest 0] assms(3-5) k1(1) k2(1) k3(1)
    by (simp add: ush_start_def uthen_def)
qed


section \<open>A library\<close>

text \<open>Unbuffered output: each character is put into a cell of the library and written with \<open>write\<close>, whose
  local array is at \<open>0xB0000F00\<close>; the allocator takes its blocks from the same page.\<close>

fun demo_print :: "u8 list \<Rightarrow> unit urun" where
  "demo_print [] k = ureturn () k"
| "demo_print (b # t) k = uthen (u_write 0xB0000F00 1 0xB0000F10 1) (\<lambda>_. demo_print t) (ustore 0xB0000F10 b k)"

definition demo_libc :: libc where
  "demo_libc = \<lparr>c_setvbuf = (\<lambda>_. ureturn ()), c_print = demo_print,
     c_malloc = (\<lambda>n. ureturn (if n = 1024 then 0xB0000000 else if n = 256 then 0xB0000400 else 0xB0000500)),
     c_free = (\<lambda>_. ureturn ())\<rparr>"

abbreviation demo_B :: "u32 set" where "demo_B \<equiv> region 0xB0000000 1024"
abbreviation demo_W :: "u32 set" where "demo_W \<equiv> region 0xB0000400 256"
abbreviation demo_L :: "u32 set" where "demo_L \<equiv> region 0xB0000000 4096"

lemma demo_print_call:
  assumes "0 \<notin> set t"
  shows "ready demo_L k \<Longrightarrow> \<exists>k'. demo_print t k = Some (Inr (), k') \<and> ready demo_L k' \<and> stays k k' \<and> agree (demo_B \<union> demo_W) k k'"
  using assms
proof (induction t arbitrary: k)
  case Nil
  then show ?case by (simp add: ureturn_def)
next
  case (Cons b t)
  have at: "0xB0000F00 \<in> demo_L" "0xB0000F01 \<in> demo_L" "0xB0000F10 \<in> demo_L" by (simp_all add: region_def)
  note st = ustore_ready [where b = b, OF Cons.prems(1) at(3)]
  let ?k1 = "ustore 0xB0000F10 b k"
  have ag: "agree (demo_B \<union> demo_W) k ?k1"
    by (rule ustore_agree [OF Cons.prems(1) at(3)]) (auto simp: region_def)
  have r: "uread 0xB0000F10 ?k1 = b" using st(3) [OF at(3)] by (simp add: uread_def)
  have k1: "placed (paging_st ?k1) demo_L" "exit_requested ?k1 = 0" "ring_ok (kbd_st ?k1)" using st(1) by (simp_all add: ready_def)
  obtain k2 where k2: "write_loop 0xB0000F00 0xB0000F10 (length [b]) ?k1 = Some (Inr (), k2)" "same_kernel ?k1 k2"
    "placed (paging_st k2) demo_L" "\<forall>w \<in> demo_L - {0xB0000F00, 0xB0000F00 + 1}. uread w k2 = uread w ?k1"
    using write_loop_spec [OF k1(1,2) at(1), of "[b]" "0xB0000F10"] at(2,3) r Cons.prems(2) by auto
  have "ready demo_L k2" "stays ?k1 k2" using k2(2,3) k1 by (simp_all add: ready_def stays_def same_kernel_def)
  moreover have "agree (demo_B \<union> demo_W) ?k1 k2" unfolding agree_def
  proof
    fix w assume w: "w \<in> demo_B \<union> demo_W"
    then have "w \<in> demo_L - {0xB0000F00, 0xB0000F00 + 1}" by (auto simp: region_def)
    then show "umem k2 (unat w) = umem ?k1 (unat w)" using k2(4) by (simp add: uread_def)
  qed
  moreover obtain k' where "demo_print t k2 = Some (Inr (), k')" "ready demo_L k'" "stays k2 k'" "agree (demo_B \<union> demo_W) k2 k'"
    using Cons.IH [OF \<open>ready demo_L k2\<close>] Cons.prems(2) by auto
  moreover have "u_write 0xB0000F00 1 0xB0000F10 1 ?k1 = Some (Inr 1, k2)"
    using k2(1) by (simp add: u_write_def uthen_def ureturn_def)
  ultimately show ?case using st(2) ag by (auto simp: uthen_def intro: stays_trans agree_trans)
qed

lemma library_ureturn: "Q x \<Longrightarrow> library_call A A M Q (ureturn x)"
  by (simp add: library_call_def ureturn_def)

lemma demo_library: "c_library demo_libc demo_B demo_W demo_L"
proof -
  have "within 0xB0000000 1024 demo_B" "within 0xB0000400 256 demo_W" by (simp_all add: within_def)
  moreover have "demo_B \<inter> demo_W = {}" "demo_B \<union> demo_L = demo_L" "demo_B \<union> demo_W \<union> demo_L = demo_L" by (auto simp: region_def)
  moreover have "library_call demo_L demo_L M (\<lambda>_. True) (demo_print t)" if "0 \<notin> set t" "M \<subseteq> demo_B \<union> demo_W" for t M
    using demo_print_call [OF that(1)] agree_subset [OF _ that(2)] unfolding library_call_def by blast
  ultimately show ?thesis by (simp add: c_library_def demo_libc_def library_ureturn)
qed

lemma push_all:
  "ring_ok q \<Longrightarrow> length (ring_contents q) + length cs < 256
    \<Longrightarrow> ring_ok (fold kbd_push cs q) \<and> ring_contents (fold kbd_push cs q) = ring_contents q @ cs"
  by (induction cs arbitrary: q) (simp_all add: push_ok)

lemma ush_line_words:
  "entered (keys ''touch a'') = lit ''touch a''" "entered (keys ''exit'') = lit ''exit''"
  "words (lit ''touch a'') = [lit ''touch'', lit ''a'']" "words (lit ''exit'') = [lit ''exit'']"
  by code_simp+

lemma ush_lines:
  "line_ok (keys ''touch a'')" "ush_simple (words (entered (keys ''touch a'')))" "line_ok (keys ''exit'')"
  "words (entered (keys ''touch a'')) = [lit ''touch'', lit ''a'']" "words (entered (keys ''exit'')) = [lit ''exit'']"
  "length (keys ''touch a'' @ 10 # keys ''exit'' @ [10]) = 13"
proof -
  have "plain_keys (keys ''touch a'')" "plain_keys (keys ''exit'')" by (simp_all add: keys_def)
  then show "line_ok (keys ''touch a'')" "line_ok (keys ''exit'')" by (simp_all only: line_ok_def ush_line_words) simp_all
  have "ush_simple [lit ''touch'', lit ''a'']" by (simp add: ush_simple_def chr_eq_iff)
  then show "ush_simple (words (entered (keys ''touch a'')))" by (simp only: ush_line_words)
  show "words (entered (keys ''touch a'')) = [lit ''touch'', lit ''a'']" "words (entered (keys ''exit'')) = [lit ''exit'']"
    by (simp_all only: ush_line_words)
  show "length (keys ''touch a'' @ 10 # keys ''exit'' @ [10]) = 13" by (simp add: keys_def)
qed


section \<open>From power-on\<close>

lemma ring3_shell_line:
  "short_line (keys ''ring3_shell'')" "words (typed (keys ''ring3_shell'')) = [lit ''ring3_shell'']"
proof -
  have t: "typed (keys ''ring3_shell'') = lit ''ring3_shell''" by code_simp
  have "short 1024 [] (keys ''ring3_shell'')" by (simp add: keys_def type_key_def)
  moreover have "10 \<notin> set (keys ''ring3_shell'')" "-1 \<notin> set (keys ''ring3_shell'')" by (simp_all add: keys_def)
  moreover have "0 \<notin> set (lit ''ring3_shell'')" by code_simp
  ultimately show "short_line (keys ''ring3_shell'')" by (simp only: short_line_def t simp_thms)
  show "words (typed (keys ''ring3_shell'')) = [lit ''ring3_shell'']" unfolding t by code_simp
qed



end
