(* ===== verification/EditorRows.thy ===== *)
theory EditorRows
  imports EditorFiles HeapOwn
begin

text \<open>
  The rows of \<open>fs/ed.c\<close> where the code keeps them: the array \<open>E.rows\<close> and the characters of every row are
  payloads of the heap of theory \<open>Heap\<close>, requested with \<open>malloc\<close> and \<open>realloc\<close> and moved with
  \<open>memmove\<close>.  The operations take addresses; an access through a null pointer, which is what a failed
  request leaves, gives \<open>None\<close>.  \<open>rows_in\<close> says that a memory holds a list of rows; the lemmas are on
  writing such a memory and on requests that move the array.  Theory \<open>EditorRowOps\<close> goes through the row
  operations, \<open>EditorHeap\<close> concludes that the editing functions implement those of theory \<open>Editor\<close>.
\<close>

section \<open>State and operations\<close>

text \<open>
  The part of \<open>E\<close> that the operations on the text use, with \<open>yank_len\<close>.  The static \<open>yank_buf\<close>, the string
  literal \<open>""\<close> and the heap's array are at addresses that the linker chooses.
\<close>

record heap_editor =
  he_heap :: heap
  he_rows :: u32
  he_numrows :: int
  he_cx :: int
  he_cy :: int
  he_dirty :: int
  he_yank_len :: int

record addresses =
  heap_area :: u32
  yank_addr :: u32
  empty_string :: u32

definition non_null :: "u32 \<Rightarrow> unit option" where
  "non_null p = (if p = 0 then None else Some ())"

definition on_memory :: "(mem \<Rightarrow> mem) \<Rightarrow> heap_editor \<Rightarrow> heap_editor" where
  "on_memory f C = C\<lparr>he_heap := (he_heap C)\<lparr>hmem := f (hmem (he_heap C))\<rparr>\<rparr>"

text \<open>\<open>&E.rows[i]\<close> and its two fields.  A row that does not exist gives \<open>None\<close>.\<close>

definition erow_at :: "heap_editor \<Rightarrow> int \<Rightarrow> nat" where "erow_at C i = unat (he_rows C) + 8 * nat i"
definition erow_size :: "heap_editor \<Rightarrow> int \<Rightarrow> int" where "erow_size C i = sint (ld32 (hmem (he_heap C)) (erow_at C i))"
definition erow_chars :: "heap_editor \<Rightarrow> int \<Rightarrow> u32" where "erow_chars C i = ld32 (hmem (he_heap C)) (erow_at C i + 4)"

definition set_erow_size :: "int \<Rightarrow> int \<Rightarrow> heap_editor \<Rightarrow> heap_editor" where
  "set_erow_size i v C = on_memory (\<lambda>m. st32 m (erow_at C i) (of_int v)) C"
definition set_erow_chars :: "int \<Rightarrow> u32 \<Rightarrow> heap_editor \<Rightarrow> heap_editor" where
  "set_erow_chars i v C = on_memory (\<lambda>m. st32 m (erow_at C i + 4) v) C"

definition has_row :: "heap_editor \<Rightarrow> int \<Rightarrow> unit option" where
  "has_row C i = (if 0 \<le> i \<and> i < he_numrows C then Some () else None)"

definition heap_insert_row :: "addresses \<Rightarrow> int \<Rightarrow> u32 \<Rightarrow> int \<Rightarrow> heap_editor \<Rightarrow> heap_editor option" where
  "heap_insert_row A at s len C =
     (if at < 0 \<or> he_numrows C < at then Some C
      else do {
        (p, h) \<leftarrow> realloc (heap_area A) (he_rows C) (of_int (8 * (he_numrows C + 1))) (he_heap C);
        let C1 = C\<lparr>he_heap := h, he_rows := p\<rparr>;
        non_null p;
        let C2 = on_memory (\<lambda>m. memmove m (erow_at C1 (at + 1)) (erow_at C1 at) (8 * nat (he_numrows C1 - at))) C1;
        let C3 = set_erow_size at len C2;
        (q, h) \<leftarrow> malloc (of_int (len + 1)) (he_heap C3);
        let C4 = set_erow_chars at q (C3\<lparr>he_heap := h\<rparr>);
        non_null q;
        (if len < 0 then None else Some ());
        let C5 = on_memory (\<lambda>m. (memcpy m (unat q) (unat s) (nat len))(unat q + nat len := 0)) C4;
        Some (C5\<lparr>he_numrows := he_numrows C5 + 1\<rparr>)
      })"

definition heap_free_row :: "int \<Rightarrow> heap_editor \<Rightarrow> heap_editor" where
  "heap_free_row i C = set_erow_size i 0 (set_erow_chars i 0 (C\<lparr>he_heap := mem_free (erow_chars C i) (he_heap C)\<rparr>))"

definition heap_del_row :: "int \<Rightarrow> heap_editor \<Rightarrow> heap_editor" where
  "heap_del_row at C =
     (if at < 0 \<or> he_numrows C \<le> at then C
      else let C1 = heap_free_row at C;
               C2 = on_memory (\<lambda>m. memmove m (erow_at C1 at) (erow_at C1 (at + 1)) (8 * nat (he_numrows C1 - at - 1))) C1
           in C2\<lparr>he_numrows := he_numrows C2 - 1, he_dirty := 1\<rparr>)"

definition heap_row_insert_char :: "addresses \<Rightarrow> int \<Rightarrow> int \<Rightarrow> u8 \<Rightarrow> heap_editor \<Rightarrow> heap_editor option" where
  "heap_row_insert_char A i at c C = do {
     has_row C i;
     let sz = erow_size C i;
     let at' = (if at < 0 \<or> sz < at then sz else at);
     (p, h) \<leftarrow> realloc (heap_area A) (erow_chars C i) (of_int (sz + 2)) (he_heap C);
     let C1 = set_erow_chars i p (C\<lparr>he_heap := h\<rparr>);
     non_null p;
     let C2 = on_memory (\<lambda>m. (memmove m (unat p + nat at' + 1) (unat p + nat at') (nat (sz - at' + 1)))(unat p + nat at' := c)) C1;
     Some ((set_erow_size i (sz + 1) C2)\<lparr>he_dirty := 1\<rparr>)
   }"

definition heap_row_del_char :: "int \<Rightarrow> int \<Rightarrow> heap_editor \<Rightarrow> heap_editor option" where
  "heap_row_del_char i at C = do {
     has_row C i;
     let sz = erow_size C i;
     if at < 0 \<or> sz \<le> at then Some C
     else let p = unat (erow_chars C i);
              C1 = on_memory (\<lambda>m. memmove m (p + nat at) (p + nat at + 1) (nat (sz - at))) C
          in Some ((set_erow_size i (sz - 1) C1)\<lparr>he_dirty := 1\<rparr>)
   }"

definition heap_row_append :: "addresses \<Rightarrow> int \<Rightarrow> u32 \<Rightarrow> int \<Rightarrow> heap_editor \<Rightarrow> heap_editor option" where
  "heap_row_append A i s len C = do {
     has_row C i;
     let sz = erow_size C i;
     (p, h) \<leftarrow> realloc (heap_area A) (erow_chars C i) (of_int (sz + len + 1)) (he_heap C);
     let C1 = set_erow_chars i p (C\<lparr>he_heap := h\<rparr>);
     non_null p;
     (if len < 0 then None else Some ());
     let C2 = on_memory (\<lambda>m. memcpy m (unat p + nat sz) (unat s) (nat len)) C1;
     let C3 = set_erow_size i (sz + len) C2;
     Some ((on_memory (\<lambda>m. m(unat p + nat (sz + len) := 0)) C3)\<lparr>he_dirty := 1\<rparr>)
   }"

section \<open>Lists of rows in memory\<close>

text \<open>
  \<open>es\<close> lists the rows with the addresses of their characters.  \<open>rows_at\<close>: the array at \<open>p\<close> has these
  sizes and pointers.  \<open>chars_at\<close>: the characters of a row, and the terminator behind them.  \<open>held\<close>: the
  array and the characters are buffers of their own, large enough, and there are no others.
\<close>

definition rows_at :: "mem \<Rightarrow> nat \<Rightarrow> (nat \<times> u8 list) list \<Rightarrow> bool" where
  "rows_at m p es \<longleftrightarrow> (\<forall>i < length es. ld32 m (p + 8 * i) = of_nat (length (snd (es ! i)))
     \<and> ld32 m (p + 8 * i + 4) = of_nat (fst (es ! i)))"

definition chars_at :: "mem \<Rightarrow> nat \<times> u8 list \<Rightarrow> bool" where
  "chars_at m e \<longleftrightarrow> (\<forall>k \<le> length (snd e). m (fst e + k) = (snd e @ [0]) ! k)"

definition held :: "(nat \<Rightarrow> nat option) \<Rightarrow> nat \<Rightarrow> (nat \<times> u8 list) list \<Rightarrow> bool" where
  "held own p es \<longleftrightarrow> distinct (map fst es)
     \<and> (\<forall>e \<in> set es. fst e \<noteq> p \<and> (\<exists>t. own (fst e) = Some t \<and> length (snd e) < t))
     \<and> dom own = fst ` set es \<union> (if p = 0 then {} else {p})
     \<and> (if p = 0 then es = [] else \<exists>s. own p = Some s \<and> 8 * length es \<le> s \<and> 0 < s)"

definition rows_in :: "u32 \<Rightarrow> heap \<Rightarrow> (nat \<Rightarrow> nat option) \<Rightarrow> heap \<Rightarrow> nat \<Rightarrow> (nat \<times> u8 list) list \<Rightarrow> bool" where
  "rows_in area h0 own h p es \<longleftrightarrow> owned area h0 own h \<and> held own p es \<and> rows_at (hmem h) p es
     \<and> (\<forall>e \<in> set es. chars_at (hmem h) e)"

subsection \<open>The array\<close>

lemma rows_at_move:
  assumes "rows_at m p es" and "\<And>k. k < 8 * length es \<Longrightarrow> m' (q + k) = m (p + k)"
  shows "rows_at m' q es"
proof -
  have "m' (q + 8 * i + k) = m (p + 8 * i + k)" if "i < length es" "k < 8" for i k
    using assms(2) [of "8 * i + k"] that by (simp add: add.assoc)
  then have "ld32 m' (q + 8 * i) = ld32 m (p + 8 * i)" "ld32 m' (q + 8 * i + 4) = ld32 m (p + 8 * i + 4)" if "i < length es" for i
    using that by (intro ld32_cong; simp add: add.assoc)+
  then show ?thesis using assms(1) by (simp add: rows_at_def)
qed

lemma rows_at_cong:
  "rows_at m p es \<Longrightarrow> (\<And>x. p \<le> x \<Longrightarrow> x < p + 8 * length es \<Longrightarrow> m' x = m x) \<Longrightarrow> rows_at m' p es"
  by (rule rows_at_move) auto

lemma rows_atD:
  "rows_at m p es \<Longrightarrow> i < length es \<Longrightarrow> ld32 m (p + 8 * i) = of_nat (length (snd (es ! i)))
    \<and> ld32 m (p + 8 * i + 4) = of_nat (fst (es ! i))"
  by (simp add: rows_at_def)

lemma ld32_memmove:
  "d \<le> a \<Longrightarrow> a + 4 \<le> d + n \<Longrightarrow> ld32 (memmove m d s n) a = ld32 m (s + (a - d))"
  by (rule ld32_cong) (auto simp: memmove_apply intro!: arg_cong [where f = m])

lemma ld32_memmove_other [byte_frame]: "a + 4 \<le> d \<or> d + n \<le> a \<Longrightarrow> ld32 (memmove m d s n) a = ld32 m a"
  by (rule ld32_cong) (auto simp: memmove_apply)

text \<open>An entry.\<close>

definition put_entry :: "nat \<Rightarrow> nat \<Rightarrow> nat \<times> u8 list \<Rightarrow> mem \<Rightarrow> mem" where
  "put_entry p i e m = st32 (st32 m (p + 8 * i) (of_nat (length (snd e)))) (p + 8 * i + 4) (of_nat (fst e))"

lemma ld32_put_entry:
  "ld32 (put_entry p i e m) (p + 8 * j) = (if j = i then of_nat (length (snd e)) else ld32 m (p + 8 * j))"
  "ld32 (put_entry p i e m) (p + 8 * j + 4) = (if j = i then of_nat (fst e) else ld32 m (p + 8 * j + 4))"
proof -
  consider "j = i" | "j < i" | "i < j" by linarith
  then show "ld32 (put_entry p i e m) (p + 8 * j) = (if j = i then of_nat (length (snd e)) else ld32 m (p + 8 * j))"
    "ld32 (put_entry p i e m) (p + 8 * j + 4) = (if j = i then of_nat (fst e) else ld32 m (p + 8 * j + 4))"
    by (cases; simp add: put_entry_def ld32_st32_other)+
qed

lemma put_entry_other: "x < p + 8 * i \<or> p + 8 * i + 8 \<le> x \<Longrightarrow> put_entry p i e m x = m x"
  by (auto simp: put_entry_def st32_other)

lemma rows_at_put: "rows_at m p es \<Longrightarrow> i < length es \<Longrightarrow> rows_at (put_entry p i e m) p (es[i := e])"
  by (auto simp: rows_at_def ld32_put_entry nth_list_update)

lemma nth_inserted:
  "i \<le> length xs \<Longrightarrow> j \<le> length xs \<Longrightarrow> (take i xs @ x # drop i xs) ! j = (if j < i then xs ! j else if j = i then x else xs ! (j - 1))"
  by (auto simp: nth_append nth_Cons' min_def)

lemma nth_deleted:
  "i < length xs \<Longrightarrow> j < length xs - 1 \<Longrightarrow> (take i xs @ drop (Suc i) xs) ! j = (if j < i then xs ! j else xs ! Suc j)"
  by (auto simp: nth_append min_def)

lemma rows_at_insert:
  assumes "rows_at m p es" and i: "i \<le> length es"
  shows "rows_at (put_entry p i e (memmove m (p + 8 * Suc i) (p + 8 * i) (8 * (length es - i)))) p (take i es @ e # drop i es)"
  unfolding rows_at_def
proof (intro allI impI)
  fix j assume "j < length (take i es @ e # drop i es)"
  then have j: "j \<le> length es" using i by simp
  let ?m = "memmove m (p + 8 * Suc i) (p + 8 * i) (8 * (length es - i))"
  have "ld32 ?m (p + 8 * j) = (if j < i then ld32 m (p + 8 * j) else ld32 m (p + 8 * (j - 1)))
      \<and> ld32 ?m (p + 8 * j + 4) = (if j < i then ld32 m (p + 8 * j + 4) else ld32 m (p + 8 * (j - 1) + 4))" if "j \<noteq> i"
  proof (cases "j < i")
    case False
    then have k: "j = Suc i + (j - Suc i)" using that by simp
    have off: "p + 8 * i + (p + 8 * j - (p + 8 * Suc i)) = p + 8 * (j - 1)"
      "p + 8 * i + (p + 8 * j + 4 - (p + 8 * Suc i)) = p + 8 * (j - 1) + 4" using k by simp_all
    have "ld32 ?m (p + 8 * j) = ld32 m (p + 8 * i + (p + 8 * j - (p + 8 * Suc i)))" using j k by (intro ld32_memmove) simp_all
    moreover have "ld32 ?m (p + 8 * j + 4) = ld32 m (p + 8 * i + (p + 8 * j + 4 - (p + 8 * Suc i)))"
      using j k by (intro ld32_memmove) simp_all
    ultimately show ?thesis using False unfolding off by simp
  qed (simp add: ld32_memmove_other)
  then show "ld32 (put_entry p i e ?m) (p + 8 * j) = of_nat (length (snd ((take i es @ e # drop i es) ! j)))
      \<and> ld32 (put_entry p i e ?m) (p + 8 * j + 4) = of_nat (fst ((take i es @ e # drop i es) ! j))"
    unfolding nth_inserted [OF i j] ld32_put_entry
    using rows_atD [OF assms(1), of j] rows_atD [OF assms(1), of "j - 1"] i j by (cases j i rule: linorder_cases) simp_all
qed

lemma rows_at_delete:
  assumes "rows_at m p es" and i: "i < length es"
  shows "rows_at (memmove m (p + 8 * i) (p + 8 * Suc i) (8 * (length es - i - 1))) p (take i es @ drop (Suc i) es)"
  unfolding rows_at_def
proof (intro allI impI)
  fix j assume "j < length (take i es @ drop (Suc i) es)"
  then have j: "j < length es - 1" using i by simp
  let ?m = "memmove m (p + 8 * i) (p + 8 * Suc i) (8 * (length es - i - 1))"
  have "ld32 ?m (p + 8 * j) = (if j < i then ld32 m (p + 8 * j) else ld32 m (p + 8 * Suc j))
      \<and> ld32 ?m (p + 8 * j + 4) = (if j < i then ld32 m (p + 8 * j + 4) else ld32 m (p + 8 * Suc j + 4))"
  proof (cases "j < i")
    case False
    then have k: "j = i + (j - i)" by simp
    have off: "p + 8 * Suc i + (p + 8 * j - (p + 8 * i)) = p + 8 * Suc j"
      "p + 8 * Suc i + (p + 8 * j + 4 - (p + 8 * i)) = p + 8 * Suc j + 4" using k by simp_all
    have "ld32 ?m (p + 8 * j) = ld32 m (p + 8 * Suc i + (p + 8 * j - (p + 8 * i)))" using j k by (intro ld32_memmove) simp_all
    moreover have "ld32 ?m (p + 8 * j + 4) = ld32 m (p + 8 * Suc i + (p + 8 * j + 4 - (p + 8 * i)))"
      using j k by (intro ld32_memmove) simp_all
    ultimately show ?thesis using False unfolding off by simp
  qed (simp add: ld32_memmove_other)
  then show "ld32 ?m (p + 8 * j) = of_nat (length (snd ((take i es @ drop (Suc i) es) ! j)))
      \<and> ld32 ?m (p + 8 * j + 4) = of_nat (fst ((take i es @ drop (Suc i) es) ! j))"
    unfolding nth_deleted [OF i j]
    using rows_atD [OF assms(1), of j] rows_atD [OF assms(1), of "Suc j"] j by (cases "j < i") simp_all
qed

subsection \<open>The buffers\<close>

lemma chars_at_cong: "chars_at m e \<Longrightarrow> (\<And>k. k \<le> length (snd e) \<Longrightarrow> m' (fst e + k) = m (fst e + k)) \<Longrightarrow> chars_at m' e"
  by (simp add: chars_at_def)

lemma rows_in_write:
  assumes "rows_in area h0 own h p es" and "held own p es'" and "rows_at m p es'" and "\<forall>e \<in> set es'. chars_at m e"
    and "\<And>x. (\<And>a s. own a = Some s \<Longrightarrow> x < a \<or> a + s \<le> x) \<Longrightarrow> m x = hmem h x"
  shows "rows_in area h0 own (h\<lparr>hmem := m\<rparr>) p es'" "heap_blocks (h\<lparr>hmem := m\<rparr>) = heap_blocks h"
  using owned_writes [of area h0 own h m, OF _ assms(5)] assms(1-4) by (auto simp: rows_in_def)

lemma rows_in_owned: "rows_in area h0 own h p es \<Longrightarrow> owned area h0 own h" by (simp add: rows_in_def)

lemma rows_in_length:
  fixes p :: u32
  assumes "rows_in area h0 own h (unat p) es"
  shows "8 * length es \<le> 1048560"
proof (cases "unat p = 0")
  case False
  then obtain s where "own (unat p) = Some s" "8 * length es \<le> s" using assms by (auto simp: rows_in_def held_def)
  then show ?thesis using owned_range(1,2) [OF rows_in_owned [OF assms], of p s] by simp
qed (use assms in \<open>simp add: rows_in_def held_def\<close>)

lemma held_row: "held own p es \<Longrightarrow> e \<in> set es \<Longrightarrow> fst e \<noteq> p \<and> (\<exists>t. own (fst e) = Some t \<and> length (snd e) < t)"
  by (simp add: held_def)

lemma held_dom: "held own p es \<Longrightarrow> dom own = fst ` set es \<union> (if p = 0 then {} else {p})"
  by (simp add: held_def)

lemma held_array:
  assumes "held own p es" and "q \<noteq> 0" and "q = p \<or> own q = None" and "8 * length es \<le> t" and "0 < t"
  shows "held ((own(p := None))(q \<mapsto> t)) q es"
proof -
  have "fst e \<noteq> q" if "e \<in> set es" for e using assms(3) held_row [OF assms(1) that] by auto
  then show ?thesis using assms by (auto simp: held_def split: if_splits)
qed

lemma held_insert:
  assumes "held own p (xs @ ys)" and "own p = Some s" and "8 * Suc (length (xs @ ys)) \<le> s"
    and "own q = None" and "length bs < t" and "p \<noteq> 0"
  shows "held (own(q \<mapsto> t)) p (xs @ (q, bs) # ys)"
proof -
  have "q \<noteq> p" using assms(2,4) by auto
  moreover have "fst e \<noteq> q" if "e \<in> set (xs @ ys)" for e using assms(4) held_row [OF assms(1) that] by auto
  ultimately show ?thesis using assms by (auto simp: held_def)
qed

lemma held_delete:
  assumes "held own p (xs @ (q, bs) # ys)"
  shows "held (own(q := None)) p (xs @ ys)" "q \<noteq> p" "p \<noteq> 0" "\<exists>s. own p = Some s \<and> 8 * Suc (length (xs @ ys)) \<le> s"
    "\<exists>t. own q = Some t \<and> length bs < t" "\<And>e. e \<in> set (xs @ ys) \<Longrightarrow> fst e \<noteq> q"
proof -
  show q: "q \<noteq> p" "p \<noteq> 0" "\<exists>s. own p = Some s \<and> 8 * Suc (length (xs @ ys)) \<le> s"
    "\<exists>t. own q = Some t \<and> length bs < t" using assms by (auto simp: held_def split: if_splits)
  show d: "fst e \<noteq> q" if "e \<in> set (xs @ ys)" for e using assms that by (auto simp: held_def)
  have "dom (own(q := None)) = fst ` set (xs @ ys) \<union> {p}"
    using held_dom [OF assms] q(1,2) d by auto
  then show "held (own(q := None)) p (xs @ ys)"
    using assms q d unfolding held_def by auto
qed

lemma held_replace:
  assumes "held own p (xs @ (q, bs) # ys)" and "q' = q \<or> own q' = None" and "length bs' < t"
  shows "held ((own(q := None))(q' \<mapsto> t)) p (xs @ (q', bs') # ys)"
proof -
  note d = held_delete [OF assms(1)]
  obtain s where s: "own p = Some s" "8 * Suc (length (xs @ ys)) \<le> s" using d(4) by auto
  show ?thesis
    by (rule held_insert [OF d(1) _ s(2)]) (use s d(2,3) assms(2,3) in auto)
qed

text \<open>What the heap's operations leave alone: bytes outside the heap's array, and the buffers \<open>own\<close> but for those of \<open>X\<close>.\<close>

definition leaves :: "u32 \<Rightarrow> (nat \<Rightarrow> nat option) \<Rightarrow> nat set \<Rightarrow> mem \<Rightarrow> mem \<Rightarrow> bool" where
  "leaves area own X m m' \<longleftrightarrow> (\<forall>x. outside area x \<longrightarrow> m' x = m x)
     \<and> (\<forall>r u k. own r = Some u \<longrightarrow> r \<notin> X \<longrightarrow> k < u \<longrightarrow> m' (r + k) = m (r + k))"

lemma leaves_in:
  assumes "leaves area own X m m'" and "own r = Some u" and "r \<notin> X" and "r \<le> x" and "x < r + u"
  shows "m' x = m x"
proof -
  obtain k where "x = r + k" using assms(4) le_Suc_ex by blast
  then show ?thesis using assms by (auto simp: leaves_def)
qed

lemma leaves_chars:
  assumes "leaves area own X m m'" and "held own p es" and "e \<in> set es" and "fst e \<notin> X" and "chars_at m e"
  shows "chars_at m' e"
proof -
  obtain t where "own (fst e) = Some t" "length (snd e) < t" using held_row [OF assms(2,3)] by blast
  then show ?thesis using assms(1,4) by (intro chars_at_cong [OF assms(5)]) (auto simp: leaves_def)
qed

lemma owned_malloc_room:
  assumes "owned area h0 own h" and "room (unat n + 16 + k) h"
  obtains q h' t where "malloc n h = Some (q, h')" "q \<noteq> 0" "own (unat q) = None" "unat n \<le> t"
    "owned area h0 (own(unat q \<mapsto> t)) h'" "room k h'" "leaves area own {} (hmem h) (hmem h')"
proof -
  obtain q h' where q: "malloc n h = Some (q, h')" "q \<noteq> 0" "room k h'" using room_malloc [OF owned_ok [OF assms(1)] assms(2)] by blast
  show thesis
  proof (cases rule: owned_malloc [OF assms(1), of n])
    case 1
    then show thesis using q by simp
  next
    case (2 q' h'' t)
    then show thesis using q malloc_outside [OF owned_ok [OF assms(1)] q(1)]
      by (intro that [of q h' t]) (auto simp: leaves_def)
  qed
qed

lemma owned_realloc_room:
  assumes "owned area h0 own h" and "own (unat p) = Some s" and "0 < s" and "n \<noteq> 0" and "room (unat n + 16 + k) h"
  obtains q h' t where "realloc area p n h = Some (q, h')" "q \<noteq> 0" "unat n \<le> t" "q = p \<or> own (unat q) = None"
    "owned area h0 ((own(unat p := None))(unat q \<mapsto> t)) h'" "room k h'" "leaves area own {unat p} (hmem h) (hmem h')"
    "\<And>k. k < s \<Longrightarrow> k < t \<Longrightarrow> hmem h' (unat q + k) = hmem h (unat p + k)"
proof -
  obtain q h' t where q: "realloc area p n h = Some (q, h')" "q \<noteq> 0" "unat n \<le> t" "q = p \<or> own (unat q) = None"
    "owned area h0 ((own(unat p := None))(unat q \<mapsto> t)) h'" "room k h'"
    "\<forall>k. k < s \<longrightarrow> k < t \<longrightarrow> hmem h' (unat q + k) = hmem h (unat p + k)"
    "\<forall>r u k. own r = Some u \<longrightarrow> r \<noteq> unat p \<longrightarrow> k < u \<longrightarrow> hmem h' (r + k) = hmem h (r + k)"
    by (rule room_realloc [OF assms])
  then show thesis using realloc_outside [OF assms(1-4) q(1)] by (intro that [of q h' t]) (auto simp: leaves_def)
qed

lemma grow_array:
  fixes p :: u32
  assumes rows: "rows_in area h0 own h (unat p) es" and room: "room (8 * Suc (length es) + 16 + k) h"
  obtains q h' t where "realloc area p (of_nat (8 * Suc (length es))) h = Some (q, h')" "q \<noteq> 0" "8 * Suc (length es) \<le> t" "q = p \<or> own (unat q) = None"
    "rows_in area h0 ((own(unat p := None))(unat q \<mapsto> t)) h' (unat q) es" "room k h'"
    "leaves area own {unat p} (hmem h) (hmem h')"
proof -
  let ?n = "of_nat (8 * Suc (length es)) :: u32"
  have n: "unat ?n = 8 * Suc (length es)" using rows_in_length [OF rows] by (intro unat_of_nat32) simp
  then have n0: "?n \<noteq> 0" by (metis mult_eq_0_iff nat.distinct(1) unat_0 zero_neq_numeral)
  have ow: "owned area h0 own h" and hd: "held own (unat p) es" and at: "rows_at (hmem h) (unat p) es"
    and ch: "\<And>e. e \<in> set es \<Longrightarrow> chars_at (hmem h) e" using rows by (auto simp: rows_in_def)
  show thesis
  proof (cases "p = 0")
    case True
    then have es: "es = []" "own = Map.empty" using hd by (auto simp: held_def)
    have "room (unat ?n + 16 + k) h" using room n by simp
    then obtain q h' t where q: "malloc ?n h = Some (q, h')" "q \<noteq> 0" "own (unat q) = None" "unat ?n \<le> t"
      "owned area h0 (own(unat q \<mapsto> t)) h'" "room k h'" "leaves area own {} (hmem h) (hmem h')"
      by (rule owned_malloc_room [OF ow])
    have "rows_in area h0 (own(unat q \<mapsto> t)) h' (unat q) es"
      using q es n by (auto simp: rows_in_def held_def rows_at_def unat_gt_0)
    then show thesis using q True es n by (intro that [of q h' t]) (auto simp: realloc_def leaves_def)
  next
    case False
    then have "unat p \<noteq> 0" by (simp add: unat_eq_zero)
    then obtain s where s: "own (unat p) = Some s" "8 * length es \<le> s" "0 < s" using hd by (auto simp: held_def)
    have "room (unat ?n + 16 + k) h" using room n by simp
    then obtain q h' t where q: "realloc area p ?n h = Some (q, h')" "q \<noteq> 0" "unat ?n \<le> t" "q = p \<or> own (unat q) = None"
      "owned area h0 ((own(unat p := None))(unat q \<mapsto> t)) h'" "room k h'" "leaves area own {unat p} (hmem h) (hmem h')"
      "\<And>k. k < s \<Longrightarrow> k < t \<Longrightarrow> hmem h' (unat q + k) = hmem h (unat p + k)"
      using owned_realloc_room [OF ow s(1,3) n0] by blast
    have "held ((own(unat p := None))(unat q \<mapsto> t)) (unat q) es" using q n by (intro held_array [OF hd]) (auto simp: unat_gt_0)
    moreover have "rows_at (hmem h') (unat q) es" using q(3,8) s(2) n by (intro rows_at_move [OF at]) auto
    moreover have "chars_at (hmem h') e" if "e \<in> set es" for e
      using leaves_chars [OF q(7) hd that _ ch [OF that]] held_row [OF hd that] by auto
    ultimately show thesis using q n by (intro that [of q h' t]) (auto simp: rows_in_def)
  qed
qed

text \<open>
  Where \<open>memcpy\<close> may take its bytes from: outside the heap, or one of the buffers, but for those of \<open>X\<close>.
\<close>

definition source :: "u32 \<Rightarrow> (nat \<Rightarrow> nat option) \<Rightarrow> nat set \<Rightarrow> mem \<Rightarrow> nat \<Rightarrow> u8 list \<Rightarrow> bool" where
  "source area own X m s bs \<longleftrightarrow> (\<forall>k < length bs. m (s + k) = bs ! k)
     \<and> (bs = [] \<or> s + length bs \<le> unat area \<or> unat area + 1048576 \<le> s
        \<or> (\<exists>r u. own r = Some u \<and> r \<notin> X \<and> r \<le> s \<and> s + length bs \<le> r + u))"

lemma source_leaves:
  assumes "source area own X m s bs" and "leaves area own X m m'"
  shows "source area own X m' s bs"
proof -
  have "m' (s + k) = m (s + k)" if k: "k < length bs" for k
  proof (cases "outside area (s + k)")
    case True
    then show ?thesis using assms(2) by (simp add: leaves_def)
  next
    case False
    then obtain r u where r: "own r = Some u" "r \<notin> X" "r \<le> s" "s + length bs \<le> r + u"
      using assms(1) k by (auto simp: source_def outside_def)
    then show ?thesis using leaves_in [OF assms(2) r(1,2)] k by simp
  qed
  then show ?thesis using assms(1) by (simp add: source_def)
qed

lemma source_apart:
  fixes b :: u32
  assumes "source area own X m s bs" and ow: "owned area h0 own h" and "own (unat b) = Some t" and "unat b \<in> X" and "bs \<noteq> []"
  shows "s + length bs \<le> unat b \<or> unat b + t \<le> s"
proof -
  have "unat area + 16 \<le> unat b" "unat b + t \<le> unat area + 1048576" using owned_range [OF ow assms(3)] by simp_all
  moreover have "r + u < unat b \<or> unat b + t < r" if "own r = Some u" "r \<notin> X" for r u
    using owned_apart [OF ow that(1) assms(3)] that(2) assms(4) by auto
  ultimately show ?thesis using assms(1,5) by (fastforce simp: source_def)
qed

lemma source_write:
  fixes b :: u32
  assumes "source area own X m s bs" and "owned area h0 own h" and "own (unat b) = Some t" and "unat b \<in> X"
    and "\<And>x. x < unat b \<or> unat b + t \<le> x \<Longrightarrow> m' x = m x"
  shows "source area own X m' s bs"
proof (cases "bs = []")
  case False
  then have "m' (s + k) = m (s + k)" if "k < length bs" for k
    using source_apart [OF assms(1-4)] that by (intro assms(5)) auto
  then show ?thesis using assms(1) by (simp add: source_def)
qed (simp add: source_def)

lemma source_own:
  assumes "source area own X m s bs" and "\<And>r u. own r = Some u \<Longrightarrow> r \<notin> X \<Longrightarrow> own' r = Some u \<and> r \<notin> Y"
  shows "source area own' Y m s bs"
  using assms unfolding source_def by blast

lemma leaves_less: "leaves area own X m m' \<Longrightarrow> X \<subseteq> Y \<Longrightarrow> leaves area own Y m m'"
  unfolding leaves_def by blast

lemma room_bound: "heap_ok area h \<Longrightarrow> room k h \<Longrightarrow> k \<le> 1048560"
proof -
  assume h: "heap_ok area h" "room k h"
  have "bsize b + 16 \<le> span bs" if "b \<in> set bs" for b bs using that by (induction bs) auto
  moreover obtain b where "b \<in> set (heap_blocks h)" "k \<le> bsize b" using h(2) by (auto simp: room_def candidate_def)
  ultimately show ?thesis using h(1) by (fastforce simp: heap_ok_def heap_rep_def)
qed

end
