(* ===== verification/EditorRowOps.thy ===== *)
theory EditorRowOps
  imports EditorRows
begin

text \<open>
  What each of the row operations of \<open>fs/ed.c\<close> does to a list of rows in the heap: \<open>editorInsertRow\<close>,
  \<open>editorRowInsertChar\<close>, \<open>editorRowDelChar\<close>, \<open>editorRowAppendString\<close> and \<open>editorDelRow\<close> of theory \<open>EditorRows\<close>,
  for the row behind \<open>xs\<close>, when a free block has room for what they request.
\<close>

section \<open>The row operations\<close>

text \<open>Stores inside some of the buffers.\<close>

lemma owned_inside:
  assumes ow: "owned area h0 own h" and "own b = Some t"
  shows "unat area + 16 \<le> b" "b + t \<le> unat area + 1048576"
  using live_range [of "unat area" "heap_blocks h" b t] owned_live [OF assms] heap_ok_live [OF owned_ok [OF ow]] owned_ok [OF ow]
  by (auto simp: heap_ok_def heap_rep_def)

text \<open>Stores outside the heap.\<close>

lemma rows_in_outside:
  assumes rows: "rows_in area h0 own h p es" and m: "\<And>x. \<not> outside area x \<Longrightarrow> m x = hmem h x"
  shows "rows_in area h0 own (h\<lparr>hmem := m\<rparr>) p es" and "heap_blocks (h\<lparr>hmem := m\<rparr>) = heap_blocks h"
proof -
  have ow: "owned area h0 own h" and hd: "held own p es" and at: "rows_at (hmem h) p es"
    and ch: "\<And>e. e \<in> set es \<Longrightarrow> chars_at (hmem h) e" using rows by (auto simp: rows_in_def)
  have ok: "heap_ok area h" using ow by (rule owned_ok)
  have inn: "m (b + k) = hmem h (b + k)" if "heap_live h b = Some t" "k < t" for b t k
    using live_range [of "unat area" "heap_blocks h" b t] that heap_ok_live [OF ok] ok
    by (intro m) (auto simp: heap_ok_def heap_rep_def outside_def)
  have hb: "m x = hmem h x" if "header_byte (unat area) (heap_blocks h) x" for x
    using header_byte_range [OF that] ok by (intro m) (auto simp: heap_ok_def heap_rep_def outside_def)
  note pw = heap_payload_write [OF ok, of m, OF hb]
  have "owned area h0 own (h\<lparr>hmem := m\<rparr>)"
    using ow pw inn owned_keeps [OF ow] by (auto simp: owned_def owns_def)
  moreover have "rows_at m p es"
  proof (cases "p = 0")
    case False
    then obtain s where "own p = Some s" "8 * length es \<le> s" using hd by (auto simp: held_def)
    then show ?thesis using inn [OF owned_live [OF ow]] by (intro rows_at_move [OF at]) auto
  qed (use hd in \<open>simp add: held_def rows_at_def\<close>)
  moreover have "chars_at m e" if e: "e \<in> set es" for e
    using held_row [OF hd e] inn [OF owned_live [OF ow]] by (intro chars_at_cong [OF ch [OF e]]) auto
  ultimately show "rows_in area h0 own (h\<lparr>hmem := m\<rparr>) p es" "heap_blocks (h\<lparr>hmem := m\<rparr>) = heap_blocks h"
    using hd pw(3) by (auto simp: rows_in_def)
qed

lemma leaves_writes:
  assumes ow: "owned area h0 own h"
    and m: "\<And>x. (\<And>b t. b \<in> X \<Longrightarrow> own b = Some t \<Longrightarrow> x < b \<or> b + t \<le> x) \<Longrightarrow> m x = hmem h x"
  shows "leaves area own X (hmem h) m"
  unfolding leaves_def
proof (intro conjI allI impI)
  show "m x = hmem h x" if "outside area x" for x
    using owned_inside [OF ow] that by (intro m) (fastforce simp: outside_def)
  show "m (r + k) = hmem h (r + k)" if "own r = Some u" "r \<notin> X" "k < u" for r u k
    using owned_apart [OF ow that(1)] that(2,3) by (intro m) fastforce
qed

lemma leaves_write:
  assumes "owned area h0 own h" and "own b = Some t" and "\<And>x. x < b \<or> b + t \<le> x \<Longrightarrow> m x = hmem h x"
  shows "leaves area own {b} (hmem h) m"
  using assms(2,3) by (intro leaves_writes [OF assms(1)]) auto

text \<open>
  The middle of \<open>editorInsertRow\<close>: the array has a slot open at \<open>i\<close> (memory \<open>m3\<close>), the characters have got
  a buffer; then the pointer is stored and the characters are copied.
\<close>

lemma store_new_row:
  fixes p q :: u32
  assumes rows: "rows_in a h0 own h1 (unat p) (xs @ ys)" and p: "own (unat p) = Some t" "8 * Suc (length (xs @ ys)) \<le> t" "unat p \<noteq> 0"
    and m3: "m3 = st32 (memmove (hmem h1) (unat p + 8 * Suc (length xs)) (unat p + 8 * length xs) (8 * (length (xs @ ys) - length xs)))
      (unat p + 8 * length xs) (of_nat (length bs))" "leaves a own {unat p} (hmem h1) m3"
    and q: "own (unat q) = None" "length bs < t2" "owned a h0 (own(unat q \<mapsto> t2)) h2" "leaves a own {} m3 (hmem h2)"
    and src: "source a (own(unat q \<mapsto> t2)) {unat p, unat q} (hmem h2) s bs"
    and m6: "m6 = (memcpy (st32 (hmem h2) (unat p + 8 * length xs + 4) q) (unat q) s (length bs))(unat q + length bs := 0)"
  shows "rows_in a h0 (own(unat q \<mapsto> t2)) (h2\<lparr>hmem := m6\<rparr>) (unat p) (xs @ (unat q, bs) # ys)"
    and "heap_blocks (h2\<lparr>hmem := m6\<rparr>) = heap_blocks h2" and "outside a x \<Longrightarrow> m6 x = hmem h2 x"
proof -
  let ?own = "own(unat q \<mapsto> t2)" and ?m5 = "st32 (hmem h2) (unat p + 8 * length xs + 4) q" and ?es = "xs @ (unat q, bs) # ys"
  have hd: "held own (unat p) (xs @ ys)" and at: "rows_at (hmem h1) (unat p) (xs @ ys)"
    and ch: "\<And>e. e \<in> set (xs @ ys) \<Longrightarrow> chars_at (hmem h1) e" using rows by (auto simp: rows_in_def)
  have P: "?own (unat p) = Some t" "?own (unat q) = Some t2" "unat p \<noteq> unat q" using p(1) q(1) by auto
  have apart: "unat p + t < unat q \<or> unat q + t2 < unat p" using owned_apart [OF q(3) P] .
  have in5: "?m5 x = hmem h2 x" if "x < unat p \<or> unat p + t \<le> x" for x using that p(2) by (auto simp: st32_other)
  have src5: "source a ?own {unat p, unat q} ?m5 s bs" by (rule source_write [OF src q(3) P(1)]) (use in5 in auto)
  have "length bs = 0 \<or> s + length bs \<le> unat q \<or> unat q \<le> s" using source_apart [OF src5 q(3) P(2)] by auto
  then have m6x: "m6 x = (if unat q \<le> x \<and> x < unat q + length bs then ?m5 (s + (x - unat q)) else if x = unat q + length bs then 0 else ?m5 x)" for x
    by (auto simp: m6 memcpy_def memcpy_loop_apply)
  have held: "held ?own (unat p) ?es" by (rule held_insert [OF hd p(1,2) q(1,2) p(3)])
  have "rows_at (put_entry (unat p) (length xs) (unat q, bs)
      (memmove (hmem h1) (unat p + 8 * Suc (length xs)) (unat p + 8 * length xs) (8 * (length (xs @ ys) - length xs)))) (unat p) ?es"
    using rows_at_insert [OF at, of "length xs" "(unat q, bs)"] by simp
  then have at6: "rows_at m6 (unat p) ?es"
  proof (rule rows_at_cong)
    fix x assume x: "unat p \<le> x" "x < unat p + 8 * length ?es"
    then have "hmem h2 x = m3 x" using leaves_in [OF q(4) p(1)] p(2) by simp
    then have "?m5 x = st32 m3 (unat p + 8 * length xs + 4) q x" by (rule st32_cong)
    moreover have "m6 x = ?m5 x" using apart x p(2) q(2) by (auto simp: m6x)
    ultimately show "m6 x = put_entry (unat p) (length xs) (unat q, bs)
        (memmove (hmem h1) (unat p + 8 * Suc (length xs)) (unat p + 8 * length xs) (8 * (length (xs @ ys) - length xs))) x"
      by (simp add: put_entry_def m3(1))
  qed
  have new: "chars_at m6 (unat q, bs)" using src5 by (auto simp: chars_at_def m6x nth_append source_def)
  have in6: "m6 x = hmem h2 x" if "\<And>a s. ?own a = Some s \<Longrightarrow> x < a \<or> a + s \<le> x" for x
    using that [OF P(1)] that [OF P(2)] in5 [of x] q(2) unfolding m6x by auto
  note wr = owned_writes [OF q(3) in6]
  have l6: "leaves a ?own {unat p, unat q} (hmem h2) m6"
  proof (rule leaves_writes [OF q(3)])
    show "m6 x = hmem h2 x" if "\<And>b t. b \<in> {unat p, unat q} \<Longrightarrow> ?own b = Some t \<Longrightarrow> x < b \<or> b + t \<le> x" for x
      using that [OF _ P(1)] that [OF _ P(2)] in5 [of x] q(2) unfolding m6x by auto
  qed
  have "chars_at m6 e" if e: "e \<in> set (xs @ ys)" for e
  proof -
    have ne: "fst e \<noteq> unat p" "fst e \<noteq> unat q" "e \<in> set ?es" using held_row [OF hd e] q(1) e by auto
    have "chars_at (hmem h2) e" using leaves_chars [OF q(4) hd e] leaves_chars [OF m3(2) hd e _ ch [OF e]] ne by simp
    then show ?thesis using leaves_chars [OF l6 held ne(3)] ne by simp
  qed
  then show "rows_in a h0 ?own (h2\<lparr>hmem := m6\<rparr>) (unat p) ?es" "heap_blocks (h2\<lparr>hmem := m6\<rparr>) = heap_blocks h2"
    using wr held at6 new by (auto simp: rows_in_def)
  show "outside a x \<Longrightarrow> m6 x = hmem h2 x" using l6 by (simp add: leaves_def)
qed

lemma heap_insert_row_spec:
  assumes rows: "rows_in (heap_area A) h0 own (he_heap C) (unat (he_rows C)) (xs @ ys)"
    and n: "he_numrows C = int (length (xs @ ys))"
    and src: "source (heap_area A) own {unat (he_rows C)} (hmem (he_heap C)) (unat s) bs"
    and room: "room (8 * Suc (length (xs @ ys)) + 16 + (Suc (length bs) + 16 + k)) (he_heap C)"
  obtains h p own' q where
    "heap_insert_row A (int (length xs)) s (int (length bs)) C
       = Some (C\<lparr>he_heap := h, he_rows := p, he_numrows := int (Suc (length (xs @ ys)))\<rparr>)"
    "rows_in (heap_area A) h0 own' h (unat p) (xs @ (q, bs) # ys)" "room k h"
    "\<And>x. outside (heap_area A) x \<Longrightarrow> hmem h x = hmem (he_heap C) x"
proof -
  let ?a = "heap_area A" and ?n = "length (xs @ ys)" and ?i = "length xs"
  obtain p h1 t where p: "realloc ?a (he_rows C) (of_nat (8 * Suc ?n)) (he_heap C) = Some (p, h1)" "p \<noteq> 0" "8 * Suc ?n \<le> t" "p = he_rows C \<or> own (unat p) = None"
    and rows1: "rows_in ?a h0 ((own(unat (he_rows C) := None))(unat p \<mapsto> t)) h1 (unat p) (xs @ ys)"
    and room1: "room (Suc (length bs) + 16 + k) h1" and l1: "leaves ?a own {unat (he_rows C)} (hmem (he_heap C)) (hmem h1)"
    using grow_array [OF rows room] by blast
  let ?P = "unat p"
  obtain own1 where own1: "own1 = (own(unat (he_rows C) := None))(?P \<mapsto> t)" by blast
  note rows1 = rows1 [folded own1]
  have P: "own1 ?P = Some t" "?P \<noteq> 0" using p(2) by (simp_all add: own1 unat_eq_zero)
  have ow1: "owned ?a h0 own1 h1" and hd1: "held own1 ?P (xs @ ys)" and at1: "rows_at (hmem h1) ?P (xs @ ys)"
    and ch1: "\<And>e. e \<in> set (xs @ ys) \<Longrightarrow> chars_at (hmem h1) e" using rows1 by (auto simp: rows_in_def)
  have src1: "source ?a own1 {?P} (hmem h1) (unat s) bs"
    by (rule source_own [OF source_leaves [OF src l1]]) (use p(4) in \<open>auto simp: own1\<close>)
  \<comment> \<open>the entry is cleared and its size stored\<close>
  let ?m2 = "memmove (hmem h1) (?P + 8 * Suc ?i) (?P + 8 * ?i) (8 * (?n - ?i))"
  let ?m3 = "st32 ?m2 (?P + 8 * ?i) (of_nat (length bs))"
  have in3: "?m3 x = hmem h1 x" if "x < ?P \<or> ?P + t \<le> x" for x
    using that p(3) by (auto simp: st32_other memmove_apply)
  have ow3: "owned ?a h0 own1 (h1\<lparr>hmem := ?m3\<rparr>)" "heap_blocks (h1\<lparr>hmem := ?m3\<rparr>) = heap_blocks h1"
    using owned_write [OF ow1 P(1), of ?m3] in3 by blast+
  have l3: "leaves ?a own1 {?P} (hmem h1) ?m3" by (rule leaves_write [OF ow1 P(1) in3])
  have src3: "source ?a own1 {?P} ?m3 (unat s) bs" by (rule source_leaves [OF src1 l3])
  \<comment> \<open>the buffer of the characters\<close>
  have bs: "Suc (length bs) < 2 ^ 32" using room_bound [OF owned_ok [OF ow1] room1] by simp
  then have len: "unat (of_nat (Suc (length bs)) :: u32) = Suc (length bs)" by (rule unat_of_nat32)
  let ?h3 = "h1\<lparr>hmem := ?m3\<rparr>"
  have room3: "room (unat (of_nat (Suc (length bs)) :: u32) + 16 + k) ?h3" using room1 ow3(2) unfolding len by (simp add: room_def)
  obtain q h2 t2 where q: "malloc (of_nat (Suc (length bs))) ?h3 = Some (q, h2)" "q \<noteq> 0" "own1 (unat q) = None"
    "Suc (length bs) \<le> t2" "owned ?a h0 (own1(unat q \<mapsto> t2)) h2" "room k h2" "leaves ?a own1 {} (hmem ?h3) (hmem h2)"
    using owned_malloc_room [OF ow3(1) room3] unfolding len by blast
  let ?own2 = "own1(unat q \<mapsto> t2)"
  have PQ: "?P \<noteq> unat q" "?own2 ?P = Some t" "?own2 (unat q) = Some t2" using P q(3) by auto
  have l2: "leaves ?a own1 {?P} ?m3 (hmem h2)" using leaves_less [OF q(7), of "{?P}"] by simp
  have src2: "source ?a ?own2 {?P, unat q} (hmem h2) (unat s) bs"
    by (rule source_own [OF source_leaves [OF src3 l2]]) (use q(3) in auto)
  have l3': "leaves ?a own1 {} ?m3 (hmem h2)" using q(7) by simp
  note new = store_new_row [OF rows1 P(1) p(3) P(2) refl l3 q(3) _ q(5) l3' src2 refl, unfolded Suc_le_eq [symmetric], OF q(4)]
  let ?m6 = "(memcpy (st32 (hmem h2) (?P + 8 * ?i + 4) q) (unat q) (unat s) (length bs))(unat q + length bs := 0)"
  show thesis
  proof (rule that)
    show "rows_in ?a h0 ?own2 (h2\<lparr>hmem := ?m6\<rparr>) (unat p) (xs @ (unat q, bs) # ys)" by (rule new(1))
    show "room k (h2\<lparr>hmem := ?m6\<rparr>)" using new(2) q(6) by (simp add: room_def)
    show "hmem (h2\<lparr>hmem := ?m6\<rparr>) x = hmem (he_heap C) x" if "outside ?a x" for x
      using l1 l3 q(7) new(3) [OF that] that by (simp add: leaves_def)
    have cast: "of_int (8 * (int ?n + 1)) = (of_nat (8 * Suc ?n) :: u32)" "of_int (int (length bs) + 1) = (of_nat (Suc (length bs)) :: u32)"
      "nat (int ?i + 1) = Suc ?i" "nat (int ?n - int ?i) = ?n - ?i" by auto
    show "heap_insert_row A (int ?i) s (int (length bs)) C
        = Some (C\<lparr>he_heap := h2\<lparr>hmem := ?m6\<rparr>, he_rows := p, he_numrows := int (Suc ?n)\<rparr>)"
      unfolding heap_insert_row_def
      using p(1,2) q(1,2) n cast by (simp add: ac_simps non_null_def on_memory_def set_erow_size_def set_erow_chars_def erow_at_def)
  qed
qed

subsection \<open>One row\<close>

text \<open>What the C code reads in the entry of a row.\<close>

lemma rows_in_entry:
  assumes rows: "rows_in a h0 own (he_heap C) (unat (he_rows C)) (xs @ (q, bs) # ys)"
  shows "erow_size C (int (length xs)) = int (length bs)" and "erow_chars C (int (length xs)) = of_nat q"
    and "unat (of_nat q :: u32) = q" and "length bs < 1048576" and "erow_at C (int (length xs)) = unat (he_rows C) + 8 * length xs"
proof -
  have hd: "held own (unat (he_rows C)) (xs @ (q, bs) # ys)" and ow: "owned a h0 own (he_heap C)" using rows by (simp_all add: rows_in_def)
  obtain t where t: "own q = Some t" "length bs < t" using held_delete(5) [OF hd] by blast
  have "unat a + 1048576 < 2 ^ 32" using owned_ok [OF ow] by (simp add: heap_ok_def heap_rep_def)
  then show q: "unat (of_nat q :: u32) = q" "length bs < 1048576" using owned_inside [OF ow t(1)] t(2) by (simp_all add: unat_of_nat32)
  show e: "erow_at C (int (length xs)) = unat (he_rows C) + 8 * length xs" by (simp add: erow_at_def)
  have "ld32 (hmem (he_heap C)) (unat (he_rows C) + 8 * length xs) = of_nat (length bs)"
    "ld32 (hmem (he_heap C)) (unat (he_rows C) + 8 * length xs + 4) = of_nat q"
    using rows_atD [of "hmem (he_heap C)" _ "xs @ (q, bs) # ys" "length xs"] rows by (simp_all add: rows_in_def)
  then show "erow_size C (int (length xs)) = int (length bs)" "erow_chars C (int (length xs)) = of_nat q"
    using q(2) by (simp_all add: erow_size_def erow_chars_def e sint_of_nat32)
qed

text \<open>\<open>realloc\<close> of the characters, with the array not yet written.\<close>

lemma grow_row:
  assumes rows: "rows_in a h0 own h p (xs @ (q, bs) # ys)" and n: "length bs < n" "n < 2 ^ 32" and room: "room (n + 16 + k) h"
  obtains r h' t where "realloc a (of_nat q) (of_nat n) h = Some (r, h')" "r \<noteq> 0" "n \<le> t" "unat r = q \<or> own (unat r) = None"
    "owned a h0 ((own(q := None))(unat r \<mapsto> t)) h'" "room k h'" "leaves a own {q} (hmem h) (hmem h')"
    "\<forall>k \<le> length bs. hmem h' (unat r + k) = (bs @ [0]) ! k"
proof -
  have ow: "owned a h0 own h" and hd: "held own p (xs @ (q, bs) # ys)" and ch: "chars_at (hmem h) (q, bs)" using rows by (simp_all add: rows_in_def)
  obtain s where s: "own q = Some s" "length bs < s" using held_delete(5) [OF hd] by blast
  have "unat a + 1048576 < 2 ^ 32" using owned_ok [OF ow] by (simp add: heap_ok_def heap_rep_def)
  then have q: "unat (of_nat q :: u32) = q" using owned_inside [OF ow s(1)] by (simp add: unat_of_nat32)
  have nn: "unat (of_nat n :: u32) = n" "(of_nat n :: u32) \<noteq> 0" using n by (simp_all add: unat_of_nat32 of_nat32_eq_0)
  have s0: "own (unat (of_nat q :: u32)) = Some s" "0 < s" "room (unat (of_nat n :: u32) + 16 + k) h" using s room q nn by simp_all
  obtain r h' t where r: "realloc a (of_nat q) (of_nat n) h = Some (r, h')" "r \<noteq> 0" "n \<le> t" "r = of_nat q \<or> own (unat r) = None"
    "owned a h0 ((own(q := None))(unat r \<mapsto> t)) h'" "room k h'" "leaves a own {q} (hmem h) (hmem h')"
    "\<And>k. k < s \<Longrightarrow> k < t \<Longrightarrow> hmem h' (unat r + k) = hmem h (q + k)"
    using owned_realloc_room [OF ow s0(1,2) nn(2) s0(3)] unfolding q nn by blast
  have "hmem h' (unat r + k) = (bs @ [0]) ! k" if "k \<le> length bs" for k
    using r(8) [of k] r(3) n(1) s(2) that ch by (simp add: chars_at_def)
  then show thesis using r q by (intro that [of r h' t]) auto
qed

text \<open>Storing the entry and the characters of the row.\<close>

lemma rewrite_row:
  fixes p :: u32
  assumes rows: "rows_in a h0 own h (unat p) (xs @ (q, bs) # ys)"
    and ow: "owned a h0 ((own(q := None))(r \<mapsto> t)) h'" and r: "r = q \<or> own r = None" "length bs' < t"
    and l: "leaves a own {q} (hmem h) (hmem h')"
    and m: "\<forall>x. (x < unat p + 8 * length xs \<or> unat p + 8 * length xs + 8 \<le> x) \<and> (x < r \<or> r + t \<le> x) \<longrightarrow> m x = hmem h' x"
    and entry: "ld32 m (unat p + 8 * length xs) = of_nat (length bs')" "ld32 m (unat p + 8 * length xs + 4) = of_nat r"
    and chars: "chars_at m (r, bs')"
  shows "rows_in a h0 ((own(q := None))(r \<mapsto> t)) (h'\<lparr>hmem := m\<rparr>) (unat p) (xs @ (r, bs') # ys)"
    and "heap_blocks (h'\<lparr>hmem := m\<rparr>) = heap_blocks h'" and "outside a x \<Longrightarrow> m x = hmem h x"
proof -
  let ?own = "(own(q := None))(r \<mapsto> t)" and ?es = "xs @ (q, bs) # ys" and ?es' = "xs @ (r, bs') # ys"
  have hd: "held own (unat p) ?es" and at: "rows_at (hmem h) (unat p) ?es" and ch: "\<And>e. e \<in> set ?es \<Longrightarrow> chars_at (hmem h) e"
    using rows by (auto simp: rows_in_def)
  have held: "held ?own (unat p) ?es'" by (rule held_replace [OF hd r])
  obtain s where s: "own (unat p) = Some s" "8 * Suc (length (xs @ ys)) \<le> s" using held_delete(4) [OF hd] by blast
  have ne: "r \<noteq> unat p" "q \<noteq> unat p" using r(1) s(1) held_delete(2) [OF hd] by auto
  then have P: "?own (unat p) = Some s" "?own r = Some t" using s(1) by auto
  have apart: "unat p + s < r \<or> r + t < unat p" using owned_apart [OF ow P] ne(1) by auto
  have inn: "m x = hmem h' x" if "\<And>b t. b \<in> {unat p, r} \<Longrightarrow> ?own b = Some t \<Longrightarrow> x < b \<or> b + t \<le> x" for x
    using that [OF _ P(1)] that [OF _ P(2)] s(2) by (intro m [rule_format]) auto
  have l': "leaves a ?own {unat p, r} (hmem h') m" by (rule leaves_writes [OF ow inn])
  have "rows_at m (unat p) ?es'"
    unfolding rows_at_def
  proof (intro allI impI)
    fix i assume i: "i < length ?es'"
    show "ld32 m (unat p + 8 * i) = of_nat (length (snd (?es' ! i))) \<and> ld32 m (unat p + 8 * i + 4) = of_nat (fst (?es' ! i))"
    proof (cases "i = length xs")
      case False
      have "m x = hmem h x" if "unat p + 8 * i \<le> x" "x < unat p + 8 * i + 8" for x
      proof -
        have "m x = hmem h' x" using that False i s(2) apart by (intro m [rule_format]) auto
        moreover have "hmem h' x = hmem h x" using leaves_in [OF l s(1)] ne(2) that i s(2) by auto
        ultimately show ?thesis by simp
      qed
      then have "ld32 m (unat p + 8 * i) = ld32 (hmem h) (unat p + 8 * i)" "ld32 m (unat p + 8 * i + 4) = ld32 (hmem h) (unat p + 8 * i + 4)"
        by (intro ld32_cong; simp)+
      moreover have "?es' ! i = ?es ! i" using False by (auto simp: nth_append nth_Cons')
      ultimately show ?thesis using rows_atD [OF at, of i] i by simp
    qed (use entry in simp)
  qed
  moreover have "chars_at m e" if e: "e \<in> set (xs @ ys)" for e
  proof -
    have e2: "e \<in> set ?es" "e \<in> set ?es'" using e by auto
    have ne: "fst e \<noteq> unat p" "fst e \<noteq> r" "fst e \<noteq> q" using held_row [OF hd e2(1)] held_delete(6) [OF hd e] r(1) by auto
    have "chars_at (hmem h') e" using leaves_chars [OF l hd e2(1) _ ch [OF e2(1)]] ne by simp
    then show ?thesis using leaves_chars [OF l' held e2(2)] ne by simp
  qed
  ultimately show "rows_in a h0 ?own (h'\<lparr>hmem := m\<rparr>) (unat p) ?es'" "heap_blocks (h'\<lparr>hmem := m\<rparr>) = heap_blocks h'"
    using owned_writes [OF ow, of m] inn held chars by (auto simp: rows_in_def)
  show "outside a x \<Longrightarrow> m x = hmem h x" using l l' by (simp add: leaves_def)
qed

text \<open>The memory of \<open>editorRowInsertChar\<close> after the request.\<close>

lemma insert_char_memory:
  assumes "p + 8 * Suc i \<le> r \<or> r + length bs + 2 \<le> p" and "at \<le> length bs" and keep: "\<forall>k \<le> length bs. m (r + k) = (bs @ [0]) ! k"
    and bs': "bs' = take at bs @ c # drop at bs"
    and m': "m' = st32 ((memmove (st32 m (p + 8 * i + 4) v) (r + at + 1) (r + at) (length bs - at + 1))(r + at := c)) (p + 8 * i) w"
  shows "chars_at m' (r, bs')" and "ld32 m' (p + 8 * i) = w" and "ld32 m' (p + 8 * i + 4) = v"
    and "x < p + 8 * i \<or> p + 8 * i + 8 \<le> x \<Longrightarrow> x < r \<or> r + length bs + 2 \<le> x \<Longrightarrow> m' x = m x"
proof -
  obtain m1 m2 where m1: "m1 = st32 m (p + 8 * i + 4) v" and m2: "m2 = (memmove m1 (r + at + 1) (r + at) (length bs - at + 1))(r + at := c)" by blast
  have out: "m' x = m2 x" if "x < p + 8 * i \<or> p + 8 * i + 4 \<le> x" for x using that by (simp add: m' st32_other m1 m2)
  have m1x: "m1 x = m x" if "x < p + 8 * i + 4 \<or> p + 8 * i + 8 \<le> x" for x using that by (auto simp: m1 st32_other)
  have m2x: "m2 x = (if x = r + at then c else if r + at < x \<and> x < r + length bs + 2 then m1 (x - 1) else m1 x)" for x
    using assms(2) by (auto simp: m2 memmove_apply)
  show "chars_at m' (r, bs')"
    unfolding chars_at_def
  proof (intro allI impI)
    fix k assume k: "k \<le> length (snd (r, bs'))"
    then have kl: "k < length bs + 2" using assms(2) by (simp add: bs')
    have "m' (r + k) = m2 (r + k)" using assms(1) kl by (intro out) auto
    also have "\<dots> = (if k < at then m1 (r + k) else if k = at then c else m1 (r + (k - 1)))"
      using assms(2) kl by (auto simp: m2x)
    also have "\<dots> = (if k < at then m (r + k) else if k = at then c else m (r + (k - 1)))"
      using assms(1) kl by (auto intro!: m1x)
    also have "\<dots> = (bs' @ [0]) ! k"
      using assms(2) kl keep [rule_format, of k] keep [rule_format, of "k - 1"] by (auto simp: bs' nth_append nth_Cons' min_def)
    finally show "m' (fst (r, bs') + k) = (snd (r, bs') @ [0]) ! k" by simp
  qed
  show "ld32 m' (p + 8 * i) = w" by (simp add: m')
  have "ld32 m' (p + 8 * i + 4) = ld32 m1 (p + 8 * i + 4)"
    using assms(1,2) by (intro ld32_cong) (auto simp: out m2x)
  then show "ld32 m' (p + 8 * i + 4) = v" by (simp add: m1)
  show "m' x = m x" if "x < p + 8 * i \<or> p + 8 * i + 8 \<le> x" "x < r \<or> r + length bs + 2 \<le> x"
    using that assms(2) by (auto simp: out m2x m1x)
qed

text \<open>Where a row's new buffer can be.\<close>

lemma row_apart:
  fixes p :: u32
  assumes rows: "rows_in a h0 own h (unat p) (xs @ (q, bs) # ys)" and ow: "owned a h0 ((own(q := None))(r \<mapsto> t)) h'" and "r = q \<or> own r = None"
  shows "unat p + 8 * Suc (length xs) \<le> r \<or> r + t \<le> unat p"
proof -
  have hd: "held own (unat p) (xs @ (q, bs) # ys)" using rows by (simp add: rows_in_def)
  obtain s where s: "own (unat p) = Some s" "8 * Suc (length (xs @ ys)) \<le> s" using held_delete(4) [OF hd] by blast
  have ne: "r \<noteq> unat p" "q \<noteq> unat p" using assms(3) s(1) held_delete(2) [OF hd] by auto
  then show ?thesis using owned_apart [OF ow, of "unat p" s r t] s by auto
qed

lemma heap_row_insert_char_spec:
  assumes rows: "rows_in (heap_area A) h0 own (he_heap C) (unat (he_rows C)) (xs @ (q, bs) # ys)"
    and n: "he_numrows C = int (length (xs @ (q, bs) # ys))"
    and at': "at' = (if at < 0 \<or> int (length bs) < at then length bs else nat at)"
    and room: "room (length bs + 2 + 16 + k) (he_heap C)"
  obtains h own' r where
    "heap_row_insert_char A (int (length xs)) at c C = Some (C\<lparr>he_heap := h, he_dirty := 1\<rparr>)"
    "rows_in (heap_area A) h0 own' h (unat (he_rows C)) (xs @ (r, take at' bs @ c # drop at' bs) # ys)" "room k h"
    "\<And>x. outside (heap_area A) x \<Longrightarrow> hmem h x = hmem (he_heap C) x"
proof -
  let ?a = "heap_area A" and ?P = "unat (he_rows C)" and ?i = "length xs" and ?bs' = "take at' bs @ c # drop at' bs"
  note e = rows_in_entry [OF rows]
  have at: "at' \<le> length bs" by (auto simp: at')
  have n': "length bs < length bs + 2" "length bs + 2 < 2 ^ 32" using e(4) by simp_all
  obtain r h' t where r: "realloc ?a (of_nat q) (of_nat (length bs + 2)) (he_heap C) = Some (r, h')" "r \<noteq> 0" "length bs + 2 \<le> t"
    "unat r = q \<or> own (unat r) = None" "owned ?a h0 ((own(q := None))(unat r \<mapsto> t)) h'" "room k h'" "leaves ?a own {q} (hmem (he_heap C)) (hmem h')"
    "\<forall>k \<le> length bs. hmem h' (unat r + k) = (bs @ [0]) ! k"
    using grow_row [OF rows n' room] by blast
  let ?m = "st32 ((memmove (st32 (hmem h') (?P + 8 * ?i + 4) r) (unat r + at' + 1) (unat r + at') (length bs - at' + 1))(unat r + at' := c))
    (?P + 8 * ?i) (of_nat (length bs + 1))"
  have apart: "?P + 8 * Suc ?i \<le> unat r \<or> unat r + length bs + 2 \<le> ?P" using row_apart [OF rows r(5,4)] r(3) by auto
  obtain M where M: "M = ?m" by blast
  note mem = insert_char_memory [OF apart at r(8) refl M]
  have len: "length ?bs' = length bs + 1" "length ?bs' < t" using at r(3) by simp_all
  have stays: "\<forall>x. (x < ?P + 8 * ?i \<or> ?P + 8 * ?i + 8 \<le> x) \<and> (x < unat r \<or> unat r + t \<le> x) \<longrightarrow> M x = hmem h' x"
    using r(3) mem(4) by auto
  have entry: "ld32 M (?P + 8 * ?i) = of_nat (length ?bs')" "ld32 M (?P + 8 * ?i + 4) = of_nat (unat r)" using mem(2,3) len(1) by simp_all
  note new = rewrite_row [OF rows r(5,4) len(2) r(7) stays entry mem(1), unfolded M]
  show thesis
  proof (rule that)
    show "rows_in ?a h0 ((own(q := None))(unat r \<mapsto> t)) (h'\<lparr>hmem := ?m\<rparr>) ?P (xs @ (unat r, ?bs') # ys)" by (rule new(1))
    show "room k (h'\<lparr>hmem := ?m\<rparr>)" using new(2) r(6) by (simp add: room_def)
    show "hmem (h'\<lparr>hmem := ?m\<rparr>) x = hmem (he_heap C) x" if "outside ?a x" for x using new(3) [OF that] by simp
    have cast: "of_int (int (length bs) + 2) = (of_nat (length bs + 2) :: u32)" "of_int (int (length bs) + 1) = (of_nat (length bs + 1) :: u32)" by simp_all
    have at_int: "(if at < 0 \<or> int (length bs) < at then int (length bs) else at) = int at'" by (auto simp: at')
    have cnt: "nat (int (length bs) - int at' + 1) = length bs - at' + 1" using at by simp
    show "heap_row_insert_char A (int ?i) at c C = Some (C\<lparr>he_heap := h'\<lparr>hmem := ?m\<rparr>, he_dirty := 1\<rparr>)"
      unfolding heap_row_insert_char_def Let_def e(1,2) at_int cast cnt r(1)
      using r(1,2) n e(5) by (simp add: ac_simps has_row_def non_null_def on_memory_def set_erow_size_def set_erow_chars_def erow_at_def)
  qed
qed

text \<open>The memory of \<open>editorRowAppendString\<close>, likewise.\<close>

lemma append_memory:
  assumes "p + 8 * Suc i \<le> r \<or> r + length bs + length cs + 1 \<le> p" and keep: "\<forall>k \<le> length bs. m (r + k) = (bs @ [0]) ! k"
    and src: "\<forall>k < length cs. m1 (s + k) = cs ! k" and over: "cs = [] \<or> s + length cs \<le> r + length bs \<or> r + length bs \<le> s"
    and m1: "m1 = st32 m (p + 8 * i + 4) v"
    and m': "m' = (st32 (memcpy m1 (r + length bs) s (length cs)) (p + 8 * i) w)(r + (length bs + length cs) := 0)"
  shows "chars_at m' (r, bs @ cs)" and "ld32 m' (p + 8 * i) = w" and "ld32 m' (p + 8 * i + 4) = v"
    and "x < p + 8 * i \<or> p + 8 * i + 8 \<le> x \<Longrightarrow> x < r \<or> r + length bs + length cs + 1 \<le> x \<Longrightarrow> m' x = m x"
proof -
  obtain m2 where m2: "m2 = memcpy m1 (r + length bs) s (length cs)" by blast
  have m2x: "m2 x = (if r + length bs \<le> x \<and> x < r + length bs + length cs then m1 (s + (x - (r + length bs))) else m1 x)" for x
    using over by (auto simp: m2 memcpy_def memcpy_loop_apply)
  have m'x: "m' x = (if x = r + (length bs + length cs) then 0 else m2 x)" if "x < p + 8 * i \<or> p + 8 * i + 4 \<le> x" for x
    using that by (simp add: m' m2 [symmetric] st32_other)
  have m1x: "m1 x = m x" if "x < p + 8 * i + 4 \<or> p + 8 * i + 8 \<le> x" for x using that by (auto simp: m1 st32_other)
  show "chars_at m' (r, bs @ cs)"
    unfolding chars_at_def
  proof (intro allI impI)
    fix k assume k: "k \<le> length (snd (r, bs @ cs))"
    have "m' (r + k) = (if k = length bs + length cs then 0 else m2 (r + k))" using assms(1) k by (subst m'x) auto
    also have "\<dots> = ((bs @ cs) @ [0]) ! k"
      using k assms(1) keep [rule_format, of k] src [rule_format, of "k - length bs"] by (auto simp: m2x nth_append m1x)
    finally show "m' (fst (r, bs @ cs) + k) = (snd (r, bs @ cs) @ [0]) ! k" by simp
  qed
  have "ld32 m' (p + 8 * i) = ld32 (st32 m2 (p + 8 * i) w) (p + 8 * i)"
    using assms(1) by (intro ld32_cong) (auto simp: m' m2)
  then show "ld32 m' (p + 8 * i) = w" by simp
  have "ld32 m' (p + 8 * i + 4) = ld32 m1 (p + 8 * i + 4)"
    using assms(1) by (intro ld32_cong) (auto simp: m'x m2x)
  then show "ld32 m' (p + 8 * i + 4) = v" by (simp add: m1)
  show "m' x = m x" if "x < p + 8 * i \<or> p + 8 * i + 8 \<le> x" "x < r \<or> r + length bs + length cs + 1 \<le> x"
    using that by (auto simp: m'x m2x m1x)
qed

lemma heap_row_append_spec:
  assumes rows: "rows_in (heap_area A) h0 own (he_heap C) (unat (he_rows C)) (xs @ (q, bs) # ys)"
    and n: "he_numrows C = int (length (xs @ (q, bs) # ys))"
    and src: "source (heap_area A) own {q, unat (he_rows C)} (hmem (he_heap C)) (unat s) cs"
    and room: "room (length bs + length cs + 1 + 16 + k) (he_heap C)"
  obtains h own' r where
    "heap_row_append A (int (length xs)) s (int (length cs)) C = Some (C\<lparr>he_heap := h, he_dirty := 1\<rparr>)"
    "rows_in (heap_area A) h0 own' h (unat (he_rows C)) (xs @ (r, bs @ cs) # ys)" "room k h"
    "\<And>x. outside (heap_area A) x \<Longrightarrow> hmem h x = hmem (he_heap C) x"
proof -
  let ?a = "heap_area A" and ?P = "unat (he_rows C)" and ?i = "length xs" and ?n = "length bs + length cs + 1"
  note e = rows_in_entry [OF rows]
  have "room (?n + (16 + k)) (he_heap C)" using room by (simp add: ac_simps)
  then have n': "length bs < ?n" "?n < 2 ^ 32"
    using room_bound [OF owned_ok [OF rows_in_owned [OF rows]]] room by fastforce+
  obtain r h' t where r: "realloc ?a (of_nat q) (of_nat ?n) (he_heap C) = Some (r, h')" "r \<noteq> 0" "?n \<le> t"
    "unat r = q \<or> own (unat r) = None" "owned ?a h0 ((own(q := None))(unat r \<mapsto> t)) h'" "room k h'" "leaves ?a own {q} (hmem (he_heap C)) (hmem h')"
    "\<forall>k \<le> length bs. hmem h' (unat r + k) = (bs @ [0]) ! k"
    using grow_row [OF rows n' room] by blast
  \<comment> \<open>the bytes to copy are still there\<close>
  have src1: "source ?a ((own(q := None))(unat r \<mapsto> t)) {unat r, ?P} (hmem h') (unat s) cs"
    by (rule source_own [OF source_leaves [OF src leaves_less [OF r(7)]]]) (use r(4) in auto)
  have apart: "?P + 8 * Suc ?i \<le> unat r \<or> unat r + t \<le> ?P" using row_apart [OF rows r(5,4)] .
  have src_r: "cs = [] \<or> unat s + length cs \<le> unat r \<or> unat r + t \<le> unat s"
    using source_apart [OF src1 r(5), of r t] by auto
  let ?m = "(st32 (memcpy (st32 (hmem h') (?P + 8 * ?i + 4) r) (unat r + length bs) (unat s) (length cs))
    (?P + 8 * ?i) (of_nat (length bs + length cs)))(unat r + (length bs + length cs) := 0)"
  obtain M where M: "M = ?m" by blast
  obtain u where u: "own ?P = Some u" "8 * Suc (length (xs @ ys)) \<le> u" using held_delete(4) rows by (force simp: rows_in_def)
  have "q \<noteq> ?P" using held_delete(2) rows by (force simp: rows_in_def)
  then have ne: "((own(q := None))(unat r \<mapsto> t)) ?P = Some u" using r(4) u by auto
  have "source ?a ((own(q := None))(unat r \<mapsto> t)) {unat r, ?P} (st32 (hmem h') (?P + 8 * ?i + 4) r) (unat s) cs"
    by (rule source_write [OF src1 r(5) ne]) (use u(2) in \<open>auto simp: st32_other\<close>)
  then have copied: "\<forall>k < length cs. st32 (hmem h') (?P + 8 * ?i + 4) r (unat s + k) = cs ! k" by (simp add: source_def)
  have apart': "?P + 8 * Suc ?i \<le> unat r \<or> unat r + length bs + length cs + 1 \<le> ?P" using apart r(3) by linarith
  have over: "cs = [] \<or> unat s + length cs \<le> unat r + length bs \<or> unat r + length bs \<le> unat s" using src_r r(3) by linarith
  note mem = append_memory [OF apart' r(8) copied over refl M]
  have stays: "\<forall>x. (x < ?P + 8 * ?i \<or> ?P + 8 * ?i + 8 \<le> x) \<and> (x < unat r \<or> unat r + t \<le> x) \<longrightarrow> M x = hmem h' x"
    using r(3) mem(4) by auto
  have entry: "ld32 M (?P + 8 * ?i) = of_nat (length (bs @ cs))" "ld32 M (?P + 8 * ?i + 4) = of_nat (unat r)" using mem(2,3) by simp_all
  have len: "length (bs @ cs) < t" using r(3) by simp
  note new = rewrite_row [OF rows r(5,4) len r(7) stays entry mem(1), unfolded M]
  show thesis
  proof (rule that)
    show "rows_in ?a h0 ((own(q := None))(unat r \<mapsto> t)) (h'\<lparr>hmem := ?m\<rparr>) ?P (xs @ (unat r, bs @ cs) # ys)" by (rule new(1))
    show "room k (h'\<lparr>hmem := ?m\<rparr>)" using new(2) r(6) by (simp add: room_def)
    show "hmem (h'\<lparr>hmem := ?m\<rparr>) x = hmem (he_heap C) x" if "outside ?a x" for x using new(3) [OF that] by simp
    have cast: "of_int (int (length bs) + int (length cs) + 1) = (of_nat ?n :: u32)"
      "of_int (int (length bs) + int (length cs)) = (of_nat (length bs + length cs) :: u32)"
      "nat (int (length bs) + int (length cs)) = length bs + length cs" by simp_all
    show "heap_row_append A (int ?i) s (int (length cs)) C = Some (C\<lparr>he_heap := h'\<lparr>hmem := ?m\<rparr>, he_dirty := 1\<rparr>)"
      unfolding heap_row_append_def Let_def e(1,2) cast r(1)
      using r(1,2) n e(5) by (simp add: has_row_def non_null_def on_memory_def set_erow_size_def set_erow_chars_def erow_at_def)
  qed
qed

text \<open>A row that gets shorter stays in its buffer.\<close>

lemma shorten_row:
  fixes p :: u32
  assumes rows: "rows_in a h0 own h (unat p) (xs @ (q, bs) # ys)" and short: "length bs' \<le> length bs"
    and m: "\<forall>x. (x < unat p + 8 * length xs \<or> unat p + 8 * length xs + 8 \<le> x) \<and> (x < q \<or> q + length bs < x) \<longrightarrow> m x = hmem h x"
    and entry: "ld32 m (unat p + 8 * length xs) = of_nat (length bs')" "ld32 m (unat p + 8 * length xs + 4) = of_nat q"
    and chars: "chars_at m (q, bs')"
  shows "rows_in a h0 own (h\<lparr>hmem := m\<rparr>) (unat p) (xs @ (q, bs') # ys)"
    and "heap_blocks (h\<lparr>hmem := m\<rparr>) = heap_blocks h" and "outside a x \<Longrightarrow> m x = hmem h x"
proof -
  have hd: "held own (unat p) (xs @ (q, bs) # ys)" and ow: "owned a h0 own h" using rows by (simp_all add: rows_in_def)
  obtain t where t: "own q = Some t" "length bs < t" using held_delete(5) [OF hd] by blast
  then have own: "(own(q := None))(q \<mapsto> t) = own" by auto
  have len: "length bs' < t" using short t(2) by simp
  have l: "leaves a own {q} (hmem h) (hmem h)" by (simp add: leaves_def)
  have m': "\<forall>x. (x < unat p + 8 * length xs \<or> unat p + 8 * length xs + 8 \<le> x) \<and> (x < q \<or> q + t \<le> x) \<longrightarrow> m x = hmem h x"
    using m t(2) by auto
  note new = rewrite_row [OF rows, of q t h bs' m, unfolded own, OF ow _ len l m' entry chars]
  show "rows_in a h0 own (h\<lparr>hmem := m\<rparr>) (unat p) (xs @ (q, bs') # ys)" "heap_blocks (h\<lparr>hmem := m\<rparr>) = heap_blocks h"
    "outside a x \<Longrightarrow> m x = hmem h x" using new by simp_all
qed

text \<open>The characters of a row do not meet the array.\<close>

lemma chars_apart:
  fixes p :: u32
  assumes rows: "rows_in a h0 own h (unat p) (xs @ (q, bs) # ys)"
  shows "unat p + 8 * Suc (length (xs @ ys)) \<le> q \<or> q + length bs < unat p"
proof -
  have hd: "held own (unat p) (xs @ (q, bs) # ys)" and ow: "owned a h0 own h" using rows by (simp_all add: rows_in_def)
  obtain t s where t: "own q = Some t" "length bs < t" "own (unat p) = Some s" "8 * Suc (length (xs @ ys)) \<le> s"
    using held_delete(4,5) [OF hd] by blast
  then show ?thesis using owned_apart [OF ow t(3,1)] held_delete(2) [OF hd] by auto
qed

lemma heap_row_del_char_spec:
  assumes rows: "rows_in a h0 own (he_heap C) (unat (he_rows C)) (xs @ (q, bs) # ys)"
    and n: "he_numrows C = int (length (xs @ (q, bs) # ys))" and at: "at < length bs"
  obtains h where
    "heap_row_del_char (int (length xs)) (int at) C = Some (C\<lparr>he_heap := h, he_dirty := 1\<rparr>)"
    "rows_in a h0 own h (unat (he_rows C)) (xs @ (q, take at bs @ drop (Suc at) bs) # ys)" "heap_blocks h = heap_blocks (he_heap C)"
    "\<And>x. outside a x \<Longrightarrow> hmem h x = hmem (he_heap C) x"
proof -
  let ?P = "unat (he_rows C)" and ?i = "length xs" and ?bs' = "take at bs @ drop (Suc at) bs" and ?m = "hmem (he_heap C)"
  note e = rows_in_entry [OF rows]
  let ?m' = "st32 (memmove ?m (q + at) (q + at + 1) (length bs - at)) (?P + 8 * ?i) (of_nat (length bs - 1))"
  obtain m1 M where m1: "m1 = memmove ?m (q + at) (q + at + 1) (length bs - at)" and M: "M = st32 m1 (?P + 8 * ?i) (of_nat (length bs - 1))" by blast
  have apart: "?P + 8 * Suc (?i) \<le> q \<or> q + length bs < ?P" using chars_apart [OF rows] by auto
  have m1x: "m1 x = (if q + at \<le> x \<and> x < q + length bs then ?m (x + 1) else ?m x)" for x
    using at by (auto simp: m1 memmove_apply intro!: arg_cong [where f = ?m])
  have Mx: "M x = m1 x" if "x < ?P + 8 * ?i \<or> ?P + 8 * ?i + 4 \<le> x" for x using that by (simp add: M st32_other)
  have ch: "chars_at ?m (q, bs)" using rows by (simp add: rows_in_def)
  have chars: "chars_at M (q, ?bs')"
    unfolding chars_at_def
  proof (intro allI impI)
    fix k assume k: "k \<le> length (snd (q, ?bs'))"
    then have kl: "k < length bs" using at by simp
    have "M (q + k) = m1 (q + k)" using apart kl by (intro Mx) auto
    also have "\<dots> = (if k < at then ?m (q + k) else ?m (q + Suc k))" using kl by (auto simp: m1x)
    also have "\<dots> = (bs @ [0]) ! (if k < at then k else Suc k)"
      using ch kl chars_at_def [of ?m "(q, bs)"] by (auto simp del: add_Suc_right)
    also have "\<dots> = (?bs' @ [0]) ! k" using kl at by (auto simp: nth_append min_def)
    finally show "M (fst (q, ?bs') + k) = (snd (q, ?bs') @ [0]) ! k" by simp
  qed
  have stays: "\<forall>x. (x < ?P + 8 * ?i \<or> ?P + 8 * ?i + 8 \<le> x) \<and> (x < q \<or> q + length bs < x) \<longrightarrow> M x = ?m x"
    by (auto simp: Mx m1x)
  have "ld32 M (?P + 8 * ?i + 4) = ld32 ?m (?P + 8 * ?i + 4)" using apart by (intro ld32_cong) (auto simp: Mx m1x)
  then have entry: "ld32 M (?P + 8 * ?i) = of_nat (length ?bs')" "ld32 M (?P + 8 * ?i + 4) = of_nat q"
    using e(2,5) at by (simp_all add: M erow_chars_def)
  have short: "length ?bs' \<le> length bs" by simp
  note new = shorten_row [OF rows short stays entry chars, unfolded M m1]
  show thesis
  proof (rule that)
    have wd: "(of_nat (length bs - Suc 0) :: u32) = of_nat (length bs) - 1" using at by (simp add: of_nat_diff)
    have cast: "nat (int (length bs) - int at) = length bs - at" using at by simp
    have some: "\<not> (int at < 0 \<or> int (length bs) \<le> int at)" using at by simp
    show "heap_row_del_char (int ?i) (int at) C = Some (C\<lparr>he_heap := (he_heap C)\<lparr>hmem := ?m'\<rparr>, he_dirty := 1\<rparr>)"
      unfolding heap_row_del_char_def Let_def e(1,2,3) cast if_not_P [OF some]
      using n e(5) wd by (simp add: has_row_def on_memory_def set_erow_size_def erow_at_def)
  qed (use new in auto)
qed

lemma heap_row_del_char_none:
  assumes rows: "rows_in a h0 own (he_heap C) (unat (he_rows C)) (xs @ (q, bs) # ys)"
    and n: "he_numrows C = int (length (xs @ (q, bs) # ys))" and at: "at < 0 \<or> int (length bs) \<le> at"
  shows "heap_row_del_char (int (length xs)) at C = Some C"
  using rows_in_entry(1) [OF rows] n at by (simp add: heap_row_del_char_def has_row_def)

text \<open>Cutting a row: \<open>row->size = n; row->chars[n] = '\0';\<close>\<close>

lemma cut_row:
  fixes C :: heap_editor
  assumes rows: "rows_in a h0 own (he_heap C) (unat (he_rows C)) (xs @ (q, bs) # ys)" and n: "n \<le> length bs"
    and m: "M = (st32 (hmem (he_heap C)) (unat (he_rows C) + 8 * length xs) (of_nat n))(q + n := 0)"
  shows "rows_in a h0 own ((he_heap C)\<lparr>hmem := M\<rparr>) (unat (he_rows C)) (xs @ (q, take n bs) # ys)"
    and "heap_blocks ((he_heap C)\<lparr>hmem := M\<rparr>) = heap_blocks (he_heap C)" and "outside a x \<Longrightarrow> M x = hmem (he_heap C) x"
proof -
  let ?P = "unat (he_rows C)" and ?i = "length xs" and ?m = "hmem (he_heap C)"
  note e = rows_in_entry [OF rows]
  have apart: "?P + 8 * Suc (?i) \<le> q \<or> q + length bs < ?P" using chars_apart [OF rows] by auto
  have Mx: "M x = (if x = q + n then 0 else ?m x)" if "x < ?P + 8 * ?i \<or> ?P + 8 * ?i + 4 \<le> x" for x using that by (simp add: m st32_other)
  have ch: "chars_at ?m (q, bs)" using rows by (simp add: rows_in_def)
  have chars: "chars_at M (q, take n bs)"
    unfolding chars_at_def
  proof (intro allI impI)
    fix k assume k: "k \<le> length (snd (q, take n bs))"
    have "M (q + k) = (if k = n then 0 else ?m (q + k))" using apart k n by (subst Mx) auto
    then show "M (fst (q, take n bs) + k) = (snd (q, take n bs) @ [0]) ! k" using ch k n by (auto simp: chars_at_def nth_append)
  qed
  have stays: "\<forall>x. (x < ?P + 8 * ?i \<or> ?P + 8 * ?i + 8 \<le> x) \<and> (x < q \<or> q + length bs < x) \<longrightarrow> M x = ?m x"
    using n by (auto simp: Mx)
  have "ld32 M (?P + 8 * ?i + 4) = ld32 ?m (?P + 8 * ?i + 4)" using apart n by (intro ld32_cong) (auto simp: Mx)
  moreover have "ld32 M (?P + 8 * ?i) = ld32 (st32 ?m (?P + 8 * ?i) (of_nat n)) (?P + 8 * ?i)"
    using apart n by (intro ld32_cong) (auto simp: m)
  ultimately have entry: "ld32 M (?P + 8 * ?i) = of_nat (length (take n bs))" "ld32 M (?P + 8 * ?i + 4) = of_nat q"
    using e(2,5) n by (simp_all add: erow_chars_def)
  have short: "length (take n bs) \<le> length bs" by simp
  note new = shorten_row [OF rows short stays entry chars]
  show "rows_in a h0 own ((he_heap C)\<lparr>hmem := M\<rparr>) ?P (xs @ (q, take n bs) # ys)"
    "heap_blocks ((he_heap C)\<lparr>hmem := M\<rparr>) = heap_blocks (he_heap C)" "outside a x \<Longrightarrow> M x = hmem (he_heap C) x"
    using new by simp_all
qed

text \<open>Removing a row: its buffer is released, and the entries behind it move down.\<close>

lemma put_entry_chars_first: "st32 (st32 m (p + 8 * i + 4) (of_nat q)) (p + 8 * i) (of_nat (length bs)) = put_entry p i (q, bs) m"
  by (auto simp: put_entry_def st32_def fun_eq_iff)

lemma heap_del_row_spec:
  assumes rows: "rows_in a h0 own (he_heap C) (unat (he_rows C)) (xs @ (q, bs) # ys)"
    and n: "he_numrows C = int (length (xs @ (q, bs) # ys))"
  obtains h where
    "heap_del_row (int (length xs)) C = C\<lparr>he_heap := h, he_numrows := int (length (xs @ ys)), he_dirty := 1\<rparr>"
    "rows_in a h0 (own(q := None)) h (unat (he_rows C)) (xs @ ys)" "\<And>k. room k (he_heap C) \<Longrightarrow> room k h"
    "\<And>x. outside a x \<Longrightarrow> hmem h x = hmem (he_heap C) x"
proof -
  let ?P = "unat (he_rows C)" and ?i = "length xs" and ?es = "xs @ (q, bs) # ys" and ?own = "own(q := None)"
  have hd: "held own ?P ?es" and ow: "owned a h0 own (he_heap C)" and at: "rows_at (hmem (he_heap C)) ?P ?es"
    and ch: "\<And>e. e \<in> set ?es \<Longrightarrow> chars_at (hmem (he_heap C)) e" using rows by (auto simp: rows_in_def)
  note e = rows_in_entry [OF rows]
  obtain t s where t: "own q = Some t" and s: "own ?P = Some s" "8 * Suc (length (xs @ ys)) \<le> s" using held_delete(4,5) [OF hd] by blast
  have ne: "q \<noteq> ?P" using held_delete(2) [OF hd] .
  obtain h1 where h1: "h1 = mem_free (of_nat q) (he_heap C)" by blast
  have tq: "own (unat (of_nat q :: u32)) = Some t" using t e(3) by simp
  have ow1: "owned a h0 ?own h1" and keep: "\<forall>r u k. own r = Some u \<longrightarrow> r \<noteq> q \<longrightarrow> k < u \<longrightarrow> hmem h1 (r + k) = hmem (he_heap C) (r + k)"
    using owned_free [OF ow tq] e(3) by (simp_all add: h1)
  have lq: "heap_live (he_heap C) (unat (of_nat q :: u32)) = Some t" using owned_live [OF ow tq] .
  have l1: "leaves a own {q} (hmem (he_heap C)) (hmem h1)"
    using keep mem_free_outside [OF owned_ok [OF ow] lq] by (simp add: leaves_def h1)
  have P: "?own ?P = Some s" using s(1) ne by simp
  obtain m M where m: "m = put_entry ?P ?i (0, []) (hmem h1)" and M: "M = memmove m (?P + 8 * ?i) (?P + 8 * Suc ?i) (8 * (length ?es - ?i - 1))" by blast
  have Mx: "M x = hmem h1 x" if "x < ?P \<or> ?P + s \<le> x" for x
    using that s(2) by (auto simp: M m memmove_apply put_entry_other)
  have ow2: "owned a h0 ?own (h1\<lparr>hmem := M\<rparr>)" "heap_blocks (h1\<lparr>hmem := M\<rparr>) = heap_blocks h1"
    using owned_write [OF ow1 P, of M] Mx by blast+
  have l2: "leaves a ?own {?P} (hmem h1) M" by (rule leaves_write [OF ow1 P Mx])
  have "rows_at (hmem h1) ?P ?es"
    by (rule rows_at_cong [OF at]) (use leaves_in [OF l1 s(1)] ne s(2) in auto)
  then have "rows_at m ?P (xs @ (0, []) # ys)" using rows_at_put [of "hmem h1" ?P ?es ?i "(0, [])"] by (simp add: m)
  then have at2: "rows_at M ?P (xs @ ys)" using rows_at_delete [of m ?P "xs @ (0, []) # ys" ?i] by (simp add: M)
  have "chars_at M e" if e: "e \<in> set (xs @ ys)" for e
  proof -
    have e2: "e \<in> set ?es" using e by auto
    have ne: "fst e \<noteq> ?P" "fst e \<noteq> q" using held_row [OF hd e2] held_delete(6) [OF hd e] by auto
    have "chars_at (hmem h1) e" using leaves_chars [OF l1 hd e2 _ ch [OF e2]] ne by simp
    then show ?thesis using leaves_chars [OF l2 held_delete(1) [OF hd] e] ne by simp
  qed
  then have rows2: "rows_in a h0 ?own (h1\<lparr>hmem := M\<rparr>) ?P (xs @ ys)"
    using ow2(1) held_delete(1) [OF hd] at2 by (auto simp: rows_in_def)
  show thesis
  proof (rule that)
    show "rows_in a h0 ?own (h1\<lparr>hmem := M\<rparr>) ?P (xs @ ys)" by (rule rows2)
    show "room k (h1\<lparr>hmem := M\<rparr>)" if "room k (he_heap C)" for k
      using room_free [OF owned_ok [OF ow] lq that] ow2(2) by (simp add: room_def h1)
    show "hmem (h1\<lparr>hmem := M\<rparr>) x = hmem (he_heap C) x" if "outside a x" for x using l1 l2 that by (simp add: leaves_def)
    have cnt: "nat (int (length ?es) - int ?i - 1) = length ?es - ?i - 1" "nat (int ?i) = ?i" "nat (int ?i + 1) = Suc ?i" by simp_all
    have some: "\<not> (int ?i < 0 \<or> int (length ?es) \<le> int ?i)" by simp
    have m': "m = st32 (st32 (hmem h1) (?P + 8 * ?i + 4) 0) (?P + 8 * ?i) 0"
      using put_entry_chars_first [of "hmem h1" ?P ?i 0 "[]"] by (simp add: m)
    show "heap_del_row (int ?i) C = C\<lparr>he_heap := h1\<lparr>hmem := M\<rparr>, he_numrows := int (length (xs @ ys)), he_dirty := 1\<rparr>"
      unfolding heap_del_row_def heap_free_row_def Let_def e(2) n if_not_P [OF some]
      using n cnt by (simp add: h1 [symmetric] M m' on_memory_def set_erow_size_def set_erow_chars_def erow_at_def)
  qed
qed

end
