(* ===== verification/EditorHeap.thy ===== *)
theory EditorHeap
  imports EditorRowOps
begin

text \<open>
  The editing functions of \<open>fs/ed.c\<close> on rows in the heap.  They implement those of theory \<open>Editor\<close>,
  which work on lists: each of them, and every sequence of them, leads to a memory that holds the rows
  of the list version, as long as the heap has a free block of the size that \<open>need\<close> gives.
\<close>

section \<open>Operations\<close>

definition heap_init_editor :: "heap_editor \<Rightarrow> heap_editor" where
  "heap_init_editor C = C\<lparr>he_cx := 0, he_cy := 0, he_numrows := 0, he_dirty := 0, he_rows := 0\<rparr>"

definition heap_insert_char :: "addresses \<Rightarrow> u8 \<Rightarrow> heap_editor \<Rightarrow> heap_editor option" where
  "heap_insert_char A c C = do {
     C1 \<leftarrow> (if he_cy C = he_numrows C then heap_insert_row A (he_numrows C) (empty_string A) 0 C else Some C);
     C2 \<leftarrow> heap_row_insert_char A (he_cy C1) (he_cx C1) c C1;
     Some (C2\<lparr>he_cx := he_cx C2 + 1, he_dirty := 1\<rparr>)
   }"

definition heap_insert_newline :: "addresses \<Rightarrow> heap_editor \<Rightarrow> heap_editor option" where
  "heap_insert_newline A C = do {
     C' \<leftarrow> (if he_cx C = 0 then heap_insert_row A (he_cy C) (empty_string A) 0 C
            else do {
              has_row C (he_cy C);
              C1 \<leftarrow> heap_insert_row A (he_cy C + 1) (erow_chars C (he_cy C) + of_int (he_cx C)) (erow_size C (he_cy C) - he_cx C) C;
              let C2 = set_erow_size (he_cy C1) (he_cx C1) C1;
              (if he_cx C1 < 0 then None else Some ());
              Some (on_memory (\<lambda>m. m(unat (erow_chars C2 (he_cy C2)) + nat (he_cx C1) := 0)) C2)
            });
     Some (C'\<lparr>he_cy := he_cy C' + 1, he_cx := 0\<rparr>)
   }"

definition heap_del_char :: "addresses \<Rightarrow> heap_editor \<Rightarrow> heap_editor option" where
  "heap_del_char A C =
     (if he_cy C = he_numrows C then Some C
      else if he_cx C = 0 \<and> he_cy C = 0 then Some C
      else if 0 < he_cx C then do {
        C1 \<leftarrow> heap_row_del_char (he_cy C) (he_cx C - 1) C;
        Some (C1\<lparr>he_cx := he_cx C1 - 1, he_dirty := 1\<rparr>)
      } else do {
        has_row C (he_cy C - 1);
        has_row C (he_cy C);
        let C0 = C\<lparr>he_cx := erow_size C (he_cy C - 1)\<rparr>;
        C1 \<leftarrow> heap_row_append A (he_cy C0 - 1) (erow_chars C0 (he_cy C0)) (erow_size C0 (he_cy C0)) C0;
        let C2 = heap_del_row (he_cy C1) C1;
        Some (C2\<lparr>he_cy := he_cy C2 - 1, he_dirty := 1\<rparr>)
      })"

definition heap_yank_line :: "addresses \<Rightarrow> heap_editor \<Rightarrow> heap_editor option" where
  "heap_yank_line A C =
     (if he_numrows C \<le> he_cy C then Some C
      else do {
        has_row C (he_cy C);
        let n = (if erow_size C (he_cy C) < int (unat BLOCK_SIZE) - 1 then erow_size C (he_cy C) else int (unat BLOCK_SIZE) - 1);
        let y = unat (yank_addr A);
        (if n < 0 then None else Some ());
        Some ((on_memory (\<lambda>m. (memcpy m y (unat (erow_chars C (he_cy C))) (nat n))(y + nat n := 0)) C)\<lparr>he_yank_len := n\<rparr>)
      })"

definition heap_paste_line :: "addresses \<Rightarrow> heap_editor \<Rightarrow> heap_editor option" where
  "heap_paste_line A C =
     (if he_yank_len C = 0 then Some C
      else do {
        C1 \<leftarrow> heap_insert_row A (he_cy C + 1) (yank_addr A) (he_yank_len C) C;
        Some (C1\<lparr>he_cy := he_cy C1 + 1, he_cx := 0\<rparr>)
      })"

definition heap_delete_line :: "addresses \<Rightarrow> heap_editor \<Rightarrow> heap_editor option" where
  "heap_delete_line A C =
     (if he_numrows C = 0 then Some C
      else do {
        C1 \<leftarrow> heap_yank_line A C;
        let C2 = heap_del_row (he_cy C1) C1;
        let C3 = (if he_numrows C2 \<le> he_cy C2 \<and> 0 < he_cy C2 then C2\<lparr>he_cy := he_cy C2 - 1\<rparr> else C2);
        Some (C3\<lparr>he_cx := 0\<rparr>)
      })"

section \<open>What the memory holds\<close>

definition text_in :: "addresses \<Rightarrow> heap \<Rightarrow> heap_editor \<Rightarrow> u8 list list \<Rightarrow> bool" where
  "text_in A h0 C rs \<longleftrightarrow> he_numrows C = int (length rs)
     \<and> (\<exists>own es. rows_in (heap_area A) h0 own (he_heap C) (unat (he_rows C)) es \<and> map snd es = rs)"

text \<open>The yank buffer does not lie in the heap.\<close>

definition addresses_ok :: "addresses \<Rightarrow> bool" where
  "addresses_ok A \<longleftrightarrow> (\<forall>k < 4096. outside (heap_area A) (unat (yank_addr A) + k))"

definition yank_in :: "addresses \<Rightarrow> heap_editor \<Rightarrow> u8 list \<Rightarrow> bool" where
  "yank_in A C bs \<longleftrightarrow> he_yank_len C = int (length bs) \<and> length bs < 4096
     \<and> (\<forall>k < length bs. hmem (he_heap C) (unat (yank_addr A) + k) = bs ! k)"

definition in_heap :: "addresses \<Rightarrow> heap \<Rightarrow> heap_editor \<Rightarrow> editor \<Rightarrow> bool" where
  "in_heap A h0 C E \<longleftrightarrow> text_in A h0 C (rows E) \<and> yank_in A C (yank_buf E)
     \<and> he_cx C = cx E \<and> he_cy C = cy E \<and> he_dirty C = dirty E"

text \<open>Room that is enough for any one operation.\<close>

definition need :: "editor \<Rightarrow> nat" where
  "need E = 8 * Suc (length (rows E)) + length (concat (rows E)) + length (yank_buf E) + 64"

subsection \<open>Splitting the list of rows\<close>

lemma split_rows:
  assumes "map snd es = rs" and "i < length rs"
  obtains xs q ys where "es = xs @ (q, rs ! i) # ys" "length xs = i" "map snd xs = take i rs" "map snd ys = drop (Suc i) rs"
proof (rule that)
  have i: "i < length es" using assms by (metis length_map)
  show "es = take i es @ (fst (es ! i), rs ! i) # drop (Suc i) es" using id_take_nth_drop [OF i] assms(1) nth_map [OF i, of snd] by (simp add: prod_eq_iff)
  show "length (take i es) = i" using i by simp
  show "map snd (take i es) = take i rs" "map snd (drop (Suc i) es) = drop (Suc i) rs" using assms(1) by (auto simp: take_map drop_map)
qed

lemma split_rows2:
  assumes "map snd es = rs" and "i \<le> length rs"
  obtains xs ys where "es = xs @ ys" "length xs = i" "map snd xs = take i rs" "map snd ys = drop i rs"
proof (rule that)
  show "es = take i es @ drop i es" by simp
  show "length (take i es) = i" using assms by (metis length_map length_take min.absorb2)
  show "map snd (take i es) = take i rs" "map snd (drop i es) = drop i rs" using assms(1) by (auto simp: take_map drop_map)
qed

lemma row_at_Some: "row_at E i = Some r \<longleftrightarrow> 0 \<le> i \<and> nat i < length (rows E) \<and> r = rows E ! nat i"
  by (auto simp: row_at_def numrows_def)

lemma row_length: "i < length rs \<Longrightarrow> length (rs ! i) \<le> length (concat rs)"
  by (induction rs arbitrary: i) (auto simp: nth_Cons' intro: le_SucI trans_le_add1 trans_le_add2)

lemma two_rows_length: "Suc i < length rs \<Longrightarrow> length (rs ! i) + length (rs ! Suc i) \<le> length (concat rs)"
proof (induction rs arbitrary: i)
  case (Cons r rs)
  show ?case
  proof (cases i)
    case 0
    then show ?thesis using row_length [of 0 rs] Cons.prems by simp
  next
    case (Suc j)
    then show ?thesis using Cons.IH [of j] Cons.prems by simp
  qed
qed simp

section \<open>Every operation does what it does on lists\<close>

text \<open>\<open>does A h0 k r E'\<close>: the operation ends, in a memory that holds \<open>E'\<close>, with room for \<open>k\<close> bytes.\<close>

definition does :: "addresses \<Rightarrow> heap \<Rightarrow> nat \<Rightarrow> heap_editor option \<Rightarrow> editor \<Rightarrow> bool" where
  "does A h0 k r E' \<longleftrightarrow> (\<exists>C'. r = Some C' \<and> in_heap A h0 C' E' \<and> room k (he_heap C'))"

text \<open>What the row operations do to \<open>text_in\<close>; the bytes outside the heap's array stay.\<close>

definition same_static :: "addresses \<Rightarrow> heap_editor \<Rightarrow> heap \<Rightarrow> bool" where
  "same_static A C h \<longleftrightarrow> (\<forall>x. outside (heap_area A) x \<longrightarrow> hmem h x = hmem (he_heap C) x)"

lemma yank_in_static:
  "addresses_ok A \<Longrightarrow> yank_in A C bs \<Longrightarrow> same_static A C h \<Longrightarrow> he_yank_len C' = he_yank_len C \<Longrightarrow> he_heap C' = h \<Longrightarrow> yank_in A C' bs"
  by (auto simp: yank_in_def addresses_ok_def same_static_def)

lemma source_static:
  "(\<forall>k < length bs. m (s + k) = bs ! k) \<Longrightarrow> bs = [] \<or> s + length bs \<le> unat a \<or> unat a + 1048576 \<le> s \<Longrightarrow> source a own X m s bs"
  by (auto simp: source_def)

lemma source_buffer:
  "own r = Some u \<Longrightarrow> r \<notin> X \<Longrightarrow> r \<le> s \<Longrightarrow> s + length bs \<le> r + u \<Longrightarrow> \<forall>k < length bs. m (s + k) = bs ! k \<Longrightarrow> source a own X m s bs"
  by (auto simp: source_def)

lemma text_insert_row:
  assumes "text_in A h0 C rs" and "i \<le> length rs"
    and "\<And>own. source (heap_area A) own {unat (he_rows C)} (hmem (he_heap C)) (unat s) bs"
    and "room (8 * Suc (length rs) + 16 + (Suc (length bs) + 16 + k)) (he_heap C)"
  obtains C' where "heap_insert_row A (int i) s (int (length bs)) C = Some C'" "text_in A h0 C' (take i rs @ bs # drop i rs)"
    "room k (he_heap C')" "same_static A C (he_heap C')" "he_cx C' = he_cx C" "he_cy C' = he_cy C" "he_dirty C' = he_dirty C"
    "he_yank_len C' = he_yank_len C"
proof -
  obtain own es where es: "rows_in (heap_area A) h0 own (he_heap C) (unat (he_rows C)) es" "map snd es = rs" and n: "he_numrows C = int (length rs)"
    using assms(1) by (auto simp: text_in_def)
  obtain xs ys where x: "es = xs @ ys" "length xs = i" "map snd xs = take i rs" "map snd ys = drop i rs"
    by (rule split_rows2 [OF es(2) assms(2)])
  have len: "length (xs @ ys) = length rs" using x(1) es(2) by auto
  have n': "he_numrows C = int (length (xs @ ys))" and r': "room (8 * Suc (length (xs @ ys)) + 16 + (Suc (length bs) + 16 + k)) (he_heap C)"
    using n assms(4) unfolding len by simp_all
  show thesis
  proof (rule heap_insert_row_spec [OF es(1) [unfolded x(1)] n' assms(3) r'], goal_cases)
    case (1 h p own' q)
    show thesis
      by (rule that [OF 1(1) [unfolded x(2)]])
        (use 1 x(2-) len in \<open>auto simp: text_in_def same_static_def intro!: exI [of _ own'] exI [of _ "xs @ (q, bs) # ys"]\<close>)
  qed
qed

lemma text_row_insert_char:
  assumes "text_in A h0 C rs" and "i < length rs" and "at' = (if at < 0 \<or> int (length (rs ! i)) < at then length (rs ! i) else nat at)"
    and "room (length (rs ! i) + 2 + 16 + k) (he_heap C)"
  obtains C' where "heap_row_insert_char A (int i) at c C = Some C'" "text_in A h0 C' (rs[i := take at' (rs ! i) @ c # drop at' (rs ! i)])"
    "room k (he_heap C')" "same_static A C (he_heap C')" "he_cx C' = he_cx C" "he_cy C' = he_cy C" "he_dirty C' = 1"
    "he_yank_len C' = he_yank_len C"
proof -
  obtain own es where es: "rows_in (heap_area A) h0 own (he_heap C) (unat (he_rows C)) es" "map snd es = rs" and n: "he_numrows C = int (length rs)"
    using assms(1) by (auto simp: text_in_def)
  obtain xs q ys where x: "es = xs @ (q, rs ! i) # ys" "length xs = i" "map snd xs = take i rs" "map snd ys = drop (Suc i) rs"
    by (rule split_rows [OF es(2) assms(2)])
  have n': "he_numrows C = int (length (xs @ (q, rs ! i) # ys))" using n arg_cong [OF es(2), of length] x(1) by simp
  show thesis
  proof (rule heap_row_insert_char_spec [where c = c, OF es(1) [unfolded x(1)] n' assms(3,4)], goal_cases)
    case (1 h own' r)
    show thesis
      by (rule that [OF 1(1) [unfolded x(2)]])
        (use 1 x n assms(2) in \<open>auto simp: text_in_def same_static_def upd_conv_take_nth_drop
           intro!: exI [of _ own'] exI [of _ "xs @ (r, take at' (rs ! i) @ c # drop at' (rs ! i)) # ys"]\<close>)
  qed
qed

lemma text_row_del_char:
  assumes "text_in A h0 C rs" and "i < length rs"
  obtains C' where "heap_row_del_char (int i) at C = Some C'"
    "text_in A h0 C' (if at < 0 \<or> int (length (rs ! i)) \<le> at then rs else rs[i := take (nat at) (rs ! i) @ drop (Suc (nat at)) (rs ! i)])"
    "room k (he_heap C) \<Longrightarrow> room k (he_heap C')" "same_static A C (he_heap C')" "he_cx C' = he_cx C" "he_cy C' = he_cy C"
    "he_dirty C' = (if at < 0 \<or> int (length (rs ! i)) \<le> at then he_dirty C else 1)" "he_yank_len C' = he_yank_len C"
proof -
  obtain own es where es: "rows_in (heap_area A) h0 own (he_heap C) (unat (he_rows C)) es" "map snd es = rs" and n: "he_numrows C = int (length rs)"
    using assms(1) by (auto simp: text_in_def)
  obtain xs q ys where x: "es = xs @ (q, rs ! i) # ys" "length xs = i" "map snd xs = take i rs" "map snd ys = drop (Suc i) rs"
    by (rule split_rows [OF es(2) assms(2)])
  have n': "he_numrows C = int (length (xs @ (q, rs ! i) # ys))" using n arg_cong [OF es(2), of length] x(1) by simp
  show thesis
  proof (cases "at < 0 \<or> int (length (rs ! i)) \<le> at")
    case True
    then show thesis using heap_row_del_char_none [OF es(1) [unfolded x(1)] n' True] x(2) assms(1)
      by (intro that [of C]) (auto simp: same_static_def)
  next
    case False
    then have at: "nat at < length (rs ! i)" "int (nat at) = at" by auto
    show thesis
    proof (rule heap_row_del_char_spec [OF es(1) [unfolded x(1)] n' at(1)], goal_cases)
      case (1 h)
      show thesis
        by (rule that [OF 1(1) [unfolded x(2) at(2)]])
          (use 1 x n assms(2) False in \<open>auto simp: text_in_def same_static_def room_def upd_conv_take_nth_drop
             intro!: exI [of _ own] exI [of _ "xs @ (q, take (nat at) (rs ! i) @ drop (Suc (nat at)) (rs ! i)) # ys"]\<close>)
    qed
  qed
qed

lemma text_del_row:
  assumes "text_in A h0 C rs" and "i < length rs"
  obtains C' where "heap_del_row (int i) C = C'" "text_in A h0 C' (take i rs @ drop (Suc i) rs)"
    "\<And>k. room k (he_heap C) \<Longrightarrow> room k (he_heap C')" "same_static A C (he_heap C')" "he_cx C' = he_cx C" "he_cy C' = he_cy C" "he_dirty C' = 1"
    "he_yank_len C' = he_yank_len C"
proof -
  obtain own es where es: "rows_in (heap_area A) h0 own (he_heap C) (unat (he_rows C)) es" "map snd es = rs" and n: "he_numrows C = int (length rs)"
    using assms(1) by (auto simp: text_in_def)
  obtain xs q ys where x: "es = xs @ (q, rs ! i) # ys" "length xs = i" "map snd xs = take i rs" "map snd ys = drop (Suc i) rs"
    by (rule split_rows [OF es(2) assms(2)])
  have n': "he_numrows C = int (length (xs @ (q, rs ! i) # ys))" using n arg_cong [OF es(2), of length] x(1) by simp
  have len: "int (length xs) + int (length ys) = int (length rs) - 1" using arg_cong [OF x(4), of length] x(2) assms(2) by simp
  show thesis
  proof (rule heap_del_row_spec [OF es(1) [unfolded x(1)] n'], goal_cases)
    case (1 h)
    show thesis
      by (rule that [OF 1(1) [unfolded x(2)]])
        (use 1 x n assms(2) len in
          \<open>auto simp: text_in_def same_static_def intro!: exI [of _ "own(q := None)"] exI [of _ "xs @ ys"]\<close>)
  qed
qed

text \<open>The row above takes over the characters of the row below.\<close>

lemma text_row_join:
  assumes "text_in A h0 C rs" and "Suc i < length rs" and "room (length (rs ! i) + length (rs ! Suc i) + 1 + 16 + k) (he_heap C)"
  obtains C' where "heap_row_append A (int i) (erow_chars C (int (Suc i))) (erow_size C (int (Suc i))) C = Some C'"
    "text_in A h0 C' (rs[i := rs ! i @ rs ! Suc i])" "room k (he_heap C')" "same_static A C (he_heap C')"
    "he_cx C' = he_cx C" "he_cy C' = he_cy C" "he_dirty C' = 1" "he_yank_len C' = he_yank_len C"
proof -
  obtain own es where es: "rows_in (heap_area A) h0 own (he_heap C) (unat (he_rows C)) es" "map snd es = rs" and n: "he_numrows C = int (length rs)"
    using assms(1) by (auto simp: text_in_def)
  obtain xs q ys where x: "es = xs @ (q, rs ! i) # ys" "length xs = i" "map snd xs = take i rs" "map snd ys = drop (Suc i) rs"
    using split_rows [OF es(2), of i] assms(2) by (metis Suc_lessD)
  have n': "he_numrows C = int (length (xs @ (q, rs ! i) # ys))" using n arg_cong [OF es(2), of length] x(1) by simp
  obtain q' zs where ys: "ys = (q', rs ! Suc i) # zs" using x(4) assms(2) by (cases ys) (auto simp: Cons_nth_drop_Suc [symmetric])
  have es': "es = (xs @ [(q, rs ! i)]) @ (q', rs ! Suc i) # zs" "int (Suc i) = int (length (xs @ [(q, rs ! i)]))" using x(1,2) ys by simp_all
  note e = rows_in_entry [OF es(1) [unfolded es'(1)]]
  have hd: "held own (unat (he_rows C)) ((xs @ [(q, rs ! i)]) @ (q', rs ! Suc i) # zs)" and ch: "chars_at (hmem (he_heap C)) (q', rs ! Suc i)"
    using es(1) es'(1) by (auto simp: rows_in_def)
  obtain t where t: "own q' = Some t" "length (rs ! Suc i) < t" using held_delete(5) [OF hd] by blast
  have "source (heap_area A) own {q, unat (he_rows C)} (hmem (he_heap C)) q' (rs ! Suc i)"
    using t ch held_delete(2) [OF hd] held_delete(6) [OF hd, of "(q, rs ! i)"]
    by (intro source_buffer [where own = own and r = q' and u = t]) (auto simp: chars_at_def nth_append)
  then have src: "source (heap_area A) own {q, unat (he_rows C)} (hmem (he_heap C)) (unat (of_nat q' :: u32)) (rs ! Suc i)"
    using e(3) by simp
  have args: "erow_chars C (int (Suc i)) = of_nat q'" "erow_size C (int (Suc i)) = int (length (rs ! Suc i))"
    using e(1,2) unfolding es'(2) by simp_all
  show thesis
  proof (rule heap_row_append_spec [OF es(1) [unfolded x(1)] n' src assms(3)], goal_cases)
    case (1 h own' r)
    show thesis
      by (rule that [unfolded args, OF 1(1) [unfolded x(2)]])
        (use 1 x n assms(2) in \<open>auto simp: text_in_def same_static_def upd_conv_take_nth_drop
           intro!: exI [of _ own'] exI [of _ "xs @ (r, rs ! i @ rs ! Suc i) # ys"]\<close>)
  qed
qed

lemma text_in_same:
  "text_in A h0 C rs \<Longrightarrow> he_heap C' = he_heap C \<Longrightarrow> he_rows C' = he_rows C \<Longrightarrow> he_numrows C' = he_numrows C \<Longrightarrow> text_in A h0 C' rs"
  by (simp add: text_in_def)

lemma text_row_size:
  assumes "text_in A h0 C rs" and "i < length rs"
  shows "erow_size C (int i) = int (length (rs ! i))"
proof -
  obtain own es where es: "rows_in (heap_area A) h0 own (he_heap C) (unat (he_rows C)) es" "map snd es = rs"
    using assms(1) by (auto simp: text_in_def)
  obtain xs q ys where x: "es = xs @ (q, rs ! i) # ys" "length xs = i" by (rule split_rows [OF es(2) assms(2)])
  show ?thesis using rows_in_entry(1) [OF es(1) [unfolded x(1)]] x(2) by simp
qed

text \<open>The characters of a row from the \<open>n\<close>th on become a row of their own, which is what \<open>editorInsertNewline\<close> does.\<close>

lemma text_row_split:
  assumes txt_in: "text_in A h0 C rs" and i: "i < length rs" and n: "n \<le> length (rs ! i)"
    and room: "room (8 * Suc (length rs) + 16 + (Suc (length (rs ! i) - n) + 16 + k)) (he_heap C)"
  obtains C1 C3 where
    "heap_insert_row A (int i + 1) (erow_chars C (int i) + of_nat n) (erow_size C (int i) - int n) C = Some C1"
    "on_memory (\<lambda>m. m(unat (erow_chars (set_erow_size (int i) (int n) C1) (int i)) + n := 0)) (set_erow_size (int i) (int n) C1) = C3"
    "text_in A h0 C3 (take i rs @ take n (rs ! i) # drop n (rs ! i) # drop (Suc i) rs)" "room k (he_heap C3)" "same_static A C (he_heap C3)"
    "he_cx C1 = he_cx C" "he_cy C1 = he_cy C" "he_cx C3 = he_cx C" "he_cy C3 = he_cy C" "he_dirty C3 = he_dirty C" "he_yank_len C3 = he_yank_len C"
proof -
  let ?a = "heap_area A"
  obtain own es where es: "rows_in ?a h0 own (he_heap C) (unat (he_rows C)) es" "map snd es = rs" and num: "he_numrows C = int (length rs)"
    using txt_in by (auto simp: text_in_def)
  obtain xs q ys where x: "es = xs @ (q, rs ! i) # ys" "length xs = i" "map snd xs = take i rs" "map snd ys = drop (Suc i) rs"
    by (rule split_rows [OF es(2) i])
  let ?xs = "xs @ [(q, rs ! i)]" and ?bs = "drop n (rs ! i)"
  note e = rows_in_entry [OF es(1) [unfolded x(1)], unfolded x(2)]
  have rows: "rows_in ?a h0 own (he_heap C) (unat (he_rows C)) (?xs @ ys)" using es(1) x(1) by simp
  have len: "length (?xs @ ys) = length rs" using arg_cong [OF es(2), of length] x(1) by simp
  have hd: "held own (unat (he_rows C)) (xs @ (q, rs ! i) # ys)" and ch: "chars_at (hmem (he_heap C)) (q, rs ! i)"
    and ow: "owned ?a h0 own (he_heap C)" using es(1) x(1) by (auto simp: rows_in_def)
  obtain t where t: "own q = Some t" "length (rs ! i) < t" using held_delete(5) [OF hd] by blast
  have "unat ?a + 1048576 < 2 ^ 32" using owned_ok [OF ow] by (simp add: heap_ok_def heap_rep_def)
  then have "q + n < 2 ^ 32" using owned_inside [OF ow t(1)] t(2) n by simp
  then have s: "unat (of_nat q + of_nat n :: u32) = q + n" by (metis of_nat_add unat_of_nat32)
  have src: "source ?a own {unat (he_rows C)} (hmem (he_heap C)) (unat (of_nat q + of_nat n :: u32)) ?bs"
    unfolding s using t ch n held_delete(2) [OF hd]
    by (intro source_buffer [where own = own and r = q and u = t]) (auto simp: chars_at_def nth_append add.assoc)
  have num': "he_numrows C = int (length (?xs @ ys))" using num len by simp
  have room': "room (8 * Suc (length (?xs @ ys)) + 16 + (Suc (length ?bs) + 16 + k)) (he_heap C)" using room unfolding len by simp
  show thesis
  proof (rule heap_insert_row_spec [OF rows num' src room'], goal_cases)
    case (1 h p own' q2)
    let ?C1 = "C\<lparr>he_heap := h, he_rows := p, he_numrows := int (Suc (length (?xs @ ys)))\<rparr>"
    let ?M = "(st32 (hmem h) (unat p + 8 * length xs) (of_nat n))(q + n := 0)"
    have rows1: "rows_in ?a h0 own' (he_heap ?C1) (unat (he_rows ?C1)) (xs @ (q, rs ! i) # (q2, ?bs) # ys)" using 1(2) by simp
    have M: "?M = (st32 (hmem (he_heap ?C1)) (unat (he_rows ?C1) + 8 * length xs) (of_nat n))(q + n := 0)" by simp
    note cut = cut_row [OF rows1 n M]
    note e1 = rows_in_entry [OF rows1, unfolded x(2)]
    have chars: "unat (erow_chars (set_erow_size (int i) (int n) ?C1) (int i)) = q"
      using e1(2,3) by (simp add: erow_chars_def set_erow_size_def on_memory_def erow_at_def ld32_st32_other)
    have args: "int i + 1 = int (length ?xs)" "erow_chars C (int i) + of_nat n = of_nat q + of_nat n" "erow_size C (int i) - int n = int (length ?bs)"
      using x(2) e(1,2) n by simp_all
    have C3: "on_memory (\<lambda>m. m(unat (erow_chars (set_erow_size (int i) (int n) ?C1) (int i)) + n := 0)) (set_erow_size (int i) (int n) ?C1)
        = ?C1\<lparr>he_heap := h\<lparr>hmem := ?M\<rparr>\<rparr>"
      unfolding chars by (simp add: on_memory_def set_erow_size_def erow_at_def x(2))
    show thesis
    proof (rule that [unfolded args, OF 1(1) C3])
      show "text_in A h0 (?C1\<lparr>he_heap := h\<lparr>hmem := ?M\<rparr>\<rparr>) (take i rs @ take n (rs ! i) # ?bs # drop (Suc i) rs)"
        unfolding text_in_def using cut(1) x len i
        by (auto intro!: exI [of _ own'] exI [of _ "xs @ (q, take n (rs ! i)) # (q2, ?bs) # ys"])
      show "room k (he_heap (?C1\<lparr>he_heap := h\<lparr>hmem := ?M\<rparr>\<rparr>))" using 1(3) cut(2) by (simp add: room_def)
      show "same_static A C (he_heap (?C1\<lparr>he_heap := h\<lparr>hmem := ?M\<rparr>\<rparr>))" using 1(4) cut(3) by (simp add: same_static_def)
    qed simp_all
  qed
qed

subsection \<open>The editing functions\<close>

lemma outside_range:
  assumes "\<And>k. k < 4096 \<Longrightarrow> outside a (y + k)" and "n \<le> 4096"
  shows "n = 0 \<or> y + n \<le> unat a \<or> unat a + 1048576 \<le> y"
proof (rule ccontr)
  assume c: "\<not> ?thesis"
  then have "y < unat a" using assms(1) [of 0] by (auto simp: outside_def)
  moreover have "unat a - y < 4096" using c assms(2) by linarith
  ultimately show False using assms(1) [of "unat a - y"] by (simp add: outside_def)
qed

lemma outside_buffer:
  assumes "\<And>k. k < 4096 \<Longrightarrow> outside a (y + k)" and "\<not> outside a x"
  shows "x < y \<or> y + 4096 \<le> x"
proof (rule ccontr)
  assume c: "\<not> ?thesis"
  then have "x - y < 4096" "y + (x - y) = x" by linarith+
  then show False using assms(1) [of "x - y"] assms(2) by simp
qed

lemma room_need:
  assumes "room (need E + k) h"
  shows "room (8 * Suc (length (rows E)) + 16 + (Suc 0 + 16 + (18 + k))) h" "i < length (rows E) \<Longrightarrow> room (length (rows E ! i) + 2 + 16 + k) h"
    "Suc i < length (rows E) \<Longrightarrow> room (length (rows E ! i) + length (rows E ! Suc i) + 1 + 16 + k) h"
    "i < length (rows E) \<Longrightarrow> n \<le> length (rows E ! i) \<Longrightarrow> room (8 * Suc (length (rows E)) + 16 + (Suc n + 16 + k)) h"
    "room (8 * Suc (length (rows E)) + 16 + (Suc (length (yank_buf E)) + 16 + k)) h" "room k h"
proof -
  note l = row_length [of i "rows E"] two_rows_length [of i "rows E"]
  show "room (8 * Suc (length (rows E)) + 16 + (Suc 0 + 16 + (18 + k))) h" "room k h"
    "room (8 * Suc (length (rows E)) + 16 + (Suc (length (yank_buf E)) + 16 + k)) h"
    by (rule room_less [OF assms]; simp add: need_def)+
  show "i < length (rows E) \<Longrightarrow> room (length (rows E ! i) + 2 + 16 + k) h"
    "Suc i < length (rows E) \<Longrightarrow> room (length (rows E ! i) + length (rows E ! Suc i) + 1 + 16 + k) h"
    "i < length (rows E) \<Longrightarrow> n \<le> length (rows E ! i) \<Longrightarrow> room (8 * Suc (length (rows E)) + 16 + (Suc n + 16 + k)) h"
    using l by (intro room_less [OF assms]; simp add: need_def)+
qed

lemma in_heapD:
  assumes "in_heap A h0 C E"
  shows "text_in A h0 C (rows E)" "yank_in A C (yank_buf E)" "he_numrows C = numrows E" "he_cx C = cx E" "he_cy C = cy E" "he_dirty C = dirty E"
  using assms by (auto simp: in_heap_def text_in_def numrows_def)

lemma in_heapI:
  assumes "in_heap A h0 C E" and "addresses_ok A" and "text_in A h0 C1 (rows E')" and "same_static A C (he_heap C1)"
    and "yank_buf E' = yank_buf E" and "he_yank_len C' = he_yank_len C"
    and "he_heap C' = he_heap C1" "he_rows C' = he_rows C1" "he_numrows C' = he_numrows C1"
    and "he_cx C' = cx E'" "he_cy C' = cy E'" "he_dirty C' = dirty E'"
  shows "in_heap A h0 C' E'"
  using assms yank_in_static [OF assms(2) in_heapD(2) [OF assms(1)] assms(4) assms(6,7)] by (simp add: in_heap_def text_in_def)

lemma in_heap_same:
  assumes "in_heap A h0 C E" and "rows E' = rows E" "yank_buf E' = yank_buf E" and "he_yank_len C' = he_yank_len C"
    and "he_heap C' = he_heap C" "he_rows C' = he_rows C" "he_numrows C' = he_numrows C"
    and "he_cx C' = cx E'" "he_cy C' = cy E'" "he_dirty C' = dirty E'"
  shows "in_heap A h0 C' E'"
  using assms by (simp add: in_heap_def text_in_def yank_in_def)

text \<open>\<open>editorInsertRow\<close> of an empty row.\<close>

lemma insert_empty:
  assumes "in_heap A h0 C E" and "addresses_ok A" and room: "room (8 * Suc (length (rows E)) + 16 + (Suc 0 + 16 + k)) (he_heap C)"
  obtains C' where "heap_insert_row A at (empty_string A) 0 C = Some C'" "in_heap A h0 C' (editorInsertRow at [] E)" "room k (he_heap C')"
proof (cases "at < 0 \<or> numrows E < at")
  case True
  then show thesis using assms(1) in_heapD(3) [OF assms(1)] room_less [OF room]
    by (intro that [of C]) (auto simp: heap_insert_row_def editorInsertRow_def)
next
  case False
  then have at: "nat at \<le> length (rows E)" "int (nat at) = at" by (auto simp: numrows_def)
  note d = in_heapD [OF assms(1)]
  have src: "source (heap_area A) own {unat (he_rows C)} (hmem (he_heap C)) (unat (empty_string A)) []" for own by (simp add: source_def)
  show thesis
  proof (rule text_insert_row [OF d(1) at(1) src, of k], goal_cases)
    case 1
    show ?case using room by simp
  next
    case (2 C')
    then show thesis using yank_in_static [OF assms(2) d(2) 2(4)] d False
      by (intro that [of C']) (auto simp: at(2) in_heap_def editorInsertRow_def)
  qed
qed

lemma insert_char_heap:
  assumes "in_heap A h0 C E" and "addresses_ok A" and E': "editorInsertChar c E = Some E'" and room: "room (need E + k) (he_heap C)"
  shows "does A h0 k (heap_insert_char A c C) E'"
proof -
  note d = in_heapD [OF assms(1)]
  obtain E1 where E1: "E1 = (if cy E = numrows E then editorInsertRow (numrows E) [] E else E)" by blast
  then obtain E2 where E2: "editorRowInsertChar (cy E1) (cx E1) c E1 = Some E2" "E' = E2\<lparr>cx := cx E2 + 1, dirty := 1\<rparr>"
    using E' by (auto simp: editorInsertChar_def Let_def bind_eq_Some_conv)
  have same: "cx E1 = cx E" "cy E1 = cy E" by (simp_all add: E1 editorInsertRow_def)
  obtain r where r: "row_at E1 (cy E1) = Some r" using E2(1) by (auto simp: editorRowInsertChar_def bind_eq_Some_conv)
  obtain C1 where C1: "(if he_cy C = he_numrows C then heap_insert_row A (he_numrows C) (empty_string A) 0 C else Some C) = Some C1"
    "in_heap A h0 C1 E1" "room (length r + 2 + 16 + k) (he_heap C1)"
  proof (cases "cy E = numrows E")
    case True
    have "r = []" using r True by (auto simp: E1 row_at_def editorInsertRow_def numrows_def nth_append)
    obtain C' where "heap_insert_row A (numrows E) (empty_string A) 0 C = Some C'"
      "in_heap A h0 C' (editorInsertRow (numrows E) [] E)" "room (18 + k) (he_heap C')"
      by (rule insert_empty [OF assms(1,2) room_need(1) [OF room]])
    then show thesis using True d(3,5) E1 \<open>r = []\<close> by (intro that [of C']) simp_all
  next
    case False
    then show thesis using r d assms(1) room_need(2) [OF room, of "nat (cy E)"] by (intro that [of C]) (auto simp: E1 row_at_Some)
  qed
  note d1 = in_heapD [OF C1(2)]
  let ?i = "nat (cy E1)" and ?at = "if cx E1 < 0 \<or> int (length r) < cx E1 then length r else nat (cx E1)"
  have i: "?i < length (rows E1)" "int ?i = cy E1" "r = rows E1 ! ?i" using r by (auto simp: row_at_Some)
  show ?thesis
  proof (rule text_row_insert_char [where at' = ?at and at = "cx E1" and k = k and A = A and c = c, OF d1(1) i(1)], goal_cases)
    case (3 C2)
    have "int ?at = (if cx E1 < 0 \<or> int (length r) < cx E1 then int (length r) else cx E1)" by auto
    then have "E2 = E1\<lparr>rows := (rows E1)[?i := take ?at r @ c # drop ?at r], dirty := 1\<rparr>"
      using E2(1) r i by (auto simp: editorRowInsertChar_def Let_def)
    then show ?thesis using 3 C1(1) d1 i E2(2) yank_in_static [OF assms(2) d1(2) 3(4), of "C2\<lparr>he_cx := he_cx C2 + 1, he_dirty := 1\<rparr>"]
      by (auto simp: does_def heap_insert_char_def in_heap_def text_in_def same)
  qed (use i C1(3) in auto)
qed

lemma insert_newline_heap:
  assumes "in_heap A h0 C E" and "addresses_ok A" and E': "editorInsertNewline E = Some E'" and room: "room (need E + k) (he_heap C)"
  shows "does A h0 k (heap_insert_newline A C) E'"
proof -
  note d = in_heapD [OF assms(1)]
  show ?thesis
  proof (cases "cx E = 0")
    case True
    obtain C' where C': "heap_insert_row A (cy E) (empty_string A) 0 C = Some C'" "in_heap A h0 C' (editorInsertRow (cy E) [] E)" "room (18 + k) (he_heap C')"
      by (rule insert_empty [OF assms(1,2) room_need(1) [OF room]])
    have "E' = (editorInsertRow (cy E) [] E)\<lparr>cy := cy (editorInsertRow (cy E) [] E) + 1, cx := 0\<rparr>"
      using E' True by (simp add: editorInsertNewline_def)
    moreover have "heap_insert_newline A C = Some (C'\<lparr>he_cy := he_cy C' + 1, he_cx := 0\<rparr>)"
      using C'(1) True d by (simp add: heap_insert_newline_def)
    ultimately show ?thesis using in_heapD(5,6) [OF C'(2)] room_less [OF C'(3), of k]
      by (auto simp: does_def intro!: in_heap_same [OF C'(2)])
  next
    case False
    obtain r where r: "row_at E (cy E) = Some r" "0 \<le> cx E" "cx E \<le> int (length r)"
      and E1: "E' = (editorInsertRow (cy E + 1) (drop (nat (cx E)) r) E)\<lparr>rows := (rows (editorInsertRow (cy E + 1) (drop (nat (cx E)) r) E))[nat (cy E) := take (nat (cx E)) r],
        cy := cy E + 1, cx := 0\<rparr>"
      using E' False by (auto simp: editorInsertNewline_def bind_eq_Some_conv Let_def editorInsertRow_def split: if_splits)
    let ?i = "nat (cy E)" and ?n = "nat (cx E)"
    have i: "?i < length (rows E)" "int ?i = cy E" "r = rows E ! ?i" "int ?n = cx E" "?n \<le> length (rows E ! ?i)" using r by (auto simp: row_at_Some)
    have bound: "0 \<le> cy E" "cy E < numrows E" using r(1) by (simp_all add: row_at_def split: if_splits)
    have range: "\<not> (cy E + 1 < 0 \<or> numrows E < cy E + 1)" using r(1) by (simp add: row_at_def split: if_splits)
    have ins: "rows E' = take ?i (rows E) @ take ?n r # drop ?n r # drop (Suc ?i) (rows E)"
      using i(1,2) r(1) range by (simp add: E1 editorInsertRow_def nat_add_distrib take_Suc_conv_app_nth i(3) [symmetric] row_at_Some list_update_append min_def)
    note rm = room_need(4) [OF room i(1), of "length (rows E ! ?i) - ?n", OF diff_le_self]
    obtain C1 C3 where C: "heap_insert_row A (int ?i + 1) (erow_chars C (int ?i) + of_nat ?n) (erow_size C (int ?i) - int ?n) C = Some C1"
      "on_memory (\<lambda>m. m(unat (erow_chars (set_erow_size (int ?i) (int ?n) C1) (int ?i)) + ?n := 0)) (set_erow_size (int ?i) (int ?n) C1) = C3"
      "text_in A h0 C3 (take ?i (rows E) @ take ?n (rows E ! ?i) # drop ?n (rows E ! ?i) # drop (Suc ?i) (rows E))" "room k (he_heap C3)" "same_static A C (he_heap C3)"
      "he_cx C1 = he_cx C" "he_cy C1 = he_cy C" "he_cx C3 = he_cx C" "he_cy C3 = he_cy C" "he_dirty C3 = he_dirty C" "he_yank_len C3 = he_yank_len C"
      by (rule text_row_split [OF d(1) i(1,5) rm])
    have "he_cy (set_erow_size (cy E) (cx E) C1) = cy E" using C(7) d(5) by (simp add: set_erow_size_def on_memory_def)
    moreover have "of_nat ?n = (of_int (cx E) :: u32)" using i(4) by (metis of_int_of_nat_eq)
    ultimately have "heap_insert_newline A C = Some (C3\<lparr>he_cy := he_cy C3 + 1, he_cx := 0\<rparr>)"
      using C(1,2,6,7) d(3-5) False r(2) bound by (simp add: heap_insert_newline_def has_row_def)
    moreover have "text_in A h0 C3 (rows E')" using C(3) ins i(3) by simp
    ultimately show ?thesis using C(4,8-11) d
      by (auto simp: does_def E1 editorInsertRow_def intro!: in_heapI [OF assms(1,2) _ C(5)])
  qed
qed

lemma del_char_heap:
  assumes "in_heap A h0 C E" and "addresses_ok A" and E': "editorDelChar E = Some E'" and room: "room (need E + k) (he_heap C)"
  shows "does A h0 k (heap_del_char A C) E'"
proof -
  note d = in_heapD [OF assms(1)] and rk = room_need(6) [OF room]
  consider "cy E = numrows E \<or> cx E = 0 \<and> cy E = 0" | "cy E \<noteq> numrows E" "0 < cx E" | "cy E \<noteq> numrows E" "cx E \<le> 0" "\<not> (cx E = 0 \<and> cy E = 0)" by linarith
  then show ?thesis
  proof cases
    case 1
    then have "heap_del_char A C = Some C" "E' = E" using E' d by (auto simp: heap_del_char_def editorDelChar_def split: if_splits)
    then show ?thesis using assms(1) rk by (simp add: does_def)
  next
    case 2
    obtain r where r: "row_at E (cy E) = Some r" using E' 2 by (auto simp: editorDelChar_def editorRowDelChar_def bind_eq_Some_conv)
    let ?i = "nat (cy E)"
    have i: "?i < length (rows E)" "int ?i = cy E" "r = rows E ! ?i" using r by (auto simp: row_at_Some)
    show ?thesis
    proof (rule text_row_del_char [where at = "cx E - 1" and k = k, OF d(1) i(1)], goal_cases)
      case (1 C1)
      have "heap_del_char A C = Some (C1\<lparr>he_cx := he_cx C1 - 1, he_dirty := 1\<rparr>)" using 1(1) 2 d i(2) by (simp add: heap_del_char_def)
      moreover have "E' = E\<lparr>rows := (if int (length r) \<le> cx E - 1 then rows E else (rows E)[?i := take (nat (cx E - 1)) r @ drop (Suc (nat (cx E - 1))) r]),
          cx := cx E - 1, dirty := 1\<rparr>"
        using E' 2 r by (auto simp: editorDelChar_def editorRowDelChar_def)
      moreover from this have "text_in A h0 C1 (rows E')" using 1(2) 2 i(3) by (simp split: if_splits)
      ultimately show ?thesis using 1(3,5-8) d rk by (auto simp: does_def intro!: in_heapI [OF assms(1,2) _ 1(4)])
    qed
  next
    case 3
    obtain p r where r: "row_at E (cy E - 1) = Some p" "row_at E (cy E) = Some r"
      using E' 3 by (auto simp: editorDelChar_def bind_eq_Some_conv split: if_splits)
    let ?i = "nat (cy E - 1)"
    have i: "Suc ?i < length (rows E)" "int ?i = cy E - 1" "int (Suc ?i) = cy E" "nat (cy E) = Suc ?i" "p = rows E ! ?i" "r = rows E ! Suc ?i"
      using r by (auto simp: row_at_Some nat_diff_distrib Suc_diff_Suc)
    have E1: "E' = E\<lparr>cx := int (length p), rows := take ?i (rows E) @ (p @ r) # drop (Suc (Suc ?i)) (rows E), cy := cy E - 1, dirty := 1\<rparr>"
      using E' 3 r i by (auto simp: editorDelChar_def editorRowAppendString_def editorDelRow_def row_at_def numrows_def upd_conv_take_nth_drop
          take_Suc_conv_app_nth min_def drop_Cons' split: if_splits)
    let ?C0 = "C\<lparr>he_cx := erow_size C (he_cy C - 1)\<rparr>"
    have size: "erow_size C (he_cy C - 1) = int (length p)" using text_row_size [OF d(1), of ?i] i d(5) by simp
    show ?thesis
    proof (rule text_row_join [where A = A and k = k, OF text_in_same [OF d(1), of ?C0] i(1)], goal_cases)
      case (5 C1)
      note j = 5
      have len: "Suc ?i < length ((rows E)[?i := rows E ! ?i @ rows E ! Suc ?i])" using i(1) by simp
      show ?thesis
      proof (rule text_del_row [OF j(2) len], goal_cases)
        case (1 C2)
        have "heap_del_char A C = Some (C2\<lparr>he_cy := he_cy C2 - 1, he_dirty := 1\<rparr>)"
          using j(1,6) 1(1) 3 d i r by (simp add: heap_del_char_def has_row_def row_at_def split: if_splits)
        moreover have "text_in A h0 C2 (rows E')" using 1(2) i by (simp add: E1 upd_conv_take_nth_drop take_Suc_conv_app_nth min_def)
        moreover have "same_static A C (he_heap C2)" using j(4) 1(4) by (simp add: same_static_def)
        ultimately show ?thesis using 1(3) j(3,5-8) 1(5-8) d size by (auto simp: does_def E1 intro!: in_heapI [OF assms(1,2)])
      qed
    qed (use room_need(3) [OF room i(1)] in auto)
  qed
qed

text \<open>\<open>editorYankLine\<close> copies out of the heap.\<close>

lemma yank_line_heap:
  assumes "in_heap A h0 C E" and "addresses_ok A" and E': "editorYankLine E = Some E'" and room: "room k (he_heap C)"
  shows "does A h0 k (heap_yank_line A C) E'"
proof -
  note d = in_heapD [OF assms(1)]
  show ?thesis
  proof (cases "numrows E \<le> cy E")
    case True
    then show ?thesis using E' d assms(1) room by (simp add: does_def heap_yank_line_def editorYankLine_def)
  next
    case False
    obtain r where r: "row_at E (cy E) = Some r" and E1: "E' = E\<lparr>yank_buf := take (unat BLOCK_SIZE - 1) r\<rparr>"
      using E' False by (auto simp: editorYankLine_def bind_eq_Some_conv)
    have bound: "0 \<le> cy E" "cy E < numrows E" using r by (simp_all add: row_at_def split: if_splits)
    let ?i = "nat (cy E)" and ?n = "min (length r) 4095" and ?y = "unat (yank_addr A)"
    have i: "?i < length (rows E)" "r = rows E ! ?i" using r by (auto simp: row_at_Some)
    obtain own es where es: "rows_in (heap_area A) h0 own (he_heap C) (unat (he_rows C)) es" "map snd es = rows E"
      using d(1) by (auto simp: text_in_def)
    obtain xs q ys where x: "es = xs @ (q, rows E ! ?i) # ys" "length xs = ?i" by (rule split_rows [OF es(2) i(1)])
    have ci: "int (length xs) = cy E" using x(2) bound by simp
    note e = rows_in_entry [OF es(1) [unfolded x(1)], unfolded ci, folded i(2)]
    have hd: "held own (unat (he_rows C)) (xs @ (q, r) # ys)" and ow: "owned (heap_area A) h0 own (he_heap C)" and ch: "chars_at (hmem (he_heap C)) (q, r)"
      using es(1) x(1) i(2) by (auto simp: rows_in_def)
    obtain t where t: "own q = Some t" "length r < t" using held_delete(5) [OF hd] by blast
    let ?M = "(memcpy (hmem (he_heap C)) ?y q ?n)(?y + ?n := 0)"
    have out: "outside (heap_area A) (?y + k)" if "k < 4096" for k using assms(2) that by (simp add: addresses_ok_def)
    have "?y \<le> q \<or> q + ?n \<le> ?y"
      using out [of 0] owned_inside [OF ow t(1)] t(2) by (auto simp: outside_def)
    then have M: "?M z = (if ?y \<le> z \<and> z < ?y + ?n then hmem (he_heap C) (q + (z - ?y)) else if z = ?y + ?n then 0 else hmem (he_heap C) z)" for z
      by (auto simp: memcpy_def memcpy_loop_apply)
    have inn: "?M z = hmem (he_heap C) z" if "\<not> outside (heap_area A) z" for z
    proof -
      have "?n < 4096" by simp
      then show ?thesis using outside_buffer [OF out that] unfolding M by auto
    qed
    note st = rows_in_outside [OF es(1) inn]
    let ?C' = "C\<lparr>he_heap := (he_heap C)\<lparr>hmem := ?M\<rparr>, he_yank_len := int ?n\<rparr>"
    have inT: "text_in A h0 ?C' (rows E)"
      unfolding text_in_def using st(1) es(2) d(3) by (intro conjI exI [of _ own] exI [of _ es]) (simp_all add: numrows_def del: fun_upd_apply)
    have "?M (?y + j) = r ! j" if "j < ?n" for j
      unfolding M using ch that by (auto simp: chars_at_def nth_append)
    then have "yank_in A ?C' (take 4095 r)" by (simp add: yank_in_def min.commute del: fun_upd_apply)
    with inT have "in_heap A h0 ?C' E'" using d by (simp add: in_heap_def E1 BLOCK_SIZE_def)
    moreover have "heap_yank_line A C = Some ?C'"
    proof -
      have "(if int (length r) < 4095 then int (length r) else 4095) = int ?n" by simp
      then show ?thesis using False bound d e(1-3) by (simp add: heap_yank_line_def has_row_def on_memory_def BLOCK_SIZE_def Let_def)
    qed
    moreover have "room k (he_heap ?C')" using room st(2) by (simp add: room_def del: fun_upd_apply)
    ultimately show ?thesis by (simp add: does_def)
  qed
qed

lemma paste_line_heap:
  assumes "in_heap A h0 C E" and "addresses_ok A" and room: "room (need E + k) (he_heap C)"
  shows "does A h0 k (heap_paste_line A C) (editorPasteLine E)"
proof -
  note d = in_heapD [OF assms(1)]
  have len: "he_yank_len C = yank_len E" "he_yank_len C = int (length (yank_buf E))" using d(2) by (simp_all add: yank_in_def yank_len_def)
  consider "yank_len E = 0" | "yank_len E \<noteq> 0" "cy E + 1 < 0 \<or> numrows E < cy E + 1" | "yank_len E \<noteq> 0" "0 \<le> cy E + 1" "cy E + 1 \<le> numrows E" by linarith
  then show ?thesis
  proof cases
    case 1
    then show ?thesis using assms(1) len room_need(6) [OF room] by (simp add: does_def heap_paste_line_def editorPasteLine_def)
  next
    case 2
    then have "heap_paste_line A C = Some (C\<lparr>he_cy := he_cy C + 1, he_cx := 0\<rparr>)" "editorPasteLine E = E\<lparr>cy := cy E + 1, cx := 0\<rparr>"
      using d len by (simp_all add: heap_paste_line_def editorPasteLine_def heap_insert_row_def editorInsertRow_def)
    then show ?thesis using d room_need(6) [OF room] by (auto simp: does_def intro!: in_heap_same [OF assms(1)])
  next
    case 3
    let ?i = "nat (cy E + 1)" and ?y = "yank_buf E"
    have i: "?i \<le> length (rows E)" "int ?i = cy E + 1" using 3 by (simp_all add: numrows_def)
    have "outside (heap_area A) (unat (yank_addr A) + k)" if "k < 4096" for k using assms(2) that by (simp add: addresses_ok_def)
    then have "source (heap_area A) own {unat (he_rows C)} (hmem (he_heap C)) (unat (yank_addr A)) ?y" for own
      using d(2) outside_range [of "heap_area A" "unat (yank_addr A)" "length ?y"] by (intro source_static) (auto simp: yank_in_def)
    then show ?thesis
    proof (rule text_insert_row [OF d(1) i(1) _ room_need(5) [OF room]], goal_cases)
      case (1 C')
      have "heap_paste_line A C = Some (C'\<lparr>he_cy := he_cy C' + 1, he_cx := 0\<rparr>)"
        using 1(1) 3(1) d len i(2) by (simp add: heap_paste_line_def)
      moreover have "editorPasteLine E = E\<lparr>rows := take ?i (rows E) @ ?y # drop ?i (rows E), cy := cy E + 1, cx := 0\<rparr>"
        using 3 by (simp add: editorPasteLine_def editorInsertRow_def)
      ultimately show ?thesis using 1 d by (auto simp: does_def intro!: in_heapI [OF assms(1,2) _ 1(4)])
    qed
  qed
qed

lemma del_row_heap:
  assumes "in_heap A h0 C E" and "addresses_ok A" and room: "room k (he_heap C)"
  shows "in_heap A h0 (heap_del_row at C) (editorDelRow at E) \<and> room k (he_heap (heap_del_row at C))"
proof (cases "at < 0 \<or> numrows E \<le> at")
  case True
  then show ?thesis using assms in_heapD(3) [OF assms(1)] by (auto simp: heap_del_row_def editorDelRow_def)
next
  case False
  note d = in_heapD [OF assms(1)]
  have i: "nat at < length (rows E)" "int (nat at) = at" using False by (auto simp: numrows_def)
  show ?thesis
  proof (rule text_del_row [OF d(1) i(1)], goal_cases)
    case (1 C')
    moreover have "editorDelRow at E = E\<lparr>rows := take (nat at) (rows E) @ drop (Suc (nat at)) (rows E), dirty := 1\<rparr>"
      using False by (simp add: editorDelRow_def)
    ultimately show ?thesis using i(2) d room by (auto intro!: in_heapI [OF assms(1,2) _ 1(4)])
  qed
qed

lemma delete_line_heap:
  assumes "in_heap A h0 C E" and "addresses_ok A" and E': "editorDeleteLine E = Some E'" and room: "room k (he_heap C)"
  shows "does A h0 k (heap_delete_line A C) E'"
proof -
  note d = in_heapD [OF assms(1)]
  show ?thesis
  proof (cases "numrows E = 0")
    case True
    then show ?thesis using E' d assms(1) room by (simp add: does_def heap_delete_line_def editorDeleteLine_def)
  next
    case False
    obtain E1 where E1: "editorYankLine E = Some E1" using E' False by (auto simp: editorDeleteLine_def bind_eq_Some_conv)
    obtain C1 where C1: "heap_yank_line A C = Some C1" "in_heap A h0 C1 E1" "room k (he_heap C1)"
      using yank_line_heap [OF assms(1,2) E1 room] by (auto simp: does_def)
    note del = del_row_heap [OF C1(2) assms(2) C1(3), of "cy E1"]
    note d2 = in_heapD [OF conjunct1 [OF del]]
    show ?thesis
      using E' E1 C1 False d in_heapD(5) [OF C1(2)] d2 del
      by (auto simp: does_def heap_delete_line_def editorDeleteLine_def Let_def intro!: in_heap_same [OF conjunct1 [OF del]])
  qed
qed

subsection \<open>Sequences\<close>

text \<open>
  The operations on the text that the keys start, with the movements of the cursor between them.
  \<open>Delete_under\<close> is the key \<open>x\<close> and \<open>Insert_above\<close> the key \<open>O\<close>.
\<close>

datatype edit_op = Insert_char u8 | Insert_newline | Del_char | Yank_line | Paste_line | Delete_line
  | Delete_under | Insert_above | Move int int

fun edit :: "edit_op \<Rightarrow> editor \<Rightarrow> editor option" where
  "edit (Insert_char c) E = editorInsertChar c E"
| "edit Insert_newline E = editorInsertNewline E"
| "edit Del_char E = editorDelChar E"
| "edit Yank_line E = editorYankLine E"
| "edit Paste_line E = Some (editorPasteLine E)"
| "edit Delete_line E = editorDeleteLine E"
| "edit Delete_under E = editorRowDelChar (cy E) (cx E) E"
| "edit Insert_above E = Some (editorInsertRow (cy E) [] (E\<lparr>cx := 0\<rparr>))"
| "edit (Move x y) E = Some (E\<lparr>cx := x, cy := y\<rparr>)"

fun heap_edit :: "addresses \<Rightarrow> edit_op \<Rightarrow> heap_editor \<Rightarrow> heap_editor option" where
  "heap_edit A (Insert_char c) C = heap_insert_char A c C"
| "heap_edit A Insert_newline C = heap_insert_newline A C"
| "heap_edit A Del_char C = heap_del_char A C"
| "heap_edit A Yank_line C = heap_yank_line A C"
| "heap_edit A Paste_line C = heap_paste_line A C"
| "heap_edit A Delete_line C = heap_delete_line A C"
| "heap_edit A Delete_under C = heap_row_del_char (he_cy C) (he_cx C) C"
| "heap_edit A Insert_above C = heap_insert_row A (he_cy C) (empty_string A) 0 (C\<lparr>he_cx := 0\<rparr>)"
| "heap_edit A (Move x y) C = Some (C\<lparr>he_cx := x, he_cy := y\<rparr>)"

fun edits :: "edit_op list \<Rightarrow> editor \<Rightarrow> editor option" where
  "edits [] E = Some E"
| "edits (e # es) E = do { E1 \<leftarrow> edit e E; edits es E1 }"

fun heap_edits :: "addresses \<Rightarrow> edit_op list \<Rightarrow> heap_editor \<Rightarrow> heap_editor option" where
  "heap_edits A [] C = Some C"
| "heap_edits A (e # es) C = do { C1 \<leftarrow> heap_edit A e C; heap_edits A es C1 }"

fun needs :: "edit_op list \<Rightarrow> editor \<Rightarrow> nat" where
  "needs [] E = 0"
| "needs (e # es) E = need E + (case edit e E of None \<Rightarrow> 0 | Some E1 \<Rightarrow> needs es E1)"

lemma edit_heap:
  assumes "in_heap A h0 C E" and "addresses_ok A" and E': "edit e E = Some E'" and room: "room (need E + k) (he_heap C)"
  shows "does A h0 k (heap_edit A e C) E'"
proof (cases e)
  case (Insert_char c)
  then show ?thesis using insert_char_heap [OF assms(1,2) _ room] E' by simp
next
  case Insert_newline
  then show ?thesis using insert_newline_heap [OF assms(1,2) _ room] E' by simp
next
  case Del_char
  then show ?thesis using del_char_heap [OF assms(1,2) _ room] E' by simp
next
  case Yank_line
  then show ?thesis using yank_line_heap [OF assms(1,2) _ room_need(6) [OF room]] E' by simp
next
  case Paste_line
  then show ?thesis using paste_line_heap [OF assms(1,2) room] E' by simp
next
  case Delete_line
  then show ?thesis using delete_line_heap [OF assms(1,2) _ room_need(6) [OF room]] E' by simp
next
  case Delete_under
  note d = in_heapD [OF assms(1)]
  obtain r where r: "row_at E (cy E) = Some r" using E' Delete_under by (auto simp: editorRowDelChar_def bind_eq_Some_conv)
  then have i: "nat (cy E) < length (rows E)" "int (nat (cy E)) = cy E" "r = rows E ! nat (cy E)" by (auto simp: row_at_Some)
  show ?thesis
  proof (rule text_row_del_char [where at = "cx E" and k = k, OF d(1) i(1)], goal_cases)
    case (1 C')
    have E1: "E' = (if cx E < 0 \<or> int (length r) \<le> cx E then E
        else E\<lparr>rows := (rows E)[nat (cy E) := take (nat (cx E)) r @ drop (Suc (nat (cx E))) r], dirty := 1\<rparr>)"
      using E' Delete_under r by (auto simp: editorRowDelChar_def)
    then have "text_in A h0 C' (rows E')" using 1(2) i(3) by auto
    moreover have "he_dirty C' = dirty E'" "yank_buf E' = yank_buf E" "cx E' = cx E" "cy E' = cy E" using 1(7) E1 i(3) d(6) by (auto split: if_splits)
    ultimately show ?thesis using 1 d i(2) room_need(6) [OF room] Delete_under
      by (auto simp: does_def intro!: in_heapI [OF assms(1,2) _ 1(4)])
  qed
next
  case Insert_above
  note d = in_heapD [OF assms(1)]
  let ?C = "C\<lparr>he_cx := 0\<rparr>" and ?E = "E\<lparr>cx := 0\<rparr>"
  have in0: "in_heap A h0 ?C ?E" using d by (intro in_heap_same [OF assms(1)]) simp_all
  have room0: "room (8 * Suc (length (rows ?E)) + 16 + (Suc 0 + 16 + (18 + k))) (he_heap ?C)" using room_need(1) [OF room] by simp
  obtain C' where "heap_insert_row A (cy E) (empty_string A) 0 ?C = Some C'" "in_heap A h0 C' (editorInsertRow (cy E) [] ?E)" "room (18 + k) (he_heap C')"
    by (rule insert_empty [OF in0 assms(2) room0])
  then show ?thesis using E' Insert_above d(5) room_less [of "18 + k" "he_heap C'" k] by (auto simp: does_def)
next
  case (Move x y)
  then show ?thesis using E' room_need(6) [OF room] in_heapD(6) [OF assms(1)]
    by (auto simp: does_def intro!: in_heap_same [OF assms(1)])
qed

lemma edits_heap:
  "in_heap A h0 C E \<Longrightarrow> addresses_ok A \<Longrightarrow> edits es E = Some E' \<Longrightarrow> room (needs es E + k) (he_heap C)
     \<Longrightarrow> does A h0 k (heap_edits A es C) E'"
proof (induction es arbitrary: C E)
  case Nil
  then show ?case by (simp add: does_def)
next
  case (Cons e es)
  obtain E1 where E1: "edit e E = Some E1" "edits es E1 = Some E'" using Cons.prems(3) by (auto simp: bind_eq_Some_conv)
  have "room (need E + (needs es E1 + k)) (he_heap C)" using Cons.prems(4) E1(1) by (simp add: add.assoc)
  then obtain C1 where C1: "heap_edit A e C = Some C1" "in_heap A h0 C1 E1" "room (needs es E1 + k) (he_heap C1)"
    using edit_heap [OF Cons.prems(1,2) E1(1)] by (auto simp: does_def)
  then show ?case using Cons.IH [OF C1(2) Cons.prems(2) E1(2) C1(3)] by simp
qed

end
