(* ===== verification/EditorStore.thy ===== *)
theory EditorStore
  imports EditorHeap
begin

text \<open>
  The loops of \<open>editorOpen\<close> and \<open>editorSave\<close> over rows in the heap, and the properties of the editor's
  storage: that editing, opening and saving in the heap implement the lists of theory \<open>Editor\<close>, and what a
  session leaves behind.
\<close>

section \<open>Opening and saving\<close>

text \<open>
  The loop of \<open>editorOpen\<close> over \<open>buf[j]\<close>, \<open>n\<close> steps from \<open>j\<close>, and the one of \<open>editorSave\<close> over the rows,
  \<open>n\<close> steps from \<open>i\<close>, which returns the length of the text.
\<close>

fun heap_open_rows :: "addresses \<Rightarrow> u32 \<Rightarrow> nat \<Rightarrow> nat \<Rightarrow> nat \<Rightarrow> heap_editor \<Rightarrow> heap_editor option" where
  "heap_open_rows A buf start j 0 C = Some C"
| "heap_open_rows A buf start j (Suc n) C =
     (let b = hmem (he_heap C) (unat buf + j) in
      if b = chr CHR 0x0A \<or> b = 0 then do {
        C1 \<leftarrow> heap_insert_row A (he_numrows C) (buf + of_nat start) (int j - int start) C;
        heap_open_rows A buf (j + 1) (j + 1) n C1
      } else heap_open_rows A buf start (j + 1) n C)"

fun heap_save_rows :: "u32 \<Rightarrow> nat \<Rightarrow> nat \<Rightarrow> nat \<Rightarrow> heap_editor \<Rightarrow> nat \<times> heap_editor" where
  "heap_save_rows buf pos i 0 C = (pos, C)"
| "heap_save_rows buf pos i (Suc n) C =
     (if pos < unat BLOCK_SIZE - 1 then
        let space = unat BLOCK_SIZE - 1 - pos;
            copy = (if erow_size C (int i) < int space then nat (erow_size C (int i)) else space);
            C1 = on_memory (\<lambda>m. memcpy m (unat buf + pos) (unat (erow_chars C (int i))) copy) C;
            pos1 = pos + copy;
            (pos2, C2) = (if pos1 < unat BLOCK_SIZE - 1
              then (pos1 + 1, on_memory (\<lambda>m. m(unat buf + pos1 := chr CHR 0x0A)) C1) else (pos1, C1))
        in heap_save_rows buf pos2 (i + 1) n C2
      else (pos, C))"

text \<open>A local buffer of 4096 bytes: it does not lie in the heap.\<close>

definition buffer_ok :: "addresses \<Rightarrow> u32 \<Rightarrow> bool" where
  "buffer_ok A buf \<longleftrightarrow> unat buf + 4096 < 2 ^ 32 \<and> (\<forall>k < 4096. outside (heap_area A) (unat buf + k))"

definition buffer_holds :: "u32 \<Rightarrow> u8 list \<Rightarrow> heap_editor \<Rightarrow> bool" where
  "buffer_holds buf bs C \<longleftrightarrow> (\<forall>k < length bs. hmem (he_heap C) (unat buf + k) = bs ! k)"

text \<open>The room for the rows that \<open>open_rows\<close> appends.\<close>

fun open_needs :: "u8 list \<Rightarrow> u8 list \<Rightarrow> nat \<Rightarrow> nat" where
  "open_needs row [] n = 0"
| "open_needs row (b # bs) n =
     (if b = chr CHR 0x0A \<or> b = 0 then 8 * Suc n + length row + 33 + open_needs [] bs (Suc n) else open_needs (row @ [b]) bs n)"

lemma append_row_heap:
  assumes "in_heap A h0 C E" and "addresses_ok A" and "buffer_ok A buf" and bs: "buffer_holds buf bs C" "length bs \<le> 4096"
    and j: "start \<le> j" "j \<le> length bs" and room: "room (8 * Suc (length (rows E)) + (j - start) + 33 + k) (he_heap C)"
  obtains C' where "heap_insert_row A (he_numrows C) (buf + of_nat start) (int j - int start) C = Some C'"
    "in_heap A h0 C' (editorInsertRow (numrows E) (take (j - start) (drop start bs)) E)" "room k (he_heap C')" "buffer_holds buf bs C'"
proof -
  note d = in_heapD [OF assms(1)]
  let ?row = "take (j - start) (drop start bs)"
  have len: "length ?row = j - start" using j by simp
  have s: "unat (buf + of_nat start) = unat buf + start" using assms(3) bs(2) j by (simp add: buffer_ok_def unat_word_ariths unat_of_nat)
  have "\<And>k. k < 4096 \<Longrightarrow> outside (heap_area A) (unat buf + k)" using assms(3) by (simp add: buffer_ok_def)
  then have "j = 0 \<or> unat buf + j \<le> unat (heap_area A) \<or> unat (heap_area A) + 1048576 \<le> unat buf"
    using j bs(2) by (intro outside_range) auto
  then have src: "source (heap_area A) own {unat (he_rows C)} (hmem (he_heap C)) (unat (buf + of_nat start)) ?row" for own
    unfolding s using bs(1) j by (intro source_static) (auto simp: buffer_holds_def add.assoc)
  have room': "room (8 * Suc (length (rows E)) + 16 + (Suc (length ?row) + 16 + k)) (he_heap C)" using room len by (simp add: ac_simps)
  have args: "he_numrows C = int (length (rows E))" "int j - int start = int (length ?row)" using d(3) len j by (simp_all add: numrows_def)
  show thesis
  proof (rule text_insert_row [OF d(1) le_refl src room'], goal_cases)
    case (1 C')
    show thesis
    proof (rule that [unfolded args, OF 1(1) _ 1(3)])
      show "in_heap A h0 C' (editorInsertRow (numrows E) ?row E)"
        using 1 d by (auto simp: insert_last_row intro!: in_heapI [OF assms(1,2) _ 1(4)])
      show "buffer_holds buf bs C'" using bs 1(4) assms(3) by (simp add: buffer_holds_def same_static_def buffer_ok_def)
    qed
  qed
qed

lemma open_rows_heap:
  "in_heap A h0 C E \<Longrightarrow> addresses_ok A \<Longrightarrow> buffer_ok A buf \<Longrightarrow> buffer_holds buf bs C \<Longrightarrow> length bs \<le> 4096
     \<Longrightarrow> start \<le> j \<Longrightarrow> j + n = length bs
     \<Longrightarrow> room (open_needs (take (j - start) (drop start bs)) (drop j bs) (length (rows E)) + k) (he_heap C)
     \<Longrightarrow> does A h0 k (heap_open_rows A buf start j n C) (open_rows (take (j - start) (drop start bs)) (drop j bs) E)"
proof (induction n arbitrary: start j C E)
  case 0
  then show ?case by (simp add: does_def)
next
  case (Suc n)
  have j: "j < length bs" "start \<le> j" using Suc.prems(6,7) by simp_all
  let ?row = "take (j - start) (drop start bs)" and ?b = "bs ! j"
  have b: "hmem (he_heap C) (unat buf + j) = ?b" "drop j bs = ?b # drop (Suc j) bs"
    using Suc.prems(4) j by (simp_all add: buffer_holds_def Cons_nth_drop_Suc)
  show ?case
  proof (cases "?b = chr CHR 0x0A \<or> ?b = 0")
    case True
    have room: "room (8 * Suc (length (rows E)) + (j - start) + 33 + (open_needs [] (drop (Suc j) bs) (Suc (length (rows E))) + k)) (he_heap C)"
      using Suc.prems(8) True j unfolding b(2) by (simp add: ac_simps)
    obtain C' where C': "heap_insert_row A (he_numrows C) (buf + of_nat start) (int j - int start) C = Some C'"
      "in_heap A h0 C' (editorInsertRow (numrows E) ?row E)" "room (open_needs [] (drop (Suc j) bs) (Suc (length (rows E))) + k) (he_heap C')"
      "buffer_holds buf bs C'"
      by (rule append_row_heap [OF Suc.prems(1-5) j(2) less_imp_le [OF j(1)] room])
    have "does A h0 k (heap_open_rows A buf (Suc j) (Suc j) n C') (open_rows (take (Suc j - Suc j) (drop (Suc j) bs)) (drop (Suc j) bs) (editorInsertRow (numrows E) ?row E))"
      by (rule Suc.IH [OF C'(2) Suc.prems(2,3) C'(4) Suc.prems(5) le_refl]) (use Suc.prems(7) C'(3) in \<open>simp_all add: insert_last_row\<close>)
    then show ?thesis using True C'(1) b by simp
  next
    case False
    have row: "take (Suc j - start) (drop start bs) = ?row @ [?b]" using j by (simp add: Suc_diff_le take_Suc_conv_app_nth)
    have "does A h0 k (heap_open_rows A buf start (Suc j) n C) (open_rows (take (Suc j - start) (drop start bs)) (drop (Suc j) bs) E)"
      by (rule Suc.IH [OF Suc.prems(1-5)]) (use Suc.prems(6-8) False b(2) in \<open>auto simp: row\<close>)
    then show ?thesis using False b by (simp add: row)
  qed
qed

text \<open>\<open>editorSave\<close> collects the text of \<open>save_rows\<close> in the buffer.\<close>

lemma text_row_bytes:
  assumes "text_in A h0 C rs" and "i < length rs"
  obtains q where "erow_chars C (int i) = of_nat q" "unat (of_nat q :: u32) = q" "unat (heap_area A) \<le> q"
    "q + length (rs ! i) < unat (heap_area A) + 1048576" "\<forall>k < length (rs ! i). hmem (he_heap C) (q + k) = rs ! i ! k"
proof -
  obtain own es where es: "rows_in (heap_area A) h0 own (he_heap C) (unat (he_rows C)) es" "map snd es = rs"
    using assms(1) by (auto simp: text_in_def)
  obtain xs q ys where x: "es = xs @ (q, rs ! i) # ys" "length xs = i" by (rule split_rows [OF es(2) assms(2)])
  note e = rows_in_entry [OF es(1) [unfolded x(1)], unfolded x(2)]
  have hd: "held own (unat (he_rows C)) (xs @ (q, rs ! i) # ys)" and ow: "owned (heap_area A) h0 own (he_heap C)" and ch: "chars_at (hmem (he_heap C)) (q, rs ! i)"
    using es(1) x(1) by (auto simp: rows_in_def)
  obtain t where t: "own q = Some t" "length (rs ! i) < t" using held_delete(5) [OF hd] by blast
  show thesis using e(2,3) owned_inside [OF ow t(1)] t(2) ch by (intro that [of q]) (auto simp: chars_at_def nth_append)
qed

lemma text_in_outside:
  assumes "text_in A h0 C rs" and "\<And>x. \<not> outside (heap_area A) x \<Longrightarrow> f (hmem (he_heap C)) x = hmem (he_heap C) x"
  shows "text_in A h0 (on_memory f C) rs" and "heap_blocks (he_heap (on_memory f C)) = heap_blocks (he_heap C)"
proof -
  obtain own es where es: "rows_in (heap_area A) h0 own (he_heap C) (unat (he_rows C)) es" "map snd es = rs" and n: "he_numrows C = int (length rs)"
    using assms(1) by (auto simp: text_in_def)
  note st = rows_in_outside [where m = "f (hmem (he_heap C))", OF es(1) assms(2)]
  show "text_in A h0 (on_memory f C) rs" using st(1) es(2) n by (auto simp: text_in_def on_memory_def)
  show "heap_blocks (he_heap (on_memory f C)) = heap_blocks (he_heap C)" using st(2) by (simp add: on_memory_def)
qed

lemma save_rows_heap:
  "text_in A h0 C rs \<Longrightarrow> buffer_ok A buf \<Longrightarrow> i + n = length rs \<Longrightarrow> buffer_holds buf acc C \<Longrightarrow> length acc \<le> 4095
     \<Longrightarrow> \<exists>C'. heap_save_rows buf (length acc) i n C = (length (save_rows (drop i rs) acc), C') \<and> text_in A h0 C' rs
       \<and> buffer_holds buf (save_rows (drop i rs) acc) C'"
proof (induction n arbitrary: i acc C)
  case 0
  then show ?case by simp
next
  case (Suc n)
  have i: "i < length rs" using Suc.prems(3) by simp
  have dr: "drop i rs = rs ! i # drop (Suc i) rs" using i by (simp add: Cons_nth_drop_Suc)
  show ?case
  proof (cases "length acc < 4095")
    case False
    then show ?thesis using Suc.prems dr by (simp add: BLOCK_SIZE_def)
  next
    case True
    let ?r = "rs ! i" and ?pos = "length acc"
    let ?copy = "if length ?r < 4095 - ?pos then length ?r else 4095 - ?pos"
    obtain q where q: "erow_chars C (int i) = of_nat q" "unat (of_nat q :: u32) = q" "unat (heap_area A) \<le> q"
      "q + length ?r < unat (heap_area A) + 1048576" "\<forall>k < length ?r. hmem (he_heap C) (q + k) = ?r ! k"
      by (rule text_row_bytes [OF Suc.prems(1) i])
    let ?m = "hmem (he_heap C)" and ?b = "unat buf"
    let ?acc1 = "acc @ take ?copy ?r"
    let ?acc2 = "if length ?acc1 < 4095 then ?acc1 @ [chr CHR 0x0A] else ?acc1"
    have len: "length ?acc1 = ?pos + ?copy" "length ?acc1 \<le> 4095" "length ?acc2 \<le> 4095" "?copy \<le> length ?r" using True by auto
    obtain f1 f2 where f1: "f1 = (\<lambda>m. memcpy m (?b + ?pos) q ?copy)"
      and f2: "f2 = (if length ?acc1 < 4095 then (\<lambda>m. m(?b + length ?acc1 := chr CHR 0x0A)) else id)" by blast
    have out: "outside (heap_area A) (?b + k)" if "k < 4096" for k using Suc.prems(2) that by (simp add: buffer_ok_def)
    have "?b + ?pos \<le> q \<or> q + ?copy \<le> ?b + ?pos"
      using out [of ?pos] True q(3,4) len(4) by (auto simp: outside_def)
    then have m1: "f1 ?m x = (if ?b + ?pos \<le> x \<and> x < ?b + ?pos + ?copy then ?m (q + (x - (?b + ?pos))) else ?m x)" for x
      by (simp add: f1 memcpy_def memcpy_loop_apply)
    have inn1: "f1 ?m x = ?m x" if "\<not> outside (heap_area A) x" for x
    proof -
      show ?thesis using outside_buffer [OF out that] len(1,2) by (auto simp: m1)
    qed
    have text1: "text_in A h0 (on_memory f1 C) rs" by (rule text_in_outside(1) [where f = f1, OF Suc.prems(1) inn1])
    have hold1: "buffer_holds buf ?acc1 (on_memory f1 C)"
      unfolding buffer_holds_def
    proof (intro allI impI)
      fix k assume k: "k < length ?acc1"
      show "hmem (he_heap (on_memory f1 C)) (?b + k) = ?acc1 ! k"
      proof (cases "k < ?pos")
        case True
        then show ?thesis using Suc.prems(4) by (simp add: on_memory_def m1 nth_append buffer_holds_def)
      next
        case False
        then obtain j where j: "k = ?pos + j" using le_Suc_ex not_less by blast
        then have "?b + k - (?b + ?pos) = j" "j < ?copy" using k len(1) by auto
        then show ?thesis using j q(5) len(4) by (simp add: on_memory_def m1 nth_append)
      qed
    qed
    have text2: "text_in A h0 (on_memory f2 (on_memory f1 C)) rs"
      by (rule text_in_outside(1) [OF text1]) (use out [of "length ?acc1"] in \<open>auto simp: f2\<close>)
    have hold2: "buffer_holds buf ?acc2 (on_memory f2 (on_memory f1 C))"
      using hold1 by (auto simp: buffer_holds_def on_memory_def f2 nth_append)
    have sn: "Suc i + n = length rs" using Suc.prems(3) by simp
    obtain C' where C': "heap_save_rows buf (length ?acc2) (Suc i) n (on_memory f2 (on_memory f1 C)) = (length (save_rows (drop (Suc i) rs) ?acc2), C')"
      "text_in A h0 C' rs" "buffer_holds buf (save_rows (drop (Suc i) rs) ?acc2) C'"
      using Suc.IH [OF text2 Suc.prems(2) sn hold2 len(3)] by blast
    have "save_rows (drop i rs) acc = save_rows (drop (Suc i) rs) ?acc2"
      unfolding dr using True by (simp add: BLOCK_SIZE_def Let_def)
    moreover have "heap_save_rows buf ?pos i (Suc n) C = heap_save_rows buf (length ?acc2) (Suc i) n (on_memory f2 (on_memory f1 C))"
    proof -
      have same: "on_memory id C1 = C1" for C1 by (simp add: on_memory_def)
      show ?thesis
        using True same
        by (cases "length ?r < 4095 - ?pos"; cases "?pos + length ?r < 4095";
          simp add: BLOCK_SIZE_def Let_def text_row_size [OF Suc.prems(1) i] q(1,2) f1 f2 del: of_nat_diff)
    qed
    ultimately show ?thesis using C' by simp
  qed
qed

section \<open>The properties of the editor's storage\<close>

lemma init_in_heap:
  assumes "heap_ok (heap_area A) (he_heap C)" and "yank_in A C (yank_buf E)"
  shows "in_heap A (he_heap C) (heap_init_editor C) (initEditor E)"
proof -
  have "rows_in (heap_area A) (he_heap C) Map.empty (he_heap C) 0 []"
    using owned_start [OF assms(1)] by (simp add: rows_in_def held_def rows_at_def)
  then show ?thesis using assms(2)
    by (auto simp: in_heap_def text_in_def yank_in_def heap_init_editor_def initEditor_def intro!: exI [of _ Map.empty])
qed

definition demo_addresses :: addresses where
  "demo_addresses = \<lparr>heap_area = 0x200000, yank_addr = 0x1000, empty_string = 0x3000\<rparr>"

definition demo_store :: heap_editor where
  "demo_store = \<lparr>he_heap = heap0, he_rows = 0, he_numrows = 0, he_cx = 0, he_cy = 0, he_dirty = 0, he_yank_len = 0\<rparr>"

definition demo_empty :: editor where
  "demo_empty = initEditor ((demo_editor undefined)\<lparr>yank_buf := []\<rparr>)"

lemma demo_in_heap:
  "in_heap demo_addresses heap0 demo_store demo_empty" "addresses_ok demo_addresses" "room 1048560 (he_heap demo_store)" "rows demo_empty = []"
proof -
  have "heap_ok (heap_area demo_addresses) (he_heap demo_store)" "yank_in demo_addresses demo_store (yank_buf ((demo_editor undefined)\<lparr>yank_buf := []\<rparr>))"
    using heap0_ok by (simp_all add: demo_addresses_def demo_store_def yank_in_def)
  from init_in_heap [OF this] show "in_heap demo_addresses heap0 demo_store demo_empty"
    by (simp add: demo_store_def demo_empty_def heap_init_editor_def)
  show "addresses_ok demo_addresses" by (simp add: addresses_ok_def demo_addresses_def outside_def)
  show "room 1048560 (he_heap demo_store)" using heap_blocks_rep [OF heap0_rep] by (simp add: room_def demo_store_def candidate_def)
  show "rows demo_empty = []" by (simp add: demo_empty_def initEditor_def)
qed

text \<open>
  C32. The editor's functions on rows in the heap implement those on lists.  Any sequence of typed
  characters, new lines, deletions, copied and pasted lines and movements of the cursor that is defined on lists
  ends, in a memory that holds the resulting rows, with everything else that was live in the heap
  untouched, when the heap has room for it.
\<close>
theorem editing_in_heap:
  assumes "in_heap A h0 C E" and "addresses_ok A" and "edits es E = Some E'" and "room (needs es E) (he_heap C)"
  shows "\<exists>C'. heap_edits A es C = Some C' \<and> in_heap A h0 C' E'
    \<and> (\<forall>q t k. heap_live h0 q = Some t \<longrightarrow> k < t \<longrightarrow> heap_live (he_heap C') q = Some t \<and> hmem (he_heap C') (q + k) = hmem h0 (q + k))"
proof -
  obtain C' where C': "heap_edits A es C = Some C'" "in_heap A h0 C' E'"
    using edits_heap [OF assms(1-3), of 0] assms(4) by (auto simp: does_def)
  moreover obtain own where "owned (heap_area A) h0 own (he_heap C')"
    using C'(2) by (auto simp: in_heap_def text_in_def rows_in_def)
  ultimately show ?thesis using owned_keeps by blast
qed

definition demo_edits :: "edit_op list" where
  "demo_edits = [Insert_char 0x61, Insert_char 0x62, Move 1 0, Insert_newline, Insert_char 0x63, Move 0 1, Del_char, Yank_line, Paste_line, Delete_line]"

lemma demo_edits_run: "\<exists>E'. edits demo_edits demo_empty = Some E' \<and> rows E' = [[0x61, 0x63, 0x62]]"
  "needs demo_edits demo_empty \<le> 1048560"
  by (simp_all add: demo_edits_def demo_empty_def initEditor_def demo_editor_def Let_def editorInsertChar_def editorInsertNewline_def editorDelChar_def
      editorRowInsertChar_def editorRowDelChar_def editorRowAppendString_def editorInsertRow_def editorDelRow_def editorYankLine_def
      editorPasteLine_def editorDeleteLine_def row_at_def numrows_def yank_len_def BLOCK_SIZE_def need_def)

theorem editing_in_heap_witness:
  "\<exists>C' E'. heap_edits demo_addresses demo_edits demo_store = Some C' \<and> in_heap demo_addresses heap0 C' E' \<and> rows E' = [[0x61, 0x63, 0x62]]"
proof -
  obtain E' where E': "edits demo_edits demo_empty = Some E'" "rows E' = [[0x61, 0x63, 0x62]]" using demo_edits_run(1) by blast
  show ?thesis
    using editing_in_heap [OF demo_in_heap(1,2) E'(1) room_less [OF demo_in_heap(3) demo_edits_run(2)]] E'(2) by blast
qed

text \<open>
  The loops of opening and saving on rows in the heap implement those on lists: the bytes of the
  buffer become the rows that \<open>open_rows\<close> gives, and writing the rows back gives the text of \<open>save_rows\<close>.
\<close>
theorem file_through_heap:
  assumes "in_heap A h0 C E" and "addresses_ok A" and "buffer_ok A buf" and "buffer_holds buf bs C" and "length bs \<le> 4096"
    and "room (open_needs [] bs (length (rows E))) (he_heap C)"
  shows "\<exists>C' C''. heap_open_rows A buf 0 0 (length bs) C = Some C' \<and> in_heap A h0 C' (open_rows [] bs E)
    \<and> heap_save_rows buf 0 0 (length (rows (open_rows [] bs E))) C' = (length (save_rows (rows (open_rows [] bs E)) []), C'')
    \<and> text_in A h0 C'' (rows (open_rows [] bs E)) \<and> buffer_holds buf (save_rows (rows (open_rows [] bs E)) []) C''"
proof -
  have "does A h0 0 (heap_open_rows A buf 0 0 (length bs) C) (open_rows (take (0 - 0) (drop 0 bs)) (drop 0 bs) E)"
    by (rule open_rows_heap [OF assms(1-5)]) (use assms(6) in simp_all)
  then obtain C' where C': "heap_open_rows A buf 0 0 (length bs) C = Some C'" "in_heap A h0 C' (open_rows [] bs E)" by (auto simp: does_def)
  have "buffer_holds buf [] C'" by (simp add: buffer_holds_def)
  then show ?thesis
    using C' save_rows_heap [OF in_heapD(1) [OF C'(2)] assms(3), of 0 "length (rows (open_rows [] bs E))" "[]"] by simp
qed

definition demo_text :: "u8 list" where "demo_text = lit ''ab'' @ [0x0A] @ lit ''c'' @ [0]"

definition demo_loaded :: heap_editor where
  "demo_loaded = on_memory (\<lambda>m x. if x \<in> {0x8000..<0x8005} then demo_text ! (x - 0x8000) else m x) demo_store"

theorem file_through_heap_witness:
  "\<exists>C' C''. heap_open_rows demo_addresses 0x8000 0 0 5 demo_loaded = Some C'
     \<and> heap_save_rows 0x8000 0 0 2 C' = (5, C'') \<and> buffer_holds 0x8000 (lit ''ab'' @ [0x0A] @ lit ''c'' @ [0x0A]) C''"
proof -
  have len: "length demo_text = 5" by (simp add: demo_text_def)
  have buf: "buffer_ok demo_addresses 0x8000" "buffer_holds 0x8000 demo_text demo_loaded"
    using len by (simp_all add: buffer_ok_def demo_addresses_def outside_def buffer_holds_def demo_loaded_def on_memory_def)
  have inn: "in_heap demo_addresses heap0 demo_loaded demo_empty"
  proof -
    have "text_in demo_addresses heap0 demo_loaded (rows demo_empty)"
      unfolding demo_loaded_def
      by (rule text_in_outside(1) [OF in_heapD(1) [OF demo_in_heap(1)]]) (simp add: demo_addresses_def outside_def)
    then show ?thesis using demo_in_heap(1) by (simp add: in_heap_def demo_loaded_def on_memory_def yank_in_def demo_store_def demo_empty_def initEditor_def)
  qed
  have bytes: "(chr CHR ''a'' :: u8) = 0x61" "(chr CHR ''b'' :: u8) = 0x62" "(chr CHR ''c'' :: u8) = 0x63" "(chr CHR 0x0A :: u8) = 0x0A"
    by (simp_all add: chr_def)
  have rows: "rows (open_rows [] demo_text demo_empty) = [lit ''ab'', lit ''c'']"
    by (simp add: demo_text_def bytes demo_empty_def initEditor_def editorInsertRow_def numrows_def)
  have "heap_blocks (he_heap demo_loaded) = heap_blocks heap0"
    unfolding demo_loaded_def
    by (subst text_in_outside(2) [OF in_heapD(1) [OF demo_in_heap(1)]]) (simp_all add: demo_addresses_def demo_store_def outside_def)
  then have room: "room (open_needs [] demo_text (length (rows demo_empty))) (he_heap demo_loaded)"
    using heap_blocks_rep [OF heap0_rep] demo_in_heap(4) by (simp add: room_def candidate_def demo_text_def bytes)
  have two: "length (rows (open_rows [] demo_text demo_empty)) = 2" unfolding rows by simp
  have save: "save_rows (rows (open_rows [] demo_text demo_empty)) [] = lit ''ab'' @ [0x0A] @ lit ''c'' @ [0x0A]"
    unfolding rows by (simp add: bytes BLOCK_SIZE_def)
  have five: "length (lit ''ab'' @ [0x0A] @ lit ''c'' @ [0x0A]) = 5" by simp
  have "length demo_text \<le> 4096" unfolding len by simp
  then show ?thesis using file_through_heap [OF inn demo_in_heap(2) buf _ room] unfolding len two save five by blast
qed

text \<open>
  C38. Leaving the editor releases nothing: when it is started again, \<open>initEditor\<close> forgets the rows, and the
  array and the characters of every row of the last session stay live in the heap.
\<close>
theorem editor_leaves_rows:
  assumes "in_heap A h0 C E" and "rows E \<noteq> []"
  shows "in_heap A (he_heap C) (heap_init_editor C) (initEditor E)
    \<and> heap_live (he_heap (heap_init_editor C)) = heap_live (he_heap C) \<and> dom (heap_live h0) \<subseteq> dom (heap_live (he_heap C))
    \<and> card (dom (heap_live (he_heap C)) - dom (heap_live h0)) = Suc (length (rows E))"
proof -
  obtain own es where rows: "rows_in (heap_area A) h0 own (he_heap C) (unat (he_rows C)) es" "map snd es = rows E"
    using assms(1) by (auto simp: in_heap_def text_in_def)
  have ow: "owned (heap_area A) h0 own (he_heap C)" and hd: "held own (unat (he_rows C)) es" using rows(1) by (simp_all add: rows_in_def)
  have es: "es \<noteq> []" using rows(2) assms(2) by auto
  then have p: "unat (he_rows C) \<noteq> 0" using hd by (cases "unat (he_rows C) = 0") (simp_all add: held_def)
  have "owns (heap_live h0) (hmem h0) own (heap_live (he_heap C)) (hmem (he_heap C))" using ow by (simp add: owned_def)
  then have L: "heap_live (he_heap C) = heap_live h0 ++ own" "dom own \<inter> dom (heap_live h0) = {}" by (simp_all add: owns_def)
  then have own: "dom (heap_live (he_heap C)) - dom (heap_live h0) = dom own" by auto
  have new: "unat (he_rows C) \<notin> set (map fst es)" using held_row [OF hd] by (metis image_iff set_map)
  have "dom own = insert (unat (he_rows C)) (set (map fst es))" using held_dom [OF hd] p by simp
  then have "card (dom own) = Suc (card (set (map fst es)))" using card_insert_disjoint [OF finite_set new] by (simp only:)
  moreover have "distinct (map fst es)" using hd by (simp add: held_def)
  ultimately have card: "card (dom own) = Suc (length es)" by (simp only: distinct_card length_map)
  have "length es = length (rows E)" using arg_cong [OF rows(2), of length] by simp
  then show ?thesis
    using card own init_in_heap [OF owned_ok [OF ow] in_heapD(2) [OF assms(1)]] L(1) by (auto simp: heap_init_editor_def)
qed

theorem editor_leaves_rows_witness:
  "\<exists>C. heap_edits demo_addresses demo_edits demo_store = Some C \<and> he_rows (heap_init_editor C) = 0
     \<and> card (dom (heap_live (he_heap (heap_init_editor C))) - dom (heap_live heap0)) = 2"
proof -
  obtain E' where E': "edits demo_edits demo_empty = Some E'" "rows E' = [[0x61, 0x63, 0x62]]" using demo_edits_run(1) by blast
  obtain C' where C': "heap_edits demo_addresses demo_edits demo_store = Some C'" "in_heap demo_addresses heap0 C' E'"
    using edits_heap [OF demo_in_heap(1,2) E'(1), of 0] room_less [OF demo_in_heap(3) demo_edits_run(2)] by (auto simp: does_def)
  have "rows E' \<noteq> []" using E'(2) by simp
  then show ?thesis using editor_leaves_rows [OF C'(2)] C'(1) E'(2) by (simp add: heap_init_editor_def)
qed

end
