(* ===== verification/Entry.thy ===== *)
theory Entry
  imports UserLib Boot
begin

text \<open>
  The other entry points of \<open>kernel/boot.asm\<close>: the multiboot header that the loader looks for, \<open>_start\<close>, which
  sets up the stack, keeps the loader's two registers as the arguments of \<open>kernel_main\<close> and clears the global
  data, and the gates of the keyboard and the timer.  The system call gate is in theory \<open>UserLib\<close>.
\<close>

section \<open>Multiboot header\<close>

definition multiboot_header :: "u32 list" where
  "multiboot_header = [0x1BADB002, 0x00000007, - (0x1BADB002 + 0x00000007), 0, 0, 0, 0, 0, 0, 640, 480, 32]"

text \<open>The fields of the multiboot specification, by their byte offset.\<close>

record multiboot_fields =
  mbh_magic :: u32
  mbh_flags :: u32
  mbh_checksum :: u32
  mbh_mode_type :: u32
  mbh_width :: u32
  mbh_height :: u32
  mbh_depth :: u32

definition multiboot_parse :: "u32 list \<Rightarrow> multiboot_fields" where
  "multiboot_parse ws = \<lparr>mbh_magic = ws ! (0 div 4), mbh_flags = ws ! (4 div 4), mbh_checksum = ws ! (8 div 4),
     mbh_mode_type = ws ! (32 div 4), mbh_width = ws ! (36 div 4), mbh_height = ws ! (40 div 4), mbh_depth = ws ! (44 div 4)\<rparr>"

text \<open>
  The header is one that a loader accepts: it starts with the magic number, the checksum makes the first
  three words add up to zero, and it asks for a linear mode of 640 by 480 pixels of 32 bits.
\<close>
theorem multiboot_header_accepted:
  "let h = multiboot_parse multiboot_header
   in mbh_magic h = 0x1BADB002 \<and> mbh_magic h + mbh_flags h + mbh_checksum h = 0 \<and> bit (mbh_flags h) 2
      \<and> mbh_mode_type h = 0 \<and> mbh_width h = 640 \<and> mbh_height h = 480 \<and> mbh_depth h = 32"
  by (simp add: multiboot_header_def multiboot_parse_def bit_numeral_rec)

section \<open>Start\<close>

definition push_word :: "u32 \<Rightarrow> u32 \<times> mem \<Rightarrow> u32 \<times> mem" where
  "push_word v = (\<lambda>(esp, m). (esp - 4, st32 m (unat (esp - 4)) v))"

text \<open>\<open>rep stosd\<close> with the direction flag clear: \<open>ecx\<close> stores of four bytes.\<close>

fun rep_stosd :: "nat \<Rightarrow> u32 \<Rightarrow> u32 \<Rightarrow> mem \<Rightarrow> mem" where
  "rep_stosd 0 dst v m = m"
| "rep_stosd (Suc count) dst v m = rep_stosd count (dst + 4) v (st32 m (unat dst) v)"

text \<open>The stack pointer and the memory when \<open>kernel_main\<close> is called.\<close>

definition start_code :: "u32 \<Rightarrow> u32 \<Rightarrow> u32 \<Rightarrow> u32 \<Rightarrow> mem \<Rightarrow> u32 \<times> mem" where
  "start_code bss_start bss_end magic info m =
     (let (esp1, m1) = push_word info (0x90000, m);
          (esp2, m2) = push_word magic (esp1, m1);
          dst = bss_start;
          count = bss_end - dst
      in (esp2, rep_stosd (unat count) dst 0 m2))"

lemma st32_zero: "st32 m a 0 x = (if a \<le> x \<and> x < a + 4 then 0 else m x)"
  by (auto simp: st32_def)

lemma rep_stosd_zero:
  "unat dst + 4 * n \<le> 2 ^ 32 \<Longrightarrow>
     rep_stosd n dst 0 m x = (if unat dst \<le> x \<and> x < unat dst + 4 * n then 0 else m x)"
proof (induction n arbitrary: dst m)
  case (Suc n)
  show ?case
  proof (cases n)
    case 0
    then show ?thesis by (simp add: st32_zero)
  next
    case (Suc n')
    then have "unat (dst + 4) = unat dst + 4" using Suc.prems by (simp add: unat_word_ariths)
    then have "rep_stosd n (dst + 4) 0 (st32 m (unat dst) 0) x
        = (if unat dst + 4 \<le> x \<and> x < unat dst + 4 + 4 * n then 0 else st32 m (unat dst) 0 x)"
      using Suc.IH [of "dst + 4" "st32 m (unat dst) 0"] Suc.prems by simp
    then show ?thesis unfolding rep_stosd.simps st32_zero by auto
  qed
qed auto

text \<open>
  C40. When \<open>kernel_main\<close> is called, its arguments are on the stack and the global data is zero.  The start
  code takes the number of bytes for the number of double words: it clears four times the section, so that
  whatever the loader put into the memory behind it is lost; nothing else changes but the two arguments.
\<close>
theorem start_clears_four_times:
  assumes "unat bss_start \<le> unat bss_end" and "unat bss_start + 4 * (unat bss_end - unat bss_start) \<le> 2 ^ 32" and "0x90000 \<le> unat bss_start"
  shows "\<exists>m'. start_code bss_start bss_end magic info m = (0x8FFF8, m') \<and> ld32 m' 0x8FFF8 = magic \<and> ld32 m' 0x8FFFC = info
    \<and> (\<forall>x. x < 0x8FFF8 \<or> 0x90000 \<le> x \<longrightarrow>
         m' x = (if unat bss_start \<le> x \<and> x < unat bss_start + 4 * (unat bss_end - unat bss_start) then 0 else m x))"
proof -
  let ?n = "unat bss_end - unat bss_start" and ?m = "st32 (st32 m 0x8FFFC info) 0x8FFF8 magic"
  have n: "unat (bss_end - bss_start) = ?n" using assms(1) by (simp add: unat_sub word_le_nat_alt)
  let ?m' = "rep_stosd ?n bss_start 0 ?m"
  note z = rep_stosd_zero [OF assms(2), of ?m]
  have "ld32 ?m' a = ld32 ?m a" if "a + 4 \<le> 0x90000" for a
    by (rule ld32_cong) (use z that assms(3) in simp)
  then have "ld32 ?m' 0x8FFF8 = magic" "ld32 ?m' 0x8FFFC = info" by (simp_all add: ld32_st32_other)
  moreover have "?m' x = (if unat bss_start \<le> x \<and> x < unat bss_start + 4 * ?n then 0 else m x)" if "x < 0x8FFF8 \<or> 0x90000 \<le> x" for x
    using z [of x] that by (auto simp: st32_def)
  ultimately show ?thesis by (simp add: start_code_def push_word_def Let_def n)
qed

theorem start_clears_four_times_witness:
  "\<exists>m'. start_code 0x100000 0x100010 0x2BADB002 0x9500 (\<lambda>_. 1) = (0x8FFF8, m') \<and> ld32 m' 0x8FFF8 = 0x2BADB002
    \<and> m' 0x10000F = 0 \<and> m' 0x10003F = 0 \<and> m' 0x100040 = 1"
  using start_clears_four_times [of "0x100000" "0x100010" "0x2BADB002" "0x9500" "\<lambda>_. 1"] by auto

section \<open>Interrupt gates\<close>

text \<open>\<open>pusha\<close>, the call of a C function that works on a state of its own, \<open>popa\<close>; \<open>iretd\<close> goes back to where the
  interrupt came from.\<close>

definition kbd_handler :: "u32 \<Rightarrow> regs \<Rightarrow> kbd \<Rightarrow> io \<Rightarrow> regs \<times> kbd \<times> io" where
  "kbd_handler esp r k s = (let w = pusha esp r; (k1, s1) = kbd_handler_main k s in (popa w, k1, s1))"

definition timer_handler :: "u32 \<Rightarrow> regs \<Rightarrow> u32 \<Rightarrow> io \<Rightarrow> regs \<times> u32 \<times> io" where
  "timer_handler esp r jiffies s = (let w = pusha esp r; (j1, s1) = timer_callback jiffies s in (popa w, j1, s1))"

lemma popa_pusha: "popa (pusha esp r) = r"
  by (cases r) (simp add: popa_def pusha_def)

text \<open>
  An interrupt is transparent to the code it interrupts: every register has its value again, and the
  interrupt controller has been told exactly once that the interrupt is done.
\<close>
theorem interrupts_transparent:
  "fst (kbd_handler esp r k s) = r \<and> port_out (snd (snd (kbd_handler esp r k s))) = port_out s @ [(0x20, 0x20)]
   \<and> timer_handler esp r jiffies s = (r, jiffies + 1, write_port 0x20 0x20 s)"
  using handler_eoi by (simp add: kbd_handler_def timer_handler_def popa_pusha timer_callback_def Let_def case_prod_beta)

end
