(* ===== verification/Spec2Isabelle.thy ===== *)
theory Spec2Isabelle
  imports UserShellCorrect EditorStore Entry
begin

text \<open>
  Verification of ShedKernel, a 32-bit x86 hobby kernel in C and assembly: a kernel with a heap, a
  block file system, a VGA console, a keyboard driver, page tables, a modal text editor and a shell,
  seventeen system calls, and small programs in ring 3.

  Conventions.  Machine integers are words of their width, \<open>int\<close> read with \<open>sint\<close>.  A memory is a function
  from addresses to bytes.  A function of type \<open>\<dots> \<Rightarrow> 'r option\<close> gives \<open>None\<close> exactly where the code has no
  defined result: undefined behaviour, a loop that never ends, or a wait for a key that never comes.
  Loops over pointers are \<open>partial_function (option)\<close>, so that a theorem with \<open>Some\<close> says that they end;
  counted loops recurse on the count.  No fuel is used except in \<open>heap_blocks\<close>, which reads the list of
  the heap's headers off the memory: its 65536 steps are enough because a header takes 16 bytes of 1 MB.

  Parts of the program and their theories, in the order of their imports.

  \<^item> \<open>Prelude\<close>, \<open>Memory\<close>, \<open>Ports\<close>: words, bytes and 32-bit loads and stores; port input and output
    (\<open>read_port\<close>, \<open>write_port\<close> of \<open>kernel/boot.asm\<close>).
  \<^item> \<open>Allocator\<close>, \<open>QueueSpec\<close>, \<open>FsSpec\<close>, \<open>HeapSpec\<close>: the interfaces and contracts, as locales and as
    operations on lists, free of addresses.
  \<^item> \<open>Heap\<close>, \<open>HeapLive\<close>, \<open>HeapOwn\<close>: \<open>kernel/mm.c\<close>, \<open>malloc\<close>, \<open>mem_free\<close>, \<open>realloc\<close> on the list of headers in the
    static array.  They implement the contract on lists of blocks, return always, keep live bytes, and
    are an instance of the allocator interface.
  \<^item> \<open>CString\<close>: \<open>kernel/string.h\<close>.  \<open>Console\<close>: \<open>kernel/kprintf.c\<close>; which cells each routine writes, number
    conversion, and \<open>kprintf\<close> against \<open>ksprintf\<close>.
  \<^item> \<open>EasyFS\<close>, \<open>FsCorrect\<close>: \<open>fs/easyfs.c\<close> on the bytes of its disk, against the directory of \<open>FsSpec\<close>.
  \<^item> \<open>Keyboard\<close>: \<open>drivers/kbd_driver.c\<close>, as a bounded queue, and as steps of the interrupt handler and a
    waiting reader in any order.
  \<^item> \<open>Time\<close>: \<open>kernel/time.c\<close> against the Gregorian calendar.
  \<^item> \<open>Paging\<close>: frames of \<open>kernel/mm.c\<close> and page tables of \<open>kernel/kernel.c\<close>, against the translation that the
    processor does.
  \<^item> \<open>Boot\<close>, \<open>Drivers\<close>: descriptor and gate tables, interrupt controllers, timer, serial line; frame buffer
    (\<open>drivers/vga13.c\<close>), table checksum (\<open>drivers/acpi.h\<close>), driver skeleton (\<open>kernel/template.c\<close>).
  \<^item> \<open>Editor\<close>, \<open>EditorFiles\<close>: \<open>fs/ed.c\<close>, every operation, key and command; the cursor's invariant, and saving
    followed by opening.
  \<^item> \<open>EditorRows\<close>, \<open>EditorRowOps\<close>, \<open>EditorHeap\<close>, \<open>EditorStore\<close>: the same functions on rows in the heap, with \<open>realloc\<close>,
    \<open>malloc\<close> and \<open>memmove\<close> at the addresses the code computes.  They implement the list versions by a
    simulation (\<open>in_heap\<close>), for any sequence of operations for which the heap has room (\<open>needs\<close>).
  \<^item> \<open>Syscall\<close>, \<open>SyscallSafe\<close>: the state of the running kernel and \<open>syscall_dispatch\<close>; its invariant
    \<open>kernel_ok\<close> over all calls and keyboard interrupts.
  \<^item> \<open>Shell\<close>, \<open>ShellBuffers\<close>, \<open>ShellCorrect\<close>: \<open>kernel/Shell.c\<close> with its two buffers in the heap; what a typed line
    does, and that the heap is as before when the prompt comes back.
  \<^item> \<open>BootPages\<close>, \<open>KernelMain\<close>, \<open>FrameBuffer\<close>, \<open>BootPhases\<close>, \<open>KernelBoot\<close>: \<open>kernel_main\<close>, phase by phase, with
    or without a frame buffer; the boot returns with the kernel's invariant, the programs stand in user
    memory, and the frame buffer is mapped to itself for the kernel only.  What is assumed of the addresses the
    linker chooses and of the display is in \<open>image_ok\<close>, \<open>area_ok\<close> and \<open>display_ok\<close>.
  \<^item> \<open>UserLib\<close>, \<open>UserCorrect\<close>: the system call gate of \<open>kernel/boot.asm\<close>, \<open>user/shed.h\<close>, \<open>user/syscalls.c\<close>, \<open>user.c\<close> and
    \<open>editor.c\<close>; from power-on to a program's output on the screen.
  \<^item> \<open>UserShell\<close>, \<open>UserShellLine\<close>, \<open>UserShellCorrect\<close>: \<open>user/user_shell.c\<close> with its line and its array of words in
    the program's memory; the line that is read, its words, the commands, a session up to \<open>exit\<close>, and the
    sessions of both shells after the boot.
  \<^item> \<open>Entry\<close>: the rest of \<open>kernel/boot.asm\<close>: multiboot header, \<open>_start\<close>, the gates of keyboard and timer.

  How the parts interact.  The shell calls the heap, the console, the file system and the editor; the
  system calls work on the same states and on the page tables; the interrupt handler and the readers
  share the key ring.  The record \<open>kernel\<close> of theory \<open>Syscall\<close> joins these states, \<open>shell\<close> and \<open>machine\<close> add
  the shell's buffers, the ports, the processor's tables and the frame buffer.

  Simplifications.  The heap's array, the disk and the video memory are objects of their own, apart from
  the memory that page tables translate.  The kernel's state holds the editor with its rows as lists, that is
  with allocations that succeed; the refinement to the heap is of the editor alone.  An access by a program to an address that is not mapped, which
  would fault, reads 0 and drops the store.  A program's accesses are not checked against its segments,
  so the effect of the segment left by a system call is stated in \<open>Boot\<close> and not felt in \<open>UserCorrect\<close>.
  Translations are not cached.  No interrupt arrives while \<open>kernel_main\<close> runs.

  Parameters.  Addresses that the linker chooses, the bytes of the three programs (\<open>image\<close>), the multiboot
  record, what devices answer, and the keys that are typed.  The third-party C library of the programs
  is the record \<open>libc\<close> of theory \<open>UserShell\<close> (in \<open>editor.c\<close> the argument \<open>out\<close>, what printing a text does); what the
  user shell relies on is \<open>c_library\<close>: calls come back, printing and the allocation of the array keep the
  line, and the two allocations of a round succeed with separate blocks, as they do when every round
  gives both back.  The theorem on sessions covers all commands but \<open>ls\<close>, and \<open>cat\<close> and \<open>edit\<close> with a name:
  \<open>cat\<close> reads a block of 4096 bytes into a buffer of 512, and \<open>edit\<close> leaves the shell (theory \<open>UserCorrect\<close>).

  Not modelled: the aliases at the end of \<open>user/syscalls.c\<close>, which forward to the functions above them;
  \<open>CMakeCCompilerId.c\<close>, which the build system generates; the build and linker scripts.  The states from
  which \<open>kernel_main\<close> is run are those of cleared data, which \<open>_start\<close> leaves (theory \<open>Entry\<close>).
\<close>

end
